(* ===== verification/Xv6_Base.thy ===== *)
theory Xv6_Base
  imports Main "HOL-Library.Word"
begin

text \<open>
  The ground the other theories stand on: the C integer types of \<open>xv6/types.h\<close>, the
  effect of a C function (an explicit state and four ways not to return), the weakest
  precondition calculus every component proof uses, counted loops with early exit, and the
  byte-level view of a disk block (little-endian 16 and 32 bit accessors with the laws of
  memory).
\<close>

unbundle bit_operations_syntax

named_theorems wp_simps \<open>weakest preconditions of the monad and of the primitive operations\<close>
named_theorems flag_simps \<open>tests and updates of the flag words of buffers and inodes\<close>
named_theorems codec_simps \<open>reading back what was written into a block\<close>

section \<open>C integers\<close>

text \<open>\<open>uint\<close>, \<open>ushort\<close> and \<open>uchar\<close>; a C \<open>int\<close> or \<open>short\<close> that is stored on disk has
  the same bits and is read with \<^const>\<open>sint\<close>.\<close>

type_synonym u32 = "32 word"
type_synonym u16 = "16 word"
type_synonym byte = "8 word"

text \<open>Memory a C pointer points to: byte \<open>i\<close> of the buffer. A disk block is such a buffer of
  which bytes 0 to BSIZE - 1 are used.\<close>

type_synonym mem = "nat \<Rightarrow> byte"
type_synonym block = mem

definition BSIZE :: nat where
  "BSIZE = 4096"

definition zero_block :: block where
  "zero_block = (\<lambda>_. 0)"

section \<open>Effects\<close>

text \<open>
  A C function of the file system maps a state to a result. It returns a value
  (\<open>Ok\<close>), or it does not return: \<open>Panic\<close> is a call of \<open>panic()\<close> with its message,
  \<open>Exit\<close> is the \<open>perror(); exit(-1)\<close> of the host interface, \<open>Undef\<close> is a step that C
  leaves undefined (an index outside an array, a null pointer, a signed overflow), and
  \<open>Hang\<close> is a loop that no other thread can ever end.
\<close>

datatype failure = Panic string | Exit string | Undef string | Hang

datatype ('s, 'a) result = Ok 'a 's | Fail failure 's

type_synonym ('s, 'a) xm = "'s \<Rightarrow> ('s, 'a) result"

definition return :: "'a \<Rightarrow> ('s, 'a) xm" where
  "return a = (\<lambda>s. Ok a s)"

definition bind :: "('s, 'a) xm \<Rightarrow> ('a \<Rightarrow> ('s, 'b) xm) \<Rightarrow> ('s, 'b) xm" where
  "bind f g = (\<lambda>s. case f s of Ok a t \<Rightarrow> g a t | Fail e t \<Rightarrow> Fail e t)"

definition andthen :: "('s, 'a) xm \<Rightarrow> ('s, 'b) xm \<Rightarrow> ('s, 'b) xm" where
  "andthen f g = bind f (\<lambda>_. g)"

definition fail :: "failure \<Rightarrow> ('s, 'a) xm" where
  "fail e = (\<lambda>s. Fail e s)"

definition gets :: "('s \<Rightarrow> 'a) \<Rightarrow> ('s, 'a) xm" where
  "gets f = (\<lambda>s. Ok (f s) s)"

definition modify :: "('s \<Rightarrow> 's) \<Rightarrow> ('s, unit) xm" where
  "modify f = (\<lambda>s. Ok () (f s))"

definition unless :: "bool \<Rightarrow> ('s, unit) xm \<Rightarrow> ('s, unit) xm" where
  "unless c f = (if c then return () else f)"

abbreviation panic :: "string \<Rightarrow> ('s, 'a) xm" where
  "panic msg \<equiv> fail (Panic msg)"

lemma bind_return [simp]: "bind (return a) f = f a"
  by (simp add: bind_def return_def)

lemma bind_assoc: "bind (bind f g) h = bind f (\<lambda>a. bind (g a) h)"
  by (simp add: bind_def fun_eq_iff split: result.split)

text \<open>\<open>for\<close> loops over the values of their counter: \<open>mfor\<close> runs to the end, \<open>mloop\<close> stops
  at the first iteration that breaks or returns, which it reports as \<^const>\<open>Some\<close>.\<close>

fun mfor :: "'i list \<Rightarrow> ('i \<Rightarrow> ('s, unit) xm) \<Rightarrow> ('s, unit) xm" where
  "mfor [] body = return ()"
| "mfor (i # is) body = andthen (body i) (mfor is body)"

fun mloop :: "'i list \<Rightarrow> ('i \<Rightarrow> ('s, 'r option) xm) \<Rightarrow> ('s, 'r option) xm" where
  "mloop [] body = return None"
| "mloop (i # is) body =
     bind (body i) (\<lambda>r. case r of None \<Rightarrow> mloop is body | Some v \<Rightarrow> return (Some v))"

text \<open>A loop that also carries a value from one iteration to the other.\<close>

fun mfold :: "'i list \<Rightarrow> ('i \<Rightarrow> 'a \<Rightarrow> ('s, 'a) xm) \<Rightarrow> 'a \<Rightarrow> ('s, 'a) xm" where
  "mfold [] body a = return a"
| "mfold (i # is) body a = bind (body i a) (mfold is body)"

subsection \<open>Weakest preconditions\<close>

text \<open>\<open>wp f Q s\<close>: from \<open>s\<close>, \<open>f\<close> returns, and its result and final state satisfy \<open>Q\<close>. This is
  total correctness: a panic, an undefined step or a hang makes it false.\<close>

definition wp :: "('s, 'a) xm \<Rightarrow> ('a \<Rightarrow> 's \<Rightarrow> bool) \<Rightarrow> 's \<Rightarrow> bool" where
  "wp f Q s = (case f s of Ok a t \<Rightarrow> Q a t | Fail e t \<Rightarrow> False)"

lemma wp_return [wp_simps]: "wp (return a) Q = Q a"
  by (simp add: fun_eq_iff wp_def return_def)

lemma wp_bind [wp_simps]: "wp (bind f g) Q = wp f (\<lambda>a. wp (g a) Q)"
  by (simp add: fun_eq_iff wp_def bind_def split: result.split)

lemma wp_andthen [wp_simps]: "wp (andthen f g) Q = wp f (\<lambda>_. wp g Q)"
  by (simp add: andthen_def wp_bind)

lemma wp_fail [wp_simps]: "wp (fail e) Q s = False"
  by (simp add: wp_def fail_def)

lemma wp_gets [wp_simps]: "wp (gets f) Q s = Q (f s) s"
  by (simp add: wp_def gets_def)

lemma wp_modify [wp_simps]: "wp (modify f) Q s = Q () (f s)"
  by (simp add: wp_def modify_def)

lemma wp_unless [wp_simps]: "wp (unless c f) Q s = (if c then Q () s else wp f Q s)"
  by (simp add: unless_def wp_return)

lemma wp_if: "wp (if c then f else g) Q s = (if c then wp f Q s else wp g Q s)"
  by simp

lemma wpI: "f s = Ok a t \<Longrightarrow> Q a t \<Longrightarrow> wp f Q s"
  by (simp add: wp_def)

lemma wp_Ok: "wp f Q s \<Longrightarrow> \<exists>a t. f s = Ok a t \<and> Q a t"
  by (auto simp: wp_def split: result.splits)

lemma wp_mono: "wp f P s \<Longrightarrow> (\<And>a t. P a t \<Longrightarrow> Q a t) \<Longrightarrow> wp f Q s"
  by (auto simp: wp_def split: result.splits)

lemma wp_conj: "wp f P s \<Longrightarrow> wp f Q s \<Longrightarrow> wp f (\<lambda>a t. P a t \<and> Q a t) s"
  by (auto simp: wp_def split: result.splits)

text \<open>A counted loop keeps an invariant indexed by the iterations done.\<close>

lemma wp_mfor_append: "wp (mfor (is @ js) body) Q = wp (mfor is body) (\<lambda>_. wp (mfor js body) Q)"
  by (induction "is") (simp_all add: wp_andthen wp_return)

lemma wp_mfor:
  assumes "I 0 s"
    and "\<And>k t. k < length is \<Longrightarrow> I k t \<Longrightarrow> wp (body (is ! k)) (\<lambda>_. I (Suc k)) t"
    and "\<And>t. I (length is) t \<Longrightarrow> Q () t"
  shows "wp (mfor is body) Q s"
  using assms
proof (induction "is" arbitrary: I s)
  case Nil
  then show ?case by (simp add: wp_return)
next
  case (Cons i "is")
  have "wp (body i) (\<lambda>_. I (Suc 0)) s"
    using Cons.prems(1) Cons.prems(2)[of 0 s] by simp
  moreover have "wp (mfor is body) Q t" if "I (Suc 0) t" for t
  proof (rule Cons.IH[where I = "\<lambda>k. I (Suc k)"])
    show "I (Suc 0) t" by (fact that)
    show "wp (body (is ! k)) (\<lambda>_. I (Suc (Suc k))) u" if "k < length is" "I (Suc k) u" for k u
      using Cons.prems(2)[of "Suc k" u] that by simp
    show "Q () u" if "I (Suc (length is)) u" for u
      using Cons.prems(3)[of u] that by simp
  qed
  ultimately show ?case
    by (auto simp: wp_andthen elim: wp_mono)
qed

text \<open>A search loop: the invariant holds while nothing was found, and an iteration that
  finds something establishes the postcondition.\<close>

lemma wp_mloop:
  assumes "I 0 s"
    and "\<And>k t. k < length is \<Longrightarrow> I k t \<Longrightarrow>
      wp (body (is ! k)) (\<lambda>r u. case r of None \<Rightarrow> I (Suc k) u | Some v \<Rightarrow> Q (Some v) u) t"
    and "\<And>t. I (length is) t \<Longrightarrow> Q None t"
  shows "wp (mloop is body) Q s"
  using assms
proof (induction "is" arbitrary: I s)
  case Nil
  then show ?case by (simp add: wp_return)
next
  case (Cons i "is")
  have rest: "wp (mloop is body) Q t" if "I (Suc 0) t" for t
  proof (rule Cons.IH[where I = "\<lambda>k. I (Suc k)"])
    show "I (Suc 0) t" by (fact that)
    show "wp (body (is ! k)) (\<lambda>r u. case r of None \<Rightarrow> I (Suc (Suc k)) u | Some v \<Rightarrow> Q (Some v) u) u"
      if "k < length is" "I (Suc k) u" for k u
      using Cons.prems(2)[of "Suc k" u] that by simp
    show "Q None u" if "I (Suc (length is)) u" for u
      using Cons.prems(3)[of u] that by simp
  qed
  have "wp (body i) (\<lambda>r u. case r of None \<Rightarrow> I (Suc 0) u | Some v \<Rightarrow> Q (Some v) u) s"
    using Cons.prems(1) Cons.prems(2)[of 0 s] by simp
  then show ?case
    by (auto simp: wp_bind wp_return rest elim!: wp_mono split: option.splits)
qed

lemma wp_mfold:
  assumes "I 0 a s"
    and "\<And>k b t. k < length is \<Longrightarrow> I k b t \<Longrightarrow> wp (body (is ! k) b) (I (Suc k)) t"
    and "\<And>b t. I (length is) b t \<Longrightarrow> Q b t"
  shows "wp (mfold is body a) Q s"
  using assms
proof (induction "is" arbitrary: I a s)
  case Nil
  then show ?case by (simp add: wp_return)
next
  case (Cons i "is")
  have "wp (body i a) (I (Suc 0)) s"
    using Cons.prems(1) Cons.prems(2)[of 0 a s] by simp
  moreover have "wp (mfold is body b) Q t" if "I (Suc 0) b t" for b t
  proof (rule Cons.IH[where I = "\<lambda>k. I (Suc k)"])
    show "I (Suc 0) b t" by (fact that)
    show "wp (body (is ! k) c) (I (Suc (Suc k))) u" if "k < length is" "I (Suc k) c u" for k c u
      using Cons.prems(2)[of "Suc k" c u] that by simp
    show "Q c u" if "I (Suc (length is)) c u" for c u
      using Cons.prems(3)[of c u] that by simp
  qed
  ultimately show ?case
    by (auto simp: wp_bind elim: wp_mono)
qed

section \<open>Flag words\<close>

text \<open>The flags of \<open>buf.h\<close> and \<open>file.h\<close> are single bits of an \<open>int\<close>; a test of a flag is a
  test of its bit.\<close>

lemma flag_bit0 [flag_simps]: "((f :: u32) AND 1 = 0) = (\<not> bit f 0)"
  by (simp add: and_exp_eq_0_iff_not_bit [of f 0, simplified])

lemma flag_bit1 [flag_simps]: "((f :: u32) AND 2 = 0) = (\<not> bit f 1)"
  using and_exp_eq_0_iff_not_bit [of f 1] by simp

lemma flag_bit2 [flag_simps]: "((f :: u32) AND 4 = 0) = (\<not> bit f 2)"
  using and_exp_eq_0_iff_not_bit [of f 2] by simp

section \<open>Little-endian fields of a block\<close>

text \<open>The code reads and writes a block through C structures laid over its bytes. On the x86
  hosts the program targets (\<open>mkfs.c\<close> converts to that order itself) a field is
  little-endian.\<close>

definition get16 :: "mem \<Rightarrow> nat \<Rightarrow> u16" where
  "get16 d p = ucast (d p) OR push_bit 8 (ucast (d (p + 1)))"

definition put16 :: "mem \<Rightarrow> nat \<Rightarrow> u16 \<Rightarrow> mem" where
  "put16 d p w = d(p := ucast w, p + 1 := ucast (drop_bit 8 w))"

definition get32 :: "mem \<Rightarrow> nat \<Rightarrow> u32" where
  "get32 d p = ucast (d p) OR push_bit 8 (ucast (d (p + 1)))
     OR push_bit 16 (ucast (d (p + 2))) OR push_bit 24 (ucast (d (p + 3)))"

definition put32 :: "mem \<Rightarrow> nat \<Rightarrow> u32 \<Rightarrow> mem" where
  "put32 d p w = d(p := ucast w, p + 1 := ucast (drop_bit 8 w),
     p + 2 := ucast (drop_bit 16 w), p + 3 := ucast (drop_bit 24 w))"

text \<open>What the code relies on when it accesses a field: a field reads back what was stored in
  it, a store changes the field's own bytes only, and a load depends on them only.\<close>

locale field_codec =
  fixes get :: "mem \<Rightarrow> nat \<Rightarrow> 'w"
    and put :: "mem \<Rightarrow> nat \<Rightarrow> 'w \<Rightarrow> mem"
    and width :: nat
  assumes get_put: "get (put d p w) p = w"
    and put_frame: "i < p \<or> p + width \<le> i \<Longrightarrow> put d p w i = d i"
    and get_local: "(\<And>i. p \<le> i \<Longrightarrow> i < p + width \<Longrightarrow> d i = e i) \<Longrightarrow> get d p = get e p"
    and put_get: "put d p (get d p) = d"
begin

lemma get_put_disjoint:
  assumes "p + width \<le> q \<or> q + width \<le> p"
  shows "get (put d p w) q = get d q"
  by (rule get_local) (use assms in \<open>auto intro: put_frame\<close>)

lemma get_put_slot:
  assumes "0 < width"
  shows "get (put d (p + width * i) w) (p + width * j) = (if i = j then w else get d (p + width * j))"
proof (cases i j rule: linorder_cases)
  case less
  then have "width * Suc i \<le> width * j" by (intro mult_le_mono2) simp
  with less show ?thesis by (simp add: get_put_disjoint)
next
  case equal
  then show ?thesis by (simp add: get_put)
next
  case greater
  then have "width * Suc j \<le> width * i" by (intro mult_le_mono2) simp
  with greater show ?thesis by (simp add: get_put_disjoint)
qed

end

text \<open>Fields of two widths in one structure.\<close>

locale codec_pair = a: field_codec getA putA widthA + b: field_codec getB putB widthB
  for getA :: "mem \<Rightarrow> nat \<Rightarrow> 'a" and putA widthA
  and getB :: "mem \<Rightarrow> nat \<Rightarrow> 'b" and putB widthB
begin

lemma get_across:
  assumes "p + widthA \<le> q \<or> q + widthB \<le> p"
  shows "getB (putA d p w) q = getB d q"
  by (rule b.get_local) (use assms in \<open>auto intro: a.put_frame\<close>)

end

lemma bit_byte_lt: "bit (b :: byte) n \<Longrightarrow> n < 8"
  using bit_imp_le_length [of b n] by simp

lemma get16_put16: "get16 (put16 d p w) p = w"
  by (rule bit_eqI) (auto simp: get16_def put16_def bit_simps dest: bit_byte_lt)

lemma put16_get16: "put16 d p (get16 d p) = d"
proof -
  have "ucast (get16 d p) = d p"
    by (rule bit_eqI) (auto simp: get16_def bit_simps)
  moreover have "ucast (drop_bit 8 (get16 d p)) = d (p + 1)"
    by (rule bit_eqI) (auto simp: get16_def bit_simps dest: bit_byte_lt)
  ultimately show ?thesis by (simp add: put16_def)
qed

lemma get32_put32: "get32 (put32 d p w) p = w"
proof (rule bit_eqI)
  fix n
  assume "possible_bit TYPE(u32) n"
  then have "n < 32" by simp
  then consider "n < 8" | "8 \<le> n" "n < 16" | "16 \<le> n" "n < 24" | "24 \<le> n" "n < 32"
    by linarith
  then show "bit (get32 (put32 d p w) p) n = bit w n"
    by cases (auto simp: get32_def put32_def bit_simps)
qed

lemma get32_bytes:
  "ucast (get32 d p) = d p" "ucast (drop_bit 8 (get32 d p)) = d (p + 1)"
  "ucast (drop_bit 16 (get32 d p)) = d (p + 2)" "ucast (drop_bit 24 (get32 d p)) = d (p + 3)"
  by (rule bit_eqI, auto simp: get32_def bit_simps dest: bit_byte_lt)+

lemma put32_get32: "put32 d p (get32 d p) = d"
  by (simp add: put32_def get32_bytes [simplified])

interpretation c16: field_codec get16 put16 2
  by unfold_locales
     (auto simp: get16_put16 put16_get16, auto simp: put16_def get16_def)

interpretation c32: field_codec get32 put32 4
  by unfold_locales
     (auto simp: get32_put32 put32_get32, auto simp: put32_def get32_def)

interpretation c16_32: codec_pair get16 put16 2 get32 put32 4 ..

interpretation c32_16: codec_pair get32 put32 4 get16 put16 2 ..

lemmas codec_laws [codec_simps] =
  get16_put16 get32_put32 c16.get_put_disjoint c32.get_put_disjoint
  c16_32.get_across c32_16.get_across

end
