(* ===== verification/Xv6_Layout.thy ===== *)
theory Xv6_Layout
  imports Xv6_Base
begin

text \<open>
  The on-disk format of \<open>xv6/fs.h\<close>: the constants, the structures as records with the byte
  offsets the C compiler gives their fields, and the macros that place an inode or a bitmap bit
  on the disk. The lemmas are the arithmetic of the layout: the placement macros are injective
  and stay inside a block, and a structure reads back what was stored.
\<close>

section \<open>Constants (fs.h, param.h, stat.h)\<close>

definition NDIRECT :: nat where
  "NDIRECT = 8"

definition NINDIRECT :: nat where
  "NINDIRECT = 1024"

definition NDINDIRECT :: nat where
  "NDINDIRECT = NINDIRECT * NINDIRECT"

definition MAXFILE :: nat where
  "MAXFILE = NDIRECT + NINDIRECT + NDINDIRECT"

text \<open>\<open>sizeof(struct dinode)\<close> is 64: four shorts, \<open>size\<close>, three times and ten addresses.\<close>

definition IPB :: nat where
  "IPB = 64"

definition BPB :: nat where
  "BPB = BSIZE * 8"

definition DIRSIZ :: nat where
  "DIRSIZ = 62"

definition ROOTINO :: u32 where
  "ROOTINO = 1"

definition ROOTDEV :: u32 where
  "ROOTDEV = 1"

definition LOGSIZE :: nat where
  "LOGSIZE = 30"

definition NBUF :: nat where
  "NBUF = 30"

definition MAXOPBLOCKS :: nat where
  "MAXOPBLOCKS = 10"

definition T_DIR :: u16 where
  "T_DIR = 1"

definition T_FILE :: u16 where
  "T_FILE = 2"

definition T_DEV :: u16 where
  "T_DEV = 3"

definition T_SOCK :: u16 where
  "T_SOCK = 4"

lemmas layout_consts = BSIZE_def NDIRECT_def NINDIRECT_def NDINDIRECT_def MAXFILE_def IPB_def
  BPB_def DIRSIZ_def

section \<open>The superblock\<close>

record superblock =
  sb_size :: u32
  sb_nblocks :: u32
  sb_ninodes :: u32
  sb_nlog :: u32

definition get_sb :: "block \<Rightarrow> superblock" where
  "get_sb d = \<lparr>sb_size = get32 d 0, sb_nblocks = get32 d 4,
     sb_ninodes = get32 d 8, sb_nlog = get32 d 12\<rparr>"

definition put_sb :: "block \<Rightarrow> superblock \<Rightarrow> block" where
  "put_sb d sb = put32 (put32 (put32 (put32 d 0 (sb_size sb)) 4 (sb_nblocks sb))
     8 (sb_ninodes sb)) 12 (sb_nlog sb)"

lemma get_put_sb [codec_simps]: "get_sb (put_sb d sb) = sb"
  by (simp add: get_sb_def put_sb_def codec_simps)

section \<open>On-disk inodes\<close>

record dinode =
  di_type :: u16
  di_major :: u16
  di_minor :: u16
  di_nlink :: u16
  di_size :: u32
  di_ctime :: u32
  di_atime :: u32
  di_mtime :: u32
  di_addrs :: "nat \<Rightarrow> u32"

text \<open>The inode at index \<open>k\<close> of a block of inodes: \<open>(struct dinode*)bp->data + k\<close>.\<close>

definition get_dinode :: "block \<Rightarrow> nat \<Rightarrow> dinode" where
  "get_dinode d k = (let p = 64 * k in
     \<lparr>di_type = get16 d p, di_major = get16 d (p + 2), di_minor = get16 d (p + 4),
      di_nlink = get16 d (p + 6), di_size = get32 d (p + 8), di_ctime = get32 d (p + 12),
      di_atime = get32 d (p + 16), di_mtime = get32 d (p + 20),
      di_addrs = (\<lambda>i. if i < NDIRECT + 2 then get32 d (p + 24 + 4 * i) else 0)\<rparr>)"

text \<open>\<open>memset(dip, 0, sizeof(*dip))\<close> for the same pointer.\<close>

definition zero_dinode :: "block \<Rightarrow> nat \<Rightarrow> block" where
  "zero_dinode d k = (\<lambda>i. if 64 * k \<le> i \<and> i < 64 * k + 64 then 0 else d i)"

text \<open>\<open>memmove\<close> of the first \<open>n\<close> block addresses into \<open>dip->addrs\<close>.\<close>

fun put_addrs :: "block \<Rightarrow> nat \<Rightarrow> (nat \<Rightarrow> u32) \<Rightarrow> nat \<Rightarrow> block" where
  "put_addrs d p a 0 = d"
| "put_addrs d p a (Suc n) = put32 (put_addrs d p a n) (p + 4 * n) (a n)"

section \<open>Placement macros\<close>

definition IBLOCK :: "u32 \<Rightarrow> u32" where
  "IBLOCK i = i div 64 + 2"

definition BBLOCK :: "u32 \<Rightarrow> u32 \<Rightarrow> u32" where
  "BBLOCK b ninodes = b div 32768 + ninodes div 64 + 3"

section \<open>Directory entries\<close>

record dirent =
  de_inum :: u16
  de_name :: mem

text \<open>A \<open>struct dirent\<close> seen as the 64 bytes \<open>readi\<close> and \<open>writei\<close> copy.\<close>

definition get_dirent :: "mem \<Rightarrow> dirent" where
  "get_dirent d = \<lparr>de_inum = get16 d 0, de_name = (\<lambda>i. d (i + 2))\<rparr>"

definition put_dirent :: "dirent \<Rightarrow> mem" where
  "put_dirent de = put16 (\<lambda>i. de_name de (i - 2)) 0 (de_inum de)"

lemma get_put_dirent: "get_dirent (put_dirent de) = de"
  by (simp add: get_dirent_def put_dirent_def codec_simps c16.put_frame)

section \<open>Lemmas of the layout\<close>

lemma get32_put_addrs_other:
  "q + 4 \<le> p \<or> p + 4 * n \<le> q \<Longrightarrow> get32 (put_addrs d p a n) q = get32 d q"
  by (induction n) (auto simp: c32.get_put_disjoint)

lemma get16_put_addrs_other:
  "q + 2 \<le> p \<or> p + 4 * n \<le> q \<Longrightarrow> get16 (put_addrs d p a n) q = get16 d q"
  by (induction n) (auto simp: c32_16.get_across)

lemma get32_put_addrs:
  "i < n \<Longrightarrow> get32 (put_addrs d p a n) (p + 4 * i) = a i"
  by (induction n) (auto simp: c32.get_put_slot less_Suc_eq)

lemma put_addrs_frame:
  "i < p \<or> p + 4 * n \<le> i \<Longrightarrow> put_addrs d p a n i = d i"
  by (induction n) (auto simp: c32.put_frame)

lemma unat_IBLOCK: "unat (IBLOCK i) = unat i div 64 + 2"
proof -
  have "unat i < 2 ^ 32" using unsigned_less [of i] by simp
  then have "unat (i div 64) + 2 < 2 ^ 32" by (simp add: unat_div)
  then show ?thesis
    unfolding IBLOCK_def by (subst unat_add_lem [THEN iffD1]) (simp_all add: unat_div)
qed

text \<open>Two inodes share their place on the disk only if they are the same inode.\<close>

lemma inode_place_inject:
  assumes "IBLOCK i = IBLOCK j" "unat i mod IPB = unat j mod IPB"
  shows "i = j"
proof -
  have "unat i div 64 = unat j div 64"
    using assms(1) unat_IBLOCK [of i] unat_IBLOCK [of j] by simp
  with assms(2) have "unat i = unat j"
    by (metis IPB_def div_mult_mod_eq)
  then show ?thesis by (simp add: word_unat_eq_iff)
qed

end
