(* ===== verification/Xv6_Ide.thy ===== *)
theory Xv6_Ide
  imports Xv6_Layout
begin

text \<open>
  The host interface of \<open>xv6/fuse.c\<close> (\<open>unix_read\<close>, \<open>unix_write\<close>, \<open>unix_flush\<close>,
  \<open>unix_time\<close>) and the driver \<open>xv6/ide.c\<close> on top of it. The disk is the image file; the state
  also keeps the sequence of writes and syncs issued to the host, from which the crash model of
  \<open>Xv6_Crash\<close> computes what a failure can leave on the medium.
\<close>

section \<open>The image file\<close>

datatype io = Write u32 block | Sync

text \<open>\<open>struct stats fsstats\<close>: the counters the special file \<open>/stats\<close> reports.\<close>

record stats =
  nread :: int
  nwrite :: int
  nflush :: int
  ngetattr :: int
  nopen :: int
  nrelease :: int
  nreaddir :: int
  nfuse_read :: int
  nfuse_write :: int
  ncreate :: int
  ntrunc :: int
  nmkdir :: int
  nrmdir :: int
  nunlink :: int

text \<open>
  \<open>img\<close> is the content of the file as \<open>pread\<close> returns it, \<open>imglen\<close> its length in blocks,
  \<open>hist\<close> the sequence of successful \<open>pwrite\<close> and \<open>fsync\<close> calls, \<open>clock\<close> what the successive
  calls of \<open>time(0)\<close> return and \<open>ticks\<close> how many of them were made.
\<close>

record host =
  img :: "u32 \<Rightarrow> block"
  imglen :: nat
  hist :: "io list"
  fsstats :: stats
  clock :: "nat \<Rightarrow> u32"
  ticks :: nat

text \<open>\<open>sector*BSIZE\<close> is an \<open>int\<close> product: it overflows for sectors outside this range.\<close>

definition sector_ok :: "u32 \<Rightarrow> bool" where
  "sector_ok sector \<longleftrightarrow> - (2 ^ 19) \<le> sint sector \<and> sint sector < 2 ^ 19"

definition unix_read :: "u32 \<Rightarrow> ('z host_scheme, block) xm" where
  "unix_read sector = (\<lambda>s.
     if \<not> sector_ok sector then Fail (Undef ''sector*BSIZE overflows'') s
     else if sint sector < 0 \<or> imglen s \<le> unat sector then Fail (Exit ''pread failed'') s
     else Ok (img s sector) (s\<lparr>fsstats := (fsstats s)\<lparr>nread := nread (fsstats s) + 1\<rparr>\<rparr>))"

text \<open>\<open>pwrite\<close> past the end of the file extends it, with zeros in between.\<close>

definition unix_write :: "u32 \<Rightarrow> block \<Rightarrow> ('z host_scheme, unit) xm" where
  "unix_write sector d = (\<lambda>s.
     if \<not> sector_ok sector then Fail (Undef ''sector*BSIZE overflows'') s
     else if sint sector < 0 then Fail (Exit ''pwrite failed'') s
     else Ok () (s\<lparr>img := (\<lambda>b. if b = sector then d
                             else if imglen s \<le> unat b \<and> unat b < unat sector then zero_block
                             else img s b),
                   imglen := max (imglen s) (Suc (unat sector)),
                   hist := hist s @ [Write sector d],
                   fsstats := (fsstats s)\<lparr>nwrite := nwrite (fsstats s) + 1\<rparr>\<rparr>))"

definition unix_flush :: "('z host_scheme, unit) xm" where
  "unix_flush = (\<lambda>s. Ok () (s\<lparr>hist := hist s @ [Sync],
     fsstats := (fsstats s)\<lparr>nflush := nflush (fsstats s) + 1\<rparr>\<rparr>))"

definition unix_time :: "('z host_scheme, u32) xm" where
  "unix_time = (\<lambda>s. Ok (clock s (ticks s)) (s\<lparr>ticks := Suc (ticks s)\<rparr>))"

section \<open>Buffers and the driver (buf.h, ide.c)\<close>

record buf =
  bflags :: u32
  bdev :: u32
  bsector :: u32
  bprev :: nat
  bnext :: nat
  bdata :: block

definition B_BUSY :: u32 where
  "B_BUSY = 1"

definition B_VALID :: u32 where
  "B_VALID = 2"

definition B_DIRTY :: u32 where
  "B_DIRTY = 4"

text \<open>The state of the cache: \<open>bcache.buf[i]\<close> at index \<open>i < NBUF\<close> and \<open>bcache.head\<close> at index
  \<open>NBUF\<close>. A \<open>struct buf*\<close> is such an index.\<close>

record bcache = host +
  bufs :: "nat \<Rightarrow> buf"

definition upd_buf :: "nat \<Rightarrow> (buf \<Rightarrow> buf) \<Rightarrow> ('z bcache_scheme, unit) xm" where
  "upd_buf b f = modify (\<lambda>s. s\<lparr>bufs := (bufs s)(b := f (bufs s b))\<rparr>)"

definition get_buf :: "nat \<Rightarrow> ('z bcache_scheme, buf) xm" where
  "get_buf b = gets (\<lambda>s. bufs s b)"

definition get_data :: "nat \<Rightarrow> ('z bcache_scheme, block) xm" where
  "get_data b = gets (\<lambda>s. bdata (bufs s b))"

definition set_flags :: "nat \<Rightarrow> u32 \<Rightarrow> ('z bcache_scheme, unit) xm" where
  "set_flags b f = upd_buf b (\<lambda>x. x\<lparr>bflags := f\<rparr>)"

definition set_data :: "nat \<Rightarrow> block \<Rightarrow> ('z bcache_scheme, unit) xm" where
  "set_data b d = upd_buf b (\<lambda>x. x\<lparr>bdata := d\<rparr>)"

definition iderw :: "nat \<Rightarrow> ('z bcache_scheme, unit) xm" where
  "iderw b =
     bind (get_buf b) (\<lambda>x.
     if bflags x AND B_BUSY = 0 then panic ''iderw: buf not busy''
     else if bflags x AND (B_VALID OR B_DIRTY) = B_VALID then panic ''iderw: nothing to do''
     else if bflags x AND B_DIRTY \<noteq> 0 then
       andthen (unix_write (bsector x) (bdata x))
         (set_flags b (bflags x AND NOT B_DIRTY))
     else
       bind (unix_read (bsector x)) (\<lambda>d.
       andthen (set_data b d)
         (set_flags b (bflags x OR B_VALID))))"

definition ideflush :: "('z host_scheme, unit) xm" where
  "ideflush = unix_flush"

section \<open>Flags\<close>

definition busy :: "buf \<Rightarrow> bool" where
  "busy x \<longleftrightarrow> bit (bflags x) 0"

definition valid :: "buf \<Rightarrow> bool" where
  "valid x \<longleftrightarrow> bit (bflags x) 1"

definition dirty :: "buf \<Rightarrow> bool" where
  "dirty x \<longleftrightarrow> bit (bflags x) 2"

lemma test_busy [flag_simps]: "(bflags x AND B_BUSY = 0) = (\<not> busy x)"
  by (simp add: B_BUSY_def busy_def flag_simps)

lemma test_valid [flag_simps]: "(bflags x AND B_VALID = 0) = (\<not> valid x)"
  by (simp add: B_VALID_def valid_def flag_simps)

lemma test_dirty [flag_simps]: "(bflags x AND B_DIRTY = 0) = (\<not> dirty x)"
  by (simp add: B_DIRTY_def dirty_def flag_simps)

lemma bit_flag [flag_simps]:
  "bit B_BUSY n = (n = 0)" "bit B_VALID n = (n = 1)" "bit B_DIRTY n = (n = 2)"
  using bit_exp_iff [where 'a = u32, of 1 n] bit_exp_iff [where 'a = u32, of 2 n]
  by (auto simp: B_BUSY_def B_VALID_def B_DIRTY_def bit_1_iff)

lemma test_nothing_to_do [flag_simps]:
  "(bflags x AND (B_VALID OR B_DIRTY) = B_VALID) = (valid x \<and> \<not> dirty x)"
proof
  assume *: "bflags x AND (B_VALID OR B_DIRTY) = B_VALID"
  have "bit (bflags x AND (B_VALID OR B_DIRTY)) n = bit B_VALID n" for n
    using * by simp
  from this [of 1] this [of 2] show "valid x \<and> \<not> dirty x"
    by (simp add: bit_simps flag_simps valid_def dirty_def)
next
  assume "valid x \<and> \<not> dirty x"
  then show "bflags x AND (B_VALID OR B_DIRTY) = B_VALID"
    by (intro bit_word_eqI) (auto simp: bit_simps flag_simps valid_def dirty_def)
qed

text \<open>What the flag updates of the cache do to the three flags.\<close>

lemma flag_or [flag_simps]: "bit (f OR g) n = (bit f n \<or> bit (g :: u32) n)"
  by (simp add: bit_simps)

lemma flag_clear [flag_simps]:
  "bit (f AND NOT B_BUSY) n = (bit f n \<and> n \<noteq> 0)"
  "bit (f AND NOT B_DIRTY) n = (bit f n \<and> n \<noteq> 2)"
  using bit_imp_le_length [of f n] by (auto simp: bit_simps bit_flag)

lemma busy_valid_dirty_upd [simp]:
  "busy (x\<lparr>bflags := f\<rparr>) = bit f 0" "valid (x\<lparr>bflags := f\<rparr>) = bit f 1"
  "dirty (x\<lparr>bflags := f\<rparr>) = bit f 2"
  "busy (x\<lparr>bdata := d\<rparr>) = busy x" "valid (x\<lparr>bdata := d\<rparr>) = valid x"
  "dirty (x\<lparr>bdata := d\<rparr>) = dirty x"
  "busy (x\<lparr>bnext := k\<rparr>) = busy x" "valid (x\<lparr>bnext := k\<rparr>) = valid x"
  "dirty (x\<lparr>bnext := k\<rparr>) = dirty x"
  "busy (x\<lparr>bprev := k\<rparr>) = busy x" "valid (x\<lparr>bprev := k\<rparr>) = valid x"
  "dirty (x\<lparr>bprev := k\<rparr>) = dirty x"
  "busy (x\<lparr>bdev := w\<rparr>) = busy x" "valid (x\<lparr>bdev := w\<rparr>) = valid x"
  "dirty (x\<lparr>bdev := w\<rparr>) = dirty x"
  "busy (x\<lparr>bsector := w\<rparr>) = busy x" "valid (x\<lparr>bsector := w\<rparr>) = valid x"
  "dirty (x\<lparr>bsector := w\<rparr>) = dirty x"
  by (simp_all add: busy_def valid_def dirty_def)

section \<open>What the host operations do\<close>

definition in_image :: "'z host_scheme \<Rightarrow> u32 \<Rightarrow> bool" where
  "in_image s b \<longleftrightarrow> unat b < imglen s \<and> unat b < 2 ^ 19"

lemma uint_less_int: "unat (b :: u32) < n \<Longrightarrow> uint b < int n"
  using uint_nat [of b] by linarith

lemma nonpos_le_uint [simp]: "k \<le> 0 \<Longrightarrow> k \<le> uint (b :: u32)"
  by (rule order_trans [OF _ uint_ge_0])

lemma sint_small: "unat (b :: u32) < 2 ^ 31 \<Longrightarrow> sint b = uint b"
  using uint_less_int [of b "2 ^ 31"]
  by (simp add: sint_uint signed_take_bit_int_eq_self)

lemma in_image_sector: "in_image s b \<Longrightarrow> sector_ok b \<and> \<not> sint b < 0"
  using uint_less_int [of b "2 ^ 19"]
  by (simp add: in_image_def sector_ok_def sint_small)

lemma wp_unix_read:
  assumes "in_image s b"
  shows "wp (unix_read b) Q s =
    Q (img s b) (s\<lparr>fsstats := (fsstats s)\<lparr>nread := nread (fsstats s) + 1\<rparr>\<rparr>)"
  using assms in_image_sector [OF assms] by (simp add: wp_def unix_read_def in_image_def)

lemma wp_unix_write:
  assumes "in_image s b"
  shows "wp (unix_write b d) Q s =
    Q () (s\<lparr>img := (img s)(b := d), hist := hist s @ [Write b d],
           fsstats := (fsstats s)\<lparr>nwrite := nwrite (fsstats s) + 1\<rparr>\<rparr>)"
proof -
  have "(\<lambda>x. if x = b then d else if imglen s \<le> unat x \<and> unat x < unat b then zero_block
      else img s x) = (img s)(b := d)"
    using assms by (auto simp: in_image_def fun_eq_iff)
  moreover have "max (imglen s) (Suc (unat b)) = imglen s"
    using assms by (simp add: in_image_def)
  ultimately show ?thesis
    using in_image_sector [OF assms] by (simp add: wp_def unix_write_def)
qed

lemma wp_unix_flush [wp_simps]:
  "wp unix_flush Q s = Q () (s\<lparr>hist := hist s @ [Sync],
     fsstats := (fsstats s)\<lparr>nflush := nflush (fsstats s) + 1\<rparr>\<rparr>)"
  by (simp add: wp_def unix_flush_def)

lemma wp_upd_buf [wp_simps]:
  "wp (upd_buf b f) Q s = Q () (s\<lparr>bufs := (bufs s)(b := f (bufs s b))\<rparr>)"
  by (simp add: upd_buf_def wp_simps)

lemma wp_get_buf [wp_simps]: "wp (get_buf b) Q s = Q (bufs s b) s"
  by (simp add: get_buf_def wp_simps)

lemma wp_get_data [wp_simps]: "wp (get_data b) Q s = Q (bdata (bufs s b)) s"
  by (simp add: get_data_def wp_simps)

lemma wp_set_flags [wp_simps]:
  "wp (set_flags b f) Q s = Q () (s\<lparr>bufs := (bufs s)(b := (bufs s b)\<lparr>bflags := f\<rparr>)\<rparr>)"
  by (simp add: set_flags_def wp_simps)

lemma wp_set_data [wp_simps]:
  "wp (set_data b d) Q s = Q () (s\<lparr>bufs := (bufs s)(b := (bufs s b)\<lparr>bdata := d\<rparr>)\<rparr>)"
  by (simp add: set_data_def wp_simps)

text \<open>The driver on a busy buffer: a dirty one is written out, an invalid one is read in.\<close>

lemma wp_iderw_read:
  assumes "busy (bufs s b)" "\<not> dirty (bufs s b)" "\<not> valid (bufs s b)"
    and "in_image s (bsector (bufs s b))"
    and "\<And>st. Q () (s\<lparr>fsstats := st,
       bufs := (bufs s)(b := (bufs s b)\<lparr>bdata := img s (bsector (bufs s b)),
                                     bflags := bflags (bufs s b) OR B_VALID\<rparr>)\<rparr>)"
  shows "wp (iderw b) Q s"
  using assms by (simp add: iderw_def wp_simps flag_simps wp_unix_read)

lemma wp_iderw_write:
  assumes "busy (bufs s b)" "dirty (bufs s b)"
    and "in_image s (bsector (bufs s b))"
    and "\<And>st. Q () (s\<lparr>img := (img s)(bsector (bufs s b) := bdata (bufs s b)),
       hist := hist s @ [Write (bsector (bufs s b)) (bdata (bufs s b))], fsstats := st,
       bufs := (bufs s)(b := (bufs s b)\<lparr>bflags := bflags (bufs s b) AND NOT B_DIRTY\<rparr>)\<rparr>)"
  shows "wp (iderw b) Q s"
  using assms by (simp add: iderw_def wp_simps flag_simps wp_unix_write)

end
