(* ===== verification/Xv6_Cache.thy ===== *)
theory Xv6_Cache
  imports Xv6_Ide
begin

text \<open>
  What the buffer cache promises to the code above it. The abstract cache \<open>cview\<close> forgets
  buffers, list order and flags: it has the blocks as the file system sees them, the sectors whose
  newest content is only in memory, the sectors somebody is using, the image file and the
  writes and syncs issued so far. The locale \<open>block_cache\<close> states the contract of \<open>bio.c\<close> over
  it; its lemmas are about the access patterns \<open>log.c\<close> and \<open>fs.c\<close> use, and hold for every
  implementation of the contract. \<open>Xv6_Bio\<close> interprets it with the code of \<open>bio.c\<close>.
\<close>

section \<open>The abstract cache\<close>

record cview =
  v_blk :: "u32 \<Rightarrow> block"
  v_dirty :: "u32 set"
  v_busy :: "u32 set"
  v_img :: "u32 \<Rightarrow> block"
  v_hist :: "io list"

definition a_bread :: "u32 \<Rightarrow> cview \<Rightarrow> cview" where
  "a_bread b v = v\<lparr>v_busy := insert b (v_busy v)\<rparr>"

definition a_store :: "u32 \<Rightarrow> block \<Rightarrow> cview \<Rightarrow> cview" where
  "a_store b d v = v\<lparr>v_blk := (v_blk v)(b := d)\<rparr>"

definition a_pin :: "u32 \<Rightarrow> cview \<Rightarrow> cview" where
  "a_pin b v = v\<lparr>v_dirty := insert b (v_dirty v)\<rparr>"

definition a_bwrite :: "u32 \<Rightarrow> cview \<Rightarrow> cview" where
  "a_bwrite b v = v\<lparr>v_dirty := v_dirty v - {b}, v_img := (v_img v)(b := v_blk v b),
     v_hist := v_hist v @ [Write b (v_blk v b)]\<rparr>"

definition a_brelse :: "u32 \<Rightarrow> cview \<Rightarrow> cview" where
  "a_brelse b v = v\<lparr>v_busy := v_busy v - {b}\<rparr>"

definition a_copy :: "u32 \<Rightarrow> u32 \<Rightarrow> cview \<Rightarrow> cview" where
  "a_copy dst src v = v\<lparr>v_blk := (v_blk v)(dst := v_blk v src), v_dirty := v_dirty v - {dst},
     v_img := (v_img v)(dst := v_blk v src), v_hist := v_hist v @ [Write dst (v_blk v src)]\<rparr>"

text \<open>A list of block writes applied to a disk, and a sequence of copies through the cache.\<close>

definition put_all :: "(u32 \<times> block) list \<Rightarrow> (u32 \<Rightarrow> block) \<Rightarrow> (u32 \<Rightarrow> block)" where
  "put_all ws d = fold (\<lambda>w m. m(fst w := snd w)) ws d"

lemma put_all_simps [simp]:
  "put_all [] d = d" "put_all (w # ws) d = put_all ws (d(fst w := snd w))"
  "put_all (ws @ vs) d = put_all vs (put_all ws d)"
  by (simp_all add: put_all_def)

lemma put_all_other: "b \<notin> fst ` set ws \<Longrightarrow> put_all ws d b = d b"
  by (induction ws arbitrary: d) auto

definition a_copies :: "(u32 \<times> u32) list \<Rightarrow> cview \<Rightarrow> cview" where
  "a_copies ps v = fold (\<lambda>p. a_copy (fst p) (snd p)) ps v"

lemma a_copies_eq:
  assumes "\<And>p. p \<in> set ps \<Longrightarrow> snd p \<notin> fst ` set ps"
  shows "a_copies ps v = (let ws = map (\<lambda>p. (fst p, v_blk v (snd p))) ps in
    v\<lparr>v_blk := put_all ws (v_blk v), v_dirty := v_dirty v - fst ` set ps,
      v_img := put_all ws (v_img v), v_hist := v_hist v @ map (\<lambda>w. Write (fst w) (snd w)) ws\<rparr>)"
  using assms
proof (induction ps arbitrary: v)
  case (Cons p ps)
  let ?v = "a_copy (fst p) (snd p) v"
  have same: "map (\<lambda>q. (fst q, v_blk ?v (snd q))) ps = map (\<lambda>q. (fst q, v_blk v (snd q))) ps"
    using Cons.prems by (auto simp: a_copy_def)
  have "a_copies (p # ps) v = a_copies ps ?v" by (simp add: a_copies_def)
  also have "\<dots> = (let ws = map (\<lambda>p. (fst p, v_blk ?v (snd p))) ps in
    ?v\<lparr>v_blk := put_all ws (v_blk ?v), v_dirty := v_dirty ?v - fst ` set ps,
      v_img := put_all ws (v_img ?v), v_hist := v_hist ?v @ map (\<lambda>w. Write (fst w) (snd w)) ws\<rparr>)"
    using Cons.prems by (intro Cons.IH) auto
  finally show ?case
    unfolding same by (intro cview.equality) (auto simp: Let_def a_copy_def)
qed (simp add: a_copies_def)

section \<open>The interface of the cache\<close>

text \<open>
  What \<open>log.c\<close> and \<open>fs.c\<close> rely on. \<open>rd\<close>, \<open>ld\<close>, \<open>st\<close>, \<open>wr\<close> and \<open>rel\<close> are \<open>bread\<close>, an access
  to \<open>b->data\<close>, \<open>bwrite\<close> and \<open>brelse\<close>; the laws say what each does to the abstract cache, that
  the handles of other buffers stay good, and that \<open>rd\<close> succeeds while there is capacity.
\<close>

locale block_cache =
  fixes inv :: "'s \<Rightarrow> bool"
    and vw :: "'s \<Rightarrow> cview"
    and held :: "'s \<Rightarrow> nat \<Rightarrow> u32 \<Rightarrow> bool"
    and frame :: "'s \<Rightarrow> 's \<Rightarrow> bool"
    and inimg :: "'s \<Rightarrow> u32 \<Rightarrow> bool"
    and cap :: nat
    and rd :: "u32 \<Rightarrow> ('s, nat) xm"
    and ld :: "nat \<Rightarrow> ('s, block) xm"
    and st :: "nat \<Rightarrow> block \<Rightarrow> ('s, unit) xm"
    and wr :: "nat \<Rightarrow> ('s, unit) xm"
    and rel :: "nat \<Rightarrow> ('s, unit) xm"
  assumes frame_refl: "frame s s"
    and frame_trans: "frame s t \<Longrightarrow> frame t u \<Longrightarrow> frame s u"
    and frame_inimg: "frame s t \<Longrightarrow> inimg t b = inimg s b"
    and held_busy: "held s i b \<Longrightarrow> b \<in> v_busy (vw s)"
    and clean: "inv s \<Longrightarrow> b \<notin> v_dirty (vw s) \<Longrightarrow> b \<notin> v_busy (vw s) \<Longrightarrow> v_blk (vw s) b = v_img (vw s) b"
    and rd: "inv s \<Longrightarrow> inimg s b \<Longrightarrow> b \<notin> v_busy (vw s) \<Longrightarrow>
      b \<in> v_dirty (vw s) \<or> card (v_dirty (vw s) \<union> v_busy (vw s)) < cap \<Longrightarrow>
      (\<And>i t. inv t \<Longrightarrow> frame s t \<Longrightarrow> vw t = a_bread b (vw s) \<Longrightarrow> held t i b \<Longrightarrow>
         (\<And>j c. held s j c \<Longrightarrow> held t j c) \<Longrightarrow> Q i t) \<Longrightarrow> wp (rd b) Q s"
    and ld: "inv s \<Longrightarrow> held s i b \<Longrightarrow> wp (ld i) R s = R (v_blk (vw s) b) s"
    and st: "inv s \<Longrightarrow> held s i b \<Longrightarrow>
      (\<And>t. inv t \<Longrightarrow> frame s t \<Longrightarrow> vw t = a_store b d (vw s) \<Longrightarrow>
         (\<And>j c. held s j c \<Longrightarrow> held t j c) \<Longrightarrow> P () t) \<Longrightarrow> wp (st i d) P s"
    and wr: "inv s \<Longrightarrow> held s i b \<Longrightarrow>
      (\<And>t. inv t \<Longrightarrow> frame s t \<Longrightarrow> vw t = a_bwrite b (vw s) \<Longrightarrow>
         (\<And>j c. held s j c \<Longrightarrow> held t j c) \<Longrightarrow> P () t) \<Longrightarrow> wp (wr i) P s"
    and rel: "inv s \<Longrightarrow> held s i b \<Longrightarrow> b \<in> v_dirty (vw s) \<or> v_blk (vw s) b = v_img (vw s) b \<Longrightarrow>
      (\<And>t. inv t \<Longrightarrow> frame s t \<Longrightarrow> vw t = a_brelse b (vw s) \<Longrightarrow>
         (\<And>j c. held s j c \<Longrightarrow> c \<noteq> b \<Longrightarrow> held t j c) \<Longrightarrow> P () t) \<Longrightarrow> wp (rel i) P s"
begin

abbreviation avail :: "'s \<Rightarrow> u32 \<Rightarrow> bool" where
  "avail s b \<equiv> inimg s b \<and> b \<notin> v_busy (vw s)
     \<and> (b \<in> v_dirty (vw s) \<or> card (v_dirty (vw s) \<union> v_busy (vw s)) < cap)"

text \<open>Reading a block that nobody holds leaves the abstract cache as it was.\<close>

lemma read_block:
  assumes inv: "inv s" and av: "avail s b"
    and post: "\<And>t. inv t \<Longrightarrow> frame s t \<Longrightarrow> vw t = vw s \<Longrightarrow>
      (\<And>j c. held s j c \<Longrightarrow> held t j c) \<Longrightarrow> wp (k (v_blk (vw s) b)) Q t"
  shows "wp (bind (rd b) (\<lambda>i. bind (ld i) (\<lambda>d. andthen (rel i) (k d)))) Q s"
  unfolding wp_bind wp_andthen
proof (rule rd [OF inv])
  fix i t assume t: "inv t" "frame s t" "vw t = a_bread b (vw s)" "held t i b"
    and old: "\<And>j c. held s j c \<Longrightarrow> held t j c"
  have same: "v_blk (vw t) b = v_blk (vw s) b" using t(3) by (simp add: a_bread_def)
  show "wp (ld i) (\<lambda>d. wp (rel i) (\<lambda>_. wp (k d) Q)) t"
    unfolding ld [OF t(1,4)] same
  proof (rule rel [OF t(1,4)])
    show "b \<in> v_dirty (vw t) \<or> v_blk (vw t) b = v_img (vw t) b"
      using clean [OF inv, of b] av t(3) by (auto simp: a_bread_def)
    fix u assume u: "inv u" "frame t u" "vw u = a_brelse b (vw t)"
      and old': "\<And>j c. held t j c \<Longrightarrow> c \<noteq> b \<Longrightarrow> held u j c"
    have "vw u = vw s" using u(3) t(3) av by (simp add: a_bread_def a_brelse_def)
    moreover have "held u j c" if "held s j c" for j c
      using old [OF that] held_busy [OF that] av by (intro old') auto
    ultimately show "wp (k (v_blk (vw s) b)) Q u"
      using u(1) frame_trans [OF t(2) u(2)] by (intro post) auto
  qed
qed (use av in auto)

text \<open>The second half of a copy between two held blocks: store, write through, release both.\<close>

lemma copy_held:
  assumes inv: "inv s" and h: "held s i dst" "held s j src" and ne: "dst \<noteq> src"
    and src: "src \<in> v_dirty (vw s) \<or> v_blk (vw s) src = v_img (vw s) src"
    and post: "\<And>t. inv t \<Longrightarrow> frame s t \<Longrightarrow> vw t = (a_copy dst src (vw s))\<lparr>v_busy := v_busy (vw s) - {src} - {dst}\<rparr> \<Longrightarrow>
      (\<And>k c. held s k c \<Longrightarrow> c \<noteq> dst \<Longrightarrow> c \<noteq> src \<Longrightarrow> held t k c) \<Longrightarrow> Q () t"
  shows "wp (bind (ld j) (\<lambda>d. andthen (st i d) (andthen (wr i) (andthen (rel j) (rel i))))) Q s"
  unfolding wp_bind wp_andthen ld [OF inv h(2)]
proof (rule st [OF inv h(1)])
  fix t assume t: "inv t" "frame s t" "vw t = a_store dst (v_blk (vw s) src) (vw s)"
    and ht: "\<And>k c. held s k c \<Longrightarrow> held t k c"
  show "wp (wr i) (\<lambda>_. wp (rel j) (\<lambda>_. wp (rel i) Q)) t"
  proof (rule wr [OF t(1) ht [OF h(1)]])
    fix u assume u: "inv u" "frame t u" "vw u = a_bwrite dst (vw t)"
      and hu: "\<And>k c. held t k c \<Longrightarrow> held u k c"
    have vu: "vw u = a_copy dst src (vw s)"
      using u(3) t(3) by (simp add: a_bwrite_def a_store_def a_copy_def)
    show "wp (rel j) (\<lambda>_. wp (rel i) Q) u"
    proof (rule rel [OF u(1) hu [OF ht [OF h(2)]]])
      show "src \<in> v_dirty (vw u) \<or> v_blk (vw u) src = v_img (vw u) src"
        using src ne vu by (auto simp: a_copy_def)
      fix x assume x: "inv x" "frame u x" "vw x = a_brelse src (vw u)"
        and hx: "\<And>k c. held u k c \<Longrightarrow> c \<noteq> src \<Longrightarrow> held x k c"
      show "wp (rel i) Q x"
      proof (rule rel [OF x(1) hx [OF hu [OF ht [OF h(1)]] ne]])
        show "dst \<in> v_dirty (vw x) \<or> v_blk (vw x) dst = v_img (vw x) dst"
          using x(3) vu by (simp add: a_copy_def a_brelse_def)
        fix y assume y: "inv y" "frame x y" "vw y = a_brelse dst (vw x)"
          and hy: "\<And>k c. held x k c \<Longrightarrow> c \<noteq> dst \<Longrightarrow> held y k c"
        show "Q () y"
        proof (rule post)
          show "frame s y" using t(2) u(2) x(2) y(2) frame_trans by blast
          show "vw y = (a_copy dst src (vw s))\<lparr>v_busy := v_busy (vw s) - {src} - {dst}\<rparr>"
            using y(3) x(3) vu by (auto simp: a_brelse_def a_copy_def)
        qed (use y(1) hy hx hu ht in auto)
      qed
    qed
  qed
qed

text \<open>Copying block \<open>src\<close> over block \<open>dst\<close> through the cache, the two buffers acquired in either
  order; \<open>mid\<close> computes the number of the second block in between. Two buffers must be available
  at once.\<close>

lemma copy_block:
  assumes inv: "inv s" and ne: "dst \<noteq> src" and im: "inimg s dst" "inimg s src"
    and nb: "v_busy (vw s) = {}"
    and cap: "card (v_dirty (vw s) \<union> {dst, src}) \<le> cap"
    and ord: "(a = dst \<and> b = src \<and> f = (\<lambda>i j. (i, j))) \<or> (a = src \<and> b = dst \<and> f = (\<lambda>i j. (j, i)))"
    and mid: "\<And>t R. frame s t \<Longrightarrow> wp mid R t = R b t"
    and post: "\<And>t. inv t \<Longrightarrow> frame s t \<Longrightarrow> vw t = a_copy dst src (vw s) \<Longrightarrow> Q () t"
  shows "wp (bind (rd a) (\<lambda>i. bind mid (\<lambda>c. bind (rd c) (\<lambda>j. bind (ld (snd (f i j))) (\<lambda>d.
      andthen (st (fst (f i j)) d) (andthen (wr (fst (f i j))) (andthen (rel (snd (f i j))) (rel (fst (f i j)))))))))) Q s"
proof -
  have ab: "a \<noteq> b" "inimg s a" "inimg s b" "{a, b} = {dst, src}" using ord ne im by auto
  have lt: "card A < cap" if "A \<subset> v_dirty (vw s) \<union> {a, b}" for A
    using psubset_card_mono [OF _ that] cap ab(4) by simp
  have one: "a \<in> v_dirty (vw s) \<or> card (v_dirty (vw s)) < cap"
    using lt [of "v_dirty (vw s)"] by blast
  have two: "b \<in> v_dirty (vw s) \<or> card (insert a (v_dirty (vw s))) < cap"
  proof (cases "b \<in> v_dirty (vw s)")
    case False
    then have "b \<notin> insert a (v_dirty (vw s))" using ab(1) by simp
    then have "insert a (v_dirty (vw s)) \<subset> v_dirty (vw s) \<union> {a, b}" by blast
    then show ?thesis using lt by simp
  qed simp
  show ?thesis
    unfolding wp_bind [of "rd a"]
  proof (rule rd [OF inv ab(2)])
    fix i t assume t: "inv t" "frame s t" "vw t = a_bread a (vw s)" "held t i a"
    show "wp (bind mid (\<lambda>c. bind (rd c) (\<lambda>j. bind (ld (snd (f i j))) (\<lambda>d.
      andthen (st (fst (f i j)) d) (andthen (wr (fst (f i j))) (andthen (rel (snd (f i j))) (rel (fst (f i j))))))))) Q t"
      unfolding wp_bind [of mid] mid [OF t(2)] wp_bind [of "rd b"]
    proof (rule rd [OF t(1)])
      show "inimg t b" using ab(3) frame_inimg [OF t(2)] by simp
      show "b \<notin> v_busy (vw t)" using t(3) nb ab(1) by (auto simp: a_bread_def)
      show "b \<in> v_dirty (vw t) \<or> card (v_dirty (vw t) \<union> v_busy (vw t)) < cap"
        using two t(3) nb by (auto simp: a_bread_def)
      fix j u assume u: "inv u" "frame t u" "vw u = a_bread b (vw t)" "held u j b"
        and hu: "\<And>k c. held t k c \<Longrightarrow> held u k c"
      have vu: "vw u = (vw s)\<lparr>v_busy := {b, a}\<rparr>" using u(3) t(3) nb by (simp add: a_bread_def)
      have h: "held u (fst (f i j)) dst" "held u (snd (f i j)) src"
        using ord u(4) hu [OF t(4)] by auto
      show "wp (bind (ld (snd (f i j))) (\<lambda>d.
        andthen (st (fst (f i j)) d) (andthen (wr (fst (f i j))) (andthen (rel (snd (f i j))) (rel (fst (f i j))))))) Q u"
      proof (rule copy_held [OF u(1) h ne])
        show "src \<in> v_dirty (vw u) \<or> v_blk (vw u) src = v_img (vw u) src"
          using clean [OF inv, of src] nb vu by auto
        fix x assume x: "inv x" "frame u x" "vw x = (a_copy dst src (vw u))\<lparr>v_busy := v_busy (vw u) - {src} - {dst}\<rparr>"
        show "Q () x"
        proof (rule post [OF x(1)])
          show "frame s x" using t(2) u(2) x(2) frame_trans by blast
          show "vw x = a_copy dst src (vw s)"
            using x(3) vu nb ord by (intro cview.equality) (auto simp: a_copy_def)
        qed
      qed
    qed
  qed (use one nb in auto)
qed

text \<open>A loop of such copies, the bodies given by what one iteration does.\<close>

lemma copy_blocks:
  assumes inv: "inv s" and nb: "v_busy (vw s) = {}" and len: "length ps = length is"
    and step: "\<And>k t R. k < length is \<Longrightarrow> inv t \<Longrightarrow> frame s t \<Longrightarrow> v_busy (vw t) = {} \<Longrightarrow>
      v_dirty (vw t) \<subseteq> v_dirty (vw s) \<Longrightarrow>
      (\<And>u. inv u \<Longrightarrow> frame t u \<Longrightarrow> vw u = a_copy (fst (ps ! k)) (snd (ps ! k)) (vw t) \<Longrightarrow> R () u) \<Longrightarrow>
      wp (body (is ! k)) R t"
    and post: "\<And>t. inv t \<Longrightarrow> frame s t \<Longrightarrow> vw t = a_copies ps (vw s) \<Longrightarrow> Q () t"
  shows "wp (mfor is body) Q s"
proof (rule wp_mfor [where I = "\<lambda>k t. inv t \<and> frame s t \<and> vw t = a_copies (take k ps) (vw s)
    \<and> v_busy (vw t) = {} \<and> v_dirty (vw t) \<subseteq> v_dirty (vw s)"])
  show "inv s \<and> frame s s \<and> vw s = a_copies (take 0 ps) (vw s) \<and> v_busy (vw s) = {} \<and> v_dirty (vw s) \<subseteq> v_dirty (vw s)"
    using inv nb by (simp add: a_copies_def frame_refl)
next
  fix k t
  assume k: "k < length is" and t: "inv t \<and> frame s t \<and> vw t = a_copies (take k ps) (vw s)
    \<and> v_busy (vw t) = {} \<and> v_dirty (vw t) \<subseteq> v_dirty (vw s)"
  show "wp (body (is ! k)) (\<lambda>_ u. inv u \<and> frame s u \<and> vw u = a_copies (take (Suc k) ps) (vw s)
    \<and> v_busy (vw u) = {} \<and> v_dirty (vw u) \<subseteq> v_dirty (vw s)) t"
  proof (rule step [OF k])
    fix u assume u: "inv u" "frame t u" "vw u = a_copy (fst (ps ! k)) (snd (ps ! k)) (vw t)"
    then show "inv u \<and> frame s u \<and> vw u = a_copies (take (Suc k) ps) (vw s)
      \<and> v_busy (vw u) = {} \<and> v_dirty (vw u) \<subseteq> v_dirty (vw s)"
      using t k len frame_trans by (auto simp: a_copies_def take_Suc_conv_app_nth a_copy_def)
  qed (use t in auto)
next
  fix t assume "inv t \<and> frame s t \<and> vw t = a_copies (take (length is) ps) (vw s)
    \<and> v_busy (vw t) = {} \<and> v_dirty (vw t) \<subseteq> v_dirty (vw s)"
  then show "Q () t" using len by (intro post) auto
qed

end

section \<open>Writing through and syncing\<close>

definition a_sync :: "cview \<Rightarrow> cview" where
  "a_sync v = v\<lparr>v_hist := v_hist v @ [Sync]\<rparr>"

definition a_put :: "u32 \<Rightarrow> block \<Rightarrow> cview \<Rightarrow> cview" where
  "a_put b d v = v\<lparr>v_blk := (v_blk v)(b := d), v_dirty := v_dirty v - {b}, v_img := (v_img v)(b := d),
     v_hist := v_hist v @ [Write b d, Sync]\<rparr>"

text \<open>The cache together with \<open>ideflush\<close>.\<close>

locale synced_cache = block_cache +
  fixes fl :: "('a, unit) xm"
  assumes fl: "inv s \<Longrightarrow> (\<And>t. inv t \<Longrightarrow> frame s t \<Longrightarrow> vw t = a_sync (vw s) \<Longrightarrow>
      (\<And>j c. held s j c \<Longrightarrow> held t j c) \<Longrightarrow> P () t) \<Longrightarrow> wp fl P s"
begin

text \<open>Changing a block in place, writing it through and syncing before it is released: the
  pattern of \<open>write_head\<close>.\<close>

lemma put_block:
  assumes inv: "inv s" and av: "avail s b"
    and post: "\<And>t. inv t \<Longrightarrow> frame s t \<Longrightarrow> vw t = a_put b (g (v_blk (vw s) b)) (vw s) \<Longrightarrow> Q () t"
  shows "wp (bind (rd b) (\<lambda>i. bind (ld i) (\<lambda>d. andthen (st i (g d)) (andthen (wr i) (andthen fl (rel i)))))) Q s"
  unfolding wp_bind wp_andthen
proof (rule rd [OF inv])
  fix i t assume t: "inv t" "frame s t" "vw t = a_bread b (vw s)" "held t i b"
  let ?d = "g (v_blk (vw t) b)"
  show "wp (ld i) (\<lambda>d. wp (st i (g d)) (\<lambda>_. wp (wr i) (\<lambda>_. wp fl (\<lambda>_. wp (rel i) Q)))) t"
    unfolding ld [OF t(1,4)]
  proof (rule st [OF t(1,4)])
    fix u assume u: "inv u" "frame t u" "vw u = a_store b ?d (vw t)" and hu: "\<And>j c. held t j c \<Longrightarrow> held u j c"
    show "wp (wr i) (\<lambda>_. wp fl (\<lambda>_. wp (rel i) Q)) u"
    proof (rule wr [OF u(1) hu [OF t(4)]])
      fix x assume x: "inv x" "frame u x" "vw x = a_bwrite b (vw u)" and hx: "\<And>j c. held u j c \<Longrightarrow> held x j c"
      show "wp fl (\<lambda>_. wp (rel i) Q) x"
      proof (rule fl [OF x(1)])
        fix y assume y: "inv y" "frame x y" "vw y = a_sync (vw x)" and hy: "\<And>j c. held x j c \<Longrightarrow> held y j c"
        show "wp (rel i) Q y"
        proof (rule rel [OF y(1) hy [OF hx [OF hu [OF t(4)]]]])
          show "b \<in> v_dirty (vw y) \<or> v_blk (vw y) b = v_img (vw y) b"
            using y(3) x(3) u(3) by (simp add: a_sync_def a_bwrite_def a_store_def)
          fix z assume z: "inv z" "frame y z" "vw z = a_brelse b (vw y)"
          show "Q () z"
          proof (rule post [OF z(1)])
            show "frame s z" using t(2) u(2) x(2) y(2) z(2) frame_trans by blast
            show "vw z = a_put b (g (v_blk (vw s) b)) (vw s)"
              using z(3) y(3) x(3) u(3) t(3) av
              by (intro cview.equality)
                 (auto simp: a_put_def a_brelse_def a_sync_def a_bwrite_def a_store_def a_bread_def)
          qed
        qed
      qed
    qed
  qed
qed (use av in auto)

end

end
