(* ===== verification/Xv6_Bio.thy ===== *)
theory Xv6_Bio
  imports Xv6_Cache
begin

text \<open>
  The buffer cache of \<open>xv6/bio.c\<close>: \<open>NBUF\<close> buffers on a circular doubly linked list in most
  recently used order, threaded through the \<open>prev\<close> and \<open>next\<close> pointers with \<open>bcache.head\<close> as
  its sentinel. The locks of \<open>spinlock.c\<close> have empty bodies, so \<open>acquire\<close>, \<open>release\<close>,
  \<open>wakeup\<close> and \<open>sleep\<close> do nothing here either: a loop around \<open>sleep\<close> that waits for another
  process never ends, which is \<^const>\<open>Hang\<close>.

  The invariant \<open>binv\<close> says that the pointers form one ring of all buffers, that a sector is
  cached at most once, and that a clean buffer agrees with the disk. Under it the cache is
  transparent: \<open>blk s b\<close>, the content of block \<open>b\<close> as the file system sees it, is what
  \<open>bread\<close> returns, and no operation but a modification of the buffer's own data changes it.
\<close>

section \<open>Operations (bio.c)\<close>

abbreviation HEAD :: nat where
  "HEAD \<equiv> NBUF"

definition set_next :: "nat \<Rightarrow> nat \<Rightarrow> ('z bcache_scheme, unit) xm" where
  "set_next b k = upd_buf b (\<lambda>x. x\<lparr>bnext := k\<rparr>)"

definition set_prev :: "nat \<Rightarrow> nat \<Rightarrow> ('z bcache_scheme, unit) xm" where
  "set_prev b k = upd_buf b (\<lambda>x. x\<lparr>bprev := k\<rparr>)"

definition binit :: "('z bcache_scheme, unit) xm" where
  "binit =
     andthen (set_prev HEAD HEAD) (
     andthen (set_next HEAD HEAD) (
     mfor [0..<NBUF] (\<lambda>b.
       bind (get_buf HEAD) (\<lambda>h.
       andthen (set_next b (bnext h)) (
       andthen (set_prev b HEAD) (
       andthen (upd_buf b (\<lambda>x. x\<lparr>bdev := - 1\<rparr>)) (
       bind (get_buf HEAD) (\<lambda>h.
       andthen (set_prev (bnext h) b)
         (set_next HEAD b)))))))))"

text \<open>The first loop of \<open>bget\<close>, along the \<open>next\<close> pointers. The fuel is the number of list nodes;
  \<open>bget_lookup_ring\<close> shows that it is enough whenever the pointers form a ring.\<close>

fun bget_lookup :: "nat \<Rightarrow> u32 \<Rightarrow> u32 \<Rightarrow> nat \<Rightarrow> ('z bcache_scheme, nat option) xm" where
  "bget_lookup 0 dev sector b = fail Hang"
| "bget_lookup (Suc fuel) dev sector b =
     (if b = HEAD then return None
      else bind (get_buf b) (\<lambda>x.
        if bdev x = dev \<and> bsector x = sector then
          (if bflags x AND B_BUSY = 0 then
             andthen (set_flags b (bflags x OR B_BUSY)) (return (Some b))
           else fail Hang)
        else bget_lookup fuel dev sector (bnext x)))"

text \<open>The second loop, along the \<open>prev\<close> pointers: recycle a buffer that is neither busy nor
  dirty.\<close>

fun bget_recycle :: "nat \<Rightarrow> u32 \<Rightarrow> u32 \<Rightarrow> nat \<Rightarrow> ('z bcache_scheme, nat option) xm" where
  "bget_recycle 0 dev sector b = fail Hang"
| "bget_recycle (Suc fuel) dev sector b =
     (if b = HEAD then return None
      else bind (get_buf b) (\<lambda>x.
        if bflags x AND B_BUSY = 0 \<and> bflags x AND B_DIRTY = 0 then
          andthen (upd_buf b (\<lambda>x. x\<lparr>bdev := dev, bsector := sector, bflags := B_BUSY\<rparr>))
            (return (Some b))
        else bget_recycle fuel dev sector (bprev x)))"

definition bget :: "u32 \<Rightarrow> u32 \<Rightarrow> ('z bcache_scheme, nat) xm" where
  "bget dev sector =
     bind (get_buf HEAD) (\<lambda>h.
     bind (bget_lookup (Suc NBUF) dev sector (bnext h)) (\<lambda>r.
     case r of Some b \<Rightarrow> return b
     | None \<Rightarrow>
       bind (get_buf HEAD) (\<lambda>h.
       bind (bget_recycle (Suc NBUF) dev sector (bprev h)) (\<lambda>r.
       case r of Some b \<Rightarrow> return b | None \<Rightarrow> panic ''bget: no buffers''))))"

definition bread :: "u32 \<Rightarrow> u32 \<Rightarrow> ('z bcache_scheme, nat) xm" where
  "bread dev sector =
     bind (bget dev sector) (\<lambda>b.
     bind (get_buf b) (\<lambda>x.
     andthen (unless (bflags x AND B_VALID \<noteq> 0) (iderw b))
       (return b)))"

definition bwrite :: "nat \<Rightarrow> ('z bcache_scheme, unit) xm" where
  "bwrite b =
     bind (get_buf b) (\<lambda>x.
     if bflags x AND B_BUSY = 0 then panic ''bwrite''
     else andthen (set_flags b (bflags x OR B_DIRTY)) (iderw b))"

definition brelse :: "nat \<Rightarrow> ('z bcache_scheme, unit) xm" where
  "brelse b =
     bind (get_buf b) (\<lambda>x.
     if bflags x AND B_BUSY = 0 then panic ''brelse''
     else
       andthen (set_prev (bnext x) (bprev x)) (
       bind (get_buf b) (\<lambda>x.
       andthen (set_next (bprev x) (bnext x)) (
       bind (get_buf HEAD) (\<lambda>h.
       andthen (set_next b (bnext h)) (
       andthen (set_prev b HEAD) (
       bind (get_buf HEAD) (\<lambda>h.
       andthen (set_prev (bnext h) b) (
       andthen (set_next HEAD b) (
       bind (get_buf b) (\<lambda>x.
       set_flags b (bflags x AND NOT B_BUSY))))))))))))"

section \<open>Rings of pointers\<close>

text \<open>\<open>chain f a xs z\<close>: following \<open>f\<close> from \<open>a\<close> visits \<open>xs\<close> and then arrives at \<open>z\<close>.\<close>

fun chain :: "(nat \<Rightarrow> nat) \<Rightarrow> nat \<Rightarrow> nat list \<Rightarrow> nat \<Rightarrow> bool" where
  "chain f a [] z = (f a = z)"
| "chain f a (x # xs) z = (f a = x \<and> chain f x xs z)"

lemma chain_append: "chain f a (xs @ y # ys) z = (chain f a xs y \<and> chain f y ys z)"
  by (induction xs arbitrary: a) auto

lemma chain_cong:
  "(\<And>x. x = a \<or> x \<in> set xs \<Longrightarrow> f x = g x) \<Longrightarrow> chain f a xs z = chain g a xs z"
  by (induction xs arbitrary: a) auto

lemma chain_upd: "u \<noteq> a \<Longrightarrow> u \<notin> set xs \<Longrightarrow> chain (f(u := v)) a xs z = chain f a xs z"
  by (rule chain_cong) auto

lemma chain_first: "chain f a xs z \<Longrightarrow> f a = hd (xs @ [z])"
  by (cases xs) auto

text \<open>Redirecting the last pointer of a chain.\<close>

lemma chain_end:
  "chain f a xs z \<Longrightarrow> distinct (a # xs) \<Longrightarrow> chain (f(last (a # xs) := w)) a xs w"
proof (induction xs arbitrary: a)
  case Nil
  then show ?case by simp
next
  case (Cons x xs)
  from Cons.prems have "chain (f(last (x # xs) := w)) x xs w"
    by (intro Cons.IH) auto
  moreover have "last (x # xs) \<noteq> a"
    using Cons.prems(2) last_in_set [of "x # xs"] by auto
  ultimately show ?case using Cons.prems by (auto simp: fun_upd_def)
qed

text \<open>Unlinking a node: its predecessor is redirected to its successor.\<close>

lemma chain_unlink:
  assumes "chain f a (as @ b # cs) z" "distinct (a # as @ b # cs)"
  shows "chain (f(last (a # as) := f b)) a (as @ cs) z"
proof -
  let ?p = "last (a # as)"
  have ab: "chain f a as b" and bc: "chain f b cs z"
    using assms(1) by (simp_all add: chain_append)
  have pin: "?p \<in> set (a # as)"
    by (rule last_in_set) simp
  have "chain (f(?p := f b)) a as (f b)"
    by (rule chain_end [OF ab]) (use assms(2) in auto)
  moreover have "chain (f(?p := f b)) c cs' z" if "cs = c # cs'" for c cs'
    using bc that pin assms(2) by (subst chain_upd) auto
  ultimately show ?thesis
    using bc by (cases cs) (auto simp: chain_append)
qed

text \<open>Linking a node in front: the sentinel points to it and it points to the old first node.\<close>

lemma chain_link_front:
  assumes "chain f a ys z" "b \<notin> set ys" "a \<notin> set ys" "a \<noteq> b"
  shows "chain (f(b := f a, a := b)) a (b # ys) z"
proof -
  have "chain (f(b := f a, a := b)) b ys z"
    using assms by (cases ys) (auto simp: chain_upd)
  then show ?thesis by simp
qed

lemma chain_link_back:
  assumes "chain f a ys z" "distinct (a # ys)" "b \<notin> set ys" "a \<noteq> b"
  shows "chain (f(b := z, last (a # ys) := b)) a (ys @ [b]) z"
proof -
  have "last (a # ys) \<noteq> b"
    using assms(3,4) last_in_set [of "a # ys"] by auto
  moreover have "chain (f(b := z)) a ys z"
    using assms by (simp add: chain_upd)
  then have "chain (f(b := z, last (a # ys) := b)) a ys b"
    by (rule chain_end) (use assms(2) in auto)
  ultimately show ?thesis by (auto simp: chain_append)
qed

definition ring :: "(nat \<Rightarrow> buf) \<Rightarrow> nat list \<Rightarrow> bool" where
  "ring B xs \<longleftrightarrow> distinct xs \<and> set xs = {..<NBUF}
     \<and> chain (\<lambda>i. bnext (B i)) HEAD xs HEAD \<and> chain (\<lambda>i. bprev (B i)) HEAD (rev xs) HEAD"

lemma ring_distinct: "ring B xs \<Longrightarrow> distinct (HEAD # xs)"
  by (auto simp: ring_def)

lemma ring_length: "ring B xs \<Longrightarrow> length xs = NBUF"
  using distinct_card [of xs] by (simp add: ring_def)

text \<open>Only the pointers matter to the ring.\<close>

lemma ring_cong:
  assumes "\<And>i. bnext (B i) = bnext (C i)" "\<And>i. bprev (B i) = bprev (C i)"
  shows "ring B xs = ring C xs"
  using assms by (simp add: ring_def)

text \<open>The pointer surgery of \<open>brelse\<close> moves the buffer to the front of the ring.\<close>

lemma ring_move_to_front:
  assumes ring: "ring B (as @ b # cs)"
    and nxt: "(\<lambda>i. bnext (C i)) =
      (\<lambda>i. bnext (B i))(bprev (B b) := bnext (B b), b := hd (as @ cs @ [HEAD]), HEAD := b)"
    and prv: "(\<lambda>i. bprev (C i)) =
      (\<lambda>i. bprev (B i))(bnext (B b) := bprev (B b), b := HEAD, hd (as @ cs @ [HEAD]) := b)"
  shows "ring C (b # as @ cs)"
proof -
  let ?n = "\<lambda>i. bnext (B i)" and ?p = "\<lambda>i. bprev (B i)"
  have d: "distinct (HEAD # as @ b # cs)"
    using ring_distinct [OF ring] by simp
  have cn: "chain ?n HEAD (as @ b # cs) HEAD" and cp: "chain ?p HEAD (rev cs @ b # rev as) HEAD"
    using ring by (simp_all add: ring_def)
  have nb: "?n b = last (HEAD # rev cs)"
    using cn by (cases cs) (auto simp: chain_append)
  have "chain ?p b (rev as) HEAD"
    using cp by (simp add: chain_append)
  then have pb: "?p b = last (HEAD # as)"
    by (cases as rule: rev_cases) auto
  have n1: "chain (?n(?p b := ?n b)) HEAD (as @ cs) HEAD"
    unfolding pb by (rule chain_unlink [OF cn d])
  have "chain (?p(last (HEAD # rev cs) := ?p b)) HEAD (rev cs @ rev as) HEAD"
    by (rule chain_unlink [OF cp]) (use d in auto)
  then have p1: "chain (?p(?n b := ?p b)) HEAD (rev (as @ cs)) HEAD"
    by (simp add: nb)
  have first: "(?n(?p b := ?n b)) HEAD = hd (as @ cs @ [HEAD])"
    using chain_first [OF n1] by simp
  have "chain ((?n(?p b := ?n b))(b := hd (as @ cs @ [HEAD]), HEAD := b)) HEAD (b # as @ cs) HEAD"
    using chain_link_front [OF n1, of b] d first by auto
  moreover have l: "last (HEAD # rev (as @ cs)) = hd (as @ cs @ [HEAD])"
    by (cases as; cases cs) (auto simp: last_rev)
  then have "chain ((?p(?n b := ?p b))(b := HEAD, hd (as @ cs @ [HEAD]) := b))
      HEAD (rev (as @ cs) @ [b]) HEAD"
    using chain_link_back [OF p1, of b] d by auto
  moreover have "distinct (b # as @ cs)" "set (b # as @ cs) = {..<NBUF}"
    using ring d by (auto simp: ring_def)
  ultimately show ?thesis
    unfolding ring_def nxt prv by (simp del: rev_append chain.simps)
qed

section \<open>Releasing a buffer\<close>

text \<open>What a buffer holds, without its place in the list.\<close>

definition core :: "buf \<Rightarrow> u32 \<times> u32 \<times> u32 \<times> block" where
  "core x = (bflags x, bdev x, bsector x, bdata x)"

lemma wp_set_next [wp_simps]:
  "wp (set_next b k) Q s = Q () (s\<lparr>bufs := (bufs s)(b := (bufs s b)\<lparr>bnext := k\<rparr>)\<rparr>)"
  by (simp add: set_next_def wp_simps)

lemma wp_set_prev [wp_simps]:
  "wp (set_prev b k) Q s = Q () (s\<lparr>bufs := (bufs s)(b := (bufs s b)\<lparr>bprev := k\<rparr>)\<rparr>)"
  by (simp add: set_prev_def wp_simps)

lemma ring_neighbours:
  assumes "ring B (as @ b # cs)"
  shows "bnext (B b) = hd (cs @ [HEAD])" "bprev (B b) = last (HEAD # as)"
    "bnext (B HEAD) = hd (as @ [b])"
proof -
  have n: "chain (\<lambda>i. bnext (B i)) HEAD as b" "chain (\<lambda>i. bnext (B i)) b cs HEAD"
    and p: "chain (\<lambda>i. bprev (B i)) b (rev as) HEAD"
    using assms by (simp_all add: ring_def chain_append)
  show "bnext (B b) = hd (cs @ [HEAD])" using chain_first [OF n(2)] by simp
  show "bnext (B HEAD) = hd (as @ [b])" using chain_first [OF n(1)] by simp
  show "bprev (B b) = last (HEAD # as)"
    using p by (cases as rule: rev_cases) auto
qed

text \<open>A state given by the three fields that \<open>brelse\<close> writes, so that its steps can be followed
  on the pointer functions.\<close>

definition with_ptrs :: "'z bcache_scheme \<Rightarrow> (nat \<Rightarrow> nat) \<Rightarrow> (nat \<Rightarrow> nat) \<Rightarrow> (nat \<Rightarrow> u32) \<Rightarrow> 'z bcache_scheme" where
  "with_ptrs s N P F = s\<lparr>bufs := (\<lambda>i. (bufs s i)\<lparr>bnext := N i, bprev := P i, bflags := F i\<rparr>)\<rparr>"

lemma with_ptrs_self: "with_ptrs s (\<lambda>i. bnext (bufs s i)) (\<lambda>i. bprev (bufs s i)) (\<lambda>i. bflags (bufs s i)) = s"
  by (simp add: with_ptrs_def)

lemma wp_with_ptrs:
  "wp (set_next b k) Q (with_ptrs s N P F) = Q () (with_ptrs s (N(b := k)) P F)"
  "wp (set_prev b k) Q (with_ptrs s N P F) = Q () (with_ptrs s N (P(b := k)) F)"
  "wp (set_flags b f) Q (with_ptrs s N P F) = Q () (with_ptrs s N P (F(b := f)))"
  "wp (get_buf b) R (with_ptrs s N P F) =
     R ((bufs s b)\<lparr>bnext := N b, bprev := P b, bflags := F b\<rparr>) (with_ptrs s N P F)"
  by (simp_all add: wp_simps with_ptrs_def)
     (auto intro!: arg_cong [where f = "\<lambda>B. Q () (s\<lparr>bufs := B\<rparr>)"] simp: fun_eq_iff)

text \<open>\<open>brelse\<close> clears the busy flag and moves the buffer to the front of the list; the other
  buffers keep their order and contents.\<close>

lemma wp_brelse_ring:
  assumes busy: "busy (bufs s b)" and ring: "ring (bufs s) (as @ b # cs)"
    and post: "\<And>C. ring C (b # as @ cs) \<Longrightarrow>
      (\<And>i. core (C i) = core (((bufs s)(b := (bufs s b)\<lparr>bflags := bflags (bufs s b) AND NOT B_BUSY\<rparr>)) i)) \<Longrightarrow>
      Q () (s\<lparr>bufs := C\<rparr>)"
  shows "wp (brelse b) Q s"
proof -
  let ?N = "\<lambda>i. bnext (bufs s i)" and ?P = "\<lambda>i. bprev (bufs s i)" and ?F = "\<lambda>i. bflags (bufs s i)"
  have d: "distinct (HEAD # as @ b # cs)" using ring_distinct [OF ring] .
  have lst: "last (HEAD # as) \<noteq> b" using d last_in_set [of "HEAD # as"] by auto
  have hdc: "hd (cs @ [HEAD]) \<noteq> b" using d hd_in_set [of "cs @ [HEAD]"] by auto
  have hb: "HEAD \<noteq> b" using d by auto
  have "HEAD = last (HEAD # as) \<longleftrightarrow> as = []"
    using d by (cases as rule: rev_cases) auto
  then have h: "(?N(?P b := ?N b)) HEAD = hd (as @ cs @ [HEAD])"
    using ring_neighbours [OF ring] by (cases as) auto
  have nb: "?N b \<noteq> b" "?P b \<noteq> b"
    using ring_neighbours [OF ring] lst hdc by auto
  have fl: "?F b AND B_BUSY \<noteq> 0" using busy by (simp add: flag_simps)
  let ?N' = "?N(?P b := ?N b, b := hd (as @ cs @ [HEAD]), HEAD := b)"
  let ?P' = "?P(?N b := ?P b, b := HEAD, hd (as @ cs @ [HEAD]) := b)"
  let ?C = "\<lambda>i. (bufs s i)\<lparr>bnext := ?N' i, bprev := ?P' i, bflags := (?F(b := ?F b AND NOT B_BUSY)) i\<rparr>"
  have "Q () (s\<lparr>bufs := ?C\<rparr>)"
  proof (rule post)
    show "ring ?C (b # as @ cs)"
      by (rule ring_move_to_front [OF ring]) (auto simp: fun_eq_iff)
  qed (simp add: core_def)
  then have "Q () (with_ptrs s ?N' ?P' (?F(b := ?F b AND NOT B_BUSY)))"
    by (simp add: with_ptrs_def)
  moreover have "wp (brelse b) Q (with_ptrs s ?N ?P ?F) =
    Q () (with_ptrs s ?N' ?P' (?F(b := ?F b AND NOT B_BUSY)))"
    using fl nb h hb by (simp add: brelse_def wp_bind wp_andthen wp_with_ptrs del: fun_upd_apply) simp
  ultimately show ?thesis by (simp add: with_ptrs_self)
qed
section \<open>Looking a sector up\<close>

definition caches :: "buf \<Rightarrow> u32 \<Rightarrow> u32 \<Rightarrow> bool" where
  "caches x dev sector \<longleftrightarrow> bdev x = dev \<and> bsector x = sector"

lemma bget_lookup_chain:
  assumes "chain (\<lambda>i. bnext (bufs s i)) a xs HEAD" "HEAD \<notin> set xs" "length xs < fuel"
  shows "bget_lookup fuel dev sector (bnext (bufs s a)) s =
    (case find (\<lambda>i. caches (bufs s i) dev sector) xs of
       None \<Rightarrow> Ok None s
     | Some i \<Rightarrow> if busy (bufs s i) then Fail Hang s
         else Ok (Some i) (s\<lparr>bufs := (bufs s)(i := (bufs s i)\<lparr>bflags := bflags (bufs s i) OR B_BUSY\<rparr>)\<rparr>))"
  using assms
proof (induction xs arbitrary: a fuel)
  case Nil
  then show ?case by (cases fuel) (simp_all add: return_def)
next
  case (Cons x xs)
  then obtain k where k: "fuel = Suc k" by (cases fuel) auto
  have "bget_lookup k dev sector (bnext (bufs s x)) s =
    (case find (\<lambda>i. caches (bufs s i) dev sector) xs of
       None \<Rightarrow> Ok None s
     | Some i \<Rightarrow> if busy (bufs s i) then Fail Hang s
         else Ok (Some i) (s\<lparr>bufs := (bufs s)(i := (bufs s i)\<lparr>bflags := bflags (bufs s i) OR B_BUSY\<rparr>)\<rparr>))"
    using Cons.prems k by (intro Cons.IH) auto
  moreover have "bnext (bufs s a) = x" "x \<noteq> HEAD" using Cons.prems by auto
  ultimately show ?case
    unfolding k
    by (simp add: bind_def get_buf_def gets_def caches_def flag_simps set_flags_def upd_buf_def
        modify_def andthen_def return_def fail_def)
qed

lemma bget_recycle_chain:
  assumes "chain (\<lambda>i. bprev (bufs s i)) a xs HEAD" "HEAD \<notin> set xs" "length xs < fuel"
  shows "bget_recycle fuel dev sector (bprev (bufs s a)) s =
    (case find (\<lambda>i. \<not> busy (bufs s i) \<and> \<not> dirty (bufs s i)) xs of
       None \<Rightarrow> Ok None s
     | Some i \<Rightarrow> Ok (Some i) (s\<lparr>bufs := (bufs s)(i := (bufs s i)\<lparr>bdev := dev, bsector := sector, bflags := B_BUSY\<rparr>)\<rparr>))"
  using assms
proof (induction xs arbitrary: a fuel)
  case Nil
  then show ?case by (cases fuel) (simp_all add: return_def)
next
  case (Cons x xs)
  then obtain k where k: "fuel = Suc k" by (cases fuel) auto
  have "bget_recycle k dev sector (bprev (bufs s x)) s =
    (case find (\<lambda>i. \<not> busy (bufs s i) \<and> \<not> dirty (bufs s i)) xs of
       None \<Rightarrow> Ok None s
     | Some i \<Rightarrow> Ok (Some i) (s\<lparr>bufs := (bufs s)(i := (bufs s i)\<lparr>bdev := dev, bsector := sector, bflags := B_BUSY\<rparr>)\<rparr>))"
    using Cons.prems k by (intro Cons.IH) auto
  moreover have "bprev (bufs s a) = x" "x \<noteq> HEAD" using Cons.prems by auto
  ultimately show ?case
    unfolding k
    by (simp add: bind_def get_buf_def gets_def flag_simps upd_buf_def
        modify_def andthen_def return_def)
qed

text \<open>Both loops on the whole ring: \<open>bget\<close> as a function of the list it walks.\<close>

lemma bget_ring:
  assumes "ring (bufs s) xs"
  shows "bget dev sector s =
    (case find (\<lambda>i. caches (bufs s i) dev sector) xs of
       Some i \<Rightarrow> if busy (bufs s i) then Fail Hang s
         else Ok i (s\<lparr>bufs := (bufs s)(i := (bufs s i)\<lparr>bflags := bflags (bufs s i) OR B_BUSY\<rparr>)\<rparr>)
     | None \<Rightarrow> (case find (\<lambda>i. \<not> busy (bufs s i) \<and> \<not> dirty (bufs s i)) (rev xs) of
         None \<Rightarrow> Fail (Panic ''bget: no buffers'') s
       | Some i \<Rightarrow> Ok i (s\<lparr>bufs := (bufs s)(i := (bufs s i)\<lparr>bdev := dev, bsector := sector, bflags := B_BUSY\<rparr>)\<rparr>)))"
proof -
  have h: "HEAD \<notin> set xs" "HEAD \<notin> set (rev xs)" using ring_distinct [OF assms] by auto
  have l: "length xs < Suc NBUF" "length (rev xs) < Suc NBUF" using ring_length [OF assms] by auto
  have c: "chain (\<lambda>i. bnext (bufs s i)) HEAD xs HEAD" "chain (\<lambda>i. bprev (bufs s i)) HEAD (rev xs) HEAD"
    using assms by (auto simp: ring_def)
  show ?thesis
    unfolding bget_def bind_def get_buf_def gets_def result.case
      bget_lookup_chain [OF c(1) h(1) l(1)]
    by (cases "find (\<lambda>i. caches (bufs s i) dev sector) xs";
        cases "find (\<lambda>i. \<not> busy (bufs s i) \<and> \<not> dirty (bufs s i)) (rev xs)")
       (simp_all add: bget_recycle_chain [OF c(2) h(2) l(2)] return_def fail_def
         del: bget_recycle.simps)
qed

section \<open>The invariant of the cache\<close>

definition buf_ok :: "'z host_scheme \<Rightarrow> buf \<Rightarrow> bool" where
  "buf_ok s x \<longleftrightarrow> (bdev x = ROOTDEV \<or> bdev x = - 1) \<and> (valid x \<longleftrightarrow> bdev x = ROOTDEV)
     \<and> (dirty x \<longrightarrow> valid x) \<and> (busy x \<longrightarrow> valid x)
     \<and> (valid x \<longrightarrow> in_image s (bsector x))
     \<and> (valid x \<and> \<not> dirty x \<and> \<not> busy x \<longrightarrow> bdata x = img s (bsector x))"

definition unique_sectors :: "(nat \<Rightarrow> buf) \<Rightarrow> bool" where
  "unique_sectors B \<longleftrightarrow> (\<forall>i < NBUF. \<forall>j < NBUF. bdev (B i) = ROOTDEV \<and> bdev (B j) = ROOTDEV
     \<and> bsector (B i) = bsector (B j) \<longrightarrow> i = j)"

definition binv :: "'z bcache_scheme \<Rightarrow> bool" where
  "binv s \<longleftrightarrow> (\<exists>xs. ring (bufs s) xs) \<and> (\<forall>i < NBUF. buf_ok s (bufs s i)) \<and> unique_sectors (bufs s)"

text \<open>The buffer that caches a sector, and the content of a block as the file system sees it.\<close>

definition slot :: "(nat \<Rightarrow> buf) \<Rightarrow> u32 \<Rightarrow> nat option" where
  "slot B b = find (\<lambda>i. caches (B i) ROOTDEV b) [0..<NBUF]"

definition blk :: "'z bcache_scheme \<Rightarrow> u32 \<Rightarrow> block" where
  "blk s b = (case slot (bufs s) b of Some i \<Rightarrow> bdata (bufs s i) | None \<Rightarrow> img s b)"

definition cached :: "'z bcache_scheme \<Rightarrow> u32 \<Rightarrow> bool" where
  "cached s b \<longleftrightarrow> (\<exists>i < NBUF. caches (bufs s i) ROOTDEV b)"

text \<open>The sectors with a dirty buffer, and the sectors with a busy one.\<close>

definition dirty_at :: "'z bcache_scheme \<Rightarrow> u32 set" where
  "dirty_at s = {b. \<exists>i < NBUF. caches (bufs s i) ROOTDEV b \<and> dirty (bufs s i)}"

definition busy_at :: "'z bcache_scheme \<Rightarrow> u32 set" where
  "busy_at s = {b. \<exists>i < NBUF. caches (bufs s i) ROOTDEV b \<and> busy (bufs s i)}"

lemma unique_caches:
  assumes "unique_sectors B" "caches (B i) ROOTDEV b" "caches (B j) ROOTDEV b" "i < NBUF" "j < NBUF"
  shows "i = j"
  using assms(1) [unfolded unique_sectors_def, rule_format, of i j] assms(2-5)
  by (simp add: caches_def)

lemma find_Some_in: "find P xs = Some i \<Longrightarrow> i \<in> set xs \<and> P i"
  by (auto simp: find_Some_iff)

lemma find_unique:
  assumes "i \<in> set xs" "P i" "\<And>j. j \<in> set xs \<Longrightarrow> P j \<Longrightarrow> j = i"
  shows "find P xs = Some i"
proof -
  from assms(1,2) obtain j where j: "find P xs = Some j"
    by (metis find_None_iff not_None_eq)
  then have "j \<in> set xs" "P j"
    by (auto simp: find_Some_iff)
  then show ?thesis using assms(3) j by blast
qed

lemma slot_Some: "slot B b = Some i \<Longrightarrow> i < NBUF \<and> caches (B i) ROOTDEV b"
  by (auto simp: slot_def find_Some_iff)

lemma slot_cong:
  "(\<And>i. i < NBUF \<Longrightarrow> caches (B i) ROOTDEV b = caches (C i) ROOTDEV b) \<Longrightarrow> slot B b = slot C b"
  unfolding slot_def by (rule find_cong) auto

lemma slot_unique:
  assumes "unique_sectors B" "i < NBUF" "caches (B i) ROOTDEV b"
  shows "slot B b = Some i"
  unfolding slot_def
proof (rule find_unique [where P = "\<lambda>i. caches (B i) ROOTDEV b"])
  show "j = i" if "j \<in> set [0..<NBUF]" "caches (B j) ROOTDEV b" for j
    using unique_caches [OF assms(1) that(2) assms(3) _ assms(2)] that(1) by simp
qed (use assms in auto)

lemma blk_cached:
  "binv s \<Longrightarrow> i < NBUF \<Longrightarrow> caches (bufs s i) ROOTDEV b \<Longrightarrow> blk s b = bdata (bufs s i)"
  by (simp add: blk_def binv_def slot_unique)

lemma blk_uncached: "\<not> cached s b \<Longrightarrow> blk s b = img s b"
  by (auto simp: blk_def cached_def dest: slot_Some split: option.split)

text \<open>What the invariant and the views depend on: the ring, the contents of the buffers, and the
  image.\<close>

lemma core_fields:
  "core x = core y \<Longrightarrow> bflags x = bflags y \<and> bdev x = bdev y \<and> bsector x = bsector y \<and> bdata x = bdata y
     \<and> busy x = busy y \<and> valid x = valid y \<and> dirty x = dirty y"
  by (simp add: core_def busy_def valid_def dirty_def)

lemma buf_ok_core: "core x = core y \<Longrightarrow> buf_ok s x = buf_ok s y"
  by (drule core_fields) (simp add: buf_ok_def)

lemma buf_ok_host: "img s = img t \<Longrightarrow> imglen s = imglen t \<Longrightarrow> buf_ok s x = buf_ok t x"
  by (simp add: buf_ok_def in_image_def)

lemma caches_core: "core x = core y \<Longrightarrow> caches x d b = caches y d b"
  by (drule core_fields) (simp add: caches_def)

section \<open>The concrete cache as an abstract one\<close>

definition view :: "'z bcache_scheme \<Rightarrow> cview" where
  "view s = \<lparr>v_blk = blk s, v_dirty = dirty_at s, v_busy = busy_at s, v_img = img s, v_hist = hist s\<rparr>"

definition holds :: "'z bcache_scheme \<Rightarrow> nat \<Rightarrow> u32 \<Rightarrow> bool" where
  "holds s i b \<longleftrightarrow> i < NBUF \<and> caches (bufs s i) ROOTDEV b \<and> busy (bufs s i)"

definition cframe :: "'z bcache_scheme \<Rightarrow> 'z bcache_scheme \<Rightarrow> bool" where
  "cframe s t \<longleftrightarrow> imglen t = imglen s \<and> clock t = clock s \<and> ticks t = ticks s
     \<and> bcache.more t = bcache.more s"

lemma cframe_refl [simp]: "cframe s s"
  by (simp add: cframe_def)

lemma cframe_trans [trans]: "cframe s t \<Longrightarrow> cframe t u \<Longrightarrow> cframe s u"
  by (simp add: cframe_def)

lemma view_core:
  assumes "\<And>i. i < NBUF \<Longrightarrow> core (bufs s i) = core (bufs t i)" "img t = img s" "hist t = hist s"
  shows "view t = view s"
proof -
  have c: "caches (bufs s i) ROOTDEV b = caches (bufs t i) ROOTDEV b"
    "bdata (bufs s i) = bdata (bufs t i)" "dirty (bufs s i) = dirty (bufs t i)"
    "busy (bufs s i) = busy (bufs t i)" if "i < NBUF" for i b
    using caches_core [OF assms(1) [OF that]] core_fields [OF assms(1) [OF that]] by auto
  have f: "slot (bufs s) b = slot (bufs t) b" for b
    by (rule slot_cong) (rule c)
  have "blk t b = blk s b" for b
    using assms(2) c(2)
    by (auto simp: blk_def f dest!: slot_Some split: option.split)
  then show ?thesis
    using c assms(2,3) by (auto simp: view_def dirty_at_def busy_at_def)
qed

text \<open>A block is free to be changed, or its buffer is: the view after an update of one buffer that
  caches \<open>b\<close> before and after.\<close>

lemma view_upd:
  assumes inv: "binv s" and i: "i < NBUF" "caches (bufs s i) ROOTDEV b" "caches x ROOTDEV b"
    and t: "bufs t = (bufs s)(i := x)" "\<And>c. c \<noteq> b \<Longrightarrow> img t c = img s c" "hist t = h"
  shows "view t = \<lparr>v_blk = (blk s)(b := bdata x),
     v_dirty = (if dirty x then insert b (dirty_at s) else dirty_at s - {b}),
     v_busy = (if busy x then insert b (busy_at s) else busy_at s - {b}), v_img = img t, v_hist = h\<rparr>"
proof -
  have u: "unique_sectors (bufs s)" using inv by (simp add: binv_def)
  have same: "caches (bufs t j) ROOTDEV c = caches (bufs s j) ROOTDEV c" for j c
    using i t by (auto simp: caches_def)
  have at_b: "caches (bufs s j) ROOTDEV b \<longleftrightarrow> j = i" if "j < NBUF" for j
    using unique_caches [OF u _ i(2) that i(1)] i(2) by blast
  have off_b: "j \<noteq> i" if "caches (bufs s j) ROOTDEV c" "c \<noteq> b" for j c
    using i that by (auto simp: caches_def)
  have f: "slot (bufs t) c = slot (bufs s) c" for c
    by (rule slot_cong) (rule same)
  have b: "blk t b = bdata x"
    using slot_unique [OF u i(1,2)] t(1) f [of b] by (simp add: blk_def)
  have nb: "blk t c = blk s c" if "c \<noteq> b" for c
  proof (cases "slot (bufs s) c")
    case None
    then have "slot (bufs t) c = None" by (simp only: f)
    with None show ?thesis using t(2) that by (simp add: blk_def)
  next
    case (Some j)
    then have "slot (bufs t) c = Some j" by (simp only: f)
    moreover from Some have "j \<noteq> i" using off_b that slot_Some by blast
    ultimately show ?thesis using t Some by (simp add: blk_def)
  qed
  have "(c \<in> dirty_at t \<longleftrightarrow> c \<in> (if dirty x then insert b (dirty_at s) else dirty_at s - {b}))
    \<and> (c \<in> busy_at t \<longleftrightarrow> c \<in> (if busy x then insert b (busy_at s) else busy_at s - {b}))" for c
  proof (cases "c = b")
    case True
    then show ?thesis
      using i(1,3) t(1) by (auto simp: dirty_at_def busy_at_def same at_b intro: exI [of _ i])
  next
    case False
    have eq: "bufs t j = bufs s j" if "caches (bufs s j) ROOTDEV c" for j
      using off_b [OF that False] t(1) by simp
    have "c \<in> dirty_at t \<longleftrightarrow> c \<in> dirty_at s" "c \<in> busy_at t \<longleftrightarrow> c \<in> busy_at s"
      unfolding dirty_at_def busy_at_def same mem_Collect_eq using eq by metis+
    with False show ?thesis by simp
  qed
  then have "dirty_at t = (if dirty x then insert b (dirty_at s) else dirty_at s - {b})"
    "busy_at t = (if busy x then insert b (busy_at s) else busy_at s - {b})"
    by blast+
  moreover have "blk t = (blk s)(b := bdata x)" using b nb by auto
  ultimately show ?thesis
    using t(3) by (simp add: view_def)
qed


lemma busy_atI: "i < NBUF \<Longrightarrow> caches (bufs s i) ROOTDEV b \<Longrightarrow> busy (bufs s i) \<Longrightarrow> b \<in> busy_at s"
  by (auto simp: busy_at_def)

lemma holds_busy_at: "holds s i b \<Longrightarrow> b \<in> busy_at s"
  by (auto simp: holds_def busy_at_def)

lemma holds_data: "binv s \<Longrightarrow> holds s i b \<Longrightarrow> bdata (bufs s i) = blk s b"
  by (auto simp: holds_def blk_cached)

lemma holds_inject: "binv s \<Longrightarrow> holds s i b \<Longrightarrow> holds s j b \<Longrightarrow> i = j"
  using unique_caches by (auto simp: holds_def binv_def)

lemma holds_sector: "holds s i b \<Longrightarrow> holds s i c \<Longrightarrow> b = c"
  by (auto simp: holds_def caches_def)

lemma caches_inject:
  assumes "binv s" "i < NBUF" "caches (bufs s i) ROOTDEV b" "j < NBUF"
  shows "caches (bufs s j) ROOTDEV b \<longleftrightarrow> j = i"
  using assms unique_caches [of "bufs s" j b i] by (auto simp: binv_def)

lemma at_iff:
  assumes "binv s" "i < NBUF" "caches (bufs s i) ROOTDEV b"
  shows "b \<in> dirty_at s \<longleftrightarrow> dirty (bufs s i)" "b \<in> busy_at s \<longleftrightarrow> busy (bufs s i)"
  using caches_inject [OF assms] assms(2) by (auto simp: dirty_at_def busy_at_def)

text \<open>The invariant after an update of one buffer in place.\<close>

lemma binv_upd:
  assumes inv: "binv s" and i: "i < NBUF" and x: "bnext x = bnext (bufs s i)" "bprev x = bprev (bufs s i)"
    "buf_ok t x" "\<And>j. j < NBUF \<Longrightarrow> j \<noteq> i \<Longrightarrow> caches x ROOTDEV (bsector (bufs s j)) \<Longrightarrow> bdev (bufs s j) \<noteq> ROOTDEV"
    and t: "bufs t = (bufs s)(i := x)" "imglen t = imglen s"
      "\<And>j. j < NBUF \<Longrightarrow> j \<noteq> i \<Longrightarrow> img t (bsector (bufs s j)) = img s (bsector (bufs s j))
          \<or> bdev (bufs s j) \<noteq> ROOTDEV"
  shows "binv t"
proof -
  obtain xs where "ring (bufs s) xs" using inv by (auto simp: binv_def)
  then have "ring (bufs t) xs"
    using x t by (subst ring_cong [where C = "bufs s"]) auto
  moreover have "buf_ok t (bufs t j)" if "j < NBUF" for j
  proof (cases "j = i")
    case True
    then show ?thesis using x t by simp
  next
    case False
    then have "buf_ok s (bufs s j)" using inv that by (simp add: binv_def)
    with t(3) [OF that False] False t(1,2) show ?thesis
      by (auto simp: buf_ok_def in_image_def)
  qed
  moreover have "unique_sectors (bufs t)"
    unfolding unique_sectors_def
  proof (intro allI impI)
    fix j k assume jk: "j < NBUF" "k < NBUF" and same: "bdev (bufs t j) = ROOTDEV \<and>
      bdev (bufs t k) = ROOTDEV \<and> bsector (bufs t j) = bsector (bufs t k)"
    show "j = k"
    proof (cases "j = i \<or> k = i")
      case True
      then show ?thesis
        using jk same t(1) x(4) [of j] x(4) [of k] by (auto simp: caches_def split: if_splits)
    next
      case False
      then show ?thesis
        using jk same t(1) inv unique_caches [of "bufs s" j _ k] by (auto simp: binv_def caches_def)
    qed
  qed
  ultimately show ?thesis by (auto simp: binv_def)
qed

section \<open>The operations refine the abstract cache\<close>

text \<open>A recyclable buffer exists while fewer than \<open>NBUF\<close> sectors are pinned or in use.\<close>

definition room :: "'z bcache_scheme \<Rightarrow> bool" where
  "room s \<longleftrightarrow> card (dirty_at s \<union> busy_at s) < NBUF"

lemma room_recyclable:
  assumes inv: "binv s" and r: "room s"
  shows "\<exists>i < NBUF. \<not> busy (bufs s i) \<and> \<not> dirty (bufs s i)"
proof (rule ccontr)
  assume "\<not> ?thesis"
  then have all: "busy (bufs s i) \<or> dirty (bufs s i)" if "i < NBUF" for i
    using that by blast
  then have dev: "bdev (bufs s i) = ROOTDEV" if "i < NBUF" for i
    using inv that by (auto simp: binv_def buf_ok_def)
  have inj: "inj_on (\<lambda>i. bsector (bufs s i)) {..<NBUF}"
    using inv dev unfolding binv_def unique_sectors_def inj_on_def by auto
  have "(\<lambda>i. bsector (bufs s i)) ` {..<NBUF} \<subseteq> dirty_at s \<union> busy_at s"
    using all dev by (auto simp: dirty_at_def busy_at_def caches_def)
  moreover have "finite (dirty_at s \<union> busy_at s)" by simp
  ultimately have "card ((\<lambda>i. bsector (bufs s i)) ` {..<NBUF}) \<le> card (dirty_at s \<union> busy_at s)"
    by (intro card_mono)
  then have "NBUF \<le> card (dirty_at s \<union> busy_at s)"
    by (simp add: card_image [OF inj])
  then show False using r by (simp add: room_def)
qed

text \<open>Recycling a clean buffer for a sector that is not cached changes no block.\<close>

lemma view_recycle:
  assumes inv: "binv s" and nc: "\<not> cached s b" and i: "i < NBUF" "\<not> busy (bufs s i)" "\<not> dirty (bufs s i)"
    and x: "caches x ROOTDEV b" "busy x" "\<not> dirty x" "bdata x = img s b"
    and t: "bufs t = (bufs s)(i := x)" "img t = img s" "hist t = hist s"
  shows "view t = a_bread b (view s)"
proof -
  have u: "unique_sectors (bufs s)" and ok: "buf_ok s (bufs s i)"
    using inv i by (auto simp: binv_def)
  have nb: "\<not> caches (bufs s j) ROOTDEV b" if "j < NBUF" for j
    using nc that by (auto simp: cached_def)
  have t_b: "caches (bufs t j) ROOTDEV b \<longleftrightarrow> j = i" if "j < NBUF" for j
    using nb [OF that] t(1) x(1) by auto
  have "slot (bufs t) b = Some i"
    unfolding slot_def by (rule find_unique) (use i(1) t_b in simp_all)
  then have b: "blk t b = blk s b"
    using t(1) x(4) nc by (simp add: blk_def [of t] blk_uncached)
  have off: "blk t c = blk s c" if "c \<noteq> b" for c
  proof -
    have tc: "caches (bufs t j) ROOTDEV c \<longleftrightarrow> j \<noteq> i \<and> caches (bufs s j) ROOTDEV c" for j
      using t(1) x(1) that by (auto simp: caches_def)
    show ?thesis
    proof (cases "slot (bufs s) c")
      case None
      then have "\<not> caches (bufs s j) ROOTDEV c" if "j < NBUF" for j
        using that by (auto simp: slot_def find_None_iff)
      then have "slot (bufs t) c = None"
        using tc by (auto simp: slot_def find_None_iff)
      then show ?thesis using None t(2) by (simp add: blk_def)
    next
      case (Some j)
      then have j: "j < NBUF" "caches (bufs s j) ROOTDEV c" using slot_Some by auto
      show ?thesis
      proof (cases "j = i")
        case True
        then have "\<not> cached t c"
          using caches_inject [OF inv j] tc by (auto simp: cached_def)
        moreover have "bdata (bufs s i) = img s c"
          using ok i j True by (auto simp: buf_ok_def caches_def)
        ultimately show ?thesis
          using blk_cached [OF inv j] True t(2) by (simp add: blk_uncached)
      next
        case False
        then have "slot (bufs t) c = Some j"
          unfolding slot_def
          by (intro find_unique) (use j tc caches_inject [OF inv j] in simp_all)
        then show ?thesis using Some False t(1) by (simp add: blk_def)
      qed
    qed
  qed
  have "blk t = blk s" using b off by (metis ext)
  moreover have "caches (bufs t j) ROOTDEV c \<and> dirty (bufs t j)
      \<longleftrightarrow> caches (bufs s j) ROOTDEV c \<and> dirty (bufs s j)"
    "caches (bufs t j) ROOTDEV c \<and> busy (bufs t j)
      \<longleftrightarrow> caches (bufs s j) ROOTDEV c \<and> busy (bufs s j) \<or> j = i \<and> c = b" for j c
    using t(1) x i by (auto simp: caches_def)
  then have "dirty_at t = dirty_at s" "busy_at t = insert b (busy_at s)"
    using i(1) by (auto simp: dirty_at_def busy_at_def)
  ultimately show ?thesis using t by (simp add: view_def a_bread_def)
qed

lemma wp_bread:
  assumes inv: "binv s" and im: "in_image s b" and nb: "b \<notin> busy_at s"
    and r: "cached s b \<or> room s"
    and post: "\<And>i t. binv t \<Longrightarrow> cframe s t \<Longrightarrow> view t = a_bread b (view s) \<Longrightarrow> holds t i b \<Longrightarrow>
      (\<And>j c. holds s j c \<Longrightarrow> holds t j c) \<Longrightarrow> Q i t"
  shows "wp (bread ROOTDEV b) Q s"
proof -
  obtain xs where ring: "ring (bufs s) xs" using inv by (auto simp: binv_def)
  have set: "set xs = {..<NBUF}" using ring by (simp add: ring_def)
  show ?thesis
  proof (cases "find (\<lambda>i. caches (bufs s i) ROOTDEV b) xs")
    case (Some i)
    then have i: "i < NBUF" "caches (bufs s i) ROOTDEV b"
      using find_Some_in [OF Some] set by auto
    have free: "\<not> busy (bufs s i)" using nb i by (auto simp: busy_at_def)
    have ok: "buf_ok s (bufs s i)" using inv i by (simp add: binv_def)
    let ?x = "(bufs s i)\<lparr>bflags := bflags (bufs s i) OR B_BUSY\<rparr>"
    let ?t = "s\<lparr>bufs := (bufs s)(i := ?x)\<rparr>"
    have "bget ROOTDEV b s = Ok i ?t"
      using bget_ring [OF ring, of ROOTDEV b] Some free by simp
    moreover have "valid ?x" using ok i by (simp add: buf_ok_def caches_def flag_simps valid_def)
    ultimately have run: "wp (bread ROOTDEV b) Q s = Q i ?t"
      by (simp add: bread_def wp_bind wp_andthen wp_unless wp_return wp_get_buf flag_simps
          wp_def [of "bget ROOTDEV b"])
    have fl: "dirty ?x = dirty (bufs s i)" "valid ?x = valid (bufs s i)" "busy ?x"
      by (simp_all add: flag_simps dirty_def valid_def)
    have v: "view ?t = a_bread b (view s)"
      using view_upd [OF inv i, of ?x ?t] fl i at_iff [OF inv i] blk_cached [OF inv i]
      by (auto simp: caches_def a_bread_def view_def insert_absorb)
    show ?thesis unfolding run
    proof (rule post)
      show "binv ?t"
        by (rule binv_upd [OF inv i(1)])
           (use ok fl i unique_caches [of "bufs s"] inv in \<open>auto simp: buf_ok_def in_image_def binv_def caches_def\<close>)
    qed (use v i fl in \<open>auto simp: cframe_def holds_def caches_def\<close>)
  next
    case None
    then have nc: "\<not> cached s b" using set by (auto simp: find_None_iff cached_def)
    obtain i where fnd: "find (\<lambda>i. \<not> busy (bufs s i) \<and> \<not> dirty (bufs s i)) (rev xs) = Some i"
      using room_recyclable [OF inv] r nc set find_None_iff [of _ "rev xs"] by fastforce
    then have i: "i < NBUF" "\<not> busy (bufs s i)" "\<not> dirty (bufs s i)"
      using find_Some_in [OF fnd] set by auto
    let ?y = "(bufs s i)\<lparr>bdev := ROOTDEV, bsector := b, bflags := B_BUSY\<rparr>"
    let ?x = "?y\<lparr>bdata := img s b, bflags := B_BUSY OR B_VALID\<rparr>"
    have got: "bget ROOTDEV b s = Ok i (s\<lparr>bufs := (bufs s)(i := ?y)\<rparr>)"
      using bget_ring [OF ring, of ROOTDEV b] None fnd by simp
    have fl: "busy ?x" "valid ?x" "\<not> dirty ?x" "busy ?y" "\<not> valid ?y" "\<not> dirty ?y"
      by (simp_all add: flag_simps)
    have "Q i (s\<lparr>fsstats := st, bufs := (bufs s)(i := ?x)\<rparr>)" for st
    proof (rule post)
      let ?t = "s\<lparr>fsstats := st, bufs := (bufs s)(i := ?x)\<rparr>"
      show "binv ?t"
        by (rule binv_upd [OF inv i(1), of ?x])
           (use fl im nc in \<open>auto simp: buf_ok_def in_image_def caches_def cached_def\<close>)
      show "view ?t = a_bread b (view s)"
        by (rule view_recycle [OF inv nc i, of ?x]) (use fl in \<open>simp_all add: caches_def\<close>)
      show "holds ?t j c" if "holds s j c" for j c
        using that i by (auto simp: holds_def)
    qed (use fl i in \<open>auto simp: cframe_def holds_def caches_def\<close>)
    then have "wp (iderw i) (\<lambda>_. Q i) (s\<lparr>bufs := (bufs s)(i := ?y)\<rparr>)"
      by (intro wp_iderw_read) (use fl im in \<open>simp_all add: in_image_def\<close>)
    then show ?thesis
      using got fl by (simp add: bread_def wp_bind wp_andthen wp_unless wp_return wp_get_buf flag_simps
          wp_def [of "bget ROOTDEV b"])
  qed
qed

lemma wp_store:
  assumes inv: "binv s" and h: "holds s i b"
    and post: "\<And>t. binv t \<Longrightarrow> cframe s t \<Longrightarrow> view t = a_store b d (view s) \<Longrightarrow>
      (\<And>j c. holds s j c \<Longrightarrow> holds t j c) \<Longrightarrow> Q () t"
  shows "wp (set_data i d) Q s"
  unfolding wp_set_data
proof (rule post)
  let ?x = "(bufs s i)\<lparr>bdata := d\<rparr>"
  let ?t = "s\<lparr>bufs := (bufs s)(i := ?x)\<rparr>"
  have i: "i < NBUF" "caches (bufs s i) ROOTDEV b" "busy (bufs s i)" using h by (auto simp: holds_def)
  have ok: "buf_ok s (bufs s i)" using inv i by (simp add: binv_def)
  show "binv ?t"
    by (rule binv_upd [OF inv i(1), of ?x])
       (use ok i caches_inject [OF inv i(1,2)] in \<open>auto simp: buf_ok_def in_image_def caches_def\<close>)
  show "view ?t = a_store b d (view s)"
    using view_upd [OF inv i(1,2), of ?x ?t] i at_iff [OF inv i(1,2)]
    by (auto simp: caches_def a_store_def view_def insert_absorb)
qed (use h in \<open>auto simp: cframe_def holds_def caches_def\<close>)

lemma wp_pin:
  assumes inv: "binv s" and h: "holds s i b"
    and post: "\<And>t. binv t \<Longrightarrow> cframe s t \<Longrightarrow> view t = a_pin b (view s) \<Longrightarrow>
      (\<And>j c. holds s j c \<Longrightarrow> holds t j c) \<Longrightarrow> Q () t"
  shows "wp (set_flags i (bflags (bufs s i) OR B_DIRTY)) Q s"
  unfolding wp_set_flags
proof (rule post)
  let ?x = "(bufs s i)\<lparr>bflags := bflags (bufs s i) OR B_DIRTY\<rparr>"
  let ?t = "s\<lparr>bufs := (bufs s)(i := ?x)\<rparr>"
  have i: "i < NBUF" "caches (bufs s i) ROOTDEV b" "busy (bufs s i)" using h by (auto simp: holds_def)
  have ok: "buf_ok s (bufs s i)" using inv i by (simp add: binv_def)
  have fl: "busy ?x" "valid ?x = valid (bufs s i)" "dirty ?x"
    using i by (auto simp: flag_simps busy_def valid_def)
  show "binv ?t"
    by (rule binv_upd [OF inv i(1), of ?x])
       (use ok i fl caches_inject [OF inv i(1,2)] in \<open>auto simp: buf_ok_def in_image_def caches_def\<close>)
  show "view ?t = a_pin b (view s)"
    using view_upd [OF inv i(1,2), of ?x ?t] i fl at_iff [OF inv i(1,2)] blk_cached [OF inv i(1,2)]
    by (auto simp: caches_def a_pin_def view_def insert_absorb)
qed (use h in \<open>auto simp: cframe_def holds_def caches_def flag_simps busy_def\<close>)

lemma wp_bwrite:
  assumes inv: "binv s" and h: "holds s i b"
    and post: "\<And>t. binv t \<Longrightarrow> cframe s t \<Longrightarrow> view t = a_bwrite b (view s) \<Longrightarrow>
      (\<And>j c. holds s j c \<Longrightarrow> holds t j c) \<Longrightarrow> Q () t"
  shows "wp (bwrite i) Q s"
proof -
  let ?f = "bflags (bufs s i) OR B_DIRTY"
  let ?y = "(bufs s i)\<lparr>bflags := ?f\<rparr>"
  let ?x = "(bufs s i)\<lparr>bflags := ?f AND NOT B_DIRTY\<rparr>"
  have i: "i < NBUF" "caches (bufs s i) ROOTDEV b" "busy (bufs s i)" using h by (auto simp: holds_def)
  have ok: "buf_ok s (bufs s i)" using inv i by (simp add: binv_def)
  have sec: "bsector (bufs s i) = b" "bdata (bufs s i) = blk s b"
    using i blk_cached [OF inv i(1,2)] by (auto simp: caches_def)
  have im: "in_image s b" using ok i sec by (auto simp: buf_ok_def caches_def)
  have fl: "busy ?x" "valid ?x = valid (bufs s i)" "\<not> dirty ?x" "busy ?y" "dirty ?y"
    using i by (auto simp: flag_simps busy_def valid_def)
  have "Q () (s\<lparr>img := (img s)(b := blk s b), hist := hist s @ [Write b (blk s b)], fsstats := st,
      bufs := (bufs s)(i := ?x)\<rparr>)" for st
  proof (rule post)
    let ?t = "s\<lparr>img := (img s)(b := blk s b), hist := hist s @ [Write b (blk s b)], fsstats := st,
      bufs := (bufs s)(i := ?x)\<rparr>"
    show "binv ?t"
      by (rule binv_upd [OF inv i(1), of ?x])
         (use ok i fl caches_inject [OF inv i(1,2)] in \<open>auto simp: buf_ok_def in_image_def caches_def\<close>)
    show "view ?t = a_bwrite b (view s)"
      using view_upd [OF inv i(1,2), of ?x ?t] i fl at_iff [OF inv i(1,2)] sec
      by (auto simp: caches_def a_bwrite_def view_def insert_absorb)
  qed (use h in \<open>auto simp: cframe_def holds_def caches_def flag_simps busy_def\<close>)
  then have "wp (iderw i) Q (s\<lparr>bufs := (bufs s)(i := ?y)\<rparr>)"
    by (intro wp_iderw_write) (use fl im sec in \<open>simp_all add: in_image_def\<close>)
  then show ?thesis
    using i by (simp add: bwrite_def wp_simps flag_simps)
qed

lemma wp_brelse:
  assumes inv: "binv s" and h: "holds s i b" and clean: "b \<in> dirty_at s \<or> blk s b = img s b"
    and post: "\<And>t. binv t \<Longrightarrow> cframe s t \<Longrightarrow> view t = a_brelse b (view s) \<Longrightarrow>
      (\<And>j c. holds s j c \<Longrightarrow> c \<noteq> b \<Longrightarrow> holds t j c) \<Longrightarrow> Q () t"
  shows "wp (brelse i) Q s"
proof -
  let ?x = "(bufs s i)\<lparr>bflags := bflags (bufs s i) AND NOT B_BUSY\<rparr>"
  have i: "i < NBUF" "caches (bufs s i) ROOTDEV b" "busy (bufs s i)" using h by (auto simp: holds_def)
  have ok: "buf_ok s (bufs s i)" using inv i by (simp add: binv_def)
  have sec: "bsector (bufs s i) = b" "bdata (bufs s i) = blk s b"
    using i blk_cached [OF inv i(1,2)] by (auto simp: caches_def)
  have fl: "\<not> busy ?x" "valid ?x = valid (bufs s i)" "dirty ?x = dirty (bufs s i)"
    by (auto simp: flag_simps dirty_def valid_def)
  obtain xs where ring: "ring (bufs s) xs" using inv by (auto simp: binv_def)
  then obtain as cs where "xs = as @ i # cs" using i by (metis ring_def lessThan_iff split_list)
  with ring have ring': "ring (bufs s) (as @ i # cs)" by simp
  show ?thesis
  proof (rule wp_brelse_ring [OF i(3) ring'])
    fix C assume C: "ring C (i # as @ cs)" and core: "\<And>j. core (C j) = core (((bufs s)(i := ?x)) j)"
    let ?u = "s\<lparr>bufs := (bufs s)(i := ?x)\<rparr>"
    let ?t = "s\<lparr>bufs := C\<rparr>"
    have "binv ?u"
      by (rule binv_upd [OF inv i(1), of ?x])
         (use ok i fl clean sec at_iff [OF inv i(1,2)] caches_inject [OF inv i(1,2)] in
           \<open>auto simp: buf_ok_def in_image_def caches_def\<close>)
    then have "buf_ok ?u (((bufs s)(i := ?x)) j)" if "j < NBUF" for j
      using that by (simp add: binv_def del: fun_upd_apply)
    then have "buf_ok ?t (C j)" if "j < NBUF" for j
      using that buf_ok_core [OF core [of j], of ?u] buf_ok_host [of ?u ?t] by simp
    moreover have "unique_sectors C"
      using \<open>binv ?u\<close> core_fields [OF core] unfolding binv_def unique_sectors_def
      by (simp del: fun_upd_apply)
    ultimately have inv': "binv ?t" using C by (auto simp: binv_def)
    have "view ?t = view ?u"
      by (rule view_core) (use core in \<open>simp_all del: fun_upd_apply\<close>)
    also have "\<dots> = a_brelse b (view s)"
      using view_upd [OF inv i(1,2), of ?x ?u] i fl at_iff [OF inv i(1,2)] sec
      by (auto simp: caches_def a_brelse_def view_def insert_absorb)
    finally have v: "view ?t = a_brelse b (view s)" .
    have "holds ?t j c" if "holds s j c" "c \<noteq> b" for j c
    proof -
      have "j \<noteq> i" using that sec by (auto simp: holds_def caches_def)
      then have "core (C j) = core (bufs s j)" using core [of j] by simp
      then show ?thesis using that core_fields [of "C j" "bufs s j"] caches_core [of "C j" "bufs s j"]
        by (simp add: holds_def)
    qed
    with inv' v show "Q () ?t" by (intro post) (simp_all add: cframe_def)
  qed
qed

lemma blk_clean:
  assumes inv: "binv s" and nd: "b \<notin> dirty_at s" and nb: "b \<notin> busy_at s"
  shows "blk s b = img s b"
proof (cases "cached s b")
  case True
  then obtain i where i: "i < NBUF" "caches (bufs s i) ROOTDEV b" by (auto simp: cached_def)
  then have "buf_ok s (bufs s i)" using inv by (simp add: binv_def)
  then show ?thesis
    using at_iff [OF inv i] nd nb blk_cached [OF inv i] i by (auto simp: buf_ok_def caches_def)
qed (simp add: blk_uncached)

section \<open>The code of bio.c implements the interface\<close>

interpretation bc: block_cache binv view holds cframe in_image NBUF "bread ROOTDEV" get_data set_data bwrite brelse
proof (unfold_locales, goal_cases)
  case 1 show ?case by simp
next
  case 2 then show ?case by (rule cframe_trans)
next
  case 3 then show ?case by (simp add: cframe_def in_image_def)
next
  case 4 then show ?case using holds_busy_at by (auto simp: view_def)
next
  case 5 then show ?case using blk_clean by (auto simp: view_def)
next
  case (6 s b Q)
  then show ?case
    by (intro wp_bread) (auto simp: view_def room_def cached_def dirty_at_def)
next
  case 7 then show ?case using holds_data by (fastforce simp: wp_get_data view_def)
next
  case 8 then show ?case by (intro wp_store) auto
next
  case 9 then show ?case by (intro wp_bwrite) auto
next
  case 10 then show ?case by (intro wp_brelse) (auto simp: view_def)
qed

interpretation sc: synced_cache binv view holds cframe in_image NBUF "bread ROOTDEV" get_data set_data bwrite brelse ideflush
proof (unfold_locales, goal_cases)
  case (1 s P)
  let ?t = "s\<lparr>hist := hist s @ [Sync], fsstats := (fsstats s)\<lparr>nflush := nflush (fsstats s) + 1\<rparr>\<rparr>"
  have "binv ?t" using 1(1) buf_ok_host [of ?t s] by (simp add: binv_def)
  moreover have "view ?t = a_sync (view s)"
    by (simp add: view_def a_sync_def dirty_at_def busy_at_def fun_eq_iff blk_def split: option.split)
  ultimately show ?case
    unfolding ideflush_def wp_unix_flush by (intro 1(2)) (simp_all add: cframe_def holds_def)
qed

section \<open>Initialisation\<close>

lemma ring_init:
  assumes n: "\<And>i. i \<le> NBUF \<Longrightarrow> bnext (B i) = (if i = 0 then HEAD else i - 1)"
    and p: "\<And>i. i \<le> NBUF \<Longrightarrow> bprev (B i) = (if i = HEAD then 0 else Suc i)"
  shows "ring B (rev [0..<NBUF])"
proof -
  have "k \<le> NBUF \<Longrightarrow> chain (\<lambda>i. bnext (B i)) k (rev [0..<k]) HEAD" for k
    by (induction k) (simp_all add: n)
  moreover have "k + j = NBUF \<Longrightarrow> chain (\<lambda>i. bprev (B i)) k [Suc k..<NBUF] HEAD" if "k < NBUF" for k j
    using that
  proof (induction j arbitrary: k)
    case (Suc j)
    show ?case
    proof (cases "Suc k = NBUF")
      case False
      then have "[Suc k..<NBUF] = Suc k # [Suc (Suc k)..<NBUF]" using Suc.prems by (simp add: upt_conv_Cons)
      then show ?thesis using False Suc.prems Suc.IH [of "Suc k"] p [of k] by simp
    qed (use p [of k] in simp)
  qed simp
  from this [of 0 NBUF] have "chain (\<lambda>i. bprev (B i)) HEAD [0..<NBUF] HEAD"
    using p [of NBUF] by (simp add: NBUF_def upt_conv_Cons)
  ultimately show ?thesis by (auto simp: ring_def)
qed

text \<open>The state of the buffers after \<open>binit\<close>.\<close>

definition linked :: "(nat \<Rightarrow> buf) \<Rightarrow> nat \<Rightarrow> nat \<Rightarrow> buf" where
  "linked B k i =
     (if i < k then (B i)\<lparr>bnext := if i = 0 then HEAD else i - 1, bprev := if Suc i = k then HEAD else Suc i, bdev := - 1\<rparr>
      else if i = HEAD then (B i)\<lparr>bnext := if k = 0 then HEAD else k - 1, bprev := if k = 0 then HEAD else 0\<rparr>
      else B i)"

lemma linked_head: "k \<le> NBUF \<Longrightarrow> bnext (linked B k HEAD) = (if k = 0 then HEAD else k - 1)"
  by (simp add: linked_def)

lemma linked_Suc:
  assumes "k < NBUF"
  shows "linked B (Suc k) = (let C = linked B k; n = bnext (C HEAD);
       D = C(k := (C k)\<lparr>bnext := n, bprev := HEAD, bdev := - 1\<rparr>); E = D(n := (D n)\<lparr>bprev := k\<rparr>)
     in E(HEAD := (E HEAD)\<lparr>bnext := k\<rparr>))"
  using assms unfolding Let_def by (intro ext) (simp add: linked_head, auto simp: linked_def)

lemma wp_binit: "wp binit Q s = Q () (s\<lparr>bufs := linked (bufs s) NBUF\<rparr>)"
proof -
  have "wp binit (\<lambda>_ t. t = s\<lparr>bufs := linked (bufs s) NBUF\<rparr>) s"
    unfolding binit_def wp_andthen wp_set_prev wp_set_next
  proof (rule wp_mfor [where I = "\<lambda>k t. t = s\<lparr>bufs := linked (bufs s) k\<rparr>"])
    fix k t assume k: "k < length [0..<NBUF]" "t = s\<lparr>bufs := linked (bufs s) k\<rparr>"
    have "k < NBUF" "k \<noteq> HEAD" "[0..<NBUF] ! k = k" using k(1) by auto
    then show "wp (bind (get_buf HEAD) (\<lambda>h. andthen (set_next ([0..<NBUF] ! k) (bnext h))
        (andthen (set_prev ([0..<NBUF] ! k) HEAD) (andthen (upd_buf ([0..<NBUF] ! k) (\<lambda>x. x\<lparr>bdev := - 1\<rparr>))
        (bind (get_buf HEAD) (\<lambda>h. andthen (set_prev (bnext h) ([0..<NBUF] ! k)) (set_next HEAD ([0..<NBUF] ! k)))))))) 
        (\<lambda>_ t. t = s\<lparr>bufs := linked (bufs s) (Suc k)\<rparr>) t"
      by (simp add: k(2) wp_simps linked_Suc Let_def)
  qed (auto simp: linked_def fun_eq_iff)
  then show ?thesis by (auto simp: wp_def split: result.splits)
qed

lemma ring_linked: "ring (linked B NBUF) (rev [0..<NBUF])"
  by (rule ring_init) (auto simp: linked_def NBUF_def)

lemma linked_cache:
  assumes "bufs s = linked B NBUF" "\<And>i. i < NBUF \<Longrightarrow> bflags (B i) = 0"
  shows "binv s" "busy_at s = {}" "dirty_at s = {}" "blk s = img s"
proof -
  have fl: "\<not> busy (bufs s i)" "\<not> valid (bufs s i)" "\<not> dirty (bufs s i)" "bdev (bufs s i) = -1" if "i < NBUF" for i
    using assms that by (simp_all add: linked_def busy_def valid_def dirty_def)
  then show "binv s"
    using ring_linked [of B] assms(1) by (auto simp: binv_def buf_ok_def unique_sectors_def ROOTDEV_def)
  show "busy_at s = {}" "dirty_at s = {}" using fl by (auto simp: busy_at_def dirty_at_def)
  show "blk s = img s"
    using fl by (intro ext blk_uncached) (auto simp: cached_def caches_def ROOTDEV_def)
qed

section \<open>Concrete caches\<close>

text \<open>Zeroed memory, and the cache after \<open>binit\<close>, over an image of ten blocks.\<close>

definition zero_buf :: buf where
  "zero_buf = \<lparr>bflags = 0, bdev = 0, bsector = 0, bprev = 0, bnext = 0, bdata = zero_block\<rparr>"

definition zero_stats :: stats where
  "zero_stats = \<lparr>nread = 0, nwrite = 0, nflush = 0, ngetattr = 0, nopen = 0, nrelease = 0, nreaddir = 0,
     nfuse_read = 0, nfuse_write = 0, ncreate = 0, ntrunc = 0, nmkdir = 0, nrmdir = 0, nunlink = 0\<rparr>"

definition zero_cache :: bcache where
  "zero_cache = \<lparr>img = (\<lambda>_. zero_block), imglen = 10, hist = [], fsstats = zero_stats, clock = (\<lambda>_. 0), ticks = 0,
     bufs = (\<lambda>_. zero_buf)\<rparr>"

definition fresh_cache :: bcache where
  "fresh_cache = zero_cache\<lparr>bufs := linked (\<lambda>_. zero_buf) NBUF\<rparr>"

lemma fresh_cache_ok: "binv fresh_cache" "busy_at fresh_cache = {}" "dirty_at fresh_cache = {}" "blk fresh_cache = img fresh_cache"
  using linked_cache [of fresh_cache "\<lambda>_. zero_buf"] by (simp_all add: fresh_cache_def zero_buf_def)

section \<open>Properties\<close>

text \<open>\<open>binit\<close> builds the cache: from zeroed flags it links all \<open>NBUF\<close> buffers into one ring, the last one
  first, and establishes the invariant of the cache, which then shows the disk unchanged.\<close>

theorem binit_establishes:
  assumes "\<forall>i < NBUF. bflags (bufs s i) = 0"
  shows "\<exists>t. binit s = Ok () t \<and> ring (bufs t) (rev [0..<NBUF]) \<and> binv t \<and> blk t = img s \<and> img t = img s
    \<and> dirty_at t = {} \<and> busy_at t = {}"
proof -
  let ?t = "s\<lparr>bufs := linked (bufs s) NBUF\<rparr>"
  have "wp binit (\<lambda>_ t. t = ?t) s" by (simp add: wp_binit)
  moreover have "bufs ?t = linked (bufs s) NBUF" by simp
  note c = linked_cache [OF this]
  ultimately show ?thesis using assms c ring_linked [of "bufs s"] by (auto dest!: wp_Ok)
qed

theorem binit_establishes_witness:
  "\<exists>t. binit zero_cache = Ok () t \<and> binv t \<and> ring (bufs t) (rev [0..<NBUF]) \<and> blk t 3 = zero_block"
  using binit_establishes [of zero_cache] by (auto simp: zero_cache_def zero_buf_def)

text \<open>C9. The cache is transparent: reading a block of the image that nobody is using succeeds whenever the
  block is cached or some buffer can be recycled, returns a buffer with the content of the block as the file
  system sees it, and changes neither the content of any block nor the disk nor the pinned blocks.\<close>

theorem bread_transparent:
  assumes "binv s" "in_image s b" "b \<notin> busy_at s"
    and "cached s b \<or> card (dirty_at s \<union> busy_at s) < NBUF"
  shows "\<exists>i t. bread ROOTDEV b s = Ok i t \<and> binv t \<and> bdata (bufs t i) = blk s b \<and> holds t i b
    \<and> blk t = blk s \<and> img t = img s \<and> hist t = hist s \<and> dirty_at t = dirty_at s \<and> busy_at t = insert b (busy_at s)"
proof -
  have "wp (bread ROOTDEV b) (\<lambda>i t. binv t \<and> bdata (bufs t i) = blk s b \<and> holds t i b
    \<and> blk t = blk s \<and> img t = img s \<and> hist t = hist s \<and> dirty_at t = dirty_at s \<and> busy_at t = insert b (busy_at s)) s"
  proof (rule wp_bread [OF assms(1-3)])
    show "cached s b \<or> room s" using assms(4) by (simp add: room_def)
    fix i t assume t: "binv t" "view t = a_bread b (view s)" "holds t i b"
    then show "binv t \<and> bdata (bufs t i) = blk s b \<and> holds t i b \<and> blk t = blk s \<and> img t = img s \<and> hist t = hist s
      \<and> dirty_at t = dirty_at s \<and> busy_at t = insert b (busy_at s)"
      using holds_data [OF t(1,3)] by (simp add: view_def a_bread_def)
  qed
  then show ?thesis by (auto dest: wp_Ok)
qed

theorem bread_transparent_witness:
  "\<exists>i t. bread ROOTDEV 3 fresh_cache = Ok i t \<and> bdata (bufs t i) = zero_block \<and> busy_at t = {3}"
proof -
  have "in_image fresh_cache 3" "img fresh_cache 3 = zero_block"
    by (simp_all add: fresh_cache_def zero_cache_def in_image_def)
  then show ?thesis using bread_transparent [of fresh_cache 3] fresh_cache_ok by (auto simp: NBUF_def)
qed

text \<open>\<open>bread\<close> never returns a buffer somebody else is using: it waits for it, which in this process never
  ends, and with every buffer in use or pinned it panics.\<close>

theorem bread_refuses:
  assumes "ring (bufs s) xs"
  shows "(find (\<lambda>i. caches (bufs s i) dev b) xs = Some i \<and> busy (bufs s i) \<longrightarrow> bread dev b s = Fail Hang s)
    \<and> (find (\<lambda>i. caches (bufs s i) dev b) xs = None \<and> (\<forall>i < NBUF. busy (bufs s i) \<or> dirty (bufs s i)) \<longrightarrow>
       bread dev b s = Fail (Panic ''bget: no buffers'') s)"
proof (intro conjI impI; elim conjE)
  assume "find (\<lambda>i. caches (bufs s i) dev b) xs = Some i" "busy (bufs s i)"
  then show "bread dev b s = Fail Hang s" by (simp add: bread_def bind_def bget_ring [OF assms])
next
  assume none: "find (\<lambda>i. caches (bufs s i) dev b) xs = None" and all: "\<forall>i < NBUF. busy (bufs s i) \<or> dirty (bufs s i)"
  have "find (\<lambda>i. \<not> busy (bufs s i) \<and> \<not> dirty (bufs s i)) (rev xs) = None"
    using all assms by (auto simp: find_None_iff ring_def)
  then show "bread dev b s = Fail (Panic ''bget: no buffers'') s"
    using none by (simp add: bread_def bind_def bget_ring [OF assms])
qed

definition busy_cache :: bcache where
  "busy_cache = fresh_cache\<lparr>bufs := (bufs fresh_cache)(5 := (bufs fresh_cache 5)\<lparr>bflags := 3, bdev := ROOTDEV, bsector := 2\<rparr>)\<rparr>"

theorem bread_refuses_witness: "bread ROOTDEV 2 busy_cache = Fail Hang busy_cache"
proof -
  have "ring (bufs busy_cache) (rev [0..<NBUF])"
    using ring_linked [of "\<lambda>_. zero_buf"] by (subst ring_cong) (auto simp: busy_cache_def fresh_cache_def zero_cache_def)
  moreover have "caches (bufs busy_cache j) ROOTDEV 2 = (j = 5)" if "j < NBUF" for j
    using that by (auto simp: busy_cache_def fresh_cache_def zero_cache_def caches_def linked_def ROOTDEV_def)
  then have "find (\<lambda>j. caches (bufs busy_cache j) ROOTDEV 2) (rev [0..<NBUF]) = Some 5"
    by (intro find_unique) (auto simp: NBUF_def)
  moreover have "busy (bufs busy_cache 5)" by (simp add: busy_cache_def busy_def)
  ultimately show ?thesis using bread_refuses [of busy_cache] by blast
qed

text \<open>C22. Replacement is least recently used: \<open>brelse\<close> makes the buffer the most recently used one and keeps the
  order of the others, and a miss recycles the least recently used buffer that is neither in use nor
  pinned.\<close>

theorem lru_replacement:
  assumes "ring (bufs s) (xs @ i # ys)"
  shows "(busy (bufs s i) \<longrightarrow> (\<exists>t. brelse i s = Ok () t \<and> ring (bufs t) (i # xs @ ys) \<and> \<not> busy (bufs t i)
      \<and> (\<forall>j. bdata (bufs t j) = bdata (bufs s j) \<and> bsector (bufs t j) = bsector (bufs s j))))
    \<and> ((\<forall>j \<in> set (xs @ i # ys). \<not> caches (bufs s j) dev b) \<and> (\<forall>j \<in> set ys. busy (bufs s j) \<or> dirty (bufs s j))
        \<and> \<not> busy (bufs s i) \<and> \<not> dirty (bufs s i) \<longrightarrow> (\<exists>t. bget dev b s = Ok i t \<and> caches (bufs t i) dev b \<and> busy (bufs t i)))"
proof (intro conjI impI)
  assume "busy (bufs s i)"
  then have "wp (brelse i) (\<lambda>_ t. ring (bufs t) (i # xs @ ys) \<and> \<not> busy (bufs t i)
      \<and> (\<forall>j. bdata (bufs t j) = bdata (bufs s j) \<and> bsector (bufs t j) = bsector (bufs s j))) s"
  proof (rule wp_brelse_ring [OF _ assms], intro conjI allI)
    fix C j assume C: "ring C (i # xs @ ys)"
      "\<And>j. core (C j) = core (((bufs s)(i := (bufs s i)\<lparr>bflags := bflags (bufs s i) AND NOT B_BUSY\<rparr>)) j)"
    show "ring (bufs (s\<lparr>bufs := C\<rparr>)) (i # xs @ ys)" using C(1) by simp
    show "\<not> busy (bufs (s\<lparr>bufs := C\<rparr>) i)" using core_fields [OF C(2) [of i]] by (simp add: busy_def flag_simps)
    show "bdata (bufs (s\<lparr>bufs := C\<rparr>) j) = bdata (bufs s j)" "bsector (bufs (s\<lparr>bufs := C\<rparr>) j) = bsector (bufs s j)"
      using C(2) [of j] by (auto simp: core_def split: if_splits)
  qed
  then show "\<exists>t. brelse i s = Ok () t \<and> ring (bufs t) (i # xs @ ys) \<and> \<not> busy (bufs t i)
      \<and> (\<forall>j. bdata (bufs t j) = bdata (bufs s j) \<and> bsector (bufs t j) = bsector (bufs s j))"
    by (auto dest: wp_Ok)
next
  assume a: "(\<forall>j \<in> set (xs @ i # ys). \<not> caches (bufs s j) dev b) \<and> (\<forall>j \<in> set ys. busy (bufs s j) \<or> dirty (bufs s j))
        \<and> \<not> busy (bufs s i) \<and> \<not> dirty (bufs s i)"
  then have "find (\<lambda>j. caches (bufs s j) dev b) (xs @ i # ys) = None" by (auto simp: find_None_iff)
  moreover have "find (\<lambda>j. \<not> busy (bufs s j) \<and> \<not> dirty (bufs s j)) (rev (xs @ i # ys)) = Some i"
  proof -
    have "find P (rev ys @ i # zs) = Some i" if "P i" "\<forall>j \<in> set ys. \<not> P j" for P zs
      using that by (induction ys rule: rev_induct) auto
    then show ?thesis using a by simp
  qed
  ultimately show "\<exists>t. bget dev b s = Ok i t \<and> caches (bufs t i) dev b \<and> busy (bufs t i)"
    unfolding bget_ring [OF assms] by (auto simp: caches_def flag_simps)
qed

theorem lru_replacement_witness: "\<exists>t. bget ROOTDEV 4 fresh_cache = Ok 0 t \<and> caches (bufs t 0) ROOTDEV 4"
proof -
  have r: "rev [0..<NBUF] = rev [1..<NBUF] @ 0 # []"
    using upt_conv_Cons [of 0 NBUF] by (simp add: NBUF_def)
  have "ring (bufs fresh_cache) (rev [1..<NBUF] @ 0 # [])"
    using ring_linked [of "\<lambda>_. zero_buf"] unfolding r by (simp add: fresh_cache_def)
  moreover have "\<not> caches (bufs fresh_cache j) ROOTDEV 4" "\<not> busy (bufs fresh_cache j)" "\<not> dirty (bufs fresh_cache j)" if "j < NBUF" for j
    using that by (auto simp: fresh_cache_def caches_def linked_def ROOTDEV_def busy_def dirty_def zero_buf_def)
  ultimately show ?thesis
    using lru_replacement [of fresh_cache "rev [1..<NBUF]" 0 "[]" ROOTDEV 4] by (auto simp: NBUF_def)
qed

end
