(* ===== verification/Xv6_Log.thy ===== *)
theory Xv6_Log
  imports Xv6_Bio
begin

text \<open>
  The redo log of \<open>xv6/log.c\<close>, with \<open>readsb\<close> of \<open>xv6/fs.c\<close>, which it calls. The definitions
  follow the file from top to bottom; \<open>begin_op\<close> waits for another system call by looping around
  \<open>sleep\<close>, which in the single-threaded process is \<^const>\<open>Hang\<close>.
\<close>

section \<open>State (log.c, lines 34 to 51)\<close>

text \<open>The in-memory \<open>struct log\<close>; \<open>lh_n\<close> and \<open>lh_sector\<close> are the \<open>struct logheader lh\<close> in it. The
  C \<open>int\<close> counters are integers; sector numbers keep their 32 bits.\<close>

record log =
  lstart :: int
  lsize :: int
  outstanding :: int
  committing :: int
  ldev :: u32
  lh_n :: int
  lh_sector :: "nat \<Rightarrow> u32"

record logst = bcache +
  thelog :: log

definition get_log :: "('z logst_scheme, log) xm" where
  "get_log = gets thelog"

definition upd_log :: "(log \<Rightarrow> log) \<Rightarrow> ('z logst_scheme, unit) xm" where
  "upd_log f = modify (\<lambda>s. s\<lparr>thelog := f (thelog s)\<rparr>)"

text \<open>\<open>thelog.lh.sector[i]\<close>: an array of \<open>LOGSIZE\<close> entries.\<close>

definition head_sector :: "nat \<Rightarrow> ('z logst_scheme, u32) xm" where
  "head_sector i = (if i < LOGSIZE then gets (\<lambda>s. lh_sector (thelog s) i)
     else fail (Undef ''lh.sector: index out of range''))"

text \<open>The block that holds copy number \<open>tail\<close> of the transaction: \<open>thelog.start+tail+1\<close>.\<close>

definition log_slot :: "log \<Rightarrow> nat \<Rightarrow> u32" where
  "log_slot L tail = word_of_int (lstart L + int tail + 1)"

definition log_head :: "log \<Rightarrow> u32" where
  "log_head L = word_of_int (lstart L)"

section \<open>Operations\<close>

text \<open>\<open>readsb\<close> (fs.c).\<close>

definition readsb :: "u32 \<Rightarrow> ('z bcache_scheme, superblock) xm" where
  "readsb dev =
     bind (bread dev 1) (\<lambda>bp.
     bind (get_data bp) (\<lambda>d.
     andthen (brelse bp)
       (return (get_sb d))))"

definition install_trans :: "('z logst_scheme, unit) xm" where
  "install_trans =
     bind get_log (\<lambda>L.
     mfor [0..<nat (lh_n L)] (\<lambda>tail.
       bind (bread (ldev L) (log_slot L tail)) (\<lambda>lbuf.
       bind (head_sector tail) (\<lambda>sec.
       bind (bread (ldev L) sec) (\<lambda>dbuf.
       bind (get_data lbuf) (\<lambda>d.
       andthen (set_data dbuf d) (
       andthen (bwrite dbuf) (
       andthen (brelse lbuf)
         (brelse dbuf)))))))))"

definition read_head :: "('z logst_scheme, unit) xm" where
  "read_head =
     bind get_log (\<lambda>L.
     bind (bread (ldev L) (log_head L)) (\<lambda>b.
     bind (get_data b) (\<lambda>d.
     let n = sint (get32 d 0) in
     if int LOGSIZE < n then fail (Undef ''lh.sector: index out of range'')
     else
       andthen (upd_log (\<lambda>L. L\<lparr>lh_n := n,
         lh_sector := (\<lambda>i. if i < nat n then get32 d (4 + 4 * i) else lh_sector L i)\<rparr>))
         (brelse b))))"

definition write_head :: "('z logst_scheme, unit) xm" where
  "write_head =
     andthen ideflush (
     bind get_log (\<lambda>L.
     bind (bread (ldev L) (log_head L)) (\<lambda>b.
     bind (get_data b) (\<lambda>d.
     if int LOGSIZE < lh_n L then fail (Undef ''lh.sector: index out of range'')
     else
       andthen (set_data b (put_addrs (put32 d 0 (word_of_int (lh_n L))) 4 (lh_sector L) (nat (lh_n L)))) (
       andthen (bwrite b) (
       andthen ideflush
         (brelse b)))))))"

definition recover_from_log :: "('z logst_scheme, unit) xm" where
  "recover_from_log =
     andthen read_head (
     andthen install_trans (
     andthen (upd_log (\<lambda>L. L\<lparr>lh_n := 0\<rparr>))
       write_head))"

text \<open>\<open>sizeof(struct logheader)\<close> is \<open>4 + 4 * LOGSIZE\<close>.\<close>

definition initlog :: "('z logst_scheme, unit) xm" where
  "initlog =
     (if BSIZE \<le> 4 + 4 * LOGSIZE then panic ''initlog: too big logheader''
      else
        bind (readsb ROOTDEV) (\<lambda>sb.
        andthen (upd_log (\<lambda>L. L\<lparr>lstart := sint (sb_size sb - sb_nlog sb),
            lsize := sint (sb_nlog sb), ldev := ROOTDEV\<rparr>))
          recover_from_log))"

definition begin_op :: "('z logst_scheme, unit) xm" where
  "begin_op =
     bind get_log (\<lambda>L.
     if committing L \<noteq> 0 then fail Hang
     else if int LOGSIZE < lh_n L + (outstanding L + 1) * int MAXOPBLOCKS then fail Hang
     else upd_log (\<lambda>L. L\<lparr>outstanding := outstanding L + 1\<rparr>))"

definition write_log :: "('z logst_scheme, unit) xm" where
  "write_log =
     bind get_log (\<lambda>L.
     mfor [0..<nat (lh_n L)] (\<lambda>tail.
       bind (bread (ldev L) (log_slot L tail)) (\<lambda>to.
       bind (head_sector tail) (\<lambda>sec.
       bind (bread (ldev L) sec) (\<lambda>from.
       bind (get_data from) (\<lambda>d.
       andthen (set_data to d) (
       andthen (bwrite to) (
       andthen (brelse from)
         (brelse to)))))))))"

definition commit :: "('z logst_scheme, unit) xm" where
  "commit =
     bind get_log (\<lambda>L.
     unless (lh_n L \<le> 0) (
       andthen write_log (
       andthen write_head (
       andthen install_trans (
       andthen (upd_log (\<lambda>L. L\<lparr>lh_n := 0\<rparr>))
         write_head)))))"

definition end_op :: "('z logst_scheme, unit) xm" where
  "end_op =
     andthen (upd_log (\<lambda>L. L\<lparr>outstanding := outstanding L - 1\<rparr>)) (
     bind get_log (\<lambda>L.
     if committing L \<noteq> 0 then panic ''thelog.committing''
     else if outstanding L = 0 then
       andthen (upd_log (\<lambda>L. L\<lparr>committing := 1\<rparr>)) (
       andthen commit
         (upd_log (\<lambda>L. L\<lparr>committing := 0\<rparr>)))
     else return ()))"

text \<open>The search loop of \<open>log_write\<close>: the first index below \<open>n\<close> that holds the sector, or \<open>n\<close>.\<close>

definition log_index :: "log \<Rightarrow> u32 \<Rightarrow> nat" where
  "log_index L sec = length (takeWhile (\<lambda>i. lh_sector L i \<noteq> sec) [0..<nat (lh_n L)])"

definition log_write :: "nat \<Rightarrow> ('z logst_scheme, unit) xm" where
  "log_write b =
     bind get_log (\<lambda>L.
     if int LOGSIZE \<le> lh_n L \<or> lsize L - 1 \<le> lh_n L then panic ''too big a transaction''
     else if outstanding L < 1 then panic ''log_write outside of trans''
     else
       bind (get_buf b) (\<lambda>x.
       andthen (upd_log (\<lambda>L.
         let i = log_index L (bsector x) in
         L\<lparr>lh_sector := (lh_sector L)(i := bsector x),
           lh_n := (if int i = lh_n L then lh_n L + 1 else lh_n L)\<rparr>))
         (set_flags b (bflags x OR B_DIRTY))))"

end
