(* ===== verification/Xv6_Commit.thy ===== *)
theory Xv6_Commit
  imports Xv6_Log
begin

text \<open>
  What \<open>commit\<close> of \<open>xv6/log.c\<close> does. \<open>log_wf\<close> places the log inside the image, \<open>head_wf\<close> says the
  in-memory header lists distinct blocks outside the log and leaves room for them, and \<open>txn_inv\<close>
  says that the pinned buffers are exactly the logged blocks. Under it \<open>commit\<close> always returns and issues exactly the
  writes and syncs \<open>commit_io\<close>, in that order; afterwards the disk has the blocks of the
  transaction at home and an empty log header.
\<close>

section \<open>The log area and the header\<close>

definition in_log :: "log \<Rightarrow> u32 \<Rightarrow> bool" where
  "in_log L b \<longleftrightarrow> lstart L \<le> uint b \<and> uint b < lstart L + lsize L"

definition log_wf :: "'z logst_scheme \<Rightarrow> bool" where
  "log_wf s \<longleftrightarrow> (let L = thelog s in ldev L = ROOTDEV \<and> 0 \<le> lstart L \<and> 1 \<le> lsize L
     \<and> lsize L \<le> int LOGSIZE \<and> lstart L + lsize L \<le> int (imglen s) \<and> lstart L + lsize L \<le> 2 ^ 19)"

definition sectors :: "log \<Rightarrow> u32 list" where
  "sectors L = map (lh_sector L) [0..<nat (lh_n L)]"

definition head_wf :: "'z logst_scheme \<Rightarrow> bool" where
  "head_wf s \<longleftrightarrow> (let L = thelog s in 0 \<le> lh_n L \<and> lh_n L < lsize L
     \<and> distinct (sectors L) \<and> (\<forall>b \<in> set (sectors L). in_image s b \<and> \<not> in_log L b))"

lemma unat_less_of_uint: "uint (b :: u32) < int n \<Longrightarrow> unat b < n"
  using uint_nat [of b] by linarith

lemma uint_of_int_32: "0 \<le> k \<Longrightarrow> k < 2 ^ 32 \<Longrightarrow> uint (word_of_int k :: u32) = k"
  by (simp add: uint_word_of_int take_bit_int_eq_self)

lemma log_wfD:
  assumes "log_wf s"
  shows "ldev (thelog s) = ROOTDEV" "0 \<le> lstart (thelog s)" "1 \<le> lsize (thelog s)"
    "lsize (thelog s) \<le> int LOGSIZE" "lstart (thelog s) + lsize (thelog s) \<le> int (imglen s)"
    "lstart (thelog s) + lsize (thelog s) \<le> 2 ^ 19"
  using assms by (simp_all add: log_wf_def Let_def)

lemma uint_log_slot:
  assumes "log_wf s" "int k + 1 < lsize (thelog s)"
  shows "uint (log_slot (thelog s) k) = lstart (thelog s) + int k + 1"
  unfolding log_slot_def
  by (rule uint_of_int_32) (use assms(2) log_wfD [OF assms(1)] in simp)+

lemma uint_log_head:
  assumes "log_wf s"
  shows "uint (log_head (thelog s)) = lstart (thelog s)"
  unfolding log_head_def
  by (rule uint_of_int_32) (use log_wfD [OF assms(1)] in simp)+

lemma in_log_in_image: "log_wf s \<Longrightarrow> in_log (thelog s) b \<Longrightarrow> in_image s b"
  using unat_less_of_uint [of b "imglen s"] unat_less_of_uint [of b "2 ^ 19"]
  by (auto simp: log_wf_def Let_def in_log_def in_image_def)

lemma slot_in_log: "log_wf s \<Longrightarrow> int k + 1 < lsize (thelog s) \<Longrightarrow> in_log (thelog s) (log_slot (thelog s) k)"
  by (simp add: in_log_def uint_log_slot)

lemma head_in_log: "log_wf s \<Longrightarrow> in_log (thelog s) (log_head (thelog s))"
  using log_wfD(3) [of s] by (simp add: in_log_def uint_log_head)

lemma slot_neq_head:
  assumes "log_wf s" "int k + 1 < lsize (thelog s)"
  shows "log_slot (thelog s) k \<noteq> log_head (thelog s)"
proof
  assume "log_slot (thelog s) k = log_head (thelog s)"
  then have "uint (log_slot (thelog s) k) = uint (log_head (thelog s))" by simp
  then show False unfolding uint_log_slot [OF assms] uint_log_head [OF assms(1)] by simp
qed

lemma slot_inject:
  assumes "log_wf s" "int j + 1 < lsize (thelog s)" "int k + 1 < lsize (thelog s)"
    and "log_slot (thelog s) j = log_slot (thelog s) k"
  shows "j = k"
proof -
  have "uint (log_slot (thelog s) j) = uint (log_slot (thelog s) k)" using assms(4) by simp
  then show ?thesis
    unfolding uint_log_slot [OF assms(1,2)] uint_log_slot [OF assms(1,3)] by simp
qed

lemma cframe_thelog: "cframe s t \<Longrightarrow> thelog t = thelog s"
  by (cases s; cases t) (simp add: cframe_def)

lemma cframe_wf: "cframe s t \<Longrightarrow> log_wf t = log_wf s \<and> head_wf t = head_wf s"
  using cframe_thelog [of s t]
  by (simp add: log_wf_def head_wf_def in_image_def cframe_def)


definition log_copies :: "log \<Rightarrow> (u32 \<times> u32) list" where
  "log_copies L = map (\<lambda>k. (log_slot L k, lh_sector L k)) [0..<nat (lh_n L)]"

definition home_copies :: "log \<Rightarrow> (u32 \<times> u32) list" where
  "home_copies L = map (\<lambda>k. (lh_sector L k, log_slot L k)) [0..<nat (lh_n L)]"

lemma head_wfD:
  assumes "log_wf s" "head_wf s" "k < nat (lh_n (thelog s))"
  shows "k < LOGSIZE" "int k + 1 < lsize (thelog s)" "lh_sector (thelog s) k \<in> set (sectors (thelog s))"
    "in_image s (lh_sector (thelog s) k)" "\<not> in_log (thelog s) (lh_sector (thelog s) k)"
    "in_image s (log_slot (thelog s) k)" "log_slot (thelog s) k \<noteq> lh_sector (thelog s) k"
proof -
  have b: "int k < lh_n (thelog s)" "lh_n (thelog s) < lsize (thelog s)"
    using assms(2,3) by (auto simp: head_wf_def Let_def)
  then show k: "k < LOGSIZE" "int k + 1 < lsize (thelog s)"
    using log_wfD(4) [OF assms(1)] by linarith+
  show m: "lh_sector (thelog s) k \<in> set (sectors (thelog s))"
    using assms(3) by (auto simp: sectors_def)
  then show o: "in_image s (lh_sector (thelog s) k)" "\<not> in_log (thelog s) (lh_sector (thelog s) k)"
    using assms(2) by (auto simp: head_wf_def Let_def)
  show "in_image s (log_slot (thelog s) k)"
    using slot_in_log [OF assms(1) k(2)] in_log_in_image [OF assms(1)] by simp
  show "log_slot (thelog s) k \<noteq> lh_sector (thelog s) k"
    using slot_in_log [OF assms(1) k(2)] o by auto
qed

lemma wp_head_sector: "k < LOGSIZE \<Longrightarrow> wp (head_sector k) Q s = Q (lh_sector (thelog s) k) s"
  by (simp add: head_sector_def wp_gets)

lemma wp_get_log [wp_simps]: "wp get_log Q s = Q (thelog s) s"
  by (simp add: get_log_def wp_simps)

lemma wp_upd_log [wp_simps]: "wp (upd_log f) Q s = Q () (s\<lparr>thelog := f (thelog s)\<rparr>)"
  by (simp add: upd_log_def wp_simps)

text \<open>With fewer than \<open>NBUF\<close> sectors pinned there is always a buffer for a block of the log.\<close>

lemma pinned_card:
  assumes "log_wf s" "head_wf s" "D \<subseteq> set (sectors (thelog s))" "x \<in> set (sectors (thelog s))"
  shows "card (D \<union> {x, y}) \<le> NBUF"
proof -
  have "card (D \<union> {x, y}) \<le> card (insert y (set (sectors (thelog s))))"
    using assms(3,4) by (intro card_mono) auto
  also have "\<dots> \<le> Suc (length (sectors (thelog s)))"
    using card_insert_le_m1 [of "Suc (length (sectors (thelog s)))" "set (sectors (thelog s))" y]
      card_length [of "sectors (thelog s)"] by simp
  also have "\<dots> \<le> NBUF"
    using assms(2) log_wfD(4) [OF assms(1)]
    by (simp add: head_wf_def Let_def sectors_def LOGSIZE_def NBUF_def nat_le_iff)
  finally show ?thesis .
qed

text \<open>The loops of \<open>write_log\<close> and \<open>install_trans\<close>: the same two buffers, copied in opposite
  directions.\<close>

lemma wp_log_loop:
  fixes s :: "'z logst_scheme"
  defines "L \<equiv> thelog s"
  assumes inv: "binv s" and wf: "log_wf s" "head_wf s"
    and nb: "busy_at s = {}" and pin: "dirty_at s \<subseteq> set (sectors L)"
    and dir: "(f = (\<lambda>i j. (i, j)) \<and> ps = log_copies L) \<or> (f = (\<lambda>i j. (j, i)) \<and> ps = home_copies L)"
    and post: "\<And>t. binv t \<Longrightarrow> cframe s t \<Longrightarrow> view t = a_copies ps (view s) \<Longrightarrow> Q () t"
  shows "wp (mfor [0..<nat (lh_n L)] (\<lambda>tail.
       bind (bread (ldev L) (log_slot L tail)) (\<lambda>i.
       bind (head_sector tail) (\<lambda>sec.
       bind (bread (ldev L) sec) (\<lambda>j.
       bind (get_data (snd (f i j))) (\<lambda>d.
       andthen (set_data (fst (f i j)) d) (
       andthen (bwrite (fst (f i j))) (
       andthen (brelse (snd (f i j)))
         (brelse (fst (f i j))))))))))) Q s"
    (is "wp (mfor _ ?body) _ _")
proof (rule bc.copy_blocks [where ps = ps])
  show "v_busy (view s) = {}" using nb by (simp add: view_def)
  show "length ps = length [0..<nat (lh_n L)]" using dir by (auto simp: log_copies_def home_copies_def)
  fix k and t :: "'z logst_scheme" and R
  assume "k < length [0..<nat (lh_n L)]" and t: "binv t" "cframe s t" "v_busy (view t) = {}"
    and d: "v_dirty (view t) \<subseteq> v_dirty (view s)"
    and post: "\<And>u. binv u \<Longrightarrow> cframe t u \<Longrightarrow> view u = a_copy (fst (ps ! k)) (snd (ps ! k)) (view t) \<Longrightarrow> R () u"
  then have k: "k < nat (lh_n L)" by simp
  have L: "thelog t = L" "log_wf t" "head_wf t"
    using cframe_thelog [OF t(2)] cframe_wf [OF t(2)] wf by (auto simp: L_def)
  note w = head_wfD [OF L(2,3), unfolded L(1), OF k]
  define dst src where "dst = fst (ps ! k)" "src = snd (ps ! k)"
  have ds: "(dst = log_slot L k \<and> src = lh_sector L k \<and> f = (\<lambda>i j. (i, j)))
    \<or> (dst = lh_sector L k \<and> src = log_slot L k \<and> f = (\<lambda>i j. (j, i)))"
    using dir k by (auto simp: dst_src_def log_copies_def home_copies_def)
  have pos: "[0..<nat (lh_n L)] ! k = k" "ldev L = ROOTDEV" using k log_wfD(1) [OF wf(1)] by (simp_all add: L_def)
  show "wp (?body ([0..<nat (lh_n L)] ! k)) R t"
    unfolding pos
  proof (rule bc.copy_block [where dst = dst and src = src and b = "lh_sector L k"])
    show "card (v_dirty (view t) \<union> {dst, src}) \<le> NBUF"
      using pinned_card [OF L(2,3), unfolded L(1), of "v_dirty (view t)" "lh_sector L k" "log_slot L k"]
        d pin w(3) ds by (auto simp: view_def insert_commute)
    show "wp (head_sector k) R u = R (lh_sector L k) u" if "cframe t u" for u R
      by (simp add: wp_head_sector w(1) cframe_thelog [OF that] L(1))
    show "dst \<noteq> src" "in_image t dst" "in_image t src" using ds w by auto
  qed (use t ds post in \<open>auto simp: dst_src_def\<close>)
qed (use inv post in auto)

lemma wp_write_log:
  assumes "binv s" "log_wf s" "head_wf s" "busy_at s = {}" "dirty_at s \<subseteq> set (sectors (thelog s))"
    and "\<And>t. binv t \<Longrightarrow> cframe s t \<Longrightarrow> view t = a_copies (log_copies (thelog s)) (view s) \<Longrightarrow> Q () t"
  shows "wp write_log Q s"
  unfolding write_log_def wp_bind [of get_log] wp_get_log
  by (rule wp_log_loop [where f = "\<lambda>i j. (i, j)", unfolded fst_conv snd_conv, OF assms(1-5)])
     (use assms(6) in auto)

lemma wp_install_trans:
  assumes "binv s" "log_wf s" "head_wf s" "busy_at s = {}" "dirty_at s \<subseteq> set (sectors (thelog s))"
    and "\<And>t. binv t \<Longrightarrow> cframe s t \<Longrightarrow> view t = a_copies (home_copies (thelog s)) (view s) \<Longrightarrow> Q () t"
  shows "wp install_trans Q s"
  unfolding install_trans_def wp_bind [of get_log] wp_get_log
  by (rule wp_log_loop [where f = "\<lambda>i j. (j, i)", unfolded fst_conv snd_conv, OF assms(1-5)])
     (use assms(6) in auto)


definition head_block :: "log \<Rightarrow> block \<Rightarrow> block" where
  "head_block L d = put_addrs (put32 d 0 (word_of_int (lh_n L))) 4 (lh_sector L) (nat (lh_n L))"

lemma wp_write_head:
  assumes inv: "binv s" and wf: "log_wf s" and n: "lh_n (thelog s) \<le> int LOGSIZE"
    and nb: "busy_at s = {}" and d: "card (dirty_at s) < NBUF"
    and post: "\<And>t. binv t \<Longrightarrow> cframe s t \<Longrightarrow>
      view t = a_put (log_head (thelog s)) (head_block (thelog s) (blk s (log_head (thelog s)))) (a_sync (view s)) \<Longrightarrow> Q () t"
  shows "wp write_head Q s"
  unfolding write_head_def wp_andthen [of ideflush]
proof (rule sc.fl [OF inv])
  fix t :: "'a logst_scheme" assume t: "binv t" "cframe s t" "view t = a_sync (view s)"
  have L: "thelog t = thelog s" by (rule cframe_thelog [OF t(2)])
  have vt: "v_blk (view t) = blk s" "v_dirty (view t) = dirty_at s" "v_busy (view t) = {}"
    using t(3) nb by (simp_all add: a_sync_def view_def)
  let ?h = "log_head (thelog s)"
  have "in_image t ?h"
    using in_log_in_image [OF wf head_in_log [OF wf]] t(2) by (simp add: in_image_def cframe_def)
  then have "wp (bind (bread ROOTDEV ?h) (\<lambda>b. bind (get_data b) (\<lambda>d.
      andthen (set_data b (head_block (thelog s) d)) (andthen (bwrite b) (andthen ideflush (brelse b)))))) Q t"
  proof (intro sc.put_block [OF t(1)] conjI)
    fix u assume u: "binv u" "cframe t u" "view u = a_put ?h (head_block (thelog s) (v_blk (view t) ?h)) (view t)"
    show "Q () u" using u t(3) cframe_trans [OF t(2) u(2)] vt(1) by (intro post) auto
  qed (use vt d in auto)
  then show "wp (bind get_log (\<lambda>L. bind (bread (ldev L) (log_head L)) (\<lambda>b. bind (get_data b) (\<lambda>d.
      if int LOGSIZE < lh_n L then fail (Undef ''lh.sector: index out of range'') else
      andthen (set_data b (put_addrs (put32 d 0 (word_of_int (lh_n L))) 4 (lh_sector L) (nat (lh_n L))))
       (andthen (bwrite b) (andthen ideflush (brelse b))))))) Q t"
    using n log_wfD(1) [OF wf] by (simp add: wp_bind [of get_log] wp_get_log L head_block_def)
qed

definition lframe :: "'z logst_scheme \<Rightarrow> 'z logst_scheme \<Rightarrow> bool" where
  "lframe s t \<longleftrightarrow> imglen t = imglen s \<and> clock t = clock s \<and> ticks t = ticks s \<and> logst.more t = logst.more s"

lemma lframe_refl [simp]: "lframe s s"
  by (simp add: lframe_def)

lemma lframe_trans: "lframe s t \<Longrightarrow> lframe t u \<Longrightarrow> lframe s u"
  by (simp add: lframe_def)

lemma cframe_lframe: "cframe s t \<Longrightarrow> lframe s t"
  by (cases s; cases t) (simp add: cframe_def lframe_def)

lemma lframe_thelog [simp]: "lframe s (t\<lparr>thelog := L\<rparr>) = lframe s t"
  by (simp add: lframe_def)

lemma cache_thelog [simp]:
  "binv (s\<lparr>thelog := L\<rparr>) = binv s" "view (s\<lparr>thelog := L\<rparr>) = view s" "blk (s\<lparr>thelog := L\<rparr>) = blk s"
  "dirty_at (s\<lparr>thelog := L\<rparr>) = dirty_at s" "busy_at (s\<lparr>thelog := L\<rparr>) = busy_at s"
  "in_image (s\<lparr>thelog := L\<rparr>) = in_image s"
  using buf_ok_host [of "s\<lparr>thelog := L\<rparr>" s]
  by (simp_all add: binv_def view_def in_image_def blk_def dirty_at_def busy_at_def fun_eq_iff split: option.split)

lemma log_wf_upd [simp]:
  "log_wf (s\<lparr>thelog := (thelog s)\<lparr>lh_n := n\<rparr>\<rparr>) = log_wf s"
  by (simp add: log_wf_def Let_def)

text \<open>What \<open>commit\<close> does to the abstract cache, one line per call.\<close>

definition commit_view :: "log \<Rightarrow> cview \<Rightarrow> cview" where
  "commit_view L v =
    (let h = log_head L;
         v1 = a_copies (log_copies L) v;
         v2 = a_put h (head_block L (v_blk v1 h)) (a_sync v1);
         v3 = a_copies (home_copies L) v2
     in a_put h (head_block (L\<lparr>lh_n := 0\<rparr>) (v_blk v3 h)) (a_sync v3))"

lemma view_sel [simp]:
  "v_blk (view s) = blk s" "v_dirty (view s) = dirty_at s" "v_busy (view s) = busy_at s"
  "v_img (view s) = img s" "v_hist (view s) = hist s"
  by (simp_all add: view_def)

lemma a_copies_dirty: "v_dirty (a_copies ps v) = v_dirty v - fst ` set ps"
  by (induction ps arbitrary: v) (auto simp: a_copies_def a_copy_def)

lemma a_copies_busy: "v_busy (a_copies ps v) = v_busy v"
  by (induction ps arbitrary: v) (auto simp: a_copies_def a_copy_def)

lemma sectors_card:
  "log_wf s \<Longrightarrow> head_wf s \<Longrightarrow> card (set (sectors (thelog s))) < NBUF"
  using card_length [of "sectors (thelog s)"] log_wfD(4) [of s]
  by (simp add: head_wf_def Let_def sectors_def NBUF_def LOGSIZE_def) linarith

text \<open>Between system calls: no buffer is in use, and the pinned sectors are those the in-memory
  header lists.\<close>

definition txn_inv :: "'z logst_scheme \<Rightarrow> bool" where
  "txn_inv s \<longleftrightarrow> binv s \<and> log_wf s \<and> head_wf s \<and> dirty_at s = set (sectors (thelog s))"

lemma fst_log_copies: "fst ` set (log_copies L) = log_slot L ` {..<nat (lh_n L)}"
  by (force simp: log_copies_def)

lemma fst_home_copies: "fst ` set (home_copies L) = set (sectors L)"
  by (force simp: home_copies_def sectors_def)

lemma wp_commit_view:
  assumes inv: "txn_inv s" and nb: "busy_at s = {}" and n: "0 < lh_n (thelog s)"
    and post: "\<And>t. binv t \<Longrightarrow> lframe s t \<Longrightarrow> thelog t = (thelog s)\<lparr>lh_n := 0\<rparr> \<Longrightarrow>
      view t = commit_view (thelog s) (view s) \<Longrightarrow> Q () t"
  shows "wp commit Q s"
proof -
  let ?L = "thelog s" and ?M = "(thelog s)\<lparr>lh_n := 0\<rparr>" and ?h = "log_head (thelog s)"
  have s: "binv s" "log_wf s" "head_wf s" "dirty_at s \<subseteq> set (sectors ?L)"
    using inv by (auto simp: txn_inv_def)
  have size: "lh_n ?L \<le> int LOGSIZE"
    using s(3) log_wfD(4) [OF s(2)] by (simp add: head_wf_def Let_def)
  have wf: "thelog t = ?L \<and> log_wf t \<and> head_wf t" if "cframe s t" for t
    using cframe_thelog [OF that] cframe_wf [OF that] s by simp
  have few: "card (dirty_at t) < NBUF" if "dirty_at t \<subseteq> set (sectors ?L)" for t :: "'a logst_scheme"
    using card_mono [OF _ that] sectors_card [OF s(2,3)] by simp
  have "wp (andthen write_log (andthen write_head (andthen install_trans
      (andthen (upd_log (\<lambda>L. L\<lparr>lh_n := 0\<rparr>)) write_head)))) Q s"
    unfolding wp_andthen
  proof (rule wp_write_log [OF s(1-3) nb s(4)])
    fix t1 assume 1: "binv t1" "cframe s t1" "view t1 = a_copies (log_copies ?L) (view s)"
    have d1: "busy_at t1 = {}" "dirty_at t1 \<subseteq> set (sectors ?L)"
      using a_copies_dirty [of "log_copies ?L" "view s"] a_copies_busy [of "log_copies ?L" "view s"]
        1(3) [symmetric] nb s(4) by auto
    show "wp write_head (\<lambda>_. wp install_trans (\<lambda>_. wp (upd_log (\<lambda>L. L\<lparr>lh_n := 0\<rparr>)) (\<lambda>_. wp write_head Q))) t1"
    proof (rule wp_write_head [OF 1(1) _ _ d1(1) few [OF d1(2)]])
      show "log_wf t1" "lh_n (thelog t1) \<le> int LOGSIZE" using wf [OF 1(2)] size by auto
      fix t2 assume 2: "binv t2" "cframe t1 t2" "view t2 = a_put (log_head (thelog t1))
        (head_block (thelog t1) (blk t1 (log_head (thelog t1)))) (a_sync (view t1))"
      have f2: "cframe s t2" by (rule cframe_trans [OF 1(2) 2(2)])
      have d2: "busy_at t2 = {}" "dirty_at t2 \<subseteq> set (sectors ?L)"
        using d1 arg_cong [OF 2(3), of v_dirty] arg_cong [OF 2(3), of v_busy]
        by (auto simp: a_put_def a_sync_def)
      show "wp install_trans (\<lambda>_. wp (upd_log (\<lambda>L. L\<lparr>lh_n := 0\<rparr>)) (\<lambda>_. wp write_head Q)) t2"
      proof (rule wp_install_trans [OF 2(1) _ _ d2(1)])
        show "log_wf t2" "head_wf t2" "dirty_at t2 \<subseteq> set (sectors (thelog t2))"
          using wf [OF f2] d2(2) by auto
        fix t3 assume 3: "binv t3" "cframe t2 t3" "view t3 = a_copies (home_copies (thelog t2)) (view t2)"
        have f3: "cframe s t3" by (rule cframe_trans [OF f2 3(2)])
        have d3: "busy_at t3 = {}" "dirty_at t3 \<subseteq> set (sectors ?L)"
          using a_copies_dirty [of "home_copies ?L" "view t2"] a_copies_busy [of "home_copies ?L" "view t2"]
            3(3) [symmetric] d2 wf [OF f2] by auto
        let ?t = "t3\<lparr>thelog := ?M\<rparr>"
        have L3: "thelog t3 = ?L" "log_wf t3" using wf [OF f3] by auto
        have "wp write_head Q ?t"
        proof (rule wp_write_head)
          show "binv ?t" "busy_at ?t = {}" "card (dirty_at ?t) < NBUF" "lh_n (thelog ?t) \<le> int LOGSIZE"
            using 3(1) d3 few by simp_all
          show "log_wf ?t" using L3 log_wf_upd [of 0 t3] by simp
          fix u assume u: "binv u" "cframe ?t u" "view u = a_put (log_head (thelog ?t))
            (head_block (thelog ?t) (blk ?t (log_head (thelog ?t)))) (a_sync (view ?t))"
          show "Q () u"
          proof (rule post [OF u(1)])
            show "lframe s u"
              using cframe_lframe [OF f3] cframe_lframe [OF u(2)] by (simp add: lframe_def)
            show "thelog u = ?M" using cframe_thelog [OF u(2)] by simp
            show "view u = commit_view ?L (view s)"
              using u(3) 3(3) 2(3) 1(3) wf [OF 1(2)] wf [OF f2]
              by (simp add: commit_view_def Let_def log_head_def flip: view_sel(1))
          qed
        qed
        then show "wp (upd_log (\<lambda>L. L\<lparr>lh_n := 0\<rparr>)) (\<lambda>_. wp write_head Q) t3"
          by (simp add: wp_upd_log L3(1))
      qed
    qed
  qed
  then show ?thesis using n by (simp add: commit_def wp_bind wp_get_log wp_unless)
qed


section \<open>The writes of a commit\<close>

fun apply_io :: "io list \<Rightarrow> (u32 \<Rightarrow> block) \<Rightarrow> (u32 \<Rightarrow> block)" where
  "apply_io [] d = d"
| "apply_io (Write b x # h) d = apply_io h (d(b := x))"
| "apply_io (Sync # h) d = apply_io h d"

lemma apply_io_append [simp]: "apply_io (g @ h) d = apply_io h (apply_io g d)"
proof (induction g arbitrary: d)
  case (Cons e g)
  then show ?case by (cases e) (simp_all del: fun_upd_apply)
qed simp

lemma apply_io_writes: "apply_io (map (\<lambda>w. Write (fst w) (snd w)) ws) d = put_all ws d"
  by (induction ws arbitrary: d) auto

lemma put_all_in:
  "distinct (map fst ws) \<Longrightarrow> w \<in> set ws \<Longrightarrow> put_all ws d (fst w) = snd w"
proof (induction ws arbitrary: d)
  case (Cons v ws)
  then show ?case by (cases "v = w") (auto simp: put_all_other)
qed simp

text \<open>The copies in the log area, and the same blocks at their home locations.\<close>

definition log_writes :: "log \<Rightarrow> (u32 \<Rightarrow> block) \<Rightarrow> (u32 \<times> block) list" where
  "log_writes L d = map (\<lambda>k. (log_slot L k, d (lh_sector L k))) [0..<nat (lh_n L)]"

definition home_writes :: "log \<Rightarrow> (u32 \<Rightarrow> block) \<Rightarrow> (u32 \<times> block) list" where
  "home_writes L d = map (\<lambda>k. (lh_sector L k, d (lh_sector L k))) [0..<nat (lh_n L)]"

definition commit_io :: "log \<Rightarrow> (u32 \<Rightarrow> block) \<Rightarrow> io list" where
  "commit_io L d = map (\<lambda>w. Write (fst w) (snd w)) (log_writes L d)
     @ [Sync, Write (log_head L) (head_block L (d (log_head L))), Sync]
     @ map (\<lambda>w. Write (fst w) (snd w)) (home_writes L d)
     @ [Sync, Write (log_head L) (put32 (head_block L (d (log_head L))) 0 0), Sync]"

lemma log_writes_distinct:
  "log_wf s \<Longrightarrow> head_wf s \<Longrightarrow> distinct (map fst (log_writes (thelog s) d))"
  using slot_inject [of s] head_wfD(2) [of s]
  by (auto simp: log_writes_def distinct_map inj_on_def)

lemma head_notin_writes:
  assumes "log_wf s" "head_wf s"
  shows "log_head (thelog s) \<notin> fst ` set (log_writes (thelog s) d)"
    "log_head (thelog s) \<notin> fst ` set (home_writes (thelog s) d)"
  using slot_neq_head [OF assms(1)] head_wfD(2,5) [OF assms] head_in_log [OF assms(1)]
  by (force simp: log_writes_def, force simp: home_writes_def)

lemma head_block_clear: "head_block (L\<lparr>lh_n := 0\<rparr>) d = put32 d 0 0"
  by (simp add: head_block_def)

lemma log_home_apart:
  assumes "log_wf s" "head_wf s" "i < nat (lh_n (thelog s))" "j < nat (lh_n (thelog s))"
  shows "log_slot (thelog s) i \<noteq> lh_sector (thelog s) j"
  using slot_in_log [OF assms(1) head_wfD(2) [OF assms(1-3)]] head_wfD(5) [OF assms(1,2,4)] by metis

lemma commit_view_eq:
  assumes wf: "log_wf s" "head_wf s" and d: "v_dirty v = set (sectors (thelog s))"
  shows "commit_view (thelog s) v = (let io = commit_io (thelog s) (v_blk v) in
    v\<lparr>v_blk := apply_io io (v_blk v), v_dirty := {}, v_img := apply_io io (v_img v), v_hist := v_hist v @ io\<rparr>)"
proof -
  let ?L = "thelog s" and ?h = "log_head (thelog s)"
  let ?ws = "log_writes ?L (v_blk v)" and ?hs = "home_writes ?L (v_blk v)"
  let ?H = "head_block ?L (v_blk v ?h)"
  have apart: "snd p \<notin> fst ` set (log_copies ?L)" if "p \<in> set (log_copies ?L)" for p
    using that log_home_apart [OF wf] by (fastforce simp: log_copies_def)
  have apart': "snd p \<notin> fst ` set (home_copies ?L)" if "p \<in> set (home_copies ?L)" for p
    using that log_home_apart [OF wf] by (fastforce simp: home_copies_def)
  define v1 where "v1 = a_copies (log_copies ?L) v"
  have "map (\<lambda>p. (fst p, v_blk v (snd p))) (log_copies ?L) = ?ws"
    by (simp add: log_copies_def log_writes_def)
  then have v1: "v1 = v\<lparr>v_blk := put_all ?ws (v_blk v), v_dirty := set (sectors ?L) - fst ` set (log_copies ?L),
      v_img := put_all ?ws (v_img v), v_hist := v_hist v @ map (\<lambda>w. Write (fst w) (snd w)) ?ws\<rparr>"
    unfolding v1_def by (subst a_copies_eq [OF apart]) (simp_all add: Let_def d)
  have h1: "v_blk v1 ?h = v_blk v ?h"
    using head_notin_writes(1) [OF wf] by (simp add: v1 put_all_other)
  define v2 where "v2 = a_put ?h ?H (a_sync v1)"
  have slot: "v_blk v2 (log_slot ?L k) = v_blk v (lh_sector ?L k)" if "k < nat (lh_n ?L)" for k
    using slot_neq_head [OF wf(1) head_wfD(2) [OF wf that]] that
      put_all_in [OF log_writes_distinct [OF wf], of "(log_slot ?L k, v_blk v (lh_sector ?L k))" "v_blk v"]
    by (simp add: v2_def a_put_def a_sync_def v1 log_writes_def)
  define v3 where "v3 = a_copies (home_copies ?L) v2"
  have "map (\<lambda>p. (fst p, v_blk v2 (snd p))) (home_copies ?L) = ?hs"
    using slot by (simp add: home_copies_def home_writes_def)
  then have v3: "v3 = v2\<lparr>v_blk := put_all ?hs (v_blk v2), v_dirty := v_dirty v2 - set (sectors ?L),
      v_img := put_all ?hs (v_img v2), v_hist := v_hist v2 @ map (\<lambda>w. Write (fst w) (snd w)) ?hs\<rparr>"
    unfolding v3_def by (subst a_copies_eq [OF apart']) (simp_all add: Let_def fst_home_copies)
  have "v_blk v3 ?h = ?H"
    using head_notin_writes(2) [OF wf] by (simp add: v3 put_all_other v2_def a_put_def)
  then have "commit_view ?L v = a_put ?h (put32 ?H 0 0) (a_sync v3)"
    unfolding commit_view_def Let_def v1_def [symmetric] h1 v2_def [symmetric] v3_def [symmetric] head_block_clear
    by simp
  then show ?thesis
    by (intro cview.equality)
       (auto simp: Let_def v3 v2_def a_put_def a_sync_def v1 commit_io_def apply_io_writes)
qed


definition txn_io :: "log \<Rightarrow> (u32 \<Rightarrow> block) \<Rightarrow> io list" where
  "txn_io L d = (if 0 < lh_n L then commit_io L d else [])"

lemma empty_head_wf: "log_wf s \<Longrightarrow> lh_n (thelog s) = 0 \<Longrightarrow> head_wf s"
  using log_wfD(3) [of s] by (simp add: head_wf_def sectors_def Let_def)

lemma lframe_in_image: "lframe s t \<Longrightarrow> in_image t b = in_image s b"
  by (simp add: lframe_def in_image_def)

lemma head_empty: "head_wf s \<Longrightarrow> \<not> 0 < lh_n (thelog s) \<Longrightarrow> lh_n (thelog s) = 0"
  by (simp add: head_wf_def Let_def)

lemma wp_commit:
  assumes inv: "txn_inv s" and nb: "busy_at s = {}"
    and post: "\<And>t. txn_inv t \<Longrightarrow> lframe s t \<Longrightarrow> thelog t = (thelog s)\<lparr>lh_n := 0\<rparr> \<Longrightarrow> busy_at t = {} \<Longrightarrow>
      dirty_at t = {} \<Longrightarrow> blk t = apply_io (txn_io (thelog s) (blk s)) (blk s) \<Longrightarrow>
      img t = apply_io (txn_io (thelog s) (blk s)) (img s) \<Longrightarrow>
      hist t = hist s @ txn_io (thelog s) (blk s) \<Longrightarrow> Q () t"
  shows "wp commit Q s"
proof (cases "0 < lh_n (thelog s)")
  case True
  have s: "log_wf s" "head_wf s" "dirty_at s = set (sectors (thelog s))" using inv by (auto simp: txn_inv_def)
  show ?thesis
  proof (rule wp_commit_view [OF inv nb True])
    fix t assume t: "binv t" "lframe s t" "thelog t = (thelog s)\<lparr>lh_n := 0\<rparr>"
      "view t = commit_view (thelog s) (view s)"
    note v = t(4) [unfolded commit_view_eq [OF s(1,2), of "view s", unfolded view_sel, OF s(3)] Let_def]
    have d: "dirty_at t = {}" "busy_at t = {}"
      using arg_cong [OF v, of v_dirty] arg_cong [OF v, of v_busy] nb by auto
    have "log_wf t"
      using s(1) t(2,3) by (simp add: log_wf_def lframe_def Let_def)
    then have "head_wf t" using empty_head_wf [of t] t(3) by simp
    then have "txn_inv t" using t(1,3) \<open>log_wf t\<close> d by (simp add: txn_inv_def sectors_def)
    then show "Q () t"
      using True d t(2,3) arg_cong [OF v, of v_blk] arg_cong [OF v, of v_img] arg_cong [OF v, of v_hist]
      by (intro post) (simp_all add: txn_io_def)
  qed
next
  case False
  then have "lh_n (thelog s) = 0" using inv head_empty by (auto simp: txn_inv_def)
  then show ?thesis
    using post [OF inv] nb inv False
    by (simp add: commit_def wp_bind wp_get_log wp_unless txn_io_def txn_inv_def sectors_def)
qed

text \<open>Outside the log, the disk after a commit has the blocks of the cache.\<close>

lemma home_writes_put:
  assumes wf: "log_wf s" "head_wf s"
  shows "put_all (home_writes (thelog s) d) m b = (if b \<in> set (sectors (thelog s)) then d b else m b)"
proof (cases "b \<in> set (sectors (thelog s))")
  case True
  have "distinct (map fst (home_writes (thelog s) d))"
    using wf(2) by (simp add: head_wf_def home_writes_def sectors_def Let_def comp_def)
  moreover from True have "(b, d b) \<in> set (home_writes (thelog s) d)"
    by (auto simp: sectors_def home_writes_def)
  ultimately show ?thesis using True put_all_in [of _ "(b, d b)"] by simp
next
  case False
  then show ?thesis by (subst put_all_other) (auto simp: sectors_def home_writes_def)
qed

lemma commit_io_new:
  assumes wf: "log_wf s" "head_wf s" and b: "\<not> in_log (thelog s) b"
  shows "apply_io (commit_io (thelog s) d) m b = (if b \<in> set (sectors (thelog s)) then d b else m b)"
proof -
  let ?L = "thelog s"
  have h: "b \<noteq> log_head ?L" using b head_in_log [OF wf(1)] by auto
  have "b \<notin> fst ` set (log_writes ?L d)"
    using b slot_in_log [OF wf(1)] head_wfD(2) [OF wf] by (force simp: log_writes_def)
  then show ?thesis
    using h by (simp add: commit_io_def apply_io_writes put_all_other home_writes_put [OF wf])
qed

section \<open>Logging a block\<close>

lemma holds_thelog [simp]: "holds (s\<lparr>thelog := L\<rparr>) i b = holds s i b"
  by (simp add: holds_def)

text \<open>The header after \<open>log_write\<close> of a block.\<close>

definition log_add :: "log \<Rightarrow> u32 \<Rightarrow> log" where
  "log_add L b = (let i = log_index L b in
     L\<lparr>lh_sector := (lh_sector L)(i := b), lh_n := (if int i = lh_n L then lh_n L + 1 else lh_n L)\<rparr>)"

lemma log_index_less:
  assumes "b \<in> set (sectors L)"
  shows "log_index L b < nat (lh_n L) \<and> lh_sector L (log_index L b) = b"
proof -
  let ?P = "\<lambda>i. lh_sector L i \<noteq> b" and ?xs = "[0..<nat (lh_n L)]"
  obtain k where "k < nat (lh_n L)" "\<not> ?P k" using assms by (auto simp: sectors_def)
  then have "length (takeWhile ?P ?xs) < length ?xs"
    using length_takeWhile_le [of ?P ?xs] takeWhile_eq_take [of ?P ?xs] takeWhile_eq_all_conv [of ?P ?xs]
    by (cases "length (takeWhile ?P ?xs) = length ?xs") auto
  with nth_length_takeWhile [OF this] show ?thesis by (simp add: log_index_def)
qed

lemma log_index_absent: "b \<notin> set (sectors L) \<Longrightarrow> log_index L b = nat (lh_n L)"
  unfolding log_index_def sectors_def by (subst takeWhile_eq_all_conv [THEN iffD2]) auto

lemma sectors_log_add:
  assumes "0 \<le> lh_n L"
  shows "sectors (log_add L b) = (if b \<in> set (sectors L) then sectors L else sectors L @ [b])"
proof (cases "b \<in> set (sectors L)")
  case True
  then show ?thesis
    using log_index_less [OF True] assms by (auto simp: log_add_def Let_def sectors_def)
next
  case False
  then show ?thesis
    using assms log_index_absent [OF False]
    by (auto simp: log_add_def Let_def sectors_def nat_add_distrib)
qed

lemma log_add_place [simp]:
  "lsize (log_add L b) = lsize L" "lstart (log_add L b) = lstart L" "ldev (log_add L b) = ldev L"
  "outstanding (log_add L b) = outstanding L" "committing (log_add L b) = committing L"
  "in_log (log_add L b) = in_log L"
  by (simp_all add: log_add_def Let_def in_log_def fun_eq_iff)

lemma lh_n_log_add:
  assumes "0 \<le> lh_n L"
  shows "lh_n (log_add L b) = (if b \<in> set (sectors L) then lh_n L else lh_n L + 1)"
  using log_index_less [of b L] log_index_absent [of b L] assms by (auto simp: log_add_def Let_def)

lemma wp_log_write:
  assumes inv: "txn_inv s" and h: "holds s i b" and b: "in_image s b" "\<not> in_log (thelog s) b"
    and room: "lh_n (thelog s) < lsize (thelog s) - 1" "1 \<le> outstanding (thelog s)"
    and post: "\<And>t. txn_inv t \<Longrightarrow> lframe s t \<Longrightarrow> thelog t = log_add (thelog s) b \<Longrightarrow>
      view t = a_pin b (view s) \<Longrightarrow> (\<And>j c. holds s j c \<Longrightarrow> holds t j c) \<Longrightarrow> Q () t"
  shows "wp (log_write i) Q s"
proof -
  let ?L = "thelog s" and ?M = "log_add (thelog s) b"
  have s: "binv s" "log_wf s" "head_wf s" "dirty_at s = set (sectors ?L)" using inv by (auto simp: txn_inv_def)
  have n: "0 \<le> lh_n ?L" "lh_n ?L < int LOGSIZE" using s(3) log_wfD(4) [OF s(2)] room by (auto simp: head_wf_def Let_def)
  have sec: "bsector (bufs s i) = b" using h by (simp add: holds_def caches_def)
  let ?u = "s\<lparr>thelog := ?M\<rparr>"
  have wu: "log_wf ?u" using s(2) by (simp add: log_wf_def Let_def)
  have hu: "head_wf ?u"
    using s(3) b room by (auto simp: head_wf_def Let_def sectors_log_add [OF n(1)] lh_n_log_add [OF n(1)])
  have "wp (set_flags i (bflags (bufs ?u i) OR B_DIRTY)) Q ?u"
  proof (rule wp_pin)
    show "binv ?u" "holds ?u i b" using s h by simp_all
    fix t assume t: "binv t" "cframe ?u t" "view t = a_pin b (view ?u)" "\<And>j c. holds ?u j c \<Longrightarrow> holds t j c"
    have "thelog t = ?M" "log_wf t" "head_wf t" using cframe_thelog [OF t(2)] cframe_wf [OF t(2)] wu hu by auto
    moreover have "dirty_at t = insert b (dirty_at s)" using arg_cong [OF t(3), of v_dirty] by (simp add: a_pin_def)
    ultimately have "txn_inv t" using t(1) s(4) by (auto simp: txn_inv_def sectors_log_add [OF n(1)])
    moreover have "lframe s t" using cframe_lframe [OF t(2)] by (simp add: lframe_def)
    ultimately show "Q () t" using \<open>thelog t = _\<close> t(3,4) by (intro post) auto
  qed
  then show ?thesis
    using room n unfolding log_write_def
    by (auto simp: wp_simps sec log_add_def Let_def)
qed

end
