(* ===== verification/Xv6_Crash.thy ===== *)
theory Xv6_Crash
  imports Xv6_Commit
begin

text \<open>
  Crash safety of the log. \<open>crashes\<close> is the failure model of the host: a crash at any point of the
  sequence of writes and syncs keeps everything before the last sync and any subset of the writes
  after it. \<open>rec_disk\<close> is what recovery makes of a medium. The lemmas show that
  \<open>recover_from_log\<close> computes it, that a crash inside \<open>commit\<close> leaves a medium that recovers to
  the blocks before or to the blocks after the transaction, and that a crash inside recovery is
  repaired by the next recovery.
\<close>

section \<open>Crashes\<close>

fun crashes :: "io list \<Rightarrow> io list \<Rightarrow> (u32 \<Rightarrow> block) \<Rightarrow> (u32 \<Rightarrow> block) set" where
  "crashes w [] d = (\<lambda>ws. apply_io ws d) ` set (subseqs w)"
| "crashes w (Write b x # h) d = (\<lambda>ws. apply_io ws d) ` set (subseqs w) \<union> crashes (w @ [Write b x]) h d"
| "crashes w (Sync # h) d = (\<lambda>ws. apply_io ws d) ` set (subseqs w) \<union> crashes [] h (apply_io w d)"

definition disk_log :: "log \<Rightarrow> (u32 \<Rightarrow> block) \<Rightarrow> log" where
  "disk_log L d = L\<lparr>lh_n := sint (get32 (d (log_head L)) 0),
     lh_sector := (\<lambda>i. get32 (d (log_head L)) (4 + 4 * i))\<rparr>"

definition rec_writes :: "log \<Rightarrow> (u32 \<Rightarrow> block) \<Rightarrow> (u32 \<times> block) list" where
  "rec_writes L d = map (\<lambda>k. (lh_sector (disk_log L d) k, d (log_slot L k))) [0..<nat (lh_n (disk_log L d))]"

definition rec_disk :: "log \<Rightarrow> (u32 \<Rightarrow> block) \<Rightarrow> (u32 \<Rightarrow> block)" where
  "rec_disk L d = (put_all (rec_writes L d) d)(log_head L := put32 (d (log_head L)) 0 0)"

definition recover_io :: "log \<Rightarrow> (u32 \<Rightarrow> block) \<Rightarrow> io list" where
  "recover_io L d = map (\<lambda>w. Write (fst w) (snd w)) (rec_writes L d)
     @ [Sync, Write (log_head L) (put32 (d (log_head L)) 0 0), Sync]"

lemma subseqs_map: "set (subseqs (map f xs)) = map f ` set (subseqs xs)"
  by (induction xs) (auto simp: Let_def image_image image_Un)

lemma subseqs_self: "xs \<in> set (subseqs xs)"
  by (induction xs) (auto simp: Let_def)

lemma subseqs_subset: "ys \<in> set (subseqs xs) \<Longrightarrow> set ys \<subseteq> set xs"
  using subseqs_powset [of xs] by auto

lemma in_subseqs_append: "ys \<in> set (subseqs xs) \<Longrightarrow> ys \<in> set (subseqs (xs @ zs))"
proof (induction xs arbitrary: ys)
  case Nil
  then show ?case by (induction zs) (auto simp: Let_def)
qed (auto simp: Let_def)

text \<open>A batch of writes followed by a sync: a crash keeps some of the writes, or all of them and
  some later point of the sequence.\<close>

lemma crashes_batch:
  assumes "m \<in> crashes (map (\<lambda>w. Write (fst w) (snd w)) vs) (map (\<lambda>w. Write (fst w) (snd w)) ws @ Sync # h) d"
  shows "(\<exists>us \<in> set (subseqs (vs @ ws)). m = put_all us d) \<or> m \<in> crashes [] h (put_all (vs @ ws) d)"
  using assms
proof (induction ws arbitrary: vs)
  case Nil
  then show ?case by (auto simp: subseqs_map image_image apply_io_writes)
next
  case (Cons w ws)
  from Cons.prems consider us where "us \<in> set (subseqs vs)" "m = put_all us d"
    | "m \<in> crashes (map (\<lambda>w. Write (fst w) (snd w)) (vs @ [w])) (map (\<lambda>w. Write (fst w) (snd w)) ws @ Sync # h) d"
    by (auto simp: subseqs_map image_image apply_io_writes)
  then show ?case
  proof cases
    case 1
    then show ?thesis using in_subseqs_append by blast
  next
    case 2
    from Cons.IH [OF this] show ?thesis by simp
  qed
qed

lemmas crashes_batch_start = crashes_batch [where vs = "[]", simplified]

lemma sint_small_int: "0 \<le> n \<Longrightarrow> n < 2 ^ 31 \<Longrightarrow> sint (word_of_int n :: u32) = n"
  by (simp add: sint_uint uint_word_of_int take_bit_int_eq_self signed_take_bit_int_eq_self)

lemma head_block_n:
  "log_wf s \<Longrightarrow> head_wf s \<Longrightarrow> sint (get32 (head_block (thelog s) d) 0) = lh_n (thelog s)"
  using log_wfD(4) [of s] sint_small_int [of "lh_n (thelog s)"]
  by (simp add: head_block_def get32_put_addrs_other get32_put32 head_wf_def Let_def LOGSIZE_def)

lemma head_block_sector:
  "k < nat (lh_n L) \<Longrightarrow> get32 (head_block L d) (4 + 4 * k) = lh_sector L k"
  by (simp add: head_block_def get32_put_addrs)

text \<open>A disk with an empty log header recovers to itself.\<close>

lemma rec_disk_empty:
  "get32 (m (log_head L)) 0 = 0 \<Longrightarrow> b \<noteq> log_head L \<Longrightarrow> rec_disk L m b = m b"
  by (simp add: rec_disk_def rec_writes_def disk_log_def)

text \<open>A disk with a committed transaction recovers to the blocks of the transaction.\<close>

lemma rec_disk_committed:
  assumes wf: "log_wf s" "head_wf s" and b: "\<not> in_log (thelog s) b"
    and h: "m (log_head (thelog s)) = head_block (thelog s) x"
    and slots: "\<And>k. k < nat (lh_n (thelog s)) \<Longrightarrow> m (log_slot (thelog s) k) = d (lh_sector (thelog s) k)"
  shows "rec_disk (thelog s) m b = (if b \<in> set (sectors (thelog s)) then d b else m b)"
proof -
  let ?L = "thelog s"
  have "rec_writes ?L m = map (\<lambda>k. (lh_sector ?L k, d (lh_sector ?L k))) [0..<nat (lh_n ?L)]"
    using slots head_block_sector [of _ ?L x] head_block_n [OF wf]
    by (auto simp: rec_writes_def disk_log_def h)
  then have "rec_writes ?L m = home_writes ?L d" by (simp add: home_writes_def)
  moreover have "b \<noteq> log_head ?L" using b head_in_log [OF wf(1)] by auto
  ultimately show ?thesis
    by (simp add: rec_disk_def home_writes_put [OF wf])
qed


lemma slots_written:
  assumes wf: "log_wf s" "head_wf s" and k: "k < nat (lh_n (thelog s))"
  shows "put_all (log_writes (thelog s) d) m (log_slot (thelog s) k) = d (lh_sector (thelog s) k)"
  using put_all_in [OF log_writes_distinct [OF wf], of "(log_slot (thelog s) k, d (lh_sector (thelog s) k))"] k
  by (simp add: log_writes_def)

lemma writes_outside:
  assumes wf: "log_wf s" "head_wf s" and us: "us \<in> set (subseqs (home_writes (thelog s) d))"
    and b: "in_log (thelog s) b"
  shows "put_all us m b = m b"
proof (rule put_all_other)
  have "fst ` set us \<subseteq> set (sectors (thelog s))"
    using subseqs_subset [OF us] by (auto simp: home_writes_def sectors_def)
  then show "b \<notin> fst ` set us" using wf(2) b by (auto simp: head_wf_def Let_def)
qed

lemma writes_only_home:
  assumes us: "us \<in> set (subseqs (home_writes L d))" and b: "b \<notin> set (sectors L)"
  shows "put_all us m b = m b"
  using subseqs_subset [OF us] b
  by (intro put_all_other) (auto simp: home_writes_def sectors_def)

lemma writes_only_log:
  assumes wf: "log_wf s" "head_wf s" and us: "us \<in> set (subseqs (log_writes (thelog s) d))"
  shows "put_all us m (log_head (thelog s)) = m (log_head (thelog s))"
    "\<not> in_log (thelog s) b \<Longrightarrow> put_all us m b = m b"
proof -
  have sub: "fst ` set us \<subseteq> fst ` set (log_writes (thelog s) d)" using subseqs_subset [OF us] by auto
  then show "put_all us m (log_head (thelog s)) = m (log_head (thelog s))"
    using head_notin_writes(1) [OF wf] by (intro put_all_other) auto
  show "put_all us m b = m b" if "\<not> in_log (thelog s) b"
  proof (rule put_all_other)
    have "fst ` set (log_writes (thelog s) d) \<subseteq> Collect (in_log (thelog s))"
      using slot_in_log [OF wf(1)] head_wfD(2) [OF wf] by (auto simp: log_writes_def)
    then show "b \<notin> fst ` set us" using sub that by blast
  qed
qed

text \<open>The crash points of a commit, phase by phase.\<close>

lemma crash_cases:
  fixes L d
  defines "h \<equiv> log_head L" and "H \<equiv> head_block L (d (log_head L))"
  assumes m: "m \<in> crashes [] (commit_io L d) m0"
  obtains us where "us \<in> set (subseqs (log_writes L d))" "m = put_all us m0"
  | us where "us \<in> set (subseqs (home_writes L d))"
      "m = put_all us ((put_all (log_writes L d) m0)(h := H))"
  | "m = (put_all (home_writes L d) ((put_all (log_writes L d) m0)(h := H)))(h := put32 H 0 0)"
proof -
  let ?A = "put_all (log_writes L d) m0"
  let ?B = "put_all (home_writes L d) (?A(h := H))"
  from m have "m \<in> crashes [] (map (\<lambda>w. Write (fst w) (snd w)) (log_writes L d) @ Sync # Write h H # Sync #
      map (\<lambda>w. Write (fst w) (snd w)) (home_writes L d) @ Sync # [Write h (put32 H 0 0), Sync]) m0"
    by (simp add: commit_io_def h_def H_def)
  from crashes_batch_start [OF this] have "(\<exists>us \<in> set (subseqs (log_writes L d)). m = put_all us m0)
    \<or> m \<in> crashes [] (Write h H # Sync # map (\<lambda>w. Write (fst w) (snd w)) (home_writes L d)
        @ Sync # [Write h (put32 H 0 0), Sync]) ?A" .
  moreover have "m = ?A \<or> m = ?A(h := H) \<or> m \<in> crashes [] (map (\<lambda>w. Write (fst w) (snd w)) (home_writes L d)
        @ Sync # [Write h (put32 H 0 0), Sync]) (?A(h := H))"
    if "m \<in> crashes [] (Write h H # Sync # map (\<lambda>w. Write (fst w) (snd w)) (home_writes L d)
        @ Sync # [Write h (put32 H 0 0), Sync]) ?A"
    using that by (auto simp: Let_def simp del: fun_upd_apply)
  moreover have "(\<exists>us \<in> set (subseqs (home_writes L d)). m = put_all us (?A(h := H)))
      \<or> m \<in> crashes [] [Write h (put32 H 0 0), Sync] ?B"
    if "m \<in> crashes [] (map (\<lambda>w. Write (fst w) (snd w)) (home_writes L d)
        @ Sync # [Write h (put32 H 0 0), Sync]) (?A(h := H))"
    using crashes_batch_start [OF that] .
  moreover have "m = ?B \<or> m = ?B(h := put32 H 0 0)" if "m \<in> crashes [] [Write h (put32 H 0 0), Sync] ?B"
    using that by (auto simp: Let_def simp del: fun_upd_apply)
  moreover have "[] \<in> set (subseqs (home_writes L d))"
    using in_subseqs_append [of "[]" "[]" "home_writes L d"] by simp
  ultimately show thesis
    using that subseqs_self [of "log_writes L d"] subseqs_self [of "home_writes L d"]
    by (metis (no_types, lifting) put_all_simps(1))
qed

lemma commit_atomic:
  assumes wf: "log_wf s" "head_wf s" and e: "get32 (m0 (log_head (thelog s))) 0 = 0"
    and m: "m \<in> crashes [] (commit_io (thelog s) d) m0"
    and same: "\<And>b. b \<notin> set (sectors (thelog s)) \<Longrightarrow> d b = m0 b"
  shows "(\<forall>b. \<not> in_log (thelog s) b \<longrightarrow> rec_disk (thelog s) m b = m0 b)
    \<or> (\<forall>b. \<not> in_log (thelog s) b \<longrightarrow> rec_disk (thelog s) m b = d b)"
proof -
  let ?L = "thelog s" and ?h = "log_head (thelog s)"
  have nh: "b \<noteq> ?h" if "\<not> in_log ?L b" for b using that head_in_log [OF wf(1)] by auto
  have slot: "in_log ?L (log_slot ?L k)" "log_slot ?L k \<noteq> ?h" if "k < nat (lh_n ?L)" for k
    using slot_in_log [OF wf(1)] slot_neq_head [OF wf(1)] head_wfD(2) [OF wf that] by auto
  have nolog: "put_all (log_writes ?L d) m0 b = m0 b" if "\<not> in_log ?L b" for b
    using writes_only_log(2) [OF wf subseqs_self] that by simp
  show ?thesis using m
  proof (cases rule: crash_cases)
    case (1 us)
    then have "rec_disk ?L m b = m0 b" if "\<not> in_log ?L b" for b
      using e nh [OF that] writes_only_log [OF wf 1(1)] that by (simp add: rec_disk_empty)
    then show ?thesis by blast
  next
    case (2 us)
    have hd: "m ?h = head_block ?L (d ?h)"
      using writes_outside [OF wf 2(1) head_in_log [OF wf(1)]] 2(2) by simp
    have "rec_disk ?L m b = d b" if b: "\<not> in_log ?L b" for b
    proof -
      have "rec_disk ?L m b = (if b \<in> set (sectors ?L) then d b else m b)"
        using slot by (intro rec_disk_committed [where x = "d ?h" and m = m, OF wf b hd])
          (simp add: 2(2) writes_outside [OF wf 2(1)] slots_written [OF wf])
      then show ?thesis
        using writes_only_home [OF 2(1)] nh [OF b] nolog [OF b] same by (simp add: 2(2))
    qed
    then show ?thesis by blast
  next
    case 3
    have "get32 (m ?h) 0 = 0" unfolding 3 by (simp add: get32_put32)
    then have "rec_disk ?L m b = d b" if b: "\<not> in_log ?L b" for b
      using nh [OF b] nolog [OF b] same
      by (simp add: rec_disk_empty) (simp add: 3 home_writes_put [OF wf])
    then show ?thesis by blast
  qed
qed


section \<open>Recovery\<close>

definition read_log :: "log \<Rightarrow> block \<Rightarrow> log" where
  "read_log L d = L\<lparr>lh_n := sint (get32 d 0),
     lh_sector := (\<lambda>i. if i < nat (sint (get32 d 0)) then get32 d (4 + 4 * i) else lh_sector L i)\<rparr>"

lemma cframe_upd_thelog: "cframe s t \<Longrightarrow> cframe (s\<lparr>thelog := L\<rparr>) (t\<lparr>thelog := L\<rparr>)"
  by (cases s; cases t) (simp add: cframe_def)

lemma wp_read_head:
  assumes inv: "binv s" and wf: "log_wf s" and nb: "busy_at s = {}" and c: "card (dirty_at s) < NBUF"
    and n: "sint (get32 (blk s (log_head (thelog s))) 0) \<le> int LOGSIZE"
    and post: "\<And>t. binv t \<Longrightarrow> cframe (s\<lparr>thelog := read_log (thelog s) (blk s (log_head (thelog s)))\<rparr>) t \<Longrightarrow>
      view t = view s \<Longrightarrow> Q () t"
  shows "wp read_head Q s"
proof -
  let ?h = "log_head (thelog s)"
  let ?M = "read_log (thelog s) (blk s ?h)"
  have im: "in_image s ?h" using in_log_in_image [OF wf head_in_log [OF wf]] .
  have "wp (bread ROOTDEV ?h) (\<lambda>b. wp (get_data b) (\<lambda>d.
      wp (if int LOGSIZE < sint (get32 d 0) then fail (Undef ''lh.sector: index out of range'')
       else andthen (upd_log (\<lambda>L. L\<lparr>lh_n := sint (get32 d 0),
         lh_sector := (\<lambda>i. if i < nat (sint (get32 d 0)) then get32 d (4 + 4 * i) else lh_sector L i)\<rparr>))
         (brelse b)) Q)) s"
  proof (rule bc.rd [OF inv im])
    fix i t assume t: "binv t" "cframe s t" "view t = a_bread ?h (view s)" "holds t i ?h"
    have d: "v_blk (view t) ?h = blk s ?h" using t(3) by (simp add: a_bread_def)
    have L: "thelog t = thelog s" by (rule cframe_thelog [OF t(2)])
    have up: "(thelog t)\<lparr>lh_n := sint (get32 (blk s ?h) 0),
         lh_sector := (\<lambda>i. if i < nat (sint (get32 (blk s ?h) 0)) then get32 (blk s ?h) (4 + 4 * i) else lh_sector (thelog t) i)\<rparr> = ?M"
      by (simp only: read_log_def L)
    have "wp (brelse i) Q (t\<lparr>thelog := ?M\<rparr>)"
    proof (rule bc.rel [of _ _ ?h])
      show "?h \<in> v_dirty (view (t\<lparr>thelog := ?M\<rparr>)) \<or> v_blk (view (t\<lparr>thelog := ?M\<rparr>)) ?h = v_img (view (t\<lparr>thelog := ?M\<rparr>)) ?h"
        using bc.clean [OF inv, of ?h] t(3) nb by (auto simp: a_bread_def)
      fix u assume u: "binv u" "cframe (t\<lparr>thelog := ?M\<rparr>) u" "view u = a_brelse ?h (view (t\<lparr>thelog := ?M\<rparr>))"
      have "view u = view s" using u(3) t(3) nb by (simp add: a_brelse_def a_bread_def)
      then show "Q () u"
        using post [OF u(1)] cframe_trans [OF cframe_upd_thelog [OF t(2)] u(2)] by simp
    qed (use t in simp_all)
    then show "wp (get_data i) (\<lambda>d.
      wp (if int LOGSIZE < sint (get32 d 0) then fail (Undef ''lh.sector: index out of range'')
       else andthen (upd_log (\<lambda>L. L\<lparr>lh_n := sint (get32 d 0),
         lh_sector := (\<lambda>i. if i < nat (sint (get32 d 0)) then get32 d (4 + 4 * i) else lh_sector L i)\<rparr>))
         (brelse i)) Q) t"
      unfolding bc.ld [OF t(1,4)] d using n
      by (simp only: if_not_P not_less wp_andthen wp_upd_log up)
  qed (use nb c in auto)
  then show ?thesis
    using log_wfD(1) [OF wf] unfolding read_head_def Let_def by (simp only: wp_bind wp_get_log)
qed

text \<open>A medium whose log header is well-formed, and what recovery makes of it.\<close>

definition disk_wf :: "'z logst_scheme \<Rightarrow> bool" where
  "disk_wf s \<longleftrightarrow> head_wf (s\<lparr>thelog := disk_log (thelog s) (img s)\<rparr>)"

lemma sectors_read_log: "sectors (read_log L (d (log_head L))) = sectors (disk_log L d)"
  by (simp add: sectors_def read_log_def disk_log_def)

lemma log_place [simp]:
  "log_slot (read_log L x) = log_slot L" "log_head (read_log L x) = log_head L"
  "lsize (read_log L x) = lsize L" "lstart (read_log L x) = lstart L" "ldev (read_log L x) = ldev L"
  "log_slot (disk_log L d) = log_slot L" "log_head (disk_log L d) = log_head L"
  "lsize (disk_log L d) = lsize L" "lstart (disk_log L d) = lstart L" "ldev (disk_log L d) = ldev L"
  "log_slot (L\<lparr>lh_n := n\<rparr>) = log_slot L" "log_head (L\<lparr>lh_n := n\<rparr>) = log_head L"
  "in_log (read_log L x) = in_log L" "in_log (disk_log L d) = in_log L" "in_log (L\<lparr>lh_n := n\<rparr>) = in_log L"
  by (simp_all add: log_slot_def log_head_def read_log_def disk_log_def fun_eq_iff in_log_def)

lemma head_wf_read:
  "head_wf (s\<lparr>thelog := read_log (thelog s) (img s (log_head (thelog s)))\<rparr>) = disk_wf s"
  by (simp add: disk_wf_def head_wf_def Let_def sectors_read_log) (simp add: read_log_def disk_log_def)

lemma log_wf_read [simp]: "log_wf (s\<lparr>thelog := read_log (thelog s) x\<rparr>) = log_wf s"
  by (simp add: log_wf_def Let_def)

lemma rec_writes_outside:
  assumes wf: "log_wf s" "disk_wf s" and us: "us \<in> set (subseqs (rec_writes (thelog s) (img s)))"
    and b: "in_log (thelog s) b"
  shows "put_all us m b = m b"
proof (rule put_all_other)
  have "fst ` set us \<subseteq> set (sectors (disk_log (thelog s) (img s)))"
    using subseqs_subset [OF us] by (auto simp: rec_writes_def sectors_def)
  then show "b \<notin> fst ` set us" using wf(2) b by (auto simp: disk_wf_def head_wf_def Let_def)
qed

lemma recover_copies:
  fixes s :: "'z logst_scheme"
  defines "L \<equiv> thelog s" and "d \<equiv> img s"
  assumes wf: "log_wf s" "disk_wf s" and clean: "blk s = img s" "dirty_at s = {}"
  shows "a_copies (home_copies (read_log L (d (log_head L)))) (view s) =
    (view s)\<lparr>v_blk := put_all (rec_writes L d) d, v_img := put_all (rec_writes L d) d,
       v_hist := hist s @ map (\<lambda>w. Write (fst w) (snd w)) (rec_writes L d)\<rparr>"
proof -
  let ?M = "read_log L (d (log_head L))" and ?r = "s\<lparr>thelog := read_log L (d (log_head L))\<rparr>"
  have r: "log_wf ?r" "head_wf ?r" using wf head_wf_read [of s] by (simp_all add: L_def d_def)
  have apart: "snd p \<notin> fst ` set (home_copies ?M)" if "p \<in> set (home_copies ?M)" for p
    using that log_home_apart [OF r] by (fastforce simp: home_copies_def)
  have "map (\<lambda>p. (fst p, v_blk (view s) (snd p))) (home_copies ?M) = rec_writes L d"
    by (simp add: clean rec_writes_def home_copies_def disk_log_def d_def) (simp add: read_log_def)
  then show ?thesis
    by (subst a_copies_eq [OF apart]) (simp_all add: Let_def clean d_def)
qed

lemma wp_recover:
  fixes s :: "'z logst_scheme"
  defines "L \<equiv> thelog s" and "d \<equiv> img s"
  assumes inv: "binv s" and wf: "log_wf s" "disk_wf s" and fresh: "busy_at s = {}" "dirty_at s = {}"
    and post: "\<And>t. txn_inv t \<Longrightarrow> lframe s t \<Longrightarrow> thelog t = (read_log L (d (log_head L)))\<lparr>lh_n := 0\<rparr> \<Longrightarrow>
      busy_at t = {} \<Longrightarrow> blk t = rec_disk L d \<Longrightarrow> img t = rec_disk L d \<Longrightarrow>
      hist t = hist s @ recover_io L d \<Longrightarrow> Q () t"
  shows "wp recover_from_log Q s"
proof -
  let ?h = "log_head L" and ?M = "read_log L (d (log_head L))"
  have clean: "blk s = d" using blk_clean [OF inv] fresh by (auto simp: d_def)
  have r: "log_wf (s\<lparr>thelog := ?M\<rparr>)" "head_wf (s\<lparr>thelog := ?M\<rparr>)"
    using wf head_wf_read [of s] by (simp_all add: L_def d_def)
  have n: "lh_n ?M \<le> int LOGSIZE" using r(2) log_wfD(4) [OF r(1)] by (simp add: head_wf_def Let_def)
  note copies = recover_copies [OF wf clean [unfolded d_def] fresh(2), folded L_def d_def]
  show ?thesis
    unfolding recover_from_log_def wp_andthen
  proof (rule wp_read_head [OF inv wf(1) fresh(1)])
    show "card (dirty_at s) < NBUF" using fresh(2) by (simp add: NBUF_def)
    show "sint (get32 (blk s (log_head (thelog s))) 0) \<le> int LOGSIZE"
      using n clean by (simp add: read_log_def L_def)
    fix t1 assume 1: "binv t1" "cframe (s\<lparr>thelog := read_log (thelog s) (blk s (log_head (thelog s)))\<rparr>) t1" "view t1 = view s"
    have f1: "cframe (s\<lparr>thelog := ?M\<rparr>) t1" using 1(2) clean by (simp add: L_def)
    have d1: "busy_at t1 = {}" "dirty_at t1 = {}"
      using arg_cong [OF 1(3), of v_busy] arg_cong [OF 1(3), of v_dirty] fresh by auto
    have L1: "thelog t1 = ?M" using cframe_thelog [OF f1] by simp
    show "wp install_trans (\<lambda>_. wp (upd_log (\<lambda>L. L\<lparr>lh_n := 0\<rparr>)) (\<lambda>_. wp write_head Q)) t1"
    proof (rule wp_install_trans [OF 1(1)])
      show "log_wf t1" "head_wf t1" "busy_at t1 = {}" "dirty_at t1 \<subseteq> set (sectors (thelog t1))"
        using cframe_wf [OF f1] r d1 by auto
      fix t2 assume 2: "binv t2" "cframe t1 t2" "view t2 = a_copies (home_copies (thelog t1)) (view t1)"
      have f2: "cframe (s\<lparr>thelog := ?M\<rparr>) t2" by (rule cframe_trans [OF f1 2(2)])
      have v2: "view t2 = (view s)\<lparr>v_blk := put_all (rec_writes L d) d, v_img := put_all (rec_writes L d) d,
          v_hist := hist s @ map (\<lambda>w. Write (fst w) (snd w)) (rec_writes L d)\<rparr>"
        using 2(3) 1(3) L1 copies by simp
      have d2: "busy_at t2 = {}" "dirty_at t2 = {}" "blk t2 = put_all (rec_writes L d) d"
        using arg_cong [OF v2, of v_busy] arg_cong [OF v2, of v_dirty] arg_cong [OF v2, of v_blk] fresh by auto
      let ?t = "t2\<lparr>thelog := ?M\<lparr>lh_n := 0\<rparr>\<rparr>"
      have L2: "thelog t2 = ?M" "log_wf t2" using cframe_thelog [OF f2] cframe_wf [OF f2] r by auto
      have hd: "put_all (rec_writes L d) d ?h = d ?h"
        using rec_writes_outside [OF wf subseqs_self head_in_log [OF wf(1)]] by (simp add: L_def d_def)
      have "wp write_head Q ?t"
      proof (rule wp_write_head)
        show "binv ?t" "busy_at ?t = {}" "lh_n (thelog ?t) \<le> int LOGSIZE" "card (dirty_at ?t) < NBUF"
          using 2(1) d2 by (simp_all add: NBUF_def)
        show wt: "log_wf ?t" using L2 log_wf_upd [of 0 t2] by simp
        fix u assume u: "binv u" "cframe ?t u" "view u = a_put (log_head (thelog ?t))
          (head_block (thelog ?t) (blk ?t (log_head (thelog ?t)))) (a_sync (view ?t))"
        have vu: "view u = a_put ?h (put32 (d ?h) 0 0) (a_sync (view t2))"
          using u(3) d2(3) hd by (simp add: head_block_clear)
        have "log_wf u" "thelog u = ?M\<lparr>lh_n := 0\<rparr>" "dirty_at u = {}"
          using cframe_wf [OF u(2)] wt cframe_thelog [OF u(2)] arg_cong [OF vu, of v_dirty] d2
          by (auto simp: a_put_def a_sync_def)
        moreover from this have "head_wf u" using empty_head_wf [of u] by simp
        ultimately have tx: "txn_inv u" using u(1) by (simp add: txn_inv_def sectors_def)
        have "lframe s u"
          using cframe_lframe [OF f2] cframe_lframe [OF u(2)] by (simp add: lframe_def)
        then show "Q () u"
          using tx \<open>thelog u = _\<close> arg_cong [OF vu, of v_busy] arg_cong [OF vu, of v_blk]
            arg_cong [OF vu, of v_img] arg_cong [OF vu, of v_hist] v2 fresh(1)
          by (intro post) (simp_all add: a_put_def a_sync_def rec_disk_def recover_io_def)
      qed
      then show "wp (upd_log (\<lambda>L. L\<lparr>lh_n := 0\<rparr>)) (\<lambda>_. wp write_head Q) t2"
        by (simp add: wp_upd_log L2(1))
    qed
  qed
qed


lemma recover_crash_cases:
  assumes "m \<in> crashes [] (recover_io L d) d"
  shows "(\<exists>us \<in> set (subseqs (rec_writes L d)). m = put_all us d)
    \<or> m = (put_all (rec_writes L d) d)(log_head L := put32 (d (log_head L)) 0 0)"
proof -
  let ?ws = "rec_writes L d" and ?h = "log_head L" and ?H = "put32 (d (log_head L)) 0 0"
  have "(\<exists>us \<in> set (subseqs ?ws). m = put_all us d) \<or> m \<in> crashes [] [Write ?h ?H, Sync] (put_all ?ws d)"
    using crashes_batch_start [of m ?ws "[Write ?h ?H, Sync]" d] assms by (simp add: recover_io_def)
  then show ?thesis
    using subseqs_self [of ?ws] by (auto simp: Let_def)
qed

text \<open>A crash during recovery changes nothing that a second recovery would not redo.\<close>

lemma recover_crash:
  assumes wf: "log_wf s" "disk_wf s" and b: "\<not> in_log (thelog s) b"
    and m: "m \<in> crashes [] (recover_io (thelog s) (img s)) (img s)"
  shows "rec_disk (thelog s) m b = rec_disk (thelog s) (img s) b"
proof -
  let ?L = "thelog s" and ?d = "img s" and ?h = "log_head (thelog s)"
  let ?ws = "rec_writes ?L ?d" and ?H = "put32 (img s (log_head (thelog s))) 0 0"
  have h: "in_log ?L ?h" by (rule head_in_log [OF wf(1)])
  then have bh: "b \<noteq> ?h" using b by auto
  from recover_crash_cases [OF m] show ?thesis
  proof
    assume "\<exists>us \<in> set (subseqs ?ws). m = put_all us ?d"
    then obtain us where us: "us \<in> set (subseqs ?ws)" "m = put_all us ?d" by blast
    have keep: "m c = ?d c" if "in_log ?L c" for c
      using rec_writes_outside [OF wf us(1) that] us(2) by simp
    have "disk_log ?L m = disk_log ?L ?d" using keep [OF h] by (simp add: disk_log_def)
    moreover have "m (log_slot ?L k) = ?d (log_slot ?L k)" if "k < nat (lh_n (disk_log ?L ?d))" for k
    proof (rule keep [OF slot_in_log [OF wf(1)]])
      have "int k < lh_n (disk_log ?L ?d)" using that by linarith
      then show "int k + 1 < lsize ?L" using wf(2) by (simp add: disk_wf_def head_wf_def Let_def)
    qed
    ultimately have "rec_writes ?L m = ?ws" by (simp add: rec_writes_def)
    then have "rec_disk ?L m b = put_all ?ws m b" using bh by (simp add: rec_disk_def)
    also have "\<dots> = put_all ?ws ?d b"
    proof (cases "b \<in> fst ` set ?ws")
      case True
      have "distinct (map fst ?ws)"
        using wf(2) by (simp add: disk_wf_def head_wf_def Let_def rec_writes_def sectors_def comp_def)
      then show ?thesis using True put_all_in by fastforce
    next
      case False
      then have "b \<notin> fst ` set us" using subseqs_subset [OF us(1)] by auto
      then show ?thesis using False us(2) by (simp add: put_all_other)
    qed
    finally show ?thesis using bh by (simp add: rec_disk_def)
  next
    assume "m = (put_all ?ws ?d)(?h := ?H)"
    then show ?thesis using bh by (simp add: rec_disk_empty get32_put32) (simp add: rec_disk_def)
  qed
qed

text \<open>After a crash in a commit the medium has a header recovery can rely on.\<close>

definition log_geometry :: "log \<Rightarrow> u32 \<times> int \<times> int" where
  "log_geometry L = (ldev L, lstart L, lsize L)"

lemma geometry_place:
  assumes "log_geometry L = log_geometry M"
  shows "log_slot L = log_slot M" "log_head L = log_head M" "in_log L = in_log M"
  using assms by (simp_all add: log_geometry_def log_slot_def log_head_def in_log_def fun_eq_iff)

lemma rec_disk_geometry: "log_geometry L = log_geometry M \<Longrightarrow> rec_disk L d = rec_disk M d"
  using geometry_place [of L M] by (simp add: rec_disk_def rec_writes_def disk_log_def)

lemma crash_disk_wf:
  assumes wf: "log_wf s" "head_wf s" and e: "get32 (m0 (log_head (thelog s))) 0 = 0"
    and m: "m \<in> crashes [] (commit_io (thelog s) d) m0"
    and r: "log_geometry (thelog r) = log_geometry (thelog s)" "imglen r = imglen s" "img r = m"
  shows "log_wf r \<and> disk_wf r"
proof
  let ?L = "thelog s" and ?h = "log_head (thelog s)"
  show lr: "log_wf r" using wf(1) r(1,2) by (simp add: log_wf_def Let_def log_geometry_def)
  note g = geometry_place [OF r(1)]
  have zero: "disk_wf r" if "get32 (m ?h) 0 = 0"
    unfolding disk_wf_def using that lr
    by (intro empty_head_wf) (simp_all add: disk_log_def g r log_wf_def Let_def)
  have full: "disk_wf r" if h: "m ?h = head_block ?L x" for x
  proof -
    have "sectors (disk_log (thelog r) m) = sectors ?L"
      using head_block_n [OF wf] head_block_sector [of _ ?L x]
      by (simp add: sectors_def disk_log_def g h)
    moreover have "lh_n (disk_log (thelog r) m) = lh_n ?L"
      using head_block_n [OF wf] by (simp add: disk_log_def g h)
    ultimately show ?thesis
      using wf(2) r by (simp add: disk_wf_def head_wf_def Let_def g in_image_def log_geometry_def)
  qed
  show "disk_wf r" using m
  proof (cases rule: crash_cases)
    case (1 us)
    then show ?thesis using e writes_only_log(1) [OF wf 1(1)] by (intro zero) simp
  next
    case (2 us)
    then show ?thesis
      using writes_outside [OF wf 2(1) head_in_log [OF wf(1)]] by (intro full [of "d ?h"]) simp
  next
    case 3
    then show ?thesis by (intro zero) (simp add: get32_put32)
  qed
qed


end
