(* ===== verification/Xv6_Txn.thy ===== *)
theory Xv6_Txn
  imports Xv6_Crash
begin

text \<open>
  Transactions as the system calls use them: \<open>end_op\<close> of the last system call commits, and the way
  \<open>fs.c\<close> changes a block (\<open>wp_log_update\<close>). The theorems are the promises of \<open>log.c\<close> to the rest
  of the file system: a transaction is atomic across a crash and a reboot, recovery can itself
  crash and be repeated.
\<close>

section \<open>Whole system calls\<close>

lemma log_counters [simp]:
  "sectors (L\<lparr>outstanding := n\<rparr>) = sectors L" "sectors (L\<lparr>committing := n\<rparr>) = sectors L"
  "in_log (L\<lparr>outstanding := n\<rparr>) = in_log L" "in_log (L\<lparr>committing := n\<rparr>) = in_log L"
  "log_slot (L\<lparr>outstanding := n\<rparr>) = log_slot L" "log_slot (L\<lparr>committing := n\<rparr>) = log_slot L"
  "log_head (L\<lparr>outstanding := n\<rparr>) = log_head L" "log_head (L\<lparr>committing := n\<rparr>) = log_head L"
  "head_block (L\<lparr>outstanding := n\<rparr>) = head_block L" "head_block (L\<lparr>committing := n\<rparr>) = head_block L"
  by (simp_all add: sectors_def in_log_def log_slot_def log_head_def head_block_def fun_eq_iff)

lemma txn_io_counters [simp]:
  "txn_io (L\<lparr>outstanding := n\<rparr>) = txn_io L" "txn_io (L\<lparr>committing := n\<rparr>) = txn_io L"
  by (simp_all add: txn_io_def commit_io_def log_writes_def home_writes_def fun_eq_iff)

lemma txn_inv_counters [simp]:
  "txn_inv (s\<lparr>thelog := (thelog s)\<lparr>outstanding := n, committing := k\<rparr>\<rparr>) = txn_inv s"
  "txn_inv (s\<lparr>thelog := (thelog s)\<lparr>outstanding := n\<rparr>\<rparr>) = txn_inv s"
  "txn_inv (s\<lparr>thelog := (thelog s)\<lparr>committing := n\<rparr>\<rparr>) = txn_inv s"
  by (simp_all add: txn_inv_def log_wf_def head_wf_def Let_def)

lemma wp_end_op_last:
  assumes inv: "txn_inv s" and nb: "busy_at s = {}"
    and c: "outstanding (thelog s) = 1" "committing (thelog s) = 0"
    and post: "\<And>t. txn_inv t \<Longrightarrow> lframe s t \<Longrightarrow> thelog t = (thelog s)\<lparr>lh_n := 0, outstanding := 0\<rparr> \<Longrightarrow>
      busy_at t = {} \<Longrightarrow> dirty_at t = {} \<Longrightarrow> blk t = apply_io (txn_io (thelog s) (blk s)) (blk s) \<Longrightarrow>
      img t = apply_io (txn_io (thelog s) (blk s)) (img s) \<Longrightarrow>
      hist t = hist s @ txn_io (thelog s) (blk s) \<Longrightarrow> Q () t"
  shows "wp end_op Q s"
proof -
  let ?s = "s\<lparr>thelog := (thelog s)\<lparr>outstanding := 0, committing := 1\<rparr>\<rparr>"
  have "wp commit (\<lambda>_. wp (upd_log (\<lambda>L. L\<lparr>committing := 0\<rparr>)) Q) ?s"
  proof (rule wp_commit)
    show "txn_inv ?s" "busy_at ?s = {}" using inv nb by simp_all
    fix t assume t: "txn_inv t" "lframe ?s t" "thelog t = (thelog ?s)\<lparr>lh_n := 0\<rparr>" "busy_at t = {}"
      "dirty_at t = {}" "blk t = apply_io (txn_io (thelog ?s) (blk ?s)) (blk ?s)"
      "img t = apply_io (txn_io (thelog ?s) (blk ?s)) (img ?s)"
      "hist t = hist ?s @ txn_io (thelog ?s) (blk ?s)"
    have "txn_inv (t\<lparr>thelog := (thelog t)\<lparr>committing := 0\<rparr>\<rparr>)" using t(1) by simp
    then show "wp (upd_log (\<lambda>L. L\<lparr>committing := 0\<rparr>)) Q t"
      unfolding wp_upd_log using t c(2) by (intro post) (simp_all add: lframe_def)
  qed
  then show ?thesis using c by (simp add: end_op_def wp_simps)
qed

lemma txn_clean: "txn_inv s \<Longrightarrow> busy_at s = {} \<Longrightarrow> b \<notin> set (sectors (thelog s)) \<Longrightarrow> blk s b = img s b"
  using blk_clean [of s b] by (auto simp: txn_inv_def)

text \<open>The medium after a transaction: every block outside the log is the cache's.\<close>

lemma txn_io_new:
  assumes "txn_inv s" "busy_at s = {}" "\<not> in_log (thelog s) b"
  shows "apply_io (txn_io (thelog s) (blk s)) (img s) b = blk s b"
    "apply_io (txn_io (thelog s) (blk s)) (blk s) b = blk s b"
  using assms txn_clean [OF assms(1,2), of b] commit_io_new [of s b] head_empty [of s]
  by (auto simp: txn_io_def txn_inv_def sectors_def)

text \<open>The log header on the medium is empty: nothing is committed that is not installed.\<close>

definition log_empty :: "'z logst_scheme \<Rightarrow> bool" where
  "log_empty s \<longleftrightarrow> get32 (img s (log_head (thelog s))) 0 = 0"

lemma txn_io_log_empty:
  assumes "log_empty s"
  shows "get32 (apply_io (txn_io (thelog s) d) (img s) (log_head (thelog s))) 0 = 0"
  using assms by (simp add: txn_io_def log_empty_def commit_io_def get32_put32)

text \<open>A machine that has just booted from the medium \<open>m\<close>: the cache is empty.\<close>

definition booted :: "log \<Rightarrow> nat \<Rightarrow> (u32 \<Rightarrow> block) \<Rightarrow> 'z logst_scheme \<Rightarrow> bool" where
  "booted L len m r \<longleftrightarrow> binv r \<and> busy_at r = {} \<and> dirty_at r = {} \<and> img r = m \<and> imglen r = len
     \<and> log_geometry (thelog r) = log_geometry L"

lemma txn_crash:
  assumes inv: "txn_inv s" and nb: "busy_at s = {}" and e: "log_empty s"
    and m: "m \<in> crashes [] (txn_io (thelog s) (blk s)) (img s)"
    and r: "booted (thelog s) (imglen s) m r"
  shows "log_wf r" "disk_wf r"
    "(\<forall>b. \<not> in_log (thelog s) b \<longrightarrow> rec_disk (thelog r) m b = img s b)
     \<or> (\<forall>b. \<not> in_log (thelog s) b \<longrightarrow> rec_disk (thelog r) m b = blk s b)"
proof -
  have wf: "log_wf s" "head_wf s" using inv by (auto simp: txn_inv_def)
  have geo: "log_geometry (thelog r) = log_geometry (thelog s)" "imglen r = imglen s" "img r = m"
    using r by (auto simp: booted_def)
  have e0: "get32 (img s (log_head (thelog s))) 0 = 0" using e by (simp add: log_empty_def)
  have "log_wf r \<and> disk_wf r \<and> ((\<forall>b. \<not> in_log (thelog s) b \<longrightarrow> rec_disk (thelog s) m b = img s b)
     \<or> (\<forall>b. \<not> in_log (thelog s) b \<longrightarrow> rec_disk (thelog s) m b = blk s b))"
  proof (cases "0 < lh_n (thelog s)")
    case True
    then have m': "m \<in> crashes [] (commit_io (thelog s) (blk s)) (img s)" using m by (simp add: txn_io_def)
    show ?thesis
      using crash_disk_wf [OF wf e0 m' geo] commit_atomic [OF wf e0 m' txn_clean [OF inv nb]] by blast
  next
    case False
    then have m0: "m = img s" using m by (simp add: txn_io_def)
    have lr: "log_wf r" using wf(1) geo by (simp add: log_wf_def Let_def log_geometry_def)
    have "disk_wf r"
      unfolding disk_wf_def using lr e0 geo geometry_place [OF geo(1)] m0
      by (intro empty_head_wf) (simp_all add: disk_log_def log_wf_def Let_def)
    moreover have "b \<noteq> log_head (thelog s)" if "\<not> in_log (thelog s) b" for b
      using that head_in_log [OF wf(1)] by auto
    ultimately show ?thesis using lr m0 e0 by (auto simp: rec_disk_empty)
  qed
  then show "log_wf r" "disk_wf r"
    "(\<forall>b. \<not> in_log (thelog s) b \<longrightarrow> rec_disk (thelog r) m b = img s b)
     \<or> (\<forall>b. \<not> in_log (thelog s) b \<longrightarrow> rec_disk (thelog r) m b = blk s b)"
    unfolding rec_disk_geometry [OF geo(1)] by auto
qed


text \<open>The way \<open>fs.c\<close> changes a block inside a transaction: read it, modify the buffer, log it,
  release it. The block must not be in use, and there must be a buffer and a log entry for it.\<close>

lemma wp_log_update:
  assumes inv: "txn_inv s" and b: "in_image s b" "\<not> in_log (thelog s) b" "b \<notin> busy_at s"
    and cap: "card (dirty_at s \<union> busy_at s) < NBUF"
    and room: "lh_n (thelog s) < lsize (thelog s) - 1" "1 \<le> outstanding (thelog s)"
    and post: "\<And>t. txn_inv t \<Longrightarrow> lframe s t \<Longrightarrow> thelog t = log_add (thelog s) b \<Longrightarrow>
      view t = (view s)\<lparr>v_blk := (blk s)(b := f (blk s b)), v_dirty := insert b (dirty_at s)\<rparr> \<Longrightarrow>
      (\<And>j c. holds s j c \<Longrightarrow> holds t j c) \<Longrightarrow> Q () t"
  shows "wp (bind (bread ROOTDEV b) (\<lambda>i. bind (get_data i) (\<lambda>d.
    andthen (set_data i (f d)) (andthen (log_write i) (brelse i))))) Q s"
proof -
  have s: "binv s" using inv by (simp add: txn_inv_def)
  have keep: "txn_inv t \<and> lh_n (thelog t) < lsize (thelog t) - 1 \<and> 1 \<le> outstanding (thelog t)
      \<and> in_image t b \<and> \<not> in_log (thelog t) b"
    if "binv t" "cframe s t" "dirty_at t = dirty_at s" for t
    using that inv room b cframe_thelog [OF that(2)] cframe_wf [OF that(2)]
    by (simp add: txn_inv_def in_image_def cframe_def)
  show ?thesis
    unfolding wp_bind wp_andthen
  proof (rule bc.rd [OF s b(1)])
    fix i t assume t: "binv t" "cframe s t" "view t = a_bread b (view s)" "holds t i b"
      and ht: "\<And>j c. holds s j c \<Longrightarrow> holds t j c"
    show "wp (get_data i) (\<lambda>d. wp (set_data i (f d)) (\<lambda>_. wp (log_write i) (\<lambda>_. wp (brelse i) Q))) t"
      unfolding bc.ld [OF t(1,4)]
    proof (rule bc.st [OF t(1,4)])
      fix u assume u: "binv u" "cframe t u" "view u = a_store b (f (v_blk (view t) b)) (view t)"
        and hu: "\<And>j c. holds t j c \<Longrightarrow> holds u j c"
      have fu: "cframe s u" by (rule cframe_trans [OF t(2) u(2)])
      have "dirty_at u = dirty_at s"
        using arg_cong [OF u(3), of v_dirty] arg_cong [OF t(3), of v_dirty] by (simp add: a_store_def a_bread_def)
      note ku = keep [OF u(1) fu this]
      have Lu: "thelog u = thelog s" by (rule cframe_thelog [OF fu])
      show "wp (log_write i) (\<lambda>_. wp (brelse i) Q) u"
      proof (rule wp_log_write [where b = b])
        fix x assume x: "txn_inv x" "lframe u x" "thelog x = log_add (thelog u) b" "view x = a_pin b (view u)"
          and hx: "\<And>j c. holds u j c \<Longrightarrow> holds x j c"
        have bx: "binv x" using x(1) by (simp add: txn_inv_def)
        show "wp (brelse i) Q x"
        proof (rule bc.rel [OF bx hx [OF hu [OF t(4)]]])
          show "b \<in> v_dirty (view x) \<or> v_blk (view x) b = v_img (view x) b" by (simp only: x(4)) (simp add: a_pin_def)
          fix y assume y: "binv y" "cframe x y" "view y = a_brelse b (view x)"
            and hy: "\<And>j c. holds x j c \<Longrightarrow> c \<noteq> b \<Longrightarrow> holds y j c"
          have vy: "view y = (view s)\<lparr>v_blk := (blk s)(b := f (blk s b)), v_dirty := insert b (dirty_at s)\<rparr>"
            unfolding y(3) x(4) u(3) t(3) using b(3)
            by (intro cview.equality) (simp_all add: a_brelse_def a_pin_def a_store_def a_bread_def)
          have "dirty_at y = dirty_at x" using arg_cong [OF y(3), of v_dirty] by (simp add: a_brelse_def)
          then have "txn_inv y"
            using x(1) y(1) cframe_wf [OF y(2)] cframe_thelog [OF y(2)] by (simp add: txn_inv_def)
          moreover have "lframe s y"
            using lframe_trans [OF cframe_lframe [OF fu] lframe_trans [OF x(2) cframe_lframe [OF y(2)]]] .
          moreover have "holds y j c" if "holds s j c" for j c
            using hy [OF hx [OF hu [OF ht [OF that]]]] holds_busy_at [OF that] b(3) by blast
          ultimately show "Q () y" using x(3) Lu cframe_thelog [OF y(2)] vy by (intro post) auto
        qed
      qed (use ku hu [OF t(4)] in auto)
    qed
  qed (use b(3) cap in auto)
qed


lemma recover_crash_wf:
  assumes wf: "log_wf s" "disk_wf s" and m: "m \<in> crashes [] (recover_io (thelog s) (img s)) (img s)"
    and q: "booted (thelog s) (imglen s) m q"
  shows "log_wf q \<and> disk_wf q"
proof
  let ?L = "thelog s" and ?h = "log_head (thelog s)" and ?ws = "rec_writes (thelog s) (img s)"
  have geo: "log_geometry (thelog q) = log_geometry ?L" "imglen q = imglen s" "img q = m"
    using q by (auto simp: booted_def)
  note g = geometry_place [OF geo(1)]
  show lq: "log_wf q" using wf(1) geo by (simp add: log_wf_def Let_def log_geometry_def)
  have h: "in_log ?L ?h" by (rule head_in_log [OF wf(1)])
  have "m ?h = img s ?h \<or> get32 (m ?h) 0 = 0"
    using recover_crash_cases [OF m] rec_writes_outside [OF wf _ h] by (auto simp: get32_put32)
  then consider "m ?h = img s ?h" | "get32 (m ?h) 0 = 0" by blast
  then show "disk_wf q"
  proof cases
    case 1
    then have "sectors (disk_log (thelog q) m) = sectors (disk_log ?L (img s))"
      "lh_n (disk_log (thelog q) m) = lh_n (disk_log ?L (img s))"
      by (simp_all add: disk_log_def g sectors_def)
    then show ?thesis
      using wf(2) geo by (simp add: disk_wf_def head_wf_def Let_def g in_image_def log_geometry_def)
  next
    case 2
    then show ?thesis
      unfolding disk_wf_def using lq geo
      by (intro empty_head_wf) (simp_all add: disk_log_def g log_wf_def Let_def)
  qed
qed

lemma wp_recover_booted:
  assumes r: "booted L n m r" and wf: "log_wf r" "disk_wf r"
  shows "\<exists>t. recover_from_log r = Ok () t \<and> txn_inv t \<and> log_empty t \<and> busy_at t = {} \<and>
    blk t = rec_disk L m \<and> img t = rec_disk L m \<and> hist t = hist r @ recover_io (thelog r) m \<and>
    log_geometry (thelog t) = log_geometry L"
proof -
  have r': "binv r" "busy_at r = {}" "dirty_at r = {}" "img r = m" "log_geometry (thelog r) = log_geometry L"
    using r by (auto simp: booted_def)
  have "wp recover_from_log (\<lambda>_ t. txn_inv t \<and> log_empty t \<and> busy_at t = {} \<and>
    blk t = rec_disk L m \<and> img t = rec_disk L m \<and> hist t = hist r @ recover_io (thelog r) m \<and>
    log_geometry (thelog t) = log_geometry L) r"
  proof (rule wp_recover [OF r'(1) wf r'(2,3)], intro conjI)
    fix t assume t: "txn_inv t" "thelog t = (read_log (thelog r) (img r (log_head (thelog r))))\<lparr>lh_n := 0\<rparr>"
      "busy_at t = {}" "blk t = rec_disk (thelog r) (img r)" "img t = rec_disk (thelog r) (img r)"
      "hist t = hist r @ recover_io (thelog r) (img r)"
    show "txn_inv t" "busy_at t = {}" "blk t = rec_disk L m" "img t = rec_disk L m"
      "hist t = hist r @ recover_io (thelog r) m"
      using t r'(4) rec_disk_geometry [OF r'(5)] by auto
    show "log_empty t" using t(2,5) by (simp add: log_empty_def rec_disk_def get32_put32)
    show "log_geometry (thelog t) = log_geometry L" using t(2) r'(5) by (simp add: log_geometry_def)
  qed
  then show ?thesis by (auto dest: wp_Ok)
qed

section \<open>A machine with one block in its log\<close>

text \<open>Concrete states for the witnesses: a machine booted from a medium of \<open>n\<close> blocks, and a small
  machine inside a system call that has changed block 2. Its log is in the blocks 6 to 9.\<close>

definition boot :: "(u32 \<Rightarrow> block) \<Rightarrow> nat \<Rightarrow> log \<Rightarrow> logst" where
  "boot m n L = \<lparr>img = m, imglen = n, hist = [], fsstats = zero_stats, clock = (\<lambda>_. 0), ticks = 0,
     bufs = linked (\<lambda>_. zero_buf) NBUF, thelog = L\<rparr>"

lemma booted_boot: "booted L n m (boot m n L)"
  using linked_cache [of "boot m n L" "\<lambda>_. zero_buf"] by (simp add: booted_def boot_def zero_buf_def)

definition ex_log :: log where
  "ex_log = \<lparr>lstart = 6, lsize = 4, outstanding = 1, committing = 0, ldev = ROOTDEV, lh_n = 1, lh_sector = (\<lambda>_. 2)\<rparr>"

definition ex_txn :: logst where
  "ex_txn = (let s = boot (\<lambda>_. zero_block) 10 ex_log in
     s\<lparr>bufs := (bufs s)(0 := (bufs s 0)\<lparr>bflags := 6, bdev := ROOTDEV, bsector := 2, bdata := (\<lambda>_. 1)\<rparr>)\<rparr>)"

lemma ex_flags: "bit (6 :: u32) 0 = False" "bit (6 :: u32) 1 = True" "bit (6 :: u32) 2 = True"
  by simp_all

lemma ex_bufs:
  "bufs ex_txn i = (if i = 0 then (linked (\<lambda>_. zero_buf) NBUF 0)\<lparr>bflags := 6, bdev := ROOTDEV, bsector := 2, bdata := (\<lambda>_. 1)\<rparr>
     else linked (\<lambda>_. zero_buf) NBUF i)"
  by (simp add: ex_txn_def boot_def Let_def)

lemma ex_other:
  assumes "0 < i" "i < NBUF"
  shows "\<not> busy (bufs ex_txn i)" "\<not> valid (bufs ex_txn i)" "\<not> dirty (bufs ex_txn i)" "bdev (bufs ex_txn i) = - 1"
  using assms by (simp_all add: ex_bufs linked_def zero_buf_def busy_def valid_def dirty_def)

lemma ex_cached: "i < NBUF \<Longrightarrow> caches (bufs ex_txn i) ROOTDEV b = (i = 0 \<and> b = 2)"
  using ex_other [of i] by (cases "i = 0") (auto simp: caches_def ex_bufs ROOTDEV_def)

lemma ex_binv: "binv ex_txn"
proof -
  have "ring (bufs ex_txn) (rev [0..<NBUF])"
    using ring_linked [of "\<lambda>_. zero_buf"] by (subst ring_cong) (auto simp: ex_bufs)
  moreover have "buf_ok ex_txn (bufs ex_txn i)" if "i < NBUF" for i
    using ex_other [OF _ that]
    by (cases "i = 0") (auto simp: buf_ok_def ex_bufs in_image_def ex_txn_def boot_def Let_def ROOTDEV_def ex_flags)
  moreover have "unique_sectors (bufs ex_txn)"
    using ex_cached unfolding unique_sectors_def caches_def by auto
  ultimately show ?thesis by (auto simp: binv_def)
qed

lemma ex_txn_ok:
  "txn_inv ex_txn" "busy_at ex_txn = {}" "thelog ex_txn = ex_log" "log_empty ex_txn" "imglen ex_txn = 10"
  "img ex_txn = (\<lambda>_. zero_block)" "blk ex_txn 2 = (\<lambda>_. 1)"
proof -
  show L: "thelog ex_txn = ex_log" "imglen ex_txn = 10" "img ex_txn = (\<lambda>_. zero_block)"
    by (simp_all add: ex_txn_def boot_def Let_def)
  have zero: "dirty (bufs ex_txn 0)" "\<not> busy (bufs ex_txn 0)" "0 < NBUF"
    by (simp_all add: ex_bufs ex_flags NBUF_def)
  have "dirty_at ex_txn = {b. \<exists>i < NBUF. (i = 0 \<and> b = 2) \<and> dirty (bufs ex_txn i)}"
    unfolding dirty_at_def using ex_cached by (metis (no_types, lifting))
  then have "dirty_at ex_txn = {2}" using zero by auto
  then show "txn_inv ex_txn"
    using ex_binv L by (auto simp: txn_inv_def log_wf_def head_wf_def ex_log_def sectors_def in_image_def in_log_def LOGSIZE_def)
  show "busy_at ex_txn = {}"
    unfolding busy_at_def using ex_cached zero by auto
  show "log_empty ex_txn" using L by (simp add: log_empty_def zero_block_def get32_def)
  show "blk ex_txn 2 = (\<lambda>_. 1)"
    using blk_cached [OF ex_binv, of 0 2] ex_cached [of 0 2] by (simp add: NBUF_def ex_bufs)
qed

section \<open>Properties\<close>

text \<open>C3. A system call is atomic. When the last outstanding system call ends, \<open>end_op\<close> returns,
  and from then on every block outside the log is on the disk as the file system last saw it, with
  nothing pinned and an empty log. If the machine fails at any point of the writes and syncs
  \<open>end_op\<close> issues, keeping any subset of the writes since the last sync, then a machine booted from
  what is left recovers, to the blocks before the system call or to the blocks after it.\<close>

theorem end_op_crash_safe:
  assumes "txn_inv s" "busy_at s = {}" "outstanding (thelog s) = 1" "committing (thelog s) = 0" "log_empty s"
  shows "\<exists>t. end_op s = Ok () t \<and> txn_inv t \<and> log_empty t \<and> dirty_at t = {} \<and> outstanding (thelog t) = 0 \<and>
    (\<forall>b. \<not> in_log (thelog s) b \<longrightarrow> img t b = blk s b \<and> blk t b = blk s b) \<and>
    hist t = hist s @ txn_io (thelog s) (blk s) \<and>
    (\<forall>m \<in> crashes [] (txn_io (thelog s) (blk s)) (img s). \<forall>r. booted (thelog s) (imglen s) m r \<longrightarrow>
      (\<exists>r'. recover_from_log r = Ok () r' \<and> txn_inv r' \<and> log_empty r' \<and>
        ((\<forall>b. \<not> in_log (thelog s) b \<longrightarrow> blk r' b = img s b) \<or>
         (\<forall>b. \<not> in_log (thelog s) b \<longrightarrow> blk r' b = blk s b))))"
proof -
  have "wp end_op (\<lambda>_ t. txn_inv t \<and> log_empty t \<and> dirty_at t = {} \<and> outstanding (thelog t) = 0 \<and>
    (\<forall>b. \<not> in_log (thelog s) b \<longrightarrow> img t b = blk s b \<and> blk t b = blk s b) \<and>
    hist t = hist s @ txn_io (thelog s) (blk s)) s"
    by (rule wp_end_op_last [OF assms(1-4)])
       (use txn_io_log_empty [OF assms(5)] txn_io_new [OF assms(1,2)] in \<open>auto simp: log_empty_def\<close>)
  moreover have "\<exists>r'. recover_from_log r = Ok () r' \<and> txn_inv r' \<and> log_empty r' \<and>
        ((\<forall>b. \<not> in_log (thelog s) b \<longrightarrow> blk r' b = img s b) \<or>
         (\<forall>b. \<not> in_log (thelog s) b \<longrightarrow> blk r' b = blk s b))"
    if "m \<in> crashes [] (txn_io (thelog s) (blk s)) (img s)" "booted (thelog s) (imglen s) m r" for m r
  proof -
    note c = txn_crash [OF assms(1,2,5) that]
    have "rec_disk (thelog r) m = rec_disk (thelog s) m"
      by (rule rec_disk_geometry) (use that(2) in \<open>simp add: booted_def\<close>)
    then show ?thesis using wp_recover_booted [OF that(2) c(1,2)] c(3) by auto
  qed
  ultimately show ?thesis by (auto dest!: wp_Ok)
qed

text \<open>The small machine: its system call commits, and whatever survives a crash recovers.\<close>

theorem end_op_crash_safe_witness:
  "\<exists>t. end_op ex_txn = Ok () t \<and> img t 2 = (\<lambda>_. 1) \<and> hist t = txn_io ex_log (blk ex_txn) \<and>
    (\<forall>m \<in> crashes [] (txn_io ex_log (blk ex_txn)) (\<lambda>_. zero_block).
      \<exists>r'. recover_from_log (boot m 10 ex_log) = Ok () r' \<and> (blk r' 2 = zero_block \<or> blk r' 2 = (\<lambda>_. 1)))"
proof -
  have "\<not> in_log ex_log 2" "hist ex_txn = []"
    by (simp_all add: in_log_def ex_log_def ex_txn_def boot_def Let_def)
  moreover have "outstanding ex_log = 1" "committing ex_log = 0" by (simp_all add: ex_log_def)
  moreover note end_op_crash_safe [of ex_txn] booted_boot [of ex_log 10]
  ultimately show ?thesis by (force simp: ex_txn_ok)
qed

text \<open>C6. Recovery is idempotent under crashes. On a booted machine whose medium has a well-formed log
  header, \<open>recover_from_log\<close> returns with the cache and the disk equal to \<open>rec_disk\<close> of the medium and
  an empty log; if the machine fails anywhere during that recovery, a second recovery from what is
  left returns and gives the same blocks outside the log.\<close>

theorem recovery_idempotent:
  assumes "booted L n m r" "log_wf r" "disk_wf r"
  shows "\<exists>t. recover_from_log r = Ok () t \<and> txn_inv t \<and> log_empty t \<and> blk t = rec_disk L m \<and> img t = rec_disk L m \<and>
    hist t = hist r @ recover_io (thelog r) m \<and>
    (\<forall>m' \<in> crashes [] (recover_io (thelog r) m) m. \<forall>q. booted L n m' q \<longrightarrow>
      (\<exists>q'. recover_from_log q = Ok () q' \<and> log_empty q' \<and> (\<forall>b. \<not> in_log L b \<longrightarrow> blk q' b = blk t b)))"
proof -
  have r: "img r = m" "imglen r = n" "log_geometry (thelog r) = log_geometry L" using assms(1) by (auto simp: booted_def)
  note g = geometry_place [OF r(3)] rec_disk_geometry [OF r(3)]
  have "\<exists>q'. recover_from_log q = Ok () q' \<and> log_empty q' \<and> (\<forall>b. \<not> in_log L b \<longrightarrow> blk q' b = rec_disk L m b)"
    if m': "m' \<in> crashes [] (recover_io (thelog r) m) m" and q: "booted L n m' q" for m' q
  proof -
    have q': "booted (thelog r) (imglen r) m' q" using q r by (simp add: booted_def)
    have "log_wf q \<and> disk_wf q"
      using recover_crash_wf [OF assms(2,3) _ q'] m' r(1) by simp
    then obtain q' where "recover_from_log q = Ok () q'" "log_empty q'" "blk q' = rec_disk L m'"
      using wp_recover_booted [OF q] by blast
    then show ?thesis
      using recover_crash [OF assms(2,3)] m' r(1) g by auto
  qed
  then show ?thesis using wp_recover_booted [OF assms] by force
qed

text \<open>The small machine after a crash in the middle of installing: the medium has the committed
  header.\<close>

definition ex_medium :: "u32 \<Rightarrow> block" where
  "ex_medium = (\<lambda>_. zero_block)(6 := head_block ex_log zero_block, 7 := (\<lambda>_. 1))"

theorem recovery_idempotent_witness:
  "\<exists>t. recover_from_log (boot ex_medium 10 ex_log) = Ok () t \<and> blk t 2 = (\<lambda>_. 1) \<and>
    (\<forall>m' \<in> crashes [] (recover_io ex_log ex_medium) ex_medium.
      \<exists>q'. recover_from_log (boot m' 10 ex_log) = Ok () q' \<and> blk q' 2 = (\<lambda>_. 1))"
proof -
  let ?r = "boot ex_medium 10 ex_log"
  have h: "log_head ex_log = 6" "log_slot ex_log 0 = 7" by (simp_all add: log_head_def log_slot_def ex_log_def)
  have L: "thelog ?r = ex_log" "img ?r = ex_medium" "imglen ?r = 10" by (simp_all add: boot_def)
  have n: "get32 (head_block ex_log zero_block) 0 = 1" "get32 (head_block ex_log zero_block) 4 = 2"
    by (simp_all add: head_block_def ex_log_def codec_simps)
  have dl: "disk_log ex_log ex_medium = ex_log\<lparr>lh_sector := (\<lambda>i. get32 (head_block ex_log zero_block) (4 + 4 * i))\<rparr>"
    by (simp add: disk_log_def h ex_medium_def n) (simp add: ex_log_def)
  have "log_wf ?r" unfolding log_wf_def L Let_def by (simp add: ex_log_def LOGSIZE_def)
  moreover have "disk_wf ?r"
    using n unfolding disk_wf_def L dl head_wf_def
    by (simp add: sectors_def Let_def in_image_def in_log_def L(3)) (simp add: ex_log_def)
  moreover have "rec_disk ex_log ex_medium 2 = (\<lambda>_. 1)"
  proof -
    have "lh_n ex_log = 1" "ex_medium 7 = (\<lambda>_. 1)" by (simp_all add: ex_log_def ex_medium_def)
    then have "rec_writes ex_log ex_medium = [(2, \<lambda>_. 1)]"
      unfolding rec_writes_def dl using n h by simp
    then show ?thesis using h by (simp add: rec_disk_def)
  qed
  moreover have "\<not> in_log ex_log 2" by (simp add: in_log_def ex_log_def)
  moreover note recovery_idempotent [OF booted_boot [of ex_log 10 ex_medium]] booted_boot [of ex_log 10]
  ultimately show ?thesis unfolding L by metis
qed

text \<open>C21. \<open>log_write\<close> on a buffer the caller holds records its block in the transaction: once, however often the
  block is written (absorption), it pins the buffer, and it writes nothing to the disk.\<close>

theorem log_write_logs:
  assumes "txn_inv s" "holds s i b" "in_image s b" "\<not> in_log (thelog s) b"
    and "lh_n (thelog s) < lsize (thelog s) - 1" "1 \<le> outstanding (thelog s)"
  shows "\<exists>t. log_write i s = Ok () t \<and> txn_inv t \<and> blk t = blk s \<and> img t = img s \<and> hist t = hist s
    \<and> sectors (thelog t) = (if b \<in> set (sectors (thelog s)) then sectors (thelog s) else sectors (thelog s) @ [b])
    \<and> dirty_at t = insert b (dirty_at s) \<and> busy_at t = busy_at s"
proof -
  have n: "0 \<le> lh_n (thelog s)" using assms(1) by (simp add: txn_inv_def head_wf_def Let_def)
  have "wp (log_write i) (\<lambda>_ t. txn_inv t \<and> blk t = blk s \<and> img t = img s \<and> hist t = hist s
    \<and> sectors (thelog t) = (if b \<in> set (sectors (thelog s)) then sectors (thelog s) else sectors (thelog s) @ [b])
    \<and> dirty_at t = insert b (dirty_at s) \<and> busy_at t = busy_at s) s"
  proof (rule wp_log_write [OF assms])
    fix t assume t: "txn_inv t" "thelog t = log_add (thelog s) b" "view t = a_pin b (view s)"
    show "txn_inv t \<and> blk t = blk s \<and> img t = img s \<and> hist t = hist s
    \<and> sectors (thelog t) = (if b \<in> set (sectors (thelog s)) then sectors (thelog s) else sectors (thelog s) @ [b])
    \<and> dirty_at t = insert b (dirty_at s) \<and> busy_at t = busy_at s"
      using t(1,2) sectors_log_add [OF n, of b] t(3) by (simp add: view_def a_pin_def)
  qed
  then show ?thesis by (auto dest: wp_Ok)
qed

theorem log_write_logs_witness:
  "\<exists>i t u. bread ROOTDEV 3 ex_txn = Ok i t \<and> log_write i t = Ok () u \<and> sectors (thelog u) = [2, 3] \<and> dirty_at u = insert 3 (dirty_at t)"
proof -
  have s: "binv ex_txn" "in_image ex_txn 3" "card (dirty_at ex_txn \<union> busy_at ex_txn) < NBUF"
    "sectors (thelog ex_txn) = [2]"
    using ex_txn_ok by (auto simp: in_image_def txn_inv_def sectors_def ex_log_def NBUF_def)
  have "wp (bread ROOTDEV 3) (\<lambda>i t. txn_inv t \<and> thelog t = ex_log \<and> in_image t 3 \<and> holds t i 3) ex_txn"
  proof (rule bc.rd [OF s(1,2)])
    fix i t assume t: "binv t" "cframe ex_txn t" "view t = a_bread 3 (view ex_txn)" "holds t i 3"
    have "dirty_at t = dirty_at ex_txn" using t(3) by (simp add: view_def a_bread_def)
    then show "txn_inv t \<and> thelog t = ex_log \<and> in_image t 3 \<and> holds t i 3"
      using t cframe_wf [OF t(2)] cframe_thelog [OF t(2)] ex_txn_ok s(2)
      by (simp add: txn_inv_def in_image_def cframe_def)
  qed (use ex_txn_ok s(3) in auto)
  then obtain i t where t: "bread ROOTDEV 3 ex_txn = Ok i t" "txn_inv t" "thelog t = ex_log" "in_image t 3" "holds t i 3"
    by (auto dest: wp_Ok)
  have "\<not> in_log (thelog t) 3" "lh_n (thelog t) < lsize (thelog t) - 1" "1 \<le> outstanding (thelog t)" "sectors (thelog t) = [2]"
    using t(3) s(4) ex_txn_ok(3) by (simp_all add: in_log_def ex_log_def)
  from log_write_logs [OF t(2,5,4) this(1-3)] this(4) t(1) show ?thesis by auto
qed

text \<open>The guards of \<open>log_write\<close>: a transaction that does not fit the log, and a write outside every system call,
  are refused with a panic, and nothing is changed.\<close>

theorem log_write_refuses:
  "(int LOGSIZE \<le> lh_n (thelog s) \<or> lsize (thelog s) - 1 \<le> lh_n (thelog s) \<longrightarrow>
     log_write i s = Fail (Panic ''too big a transaction'') s)
   \<and> (lh_n (thelog s) < int LOGSIZE \<and> lh_n (thelog s) < lsize (thelog s) - 1 \<and> outstanding (thelog s) < 1 \<longrightarrow>
     log_write i s = Fail (Panic ''log_write outside of trans'') s)"
  by (auto simp: log_write_def bind_def get_log_def gets_def fail_def)

theorem log_write_refuses_witness:
  "log_write 0 (ex_txn\<lparr>thelog := ex_log\<lparr>lh_n := 3\<rparr>\<rparr>) = Fail (Panic ''too big a transaction'') (ex_txn\<lparr>thelog := ex_log\<lparr>lh_n := 3\<rparr>\<rparr>)"
  using log_write_refuses [of "ex_txn\<lparr>thelog := ex_log\<lparr>lh_n := 3\<rparr>\<rparr>" 0] by (simp add: ex_log_def)

text \<open>\<open>begin_op\<close> never admits more system calls than the header has entries for: when it returns, the blocks
  logged so far and \<open>MAXOPBLOCKS\<close> for every outstanding call fit into \<open>LOGSIZE\<close>; otherwise, and while a commit
  runs, it waits, for good in this single-threaded process.\<close>

theorem begin_op_admits:
  "(case begin_op s of
      Ok _ t \<Rightarrow> t = s\<lparr>thelog := (thelog s)\<lparr>outstanding := outstanding (thelog s) + 1\<rparr>\<rparr>
        \<and> lh_n (thelog t) + outstanding (thelog t) * int MAXOPBLOCKS \<le> int LOGSIZE
    | Fail e t \<Rightarrow> e = Hang \<and> t = s \<and> (committing (thelog s) \<noteq> 0
        \<or> int LOGSIZE < lh_n (thelog s) + (outstanding (thelog s) + 1) * int MAXOPBLOCKS))"
  by (auto simp: begin_op_def bind_def get_log_def gets_def fail_def upd_log_def modify_def)

theorem begin_op_admits_witness:
  "\<exists>t. begin_op ex_txn = Ok () t \<and> lh_n (thelog t) + outstanding (thelog t) * int MAXOPBLOCKS \<le> int LOGSIZE"
proof -
  have "\<exists>t. begin_op ex_txn = Ok () t"
    by (simp add: begin_op_def bind_def get_log_def gets_def upd_log_def modify_def ex_txn_def boot_def Let_def ex_log_def LOGSIZE_def MAXOPBLOCKS_def)
  then show ?thesis using begin_op_admits [of ex_txn] by auto
qed


text \<open>C20. Start-up recovers: on a booted machine \<open>initlog\<close> takes the place and size of the log from the superblock,
  and if that log is inside the image and its header well-formed, it returns with the disk recovered, an empty log
  and the invariant of the log established.\<close>

theorem initlog_recovers:
  fixes s :: "'z logst_scheme"
  defines "L \<equiv> (thelog s)\<lparr>lstart := sint (sb_size (get_sb (img s 1)) - sb_nlog (get_sb (img s 1))),
      lsize := sint (sb_nlog (get_sb (img s 1))), ldev := ROOTDEV\<rparr>"
  assumes "binv s" "busy_at s = {}" "dirty_at s = {}" "in_image s 1"
    and "log_wf (s\<lparr>thelog := L\<rparr>)" "disk_wf (s\<lparr>thelog := L\<rparr>)"
  shows "\<exists>t. initlog s = Ok () t \<and> txn_inv t \<and> log_empty t \<and> blk t = rec_disk L (img s) \<and> img t = rec_disk L (img s)
    \<and> hist t = hist s @ recover_io L (img s) \<and> log_geometry (thelog t) = log_geometry L"
proof -
  have clean: "blk s 1 = img s 1" using blk_clean [OF assms(2)] assms(3,4) by auto
  have "wp initlog (\<lambda>_ t. txn_inv t \<and> log_empty t \<and> blk t = rec_disk L (img s) \<and> img t = rec_disk L (img s)
    \<and> hist t = hist s @ recover_io L (img s) \<and> log_geometry (thelog t) = log_geometry L) s" (is "wp _ ?Q s")
  proof -
    have "wp (bind (bread ROOTDEV 1) (\<lambda>bp. bind (get_data bp) (\<lambda>d. andthen (brelse bp)
      (andthen (upd_log (\<lambda>L. L\<lparr>lstart := sint (sb_size (get_sb d) - sb_nlog (get_sb d)),
            lsize := sint (sb_nlog (get_sb d)), ldev := ROOTDEV\<rparr>)) recover_from_log)))) ?Q s"
    proof (rule bc.read_block [OF assms(2)])
      show "in_image s 1 \<and> 1 \<notin> v_busy (view s) \<and> (1 \<in> v_dirty (view s) \<or> card (v_dirty (view s) \<union> v_busy (view s)) < NBUF)"
        using assms(3-5) by (simp add: NBUF_def)
      fix t assume t: "binv t" "cframe s t" "view t = view s"
      have Lt: "thelog t = thelog s" by (rule cframe_thelog [OF t(2)])
      have vt: "img t = img s" "hist t = hist s" "busy_at t = {}" "dirty_at t = {}"
        using t(3) assms(3,4) by (simp_all add: view_def)
      have "wp recover_from_log ?Q (t\<lparr>thelog := L\<rparr>)"
      proof -
        have wf: "log_wf (t\<lparr>thelog := L\<rparr>)" "disk_wf (t\<lparr>thelog := L\<rparr>)"
          using assms(6,7) cframe_wf [OF cframe_upd_thelog [OF t(2), of L]]
            cframe_wf [OF cframe_upd_thelog [OF t(2), of "disk_log L (img s)"]] vt(1)
          by (simp_all add: disk_wf_def)
        have "booted L (imglen t) (img t) (t\<lparr>thelog := L\<rparr>)" using t(1) vt by (simp add: booted_def)
        from wp_recover_booted [OF this wf] show ?thesis using vt by (auto simp: wp_def)
      qed
      then show "wp (andthen (upd_log (\<lambda>L. L\<lparr>lstart := sint (sb_size (get_sb (v_blk (view s) 1)) - sb_nlog (get_sb (v_blk (view s) 1))),
            lsize := sint (sb_nlog (get_sb (v_blk (view s) 1))), ldev := ROOTDEV\<rparr>)) recover_from_log) ?Q t"
        by (simp add: wp_simps Lt clean L_def)
    qed
    then show ?thesis
      by (simp add: initlog_def readsb_def BSIZE_def LOGSIZE_def bind_assoc andthen_def)
  qed
  then show ?thesis by (auto dest: wp_Ok)
qed

text \<open>A medium of ten blocks with a superblock and an empty log of four blocks.\<close>

definition ex_image :: "u32 \<Rightarrow> block" where
  "ex_image = (\<lambda>_. zero_block)(1 := put_sb zero_block \<lparr>sb_size = 10, sb_nblocks = 2, sb_ninodes = 64, sb_nlog = 4\<rparr>)"

theorem initlog_recovers_witness:
  "\<exists>t. initlog (boot ex_image 10 ex_log) = Ok () t \<and> txn_inv t \<and> log_empty t \<and> lstart (thelog t) = 6 \<and> lsize (thelog t) = 4"
proof -
  let ?s = "boot ex_image 10 ex_log"
  let ?L = "(thelog ?s)\<lparr>lstart := sint (sb_size (get_sb (img ?s 1)) - sb_nlog (get_sb (img ?s 1))),
      lsize := sint (sb_nlog (get_sb (img ?s 1))), ldev := ROOTDEV\<rparr>"
  have s: "binv ?s" "busy_at ?s = {}" "dirty_at ?s = {}" using booted_boot [of ex_log 10 ex_image] by (auto simp: booted_def)
  have sb: "get_sb (img ?s 1) = \<lparr>sb_size = 10, sb_nblocks = 2, sb_ninodes = 64, sb_nlog = 4\<rparr>"
    by (simp add: boot_def ex_image_def get_put_sb)
  have L: "?L = ex_log\<lparr>lstart := 6, lsize := 4, ldev := ROOTDEV\<rparr>" unfolding sb by (simp add: boot_def)
  have wf: "log_wf (?s\<lparr>thelog := ?L\<rparr>)" unfolding L by (simp add: log_wf_def Let_def boot_def LOGSIZE_def)
  have "lh_n (disk_log ?L (img ?s)) = 0"
    unfolding L by (simp add: disk_log_def log_head_def boot_def ex_image_def zero_block_def get32_def)
  then have "disk_wf (?s\<lparr>thelog := ?L\<rparr>)"
    unfolding disk_wf_def using wf by (intro empty_head_wf) (simp_all add: log_wf_def Let_def)
  with initlog_recovers [OF s _ wf] show ?thesis
    unfolding L by (auto simp: log_geometry_def in_image_def boot_def)
qed

end
