(* ===== verification/Xv6_Balloc.thy ===== *)
theory Xv6_Balloc
  imports Xv6_Txn
begin

text \<open>
  The block allocator of \<open>xv6/fs.c\<close>: a bitmap on disk, one bit per block of the image, changed
  through the log. \<open>xv6_bzero\<close> clears a block, \<open>balloc\<close> takes the first free block and clears it,
  \<open>bfree\<close> gives a block back. The relations \<open>like\<close> (nothing but the content of the cache changed) and \<open>logged\<close>
  (some blocks changed through the log) describe what the operations of \<open>fs.c\<close> do to the state, and the rules
  \<open>wp_read_only\<close> and \<open>wp_update\<close> are how its proofs go from one access to the next.
\<close>

section \<open>Operations (fs.c, lines 41 to 99)\<close>

definition xv6_bzero :: "u32 \<Rightarrow> u32 \<Rightarrow> ('z logst_scheme, unit) xm" where
  "xv6_bzero dev bno =
     bind (bread dev bno) (\<lambda>bp.
     bind (get_data bp) (\<lambda>d.
     andthen (set_data bp zero_block) (
     andthen (log_write bp)
       (brelse bp))))"

text \<open>\<open>(bp->data[bi/8] & (1 << (bi % 8))) == 0\<close> and the two updates of that bit.\<close>

definition bit_free :: "block \<Rightarrow> nat \<Rightarrow> bool" where
  "bit_free d bi \<longleftrightarrow> d (bi div 8) AND push_bit (bi mod 8) 1 = 0"

definition mark_used :: "block \<Rightarrow> nat \<Rightarrow> block" where
  "mark_used d bi = d(bi div 8 := d (bi div 8) OR push_bit (bi mod 8) 1)"

definition mark_free :: "block \<Rightarrow> nat \<Rightarrow> block" where
  "mark_free d bi = d(bi div 8 := d (bi div 8) AND NOT (push_bit (bi mod 8) 1))"

text \<open>The inner loop of \<open>balloc\<close>: the first free bit among the first \<open>n\<close> of a bitmap block.\<close>

definition first_free :: "block \<Rightarrow> nat \<Rightarrow> nat option" where
  "first_free d n = find (bit_free d) [0..<n]"

text \<open>The body of the outer loop, which runs over the bitmap blocks; its counter \<open>b\<close> is a C \<open>int\<close>.\<close>

definition balloc_group :: "u32 \<Rightarrow> superblock \<Rightarrow> nat \<Rightarrow> ('z logst_scheme, u32 option) xm" where
  "balloc_group dev sb b =
     (if 2 ^ 31 \<le> b then fail (Undef ''b += BPB overflows'')
      else
        bind (bread dev (BBLOCK (of_nat b) (sb_ninodes sb))) (\<lambda>bp.
        bind (get_data bp) (\<lambda>d.
        case first_free d (min BPB (unat (sb_size sb) - b)) of
          Some bi \<Rightarrow>
            andthen (set_data bp (mark_used d bi)) (
            andthen (log_write bp) (
            andthen (brelse bp) (
            andthen (xv6_bzero dev (of_nat (b + bi)))
              (return (Some (of_nat (b + bi)))))))
        | None \<Rightarrow> andthen (brelse bp) (return None))))"

definition balloc :: "u32 \<Rightarrow> ('z logst_scheme, u32) xm" where
  "balloc dev =
     bind (readsb dev) (\<lambda>sb.
     bind (mloop (map (\<lambda>k. k * BPB) [0..<(unat (sb_size sb) + BPB - 1) div BPB]) (balloc_group dev sb)) (\<lambda>r.
     case r of Some addr \<Rightarrow> return addr | None \<Rightarrow> panic ''balloc: out of blocks''))"

definition bfree :: "u32 \<Rightarrow> u32 \<Rightarrow> ('z logst_scheme, unit) xm" where
  "bfree dev b =
     bind (readsb dev) (\<lambda>sb.
     bind (bread dev (BBLOCK b (sb_ninodes sb))) (\<lambda>bp.
     bind (get_data bp) (\<lambda>d.
     let bi = unat b mod BPB in
     if bit_free d bi then panic ''freeing free block''
     else
       andthen (set_data bp (mark_free d bi)) (
       andthen (log_write bp)
         (brelse bp)))))"

section \<open>Bits of the bitmap\<close>

lemma bit_free_iff: "bit_free d i \<longleftrightarrow> \<not> bit (d (i div 8)) (i mod 8)"
proof -
  have "(d (i div 8) AND push_bit (i mod 8) 1 = 0) = (\<not> bit (d (i div 8)) (i mod 8))"
    using and_exp_eq_0_iff_not_bit [of "d (i div 8)" "i mod 8"] by (simp add: push_bit_eq_mult)
  then show ?thesis by (simp add: bit_free_def)
qed

lemma bit_byte_one: "bit (2 ^ k :: byte) n \<longleftrightarrow> n = k \<and> k < 8"
  by (auto simp: bit_exp_iff)

lemma same_bit: "i div 8 = j div 8 \<Longrightarrow> i mod 8 = j mod 8 \<Longrightarrow> i = (j :: nat)"
  by (metis div_mult_mod_eq)

lemma bit_free_mark_used: "bit_free (mark_used d i) j \<longleftrightarrow> j \<noteq> i \<and> bit_free d j"
  by (auto simp: bit_free_iff mark_used_def bit_or_iff bit_byte_one dest: same_bit)

lemma bit_free_mark_free: "bit_free (mark_free d i) j \<longleftrightarrow> j = i \<or> bit_free d j"
  by (auto simp: bit_free_iff mark_free_def bit_and_iff bit_not_iff bit_byte_one dest: same_bit)

lemma mark_free_used: "bit_free d i \<Longrightarrow> mark_free (mark_used d i) i = d"
  by (auto simp: mark_free_def mark_used_def bit_free_iff fun_eq_iff intro!: bit_word_eqI
      simp: bit_and_iff bit_or_iff bit_not_iff bit_byte_one)

lemma first_free_Some:
  "first_free d n = Some i \<longleftrightarrow> i < n \<and> bit_free d i \<and> (\<forall>j < i. \<not> bit_free d j)"
  unfolding first_free_def find_Some_iff by auto

lemma first_free_None: "first_free d n = None \<longleftrightarrow> (\<forall>i < n. \<not> bit_free d i)"
  unfolding first_free_def find_None_iff by auto

section \<open>What the allocator needs\<close>

text \<open>The superblock and the bitmap as the file system sees them.\<close>

definition sb_of :: "'z bcache_scheme \<Rightarrow> superblock" where
  "sb_of s = get_sb (blk s 1)"

definition bitmap_at :: "'z bcache_scheme \<Rightarrow> nat \<Rightarrow> u32" where
  "bitmap_at s b = BBLOCK (of_nat b) (sb_ninodes (sb_of s))"

definition is_free :: "'z bcache_scheme \<Rightarrow> nat \<Rightarrow> bool" where
  "is_free s b \<longleftrightarrow> bit_free (blk s (bitmap_at s b)) (b mod BPB)"

text \<open>A block that can be read now, and room in the log for \<open>n\<close> more blocks.\<close>

definition readable_now :: "'z bcache_scheme \<Rightarrow> u32 \<Rightarrow> bool" where
  "readable_now s b \<longleftrightarrow> in_image s b \<and> b \<notin> busy_at s \<and> card (dirty_at s \<union> busy_at s) < NBUF"

definition log_room :: "log \<Rightarrow> nat \<Rightarrow> bool" where
  "log_room L n \<longleftrightarrow> lh_n L + int n \<le> lsize L - 1 \<and> 1 \<le> outstanding L"

text \<open>A state that differs only in what the cache happens to hold.\<close>

definition like :: "'z logst_scheme \<Rightarrow> 'z logst_scheme \<Rightarrow> bool" where
  "like s t \<longleftrightarrow> binv t \<and> cframe s t \<and> view t = view s \<and> (\<forall>j c. holds s j c \<longrightarrow> holds t j c)"

lemma view_fields:
  assumes "view t = view s"
  shows "blk t = blk s" "dirty_at t = dirty_at s" "busy_at t = busy_at s" "img t = img s" "hist t = hist s"
  using assms by (simp_all add: view_def)

lemma view_upd_fields:
  assumes "view t = (view s)\<lparr>v_blk := m, v_dirty := d\<rparr>"
  shows "blk t = m" "dirty_at t = d" "busy_at t = busy_at s" "img t = img s" "hist t = hist s"
  using assms by (simp_all add: view_def)

lemma like_fields:
  assumes "like s t"
  shows "blk t = blk s" "dirty_at t = dirty_at s" "busy_at t = busy_at s" "in_image t = in_image s" "binv t"
    "thelog t = thelog s" "lframe s t" "holds s j c \<Longrightarrow> holds t j c"
    "sb_of t = sb_of s" "bitmap_at t = bitmap_at s" "is_free t = is_free s" "readable_now t = readable_now s"
proof -
  have v: "view t = view s" "cframe s t" and b: "binv t" using assms by (auto simp: like_def)
  note f = view_fields [OF v(1)]
  have i: "in_image t = in_image s" using v(2) by (simp add: cframe_def in_image_def fun_eq_iff)
  show "blk t = blk s" "dirty_at t = dirty_at s" "busy_at t = busy_at s" "in_image t = in_image s" "binv t"
    "thelog t = thelog s" "lframe s t" "holds s j c \<Longrightarrow> holds t j c"
    using f i b cframe_thelog [OF v(2)] cframe_lframe [OF v(2)] assms by (auto simp: like_def)
  show sb: "sb_of t = sb_of s" using f by (simp add: sb_of_def)
  show bm: "bitmap_at t = bitmap_at s" by (simp add: bitmap_at_def sb fun_eq_iff)
  show "is_free t = is_free s" by (simp add: is_free_def bm f fun_eq_iff)
  show "readable_now t = readable_now s" by (simp add: readable_now_def i f fun_eq_iff)
qed

lemma like_refl: "binv s \<Longrightarrow> like s s"
  by (simp add: like_def)

lemma like_trans: "like s t \<Longrightarrow> like t u \<Longrightarrow> like s u"
  by (auto simp: like_def intro: cframe_trans)

lemma like_txn:
  assumes "txn_inv s" "like s t"
  shows "txn_inv t"
proof -
  have c: "cframe s t" using assms(2) by (simp add: like_def)
  show ?thesis
    using assms(1) cframe_wf [OF c] unfolding txn_inv_def like_fields(2,6) [OF assms(2)]
    by (simp add: like_fields(5) [OF assms(2)])
qed

text \<open>Reading a block, with what is done next computed from the content the file system sees.\<close>

lemma bread_data:
  assumes inv: "binv s" and r: "readable_now s b"
    and k: "\<And>i. k i (blk s b) = k' i (blk s b)"
    and w: "wp (bind (bread ROOTDEV b) (\<lambda>i. bind (get_data i) (k' i))) Q s"
  shows "wp (bind (bread ROOTDEV b) (\<lambda>i. bind (get_data i) (k i))) Q s"
proof -
  have "wp (bread ROOTDEV b) (\<lambda>i u. bdata (bufs u i) = blk s b) s"
    by (rule bc.rd [OF inv])
       (use r in \<open>auto dest!: holds_data simp: readable_now_def view_def a_bread_def\<close>)
  from wp_conj [OF this w [unfolded wp_bind]] show ?thesis
    unfolding wp_bind by (auto elim!: wp_mono simp: wp_get_data k)
qed

lemma wp_read_only:
  assumes "binv s" "readable_now s b" "\<And>t. like s t \<Longrightarrow> wp (k (blk s b)) Q t"
  shows "wp (bind (bread ROOTDEV b) (\<lambda>i. bind (get_data i) (\<lambda>d. andthen (brelse i) (k d)))) Q s"
  by (rule bc.read_block [OF assms(1)]) (use assms in \<open>auto simp: readable_now_def like_def\<close>)

lemma wp_readsb:
  assumes "binv s" "readable_now s 1" and "\<And>t. like s t \<Longrightarrow> Q (sb_of s) t"
  shows "wp (readsb ROOTDEV) Q s"
  unfolding readsb_def by (rule wp_read_only) (use assms in \<open>auto simp: wp_return sb_of_def\<close>)

text \<open>The effect of a logged change of some blocks on the state.\<close>

definition logged :: "'z logst_scheme \<Rightarrow> (u32 \<Rightarrow> block) \<Rightarrow> u32 list \<Rightarrow> 'z logst_scheme \<Rightarrow> bool" where
  "logged s m bs t \<longleftrightarrow> txn_inv t \<and> lframe s t \<and> thelog t = fold (\<lambda>b L. log_add L b) bs (thelog s)
     \<and> view t = (view s)\<lparr>v_blk := m, v_dirty := set bs \<union> dirty_at s\<rparr> \<and> (\<forall>j c. holds s j c \<longrightarrow> holds t j c)"

lemma loggedD:
  assumes "logged s m bs t"
  shows "txn_inv t" "lframe s t" "blk t = m" "dirty_at t = set bs \<union> dirty_at s" "busy_at t = busy_at s"
    "img t = img s" "hist t = hist s" "in_image t = in_image s"
    "thelog t = fold (\<lambda>b L. log_add L b) bs (thelog s)" "holds s j c \<Longrightarrow> holds t j c"
proof -
  have t: "txn_inv t" "lframe s t" "thelog t = fold (\<lambda>b L. log_add L b) bs (thelog s)"
    "view t = (view s)\<lparr>v_blk := m, v_dirty := set bs \<union> dirty_at s\<rparr>" "holds s j c \<Longrightarrow> holds t j c"
    using assms by (simp_all add: logged_def)
  show "txn_inv t" "lframe s t" "blk t = m" "dirty_at t = set bs \<union> dirty_at s" "busy_at t = busy_at s"
    "img t = img s" "hist t = hist s" "in_image t = in_image s"
    "thelog t = fold (\<lambda>b L. log_add L b) bs (thelog s)" "holds s j c \<Longrightarrow> holds t j c"
    using t view_upd_fields [OF t(4)] lframe_in_image [OF t(2)] by (simp_all add: fun_eq_iff)
qed

lemma logged_trans:
  assumes "logged s m bs t" "logged t n cs u"
  shows "logged s n (bs @ cs) u"
proof -
  have v: "view t = (view s)\<lparr>v_blk := m, v_dirty := set bs \<union> dirty_at s\<rparr>"
    "view u = (view t)\<lparr>v_blk := n, v_dirty := set cs \<union> dirty_at t\<rparr>"
    using assms by (simp_all add: logged_def)
  have "view u = (view s)\<lparr>v_blk := n, v_dirty := set (bs @ cs) \<union> dirty_at s\<rparr>"
    unfolding v(2) v(1) loggedD(4) [OF assms(1)] by (intro cview.equality) auto
  then show ?thesis
    using assms lframe_trans [of s t u] by (auto simp: logged_def)
qed

lemma logged_like:
  assumes "like s t" "logged t m bs u"
  shows "logged s m bs u"
proof -
  have "view t = view s" using assms(1) by (simp add: like_def)
  then show ?thesis
    using assms(2) like_fields(2,6) [OF assms(1)] lframe_trans [OF like_fields(7) [OF assms(1)]]
      like_fields(8) [OF assms(1)]
    by (simp add: logged_def)
qed

text \<open>What a log entry leaves of the log: its place and the state of the system calls.\<close>

definition same_log :: "log \<Rightarrow> log \<Rightarrow> bool" where
  "same_log L M \<longleftrightarrow> outstanding M = outstanding L \<and> committing M = committing L \<and> log_geometry M = log_geometry L"

lemma same_log_refl [simp]: "same_log L L"
  by (simp add: same_log_def)

lemma same_log_trans: "same_log L M \<Longrightarrow> same_log M N \<Longrightarrow> same_log L N"
  by (simp add: same_log_def)

lemma same_log_add: "same_log L (log_add L b)"
  by (simp add: same_log_def log_add_def log_geometry_def Let_def)

lemma logged_same_log: "logged s m [b] t \<Longrightarrow> same_log (thelog s) (thelog t)"
  using loggedD(9) [of s m "[b]" t] by (simp add: same_log_add)

lemma logged_log:
  assumes "logged s m [b] t" "txn_inv s" "log_room (thelog s) (Suc n)"
  shows "log_room (thelog t) n" "in_log (thelog t) = in_log (thelog s)"
  using assms loggedD(9) [OF assms(1)] lh_n_log_add [of "thelog s" b]
  by (auto simp: log_room_def txn_inv_def head_wf_def Let_def fun_eq_iff)

lemma logged_room:
  assumes "logged s m [b] t" "card (dirty_at s \<union> busy_at s) + 1 < NBUF"
  shows "card (dirty_at t \<union> busy_at t) < NBUF"
proof -
  have "dirty_at t \<union> busy_at t = insert b (dirty_at s \<union> busy_at s)"
    using loggedD(4,5) [OF assms(1)] by simp
  then have "card (dirty_at t \<union> busy_at t) \<le> Suc (card (dirty_at s \<union> busy_at s))"
    by (metis card_insert_le_m1 diff_Suc_1 order_refl zero_less_Suc)
  then show ?thesis using assms(2) by simp
qed

lemma wp_update:
  assumes "txn_inv s" "\<not> in_log (thelog s) b" "readable_now s b" "log_room (thelog s) 1"
    and "\<And>t. logged s ((blk s)(b := f (blk s b))) [b] t \<Longrightarrow> Q () t"
  shows "wp (bind (bread ROOTDEV b) (\<lambda>i. bind (get_data i) (\<lambda>d.
    andthen (set_data i (f d)) (andthen (log_write i) (brelse i))))) Q s"
proof (rule wp_log_update [OF assms(1)])
  fix t assume "txn_inv t" "lframe s t" "thelog t = log_add (thelog s) b"
    "view t = (view s)\<lparr>v_blk := (blk s)(b := f (blk s b)), v_dirty := insert b (dirty_at s)\<rparr>"
    "\<And>j c. holds s j c \<Longrightarrow> holds t j c"
  then show "Q () t" by (intro assms(5)) (simp add: logged_def)
qed (use assms in \<open>auto simp: readable_now_def log_room_def\<close>)

lemma wp_xv6_bzero:
  assumes "txn_inv s" "\<not> in_log (thelog s) b" "readable_now s b" "log_room (thelog s) 1"
    and "\<And>t. logged s ((blk s)(b := zero_block)) [b] t \<Longrightarrow> Q () t"
  shows "wp (xv6_bzero ROOTDEV b) Q s"
  unfolding xv6_bzero_def by (rule wp_update [where f = "\<lambda>_. zero_block"]) (use assms in auto)

section \<open>Freeing\<close>

definition free_ready :: "'z logst_scheme \<Rightarrow> nat \<Rightarrow> bool" where
  "free_ready s b \<longleftrightarrow> txn_inv s \<and> readable_now s 1 \<and> readable_now s (bitmap_at s b)
     \<and> \<not> in_log (thelog s) (bitmap_at s b) \<and> log_room (thelog s) 1"

lemma wp_bfree:
  assumes r: "free_ready s (unat b)" and used: "\<not> is_free s (unat b)"
    and post: "\<And>t. logged s ((blk s)(bitmap_at s (unat b) := mark_free (blk s (bitmap_at s (unat b))) (unat b mod BPB)))
      [bitmap_at s (unat b)] t \<Longrightarrow> Q () t"
  shows "wp (bfree ROOTDEV b) Q s"
  unfolding bfree_def wp_bind [of "readsb ROOTDEV"]
proof (rule wp_readsb)
  have inv: "txn_inv s" using r by (simp add: free_ready_def)
  show "binv s" "readable_now s 1" using r by (simp_all add: free_ready_def txn_inv_def)
  fix t assume t: "like s t"
  note v = like_fields [OF t]
  let ?bb = "bitmap_at s (unat b)" and ?bi = "unat b mod BPB"
  have bb: "BBLOCK b (sb_ninodes (sb_of s)) = ?bb" by (simp add: bitmap_at_def)
  have "wp (bind (bread ROOTDEV ?bb) (\<lambda>i. bind (get_data i) (\<lambda>d.
      andthen (set_data i (mark_free d ?bi)) (andthen (log_write i) (brelse i))))) Q t"
    by (rule wp_update [OF like_txn [OF inv t]])
       (use r v logged_like [OF t] in \<open>auto simp: free_ready_def intro!: post\<close>)
  then show "wp (bind (bread ROOTDEV (BBLOCK b (sb_ninodes (sb_of s)))) (\<lambda>bp. bind (get_data bp) (\<lambda>d.
     let bi = unat b mod BPB in if bit_free d bi then panic ''freeing free block''
     else andthen (set_data bp (mark_free d bi)) (andthen (log_write bp) (brelse bp))))) Q t"
    unfolding bb
    by (rule bread_data [OF v(5), rotated 2]) (use r used v in \<open>auto simp: is_free_def free_ready_def\<close>)
qed

section \<open>Allocating\<close>

lemma bitmap_at_group:
  assumes "c < 2 ^ 32"
  shows "bitmap_at s (c div BPB * BPB) = bitmap_at s c"
proof -
  have "unat ((of_nat c :: u32) div 32768) = unat ((of_nat (c div 32768 * 32768) :: u32) div 32768)"
    using assms by (simp add: unat_div unat_of_nat take_bit_nat_eq_self le_less_trans [of _ c] del: of_nat_mult)
  then have "(of_nat c :: u32) div 32768 = (of_nat (c div 32768 * 32768) :: u32) div 32768"
    by (simp only: word_unat_eq_iff)
  then show ?thesis by (simp add: bitmap_at_def BBLOCK_def BPB_def BSIZE_def)
qed

text \<open>The conditions under which \<open>balloc\<close> gives out block \<open>b\<close>: it is the first free one, the bitmap
  blocks up to its own can be read, and there is room in the cache and in the log for its bitmap block
  and for itself.\<close>

definition alloc_ready :: "'z logst_scheme \<Rightarrow> nat \<Rightarrow> bool" where
  "alloc_ready s b \<longleftrightarrow> txn_inv s \<and> readable_now s 1 \<and> b < unat (sb_size (sb_of s)) \<and> b < 2 ^ 31
     \<and> is_free s b \<and> (\<forall>c < b. \<not> is_free s c) \<and> (\<forall>c \<le> b. readable_now s (bitmap_at s c))
     \<and> \<not> in_log (thelog s) (bitmap_at s b) \<and> \<not> in_log (thelog s) (of_nat b)
     \<and> in_image s (of_nat b) \<and> of_nat b \<notin> busy_at s
     \<and> card (dirty_at s \<union> busy_at s) + 1 < NBUF \<and> log_room (thelog s) 2"

definition alloc_blocks :: "'z bcache_scheme \<Rightarrow> nat \<Rightarrow> u32 \<Rightarrow> block" where
  "alloc_blocks s b = (blk s)(bitmap_at s b := mark_used (blk s (bitmap_at s b)) (b mod BPB), of_nat b := zero_block)"

lemma group_bits:
  assumes "alloc_ready s b" "j < BPB" "k * BPB + j \<le> b"
  shows "bit_free (blk s (bitmap_at s (k * BPB))) j \<longleftrightarrow> k * BPB + j = b"
proof -
  let ?c = "k * BPB + j"
  have "?c < 2 ^ 32" using assms(1,3) by (simp add: alloc_ready_def)
  moreover have "?c div BPB = k" "?c mod BPB = j" using assms(2) by (auto simp: BPB_def BSIZE_def)
  ultimately have "is_free s ?c \<longleftrightarrow> bit_free (blk s (bitmap_at s (k * BPB))) j"
    using bitmap_at_group [of ?c s] by (simp add: is_free_def)
  moreover have "is_free s ?c \<longleftrightarrow> ?c = b" using assms(1,3) by (auto simp: alloc_ready_def le_less)
  ultimately show ?thesis by simp
qed

lemma wp_alloc_block:
  assumes r: "alloc_ready s b" and t: "like s t"
    and post: "\<And>u. logged s (alloc_blocks s b) [bitmap_at s b, of_nat b] u \<Longrightarrow> Q (Some (of_nat b)) u"
  shows "wp (bind (bread ROOTDEV (bitmap_at s b)) (\<lambda>bp. bind (get_data bp) (\<lambda>d.
     andthen (set_data bp (mark_used d (b mod BPB))) (andthen (log_write bp) (andthen (brelse bp)
     (andthen (xv6_bzero ROOTDEV (of_nat b)) (return (Some (of_nat b :: u32))))))))) Q t"
proof -
  let ?bb = "bitmap_at s b" and ?b = "of_nat b :: u32"
  let ?m = "(blk s)(?bb := mark_used (blk s ?bb) (b mod BPB))"
  have inv: "txn_inv s" using r by (simp add: alloc_ready_def)
  note v = like_fields [OF t]
  have room: "log_room (thelog s) (Suc 1)" "log_room (thelog s) 1" "card (dirty_at s \<union> busy_at s) + 1 < NBUF"
    using r by (auto simp: alloc_ready_def log_room_def)
  have "wp (bind (bread ROOTDEV ?bb) (\<lambda>i. bind (get_data i) (\<lambda>d.
      andthen (set_data i (mark_used d (b mod BPB))) (andthen (log_write i) (brelse i)))))
    (\<lambda>_. wp (andthen (xv6_bzero ROOTDEV ?b) (return (Some ?b))) Q) t"
  proof (rule wp_update [OF like_txn [OF inv t]])
    show "\<not> in_log (thelog t) ?bb" "readable_now t ?bb" "log_room (thelog t) 1"
      using r room by (simp_all add: v alloc_ready_def)
    fix u assume "logged t ((blk t)(?bb := mark_used (blk t ?bb) (b mod BPB))) [?bb] u"
    then have u: "logged s ?m [?bb] u" using logged_like [OF t] v(1) by simp
    note lu = loggedD [OF u]
    have ru: "readable_now u ?b" "log_room (thelog u) 1" "\<not> in_log (thelog u) ?b"
      using r logged_room [OF u room(3)] logged_log [OF u inv room(1)]
      by (simp_all add: alloc_ready_def readable_now_def lu)
    show "wp (andthen (xv6_bzero ROOTDEV ?b) (return (Some ?b))) Q u"
      unfolding wp_andthen wp_return
    proof (rule wp_xv6_bzero [OF lu(1) ru(3,1,2)])
      fix x assume "logged u ((blk u)(?b := zero_block)) [?b] x"
      then have "logged s (alloc_blocks s b) ([?bb] @ [?b]) x"
        using logged_trans [OF u] lu(3) by (simp add: alloc_blocks_def)
      then show "Q (Some ?b) x" by (intro post) simp
    qed
  qed
  then show ?thesis by (simp add: wp_bind wp_andthen)
qed

lemma wp_group_found:
  assumes r: "alloc_ready s b" and t: "like s t"
    and post: "\<And>u. logged s (alloc_blocks s b) [bitmap_at s b, of_nat b] u \<Longrightarrow> Q (Some (of_nat b)) u"
  shows "wp (balloc_group ROOTDEV (sb_of s) (b div BPB * BPB)) Q t"
proof -
  let ?k = "b div BPB" and ?bi = "b mod BPB"
  have b: "b < 2 ^ 31" "b < unat (sb_size (sb_of s))" using r by (simp_all add: alloc_ready_def)
  have dm: "?k * BPB + ?bi = b" "?bi < BPB" by (simp_all add: BPB_def BSIZE_def)
  have lt: "\<not> 2 ^ 31 \<le> ?k * BPB" using b(1) dm(1) by linarith
  have bb: "BBLOCK (of_nat (?k * BPB)) (sb_ninodes (sb_of s)) = bitmap_at s b"
    using bitmap_at_group [of b s] b by (simp add: bitmap_at_def)
  have "first_free (blk s (bitmap_at s b)) (min BPB (unat (sb_size (sb_of s)) - ?k * BPB)) = Some ?bi"
    unfolding first_free_Some
  proof (intro conjI allI impI)
    have eq: "bitmap_at s (?k * BPB) = bitmap_at s b" using bitmap_at_group [of b s] b by simp
    show "?bi < min BPB (unat (sb_size (sb_of s)) - ?k * BPB)" using dm b by linarith
    show "bit_free (blk s (bitmap_at s b)) ?bi" using group_bits [OF r dm(2), of ?k] dm eq by simp
    show "\<not> bit_free (blk s (bitmap_at s b)) j" if "j < ?bi" for j
      using group_bits [OF r, of j ?k] dm eq that by simp
  qed
  then show ?thesis
    unfolding balloc_group_def bb if_not_P [OF lt] using dm like_fields [OF t] r
    by (auto simp: alloc_ready_def intro!: bread_data [OF _ _ _ wp_alloc_block [where Q = Q, OF r t post]])
qed

lemma wp_group_full:
  assumes r: "alloc_ready s b" and t: "like s t" and k: "k < b div BPB"
    and post: "\<And>u. like s u \<Longrightarrow> Q None u"
  shows "wp (balloc_group ROOTDEV (sb_of s) (k * BPB)) Q t"
proof -
  have le: "k * BPB + j < b" if "j < BPB" for j
  proof -
    have "Suc k * BPB \<le> b div BPB * BPB" using k by (intro mult_le_mono1) simp
    also have "\<dots> \<le> b" by (rule div_times_less_eq_dividend)
    finally show ?thesis using that by simp
  qed
  from le [of 0] have kb: "k * BPB < 2 ^ 31" "k * BPB \<le> b" using r by (auto simp: alloc_ready_def BPB_def BSIZE_def)
  have bb: "BBLOCK (of_nat (k * BPB)) (sb_ninodes (sb_of s)) = bitmap_at s (k * BPB)" by (simp add: bitmap_at_def)
  have none: "first_free (blk s (bitmap_at s (k * BPB))) (min BPB (unat (sb_size (sb_of s)) - k * BPB)) = None"
    unfolding first_free_None using group_bits [OF r, of _ k] le by (auto simp: less_imp_le)
  have rd: "readable_now t (bitmap_at s (k * BPB))"
    using r kb(2) by (simp add: alloc_ready_def like_fields [OF t])
  show ?thesis
    unfolding balloc_group_def bb using kb(1) rd none like_fields [OF t]
    by (auto simp: wp_return intro!: bread_data [OF _ _ _ wp_read_only] post like_trans [OF t])
qed

lemma wp_balloc:
  assumes r: "alloc_ready s b"
    and post: "\<And>u. logged s (alloc_blocks s b) [bitmap_at s b, of_nat b] u \<Longrightarrow> Q (of_nat b) u"
  shows "wp (balloc ROOTDEV) Q s"
proof -
  let ?n = "(unat (sb_size (sb_of s)) + BPB - 1) div BPB"
  let ?R = "\<lambda>x u. case x of Some a \<Rightarrow> Q a u | None \<Rightarrow> False"
  have kb: "b div BPB < ?n"
  proof -
    have "Suc (b div BPB) = (b + BPB) div BPB" by (simp add: BPB_def BSIZE_def)
    also have "\<dots> \<le> ?n" using r by (intro div_le_mono) (simp add: alloc_ready_def BPB_def BSIZE_def)
    finally show ?thesis by simp
  qed
  have loop: "wp (mloop (map (\<lambda>k. k * BPB) [0..<?n]) (balloc_group ROOTDEV (sb_of s))) ?R t" if t: "like s t" for t
  proof (rule wp_mloop [where I = "\<lambda>k t. k \<le> b div BPB \<and> like s t"])
    fix k u assume k: "k < length (map (\<lambda>k. k * BPB) [0..<?n])" and u: "k \<le> b div BPB \<and> like s u"
    show "wp (balloc_group ROOTDEV (sb_of s) (map (\<lambda>k. k * BPB) [0..<?n] ! k))
      (\<lambda>r u. case r of None \<Rightarrow> Suc k \<le> b div BPB \<and> like s u | Some v \<Rightarrow> ?R (Some v) u) u"
    proof (cases "k = b div BPB")
      case True
      then show ?thesis using k u wp_group_found [OF r, of u] post by simp
    next
      case False
      then show ?thesis using k u by (auto intro!: wp_group_full [OF r])
    qed
  qed (use t kb in auto)
  show ?thesis
    unfolding balloc_def wp_bind
  proof (rule wp_readsb)
    show "binv s" "readable_now s 1" using r by (simp_all add: alloc_ready_def txn_inv_def)
    fix t assume "like s t"
    from loop [OF this] show "wp (mloop (map (\<lambda>k. k * BPB) [0..<?n]) (balloc_group ROOTDEV (sb_of s)))
      (\<lambda>a. wp (case a of None \<Rightarrow> panic ''balloc: out of blocks'' | Some x \<Rightarrow> return x) Q) t"
      by (rule wp_mono) (auto simp: wp_return split: option.splits)
  qed
qed

section \<open>The bitmap as a set of free blocks\<close>

text \<open>Block \<open>b\<close> is a data block: neither the superblock nor a block of the bitmap, and its bit is not in the
  superblock.\<close>

definition data_block :: "'z bcache_scheme \<Rightarrow> nat \<Rightarrow> bool" where
  "data_block s b \<longleftrightarrow> b < unat (sb_size (sb_of s)) \<and> of_nat b \<noteq> (1 :: u32) \<and> bitmap_at s b \<noteq> 1
     \<and> (\<forall>c < unat (sb_size (sb_of s)). bitmap_at s c \<noteq> of_nat b)"

definition free_blocks :: "'z bcache_scheme \<Rightarrow> nat set" where
  "free_blocks s = {b. b < unat (sb_size (sb_of s)) \<and> is_free s b}"

lemma bitmap_group_inject:
  assumes "bitmap_at s b = bitmap_at s c" "b < 2 ^ 32" "c < 2 ^ 32"
  shows "b div BPB = c div BPB"
proof -
  have "(of_nat b :: u32) div 32768 = of_nat c div 32768"
    using assms(1) by (simp add: bitmap_at_def BBLOCK_def)
  then have "unat ((of_nat b :: u32) div 32768) = unat ((of_nat c :: u32) div 32768)" by simp
  then show ?thesis
    using assms(2,3) by (simp add: unat_div unat_of_nat take_bit_nat_eq_self BPB_def BSIZE_def)
qed

text \<open>Changing bit \<open>b\<close> of the bitmap, and no other block of it, changes the state of block \<open>b\<close> only.\<close>

lemma bitmap_change:
  fixes s t :: "'z bcache_scheme"
  defines "N \<equiv> unat (sb_size (sb_of s))"
  assumes b: "b < N" and one: "blk t 1 = blk s 1"
    and frame: "\<And>c. c < N \<Longrightarrow> bitmap_at s c \<noteq> bitmap_at s b \<Longrightarrow> blk t (bitmap_at s c) = blk s (bitmap_at s c)"
    and bit: "\<And>j. bit_free (blk t (bitmap_at s b)) j \<longleftrightarrow> (if j = b mod BPB then v else bit_free (blk s (bitmap_at s b)) j)"
  shows "sb_of t = sb_of s" "bitmap_at t = bitmap_at s"
    "free_blocks t = (if v then insert b (free_blocks s) else free_blocks s - {b})"
proof -
  show sb: "sb_of t = sb_of s" using one by (simp add: sb_of_def)
  then show bm: "bitmap_at t = bitmap_at s" by (simp add: bitmap_at_def fun_eq_iff)
  have small: "c < 2 ^ 32" if "c < N" for c using that unsigned_less [of "sb_size (sb_of s)", where 'a = nat] by (simp add: N_def)
  have "is_free t c \<longleftrightarrow> (if c = b then v else is_free s c)" if c: "c < N" for c
  proof (cases "bitmap_at s c = bitmap_at s b")
    case True
    have "c mod BPB = b mod BPB \<Longrightarrow> c = b"
      using bitmap_group_inject [OF True small [OF c] small [OF b]] by (metis div_mult_mod_eq)
    then show ?thesis using bit [of "c mod BPB"] True by (auto simp: is_free_def bm)
  next
    case False
    then show ?thesis using frame [OF c False] by (auto simp: is_free_def bm)
  qed
  then show "free_blocks t = (if v then insert b (free_blocks s) else free_blocks s - {b})"
    using b by (auto simp: free_blocks_def sb N_def split: if_splits)
qed

lemma alloc_bitmap:
  fixes s t :: "'z bcache_scheme"
  assumes "blk t = alloc_blocks s b" "data_block s b"
  shows "sb_of t = sb_of s" "bitmap_at t = bitmap_at s" "free_blocks t = free_blocks s - {b}"
  using assms bitmap_change [of b s t False]
  by (auto simp: alloc_blocks_def data_block_def bit_free_mark_used)

lemma free_bitmap:
  fixes s t :: "'z bcache_scheme"
  assumes "blk t = (blk s)(bitmap_at s b := mark_free (blk s (bitmap_at s b)) (b mod BPB))"
    and "b < unat (sb_size (sb_of s))" "bitmap_at s b \<noteq> 1"
  shows "sb_of t = sb_of s" "bitmap_at t = bitmap_at s" "free_blocks t = insert b (free_blocks s)"
  using assms bitmap_change [of b s t True] by (auto simp: bit_free_mark_free)

section \<open>A small formatted disk\<close>

text \<open>Twenty blocks: boot block, superblock, two blocks of inodes, the bitmap in block 4, data, and the log in
  the last six. The bitmap has the first eight blocks in use, the other blocks are \<open>e\<close>. A system call has begun.\<close>

definition small_sb :: superblock where
  "small_sb = \<lparr>sb_size = 20, sb_nblocks = 9, sb_ninodes = 64, sb_nlog = 6\<rparr>"

definition small_log :: log where
  "small_log = \<lparr>lstart = 14, lsize = 6, outstanding = 1, committing = 0, ldev = ROOTDEV, lh_n = 0, lh_sector = (\<lambda>_. 0)\<rparr>"

definition small_disk :: "(u32 \<Rightarrow> block) \<Rightarrow> u32 \<Rightarrow> block" where
  "small_disk e b = (if b = 1 then put_sb zero_block small_sb else if b = 4 then (\<lambda>i. if i = 0 then 255 else 0) else e b)"

definition small_fs :: "(u32 \<Rightarrow> block) \<Rightarrow> logst" where
  "small_fs e = boot (small_disk e) 20 small_log"

abbreviation empty_fs :: logst where
  "empty_fs \<equiv> small_fs (\<lambda>_. zero_block)"

lemma small_fs_ok: "txn_inv (small_fs e)" "busy_at (small_fs e) = {}" "dirty_at (small_fs e) = {}" "blk (small_fs e) = (small_disk e)"
  "thelog (small_fs e) = small_log" "in_image (small_fs e) b \<longleftrightarrow> unat b < 20"
proof -
  have b: "booted small_log 20 (small_disk e) (small_fs e)" unfolding small_fs_def by (rule booted_boot)
  then show f: "busy_at (small_fs e) = {}" "dirty_at (small_fs e) = {}" by (auto simp: booted_def)
  have bi: "binv (small_fs e)" using b by (simp add: booted_def)
  have i: "img (small_fs e) = (small_disk e)" using b by (simp add: booted_def)
  show "blk (small_fs e) = (small_disk e)" using blk_clean [OF bi] f i by (auto simp: fun_eq_iff)
  show L: "thelog (small_fs e) = small_log" by (simp add: small_fs_def boot_def)
  show "in_image (small_fs e) b \<longleftrightarrow> unat b < 20" by (auto simp: in_image_def small_fs_def boot_def)
  have "log_wf (small_fs e)" by (simp add: log_wf_def L Let_def small_log_def small_fs_def boot_def LOGSIZE_def)
  then show "txn_inv (small_fs e)"
    using bi f L empty_head_wf [of "small_fs e"] by (simp add: txn_inv_def sectors_def small_log_def)
qed

lemma small_sb_of [simp]: "sb_of (small_fs e) = small_sb" "bitmap_at (small_fs e) b = of_nat b div 32768 + 4"
proof -
  show "sb_of (small_fs e) = small_sb" by (simp add: sb_of_def small_fs_ok small_disk_def get_put_sb)
  then show "bitmap_at (small_fs e) b = of_nat b div 32768 + 4" by (simp add: bitmap_at_def BBLOCK_def small_sb_def)
qed

lemma small_group: "b < 32768 \<Longrightarrow> bitmap_at (small_fs e) b = 4"
proof -
  assume b: "b < 32768"
  then have "unat ((of_nat b :: u32) div 32768) = 0" by (simp add: unat_div unat_of_nat take_bit_nat_eq_self)
  then have "(of_nat b :: u32) div 32768 = 0" by (simp only: unat_eq_zero)
  then show ?thesis by simp
qed

lemma small_free: "b < 20 \<Longrightarrow> is_free (small_fs e) b \<longleftrightarrow> 8 \<le> b"
proof -
  assume b: "b < 20"
  have "(255 :: byte) = - 1" by simp
  then have "bit (255 :: byte) (b mod 8)" by (simp only: bit_minus_1_iff) simp
  then show ?thesis
    using b small_group [of b] by (auto simp: is_free_def bit_free_iff small_fs_ok small_disk_def BPB_def BSIZE_def not_less)
qed

lemma small_readable: "unat b < 20 \<Longrightarrow> readable_now (small_fs e) b"
  by (simp add: readable_now_def small_fs_ok NBUF_def)

lemma small_alloc_ready: "alloc_ready (small_fs e) 8" "data_block (small_fs e) 8" "free_ready (small_fs e) 5" "\<not> is_free (small_fs e) 5"
proof -
  show "data_block (small_fs e) 8" using small_group by (auto simp: data_block_def small_sb_def)
  show "alloc_ready (small_fs e) 8"
    unfolding alloc_ready_def using small_free small_group small_readable
    by (auto simp: small_fs_ok small_sb_def small_log_def in_log_def log_room_def NBUF_def)
  show "free_ready (small_fs e) 5"
    unfolding free_ready_def using small_group [of 5] small_readable
    by (auto simp: small_fs_ok small_log_def in_log_def log_room_def)
  show "\<not> is_free (small_fs e) 5" by (simp add: small_free)
qed

section \<open>Properties\<close>

text \<open>C19. \<open>balloc\<close> returns the first free block of the bitmap, zeroed. The set of free blocks loses exactly that
  block, no other block of the disk changes except the bitmap block of its bit, and nothing is written to the
  disk before the transaction commits.\<close>

theorem balloc_allocates:
  assumes "alloc_ready s b" "data_block s b"
  shows "\<exists>t. balloc ROOTDEV s = Ok (of_nat b) t \<and> txn_inv t \<and> free_blocks t = free_blocks s - {b} \<and> b \<in> free_blocks s
    \<and> blk t (of_nat b) = zero_block \<and> (\<forall>c. c \<noteq> of_nat b \<and> c \<noteq> bitmap_at s b \<longrightarrow> blk t c = blk s c)
    \<and> img t = img s \<and> hist t = hist s \<and> set (sectors (thelog t)) = {bitmap_at s b, of_nat b} \<union> set (sectors (thelog s))"
proof -
  have b: "b \<in> free_blocks s" using assms by (simp add: free_blocks_def alloc_ready_def)
  have inv: "txn_inv s" using assms by (simp add: alloc_ready_def)
  have "wp (balloc ROOTDEV) (\<lambda>a t. a = of_nat b \<and> txn_inv t \<and> free_blocks t = free_blocks s - {b} \<and> b \<in> free_blocks s
    \<and> blk t (of_nat b) = zero_block \<and> (\<forall>c. c \<noteq> of_nat b \<and> c \<noteq> bitmap_at s b \<longrightarrow> blk t c = blk s c)
    \<and> img t = img s \<and> hist t = hist s \<and> set (sectors (thelog t)) = {bitmap_at s b, of_nat b} \<union> set (sectors (thelog s))) s"
  proof (rule wp_balloc [OF assms(1)])
    fix u assume u: "logged s (alloc_blocks s b) [bitmap_at s b, of_nat b] u"
    note l = loggedD [OF u]
    have "set (sectors (thelog u)) = {bitmap_at s b, of_nat b} \<union> set (sectors (thelog s))"
      using l(1,4) inv by (simp add: txn_inv_def insert_commute)
    then show "of_nat b = (of_nat b :: u32) \<and> txn_inv u \<and> free_blocks u = free_blocks s - {b} \<and> b \<in> free_blocks s
      \<and> blk u (of_nat b) = zero_block \<and> (\<forall>c. c \<noteq> of_nat b \<and> c \<noteq> bitmap_at s b \<longrightarrow> blk u c = blk s c)
      \<and> img u = img s \<and> hist u = hist s \<and> set (sectors (thelog u)) = {bitmap_at s b, of_nat b} \<union> set (sectors (thelog s))"
      using l b alloc_bitmap [OF l(3) assms(2)] by (simp add: alloc_blocks_def)
  qed
  then show ?thesis by (auto dest!: wp_Ok)
qed

theorem balloc_allocates_witness:
  "\<exists>t. balloc ROOTDEV empty_fs = Ok 8 t \<and> free_blocks t = free_blocks empty_fs - {8} \<and> 8 \<in> free_blocks empty_fs"
  using balloc_allocates [OF small_alloc_ready(1,2), of "\<lambda>_. zero_block"] by auto

text \<open>\<open>bfree\<close> of a block in use makes it free and changes nothing but its bit in the bitmap.\<close>

theorem bfree_frees:
  assumes "free_ready s (unat b)" "\<not> is_free s (unat b)" "unat b < unat (sb_size (sb_of s))" "bitmap_at s (unat b) \<noteq> 1"
  shows "\<exists>t. bfree ROOTDEV b s = Ok () t \<and> txn_inv t \<and> free_blocks t = insert (unat b) (free_blocks s)
    \<and> unat b \<notin> free_blocks s \<and> (\<forall>c. c \<noteq> bitmap_at s (unat b) \<longrightarrow> blk t c = blk s c) \<and> img t = img s \<and> hist t = hist s"
proof -
  have "wp (bfree ROOTDEV b) (\<lambda>_ t. txn_inv t \<and> free_blocks t = insert (unat b) (free_blocks s)
    \<and> unat b \<notin> free_blocks s \<and> (\<forall>c. c \<noteq> bitmap_at s (unat b) \<longrightarrow> blk t c = blk s c) \<and> img t = img s \<and> hist t = hist s) s"
  proof (rule wp_bfree [OF assms(1,2)])
    fix u assume u: "logged s ((blk s)(bitmap_at s (unat b) := mark_free (blk s (bitmap_at s (unat b))) (unat b mod BPB)))
      [bitmap_at s (unat b)] u"
    note l = loggedD [OF u]
    show "txn_inv u \<and> free_blocks u = insert (unat b) (free_blocks s) \<and> unat b \<notin> free_blocks s
      \<and> (\<forall>c. c \<noteq> bitmap_at s (unat b) \<longrightarrow> blk u c = blk s c) \<and> img u = img s \<and> hist u = hist s"
      using l assms free_bitmap [OF l(3) assms(3,4)] by (simp add: free_blocks_def)
  qed
  then show ?thesis by (auto dest!: wp_Ok)
qed

theorem bfree_frees_witness:
  "\<exists>t. bfree ROOTDEV 5 empty_fs = Ok () t \<and> free_blocks t = insert 5 (free_blocks empty_fs)"
  using bfree_frees [of empty_fs 5] small_alloc_ready(3,4) small_group [of 5] by (auto simp: small_sb_def)

text \<open>A double free is caught: \<open>bfree\<close> of a free block panics.\<close>

theorem bfree_double:
  assumes "free_ready s (unat b)" "is_free s (unat b)"
  shows "\<exists>t. bfree ROOTDEV b s = Fail (Panic ''freeing free block'') t \<and> blk t = blk s \<and> img t = img s"
proof -
  let ?bb = "bitmap_at s (unat b)"
  have s: "binv s" "readable_now s 1" using assms(1) by (simp_all add: free_ready_def txn_inv_def)
  have "wp (readsb ROOTDEV) (\<lambda>sb t. sb = sb_of s \<and> like s t) s" by (rule wp_readsb) (use s in auto)
  then obtain t where t: "readsb ROOTDEV s = Ok (sb_of s) t" "like s t" by (auto dest!: wp_Ok)
  note v = like_fields [OF t(2)]
  have "wp (bind (bread ROOTDEV ?bb) (\<lambda>i. bind (get_data i) (\<lambda>d. return (i, d))))
    (\<lambda>r u. snd r = blk s ?bb \<and> blk u = blk s \<and> img u = img s) t"
    unfolding wp_bind wp_return
    by (rule bc.rd [OF v(5)])
       (use assms v t(2) in \<open>auto simp: free_ready_def readable_now_def bc.ld view_def a_bread_def like_def\<close>)
  then obtain i u where "bread ROOTDEV ?bb t = Ok i u" "get_data i u = Ok (blk s ?bb) u" "blk u = blk s" "img u = img s"
    by (auto simp: bind_def return_def wp_def get_data_def gets_def split: result.splits)
  then show ?thesis
    using t assms(2) by (simp add: bfree_def bind_def bitmap_at_def is_free_def Let_def fail_def)
qed

theorem bfree_double_witness: "\<exists>t. bfree ROOTDEV 9 empty_fs = Fail (Panic ''freeing free block'') t"
  using bfree_double [of empty_fs 9] small_group [of 9] small_readable
  by (auto simp: small_free free_ready_def small_fs_ok small_log_def in_log_def log_room_def)

text \<open>Allocating a block and freeing it again gives back the bitmap: the same blocks are free, and every
  block but the zeroed one has its old content.\<close>

theorem balloc_bfree_roundtrip:
  assumes "alloc_ready s b" "data_block s b" "log_room (thelog s) 3" "card (dirty_at s \<union> busy_at s) + 2 < NBUF"
    and "1 \<notin> busy_at s"
  shows "\<exists>t. bind (balloc ROOTDEV) (bfree ROOTDEV) s = Ok () t \<and> txn_inv t \<and> free_blocks t = free_blocks s
    \<and> blk t = (blk s)(of_nat b := zero_block)"
proof -
  have inv: "txn_inv s" and lt: "b < 2 ^ 31" "is_free s b" using assms(1) by (simp_all add: alloc_ready_def)
  have ub: "unat (of_nat b :: u32) = b" using lt by (simp add: unat_of_nat take_bit_nat_eq_self)
  have "wp (bind (balloc ROOTDEV) (bfree ROOTDEV)) (\<lambda>_ t. txn_inv t \<and> free_blocks t = free_blocks s
    \<and> blk t = (blk s)(of_nat b := zero_block)) s"
    unfolding wp_bind
  proof (rule wp_balloc [OF assms(1)])
    fix u assume u: "logged s (alloc_blocks s b) [bitmap_at s b, of_nat b] u"
    note l = loggedD [OF u] and a = alloc_bitmap [OF loggedD(3) [OF u] assms(2)]
    have used: "\<not> is_free u b" using a assms(2) by (auto simp: free_blocks_def data_block_def)
    have n: "0 \<le> lh_n (thelog s)" using inv by (simp add: txn_inv_def head_wf_def Let_def)
    have "log_room (thelog u) 1"
      using assms(3) l(9) lh_n_log_add [OF n, of "bitmap_at s b"] lh_n_log_add [of "log_add (thelog s) (bitmap_at s b)" "of_nat b"] n
      by (auto simp: log_room_def)
    moreover have "card (dirty_at u \<union> busy_at u) < NBUF"
    proof -
      have "dirty_at u \<union> busy_at u = insert (bitmap_at s b) (insert (of_nat b) (dirty_at s \<union> busy_at s))" using l(4,5) by auto
      then have "card (dirty_at u \<union> busy_at u) \<le> card (dirty_at s \<union> busy_at s) + 2"
        by (metis (no_types, lifting) add_2_eq_Suc' card_insert_le_m1 diff_Suc_1 le_SucI order_refl zero_less_Suc)
      then show ?thesis using assms(4) by simp
    qed
    ultimately have fr: "free_ready u b"
      using assms(1) l(1,9) a by (simp add: free_ready_def alloc_ready_def readable_now_def l)
    have blk: "(blk u)(bitmap_at u b := mark_free (blk u (bitmap_at u b)) (b mod BPB)) = (blk s)(of_nat b := zero_block)"
      using lt(2) assms(2) mark_free_used [of "blk s (bitmap_at s b)" "b mod BPB"]
      by (auto simp: a(2) l(3) alloc_blocks_def is_free_def data_block_def fun_eq_iff)
    show "wp (bfree ROOTDEV (of_nat b)) (\<lambda>_ t. txn_inv t \<and> free_blocks t = free_blocks s
      \<and> blk t = (blk s)(of_nat b := zero_block)) u"
    proof (rule wp_bfree; unfold ub)
      fix x assume x: "logged u ((blk u)(bitmap_at u b := mark_free (blk u (bitmap_at u b)) (b mod BPB))) [bitmap_at u b] x"
      note lx = loggedD [OF x]
      have "free_blocks x = insert b (free_blocks u)"
        using free_bitmap(3) [OF lx(3)] assms(2) by (simp add: a data_block_def)
      then have "free_blocks x = free_blocks s" using a(3) lt(2) assms(2) by (auto simp: free_blocks_def data_block_def)
      then show "txn_inv x \<and> free_blocks x = free_blocks s \<and> blk x = (blk s)(of_nat b := zero_block)"
        using lx(1,3) blk by simp
    qed (use fr used in auto)
  qed
  then show ?thesis by (auto dest!: wp_Ok)
qed

theorem balloc_bfree_roundtrip_witness:
  "\<exists>t. bind (balloc ROOTDEV) (bfree ROOTDEV) empty_fs = Ok () t \<and> free_blocks t = free_blocks empty_fs"
  using balloc_bfree_roundtrip [OF small_alloc_ready(1,2), of "\<lambda>_. zero_block"]
  by (auto simp: small_fs_ok small_log_def log_room_def NBUF_def)

end
