(* ===== verification/Xv6_Inode.thy ===== *)
theory Xv6_Inode
  imports Xv6_Balloc
begin

text \<open>
  Inodes of \<open>xv6/fs.c\<close>: the in-memory inode cache with its reference counts and busy flags, the
  block map of a file (direct, indirect and double indirect), truncation, and reading and writing
  the content of a file. A \<open>struct inode*\<close> is the index of the entry in \<open>icache.inode\<close>.
\<close>

section \<open>State (file.h, fs.c)\<close>

record inode =
  idev :: u32
  inum :: u32
  iref :: int
  iflags :: u32
  itype :: u16
  imajor :: u16
  iminor :: u16
  inlink :: u16
  isize :: u32
  ictime :: u32
  iatime :: u32
  imtime :: u32
  iaddrs :: "nat \<Rightarrow> u32"

definition I_BUSY :: u32 where
  "I_BUSY = 1"

definition I_VALID :: u32 where
  "I_VALID = 2"

definition NINODE :: nat where
  "NINODE = 50"

record fsst = logst +
  icache :: "nat \<Rightarrow> inode"

definition get_inode :: "nat \<Rightarrow> ('z fsst_scheme, inode) xm" where
  "get_inode ip = gets (\<lambda>s. icache s ip)"

definition upd_inode :: "nat \<Rightarrow> (inode \<Rightarrow> inode) \<Rightarrow> ('z fsst_scheme, unit) xm" where
  "upd_inode ip f = modify (\<lambda>s. s\<lparr>icache := (icache s)(ip := f (icache s ip))\<rparr>)"

text \<open>\<open>ip->addrs[i]\<close>: the array has \<open>NDIRECT+1\<close> entries (file.h), the on-disk one has
  \<open>NDIRECT+2\<close> (fs.h with \<open>HWBIGF\<close>).\<close>

definition get_addr :: "nat \<Rightarrow> nat \<Rightarrow> ('z fsst_scheme, u32) xm" where
  "get_addr ip i = (if i < NDIRECT + 1 then gets (\<lambda>s. iaddrs (icache s ip) i)
     else fail (Undef ''ip->addrs: index out of range''))"

definition set_addr :: "nat \<Rightarrow> nat \<Rightarrow> u32 \<Rightarrow> ('z fsst_scheme, unit) xm" where
  "set_addr ip i a = (if i < NDIRECT + 1 then upd_inode ip (\<lambda>x. x\<lparr>iaddrs := (iaddrs x)(i := a)\<rparr>)
     else fail (Undef ''ip->addrs: index out of range''))"

section \<open>Allocation and the inode cache\<close>

text \<open>\<open>initlock\<close> only names the lock (spinlock.c); the cache is zero-initialised memory.\<close>

definition iinit :: "('z fsst_scheme, unit) xm" where
  "iinit = return ()"

definition iget :: "u32 \<Rightarrow> u32 \<Rightarrow> ('z fsst_scheme, nat) xm" where
  "iget dev ino =
     bind (gets icache) (\<lambda>C.
     case find (\<lambda>ip. 0 < iref (C ip) \<and> idev (C ip) = dev \<and> inum (C ip) = ino) [0..<NINODE] of
       Some ip \<Rightarrow>
         andthen (upd_inode ip (\<lambda>x. x\<lparr>iref := iref x + 1\<rparr>))
           (return ip)
     | None \<Rightarrow>
         (case find (\<lambda>ip. iref (C ip) = 0) [0..<NINODE] of
            None \<Rightarrow> panic ''iget: no inodes''
          | Some ip \<Rightarrow>
              andthen (upd_inode ip (\<lambda>x. x\<lparr>idev := dev, inum := ino, iref := 1, iflags := 0\<rparr>))
                (return ip)))"

text \<open>The body of the loop of \<open>ialloc\<close>.\<close>

definition ialloc_try :: "u32 \<Rightarrow> u16 \<Rightarrow> nat \<Rightarrow> ('z fsst_scheme, nat option) xm" where
  "ialloc_try dev type ino =
     bind (bread dev (IBLOCK (of_nat ino))) (\<lambda>bp.
     bind (get_data bp) (\<lambda>d.
     if di_type (get_dinode d (ino mod IPB)) = 0 then
       andthen (set_data bp (put16 (zero_dinode d (ino mod IPB)) (64 * (ino mod IPB)) type)) (
       andthen (log_write bp) (
       andthen (brelse bp) (
       bind (iget dev (of_nat ino)) (\<lambda>ip.
         return (Some ip)))))
     else andthen (brelse bp) (return None)))"

definition ialloc :: "u32 \<Rightarrow> u16 \<Rightarrow> ('z fsst_scheme, nat) xm" where
  "ialloc dev type =
     bind (readsb dev) (\<lambda>sb.
     bind (mloop [1..<unat (sb_ninodes sb)] (ialloc_try dev type)) (\<lambda>r.
     case r of Some ip \<Rightarrow> return ip | None \<Rightarrow> panic ''ialloc: no inodes''))"

text \<open>The on-disk inode after the assignments of \<open>iupdate\<close>: all fields of \<open>ip\<close>, and as many
  addresses as \<open>ip\<close> has.\<close>

definition store_inode :: "block \<Rightarrow> nat \<Rightarrow> inode \<Rightarrow> block" where
  "store_inode d k x = (let p = 64 * k in
     put_addrs
       (put32 (put32 (put32 (put32 (put16 (put16 (put16 (put16 d p (itype x)) (p + 2) (imajor x))
         (p + 4) (iminor x)) (p + 6) (inlink x)) (p + 8) (isize x)) (p + 16) (iatime x))
         (p + 12) (ictime x)) (p + 20) (imtime x))
       (p + 24) (iaddrs x) (NDIRECT + 1))"

definition iupdate :: "nat \<Rightarrow> ('z fsst_scheme, unit) xm" where
  "iupdate ip =
     bind (get_inode ip) (\<lambda>x.
     bind (bread (idev x) (IBLOCK (inum x))) (\<lambda>bp.
     bind (get_data bp) (\<lambda>d.
     andthen (set_data bp (store_inode d (unat (inum x) mod IPB) x)) (
     andthen (log_write bp)
       (brelse bp)))))"

definition idup :: "nat \<Rightarrow> ('z fsst_scheme, nat) xm" where
  "idup ip = andthen (upd_inode ip (\<lambda>x. x\<lparr>iref := iref x + 1\<rparr>)) (return ip)"

text \<open>The fields \<open>ilock\<close> copies from the on-disk inode.\<close>

definition load_inode :: "dinode \<Rightarrow> inode \<Rightarrow> inode" where
  "load_inode di x = x\<lparr>itype := di_type di, imajor := di_major di, iminor := di_minor di,
     inlink := di_nlink di, isize := di_size di, imtime := di_mtime di, iatime := di_atime di,
     ictime := di_ctime di,
     iaddrs := (\<lambda>i. if i < NDIRECT + 1 then di_addrs di i else iaddrs x i)\<rparr>"

definition ilock :: "nat \<Rightarrow> ('z fsst_scheme, unit) xm" where
  "ilock ip =
     bind (get_inode ip) (\<lambda>x.
     if iref x < 1 then panic ''ilock''
     else if iflags x AND I_BUSY \<noteq> 0 then fail Hang
     else
       andthen (upd_inode ip (\<lambda>x. x\<lparr>iflags := iflags x OR I_BUSY\<rparr>)) (
       unless (iflags x AND I_VALID \<noteq> 0) (
         bind (bread (idev x) (IBLOCK (inum x))) (\<lambda>bp.
         bind (get_data bp) (\<lambda>d.
         let di = get_dinode d (unat (inum x) mod IPB) in
         andthen (upd_inode ip (load_inode di)) (
         andthen (brelse bp) (
         andthen (upd_inode ip (\<lambda>x. x\<lparr>iflags := iflags x OR I_VALID\<rparr>))
           (if di_type di = 0 then panic ''ilock: no type'' else return ()))))))))"

definition iunlock :: "nat \<Rightarrow> ('z fsst_scheme, unit) xm" where
  "iunlock ip =
     bind (get_inode ip) (\<lambda>x.
     if iflags x AND I_BUSY = 0 \<or> iref x < 1 then panic ''iunlock''
     else upd_inode ip (\<lambda>x. x\<lparr>iflags := iflags x AND NOT I_BUSY\<rparr>))"

section \<open>The block map\<close>

text \<open>Entry \<open>i\<close> of the block of addresses \<open>addr\<close>, allocating a block for it if it is zero: the
  step \<open>bmap\<close> repeats for the indirect blocks. The block stays held while \<open>balloc\<close> runs.\<close>

definition bmap_entry :: "u32 \<Rightarrow> u32 \<Rightarrow> nat \<Rightarrow> ('z fsst_scheme, u32) xm" where
  "bmap_entry dev addr i =
     bind (bread dev addr) (\<lambda>bp.
     bind (get_data bp) (\<lambda>d.
     let a = get32 d (4 * i) in
     if a = 0 then
       bind (balloc dev) (\<lambda>a.
       bind (get_data bp) (\<lambda>d.
       andthen (set_data bp (put32 d (4 * i) a)) (
       andthen (log_write bp) (
       andthen (brelse bp)
         (return a)))))
     else andthen (brelse bp) (return a)))"

text \<open>Address \<open>i\<close> of the inode itself, allocated in the same way.\<close>

definition bmap_addr :: "nat \<Rightarrow> nat \<Rightarrow> ('z fsst_scheme, u32) xm" where
  "bmap_addr ip i =
     bind (get_inode ip) (\<lambda>x.
     bind (get_addr ip i) (\<lambda>a.
     if a = 0 then
       bind (balloc (idev x)) (\<lambda>a.
       andthen (set_addr ip i a)
         (return a))
     else return a))"

definition bmap :: "nat \<Rightarrow> u32 \<Rightarrow> ('z fsst_scheme, u32) xm" where
  "bmap ip bn =
     bind (get_inode ip) (\<lambda>x.
     if unat bn < NDIRECT then bmap_addr ip (unat bn)
     else
       let bn = unat bn - NDIRECT in
       if bn < NINDIRECT then
         bind (bmap_addr ip NDIRECT) (\<lambda>addr.
           bmap_entry (idev x) addr bn)
       else if bn < MAXFILE - NDIRECT then
         let bn = bn - NINDIRECT in
         bind (bmap_addr ip (NDIRECT + 1)) (\<lambda>addr.
         bind (bmap_entry (idev x) addr (bn div NINDIRECT)) (\<lambda>addr.
         bind (bmap_entry (idev x) addr (bn mod NINDIRECT)) (\<lambda>addr.
         bind (bread (idev x) addr) (\<lambda>bp.
         andthen (brelse bp)
           (return addr)))))
       else panic ''bmap: out of range'')"

definition itrunc :: "nat \<Rightarrow> ('z fsst_scheme, unit) xm" where
  "itrunc ip =
     bind (get_inode ip) (\<lambda>x.
     andthen (mfor [0..<NDIRECT] (\<lambda>i.
       bind (get_addr ip i) (\<lambda>a.
       unless (a = 0) (
         andthen (bfree (idev x) a)
           (set_addr ip i 0))))) (
     andthen (
       bind (get_addr ip NDIRECT) (\<lambda>a.
       unless (a = 0) (
         bind (bread (idev x) a) (\<lambda>bp.
         bind (get_data bp) (\<lambda>d.
         andthen (mfor [0..<NINDIRECT] (\<lambda>j.
           unless (get32 d (4 * j) = 0) (bfree (idev x) (get32 d (4 * j))))) (
         andthen (brelse bp) (
         andthen (bfree (idev x) a)
           (set_addr ip NDIRECT 0)))))))) (
     andthen (upd_inode ip (\<lambda>x. x\<lparr>isize := 0\<rparr>))
       (iupdate ip))))"

definition iput :: "nat \<Rightarrow> ('z fsst_scheme, unit) xm" where
  "iput ip =
     bind (get_inode ip) (\<lambda>x.
     andthen (
       if iref x = 1 \<and> iflags x AND I_VALID \<noteq> 0 \<and> inlink x = 0 then
         (if iflags x AND I_BUSY \<noteq> 0 then panic ''iput busy''
          else
            andthen (upd_inode ip (\<lambda>x. x\<lparr>iflags := iflags x OR I_BUSY\<rparr>)) (
            andthen (itrunc ip) (
            andthen (upd_inode ip (\<lambda>x. x\<lparr>itype := 0\<rparr>)) (
            andthen (iupdate ip)
              (upd_inode ip (\<lambda>x. x\<lparr>iflags := 0\<rparr>))))))
       else return ())
       (upd_inode ip (\<lambda>x. x\<lparr>iref := iref x - 1\<rparr>)))"

definition iunlockput :: "nat \<Rightarrow> ('z fsst_scheme, unit) xm" where
  "iunlockput ip = andthen (iunlock ip) (iput ip)"

record stat =
  st_type :: u16
  st_dev :: u32
  st_ino :: u32
  st_nlink :: u16
  st_size :: u32
  st_atime :: u32
  st_mtime :: u32
  st_ctime :: u32

definition stati :: "nat \<Rightarrow> ('z fsst_scheme, stat) xm" where
  "stati ip = gets (\<lambda>s. let x = icache s ip in
     \<lparr>st_type = itype x, st_dev = idev x, st_ino = inum x, st_nlink = inlink x, st_size = isize x,
      st_atime = iatime x, st_mtime = imtime x, st_ctime = ictime x\<rparr>)"

section \<open>File content\<close>

text \<open>The iterations of the loops of \<open>readi\<close>, \<open>writei\<close> and \<open>zeroi\<close>: the values of \<open>tot\<close> and \<open>m\<close>.
  The loop ends because a step is never empty.\<close>

function chunks :: "nat \<Rightarrow> nat \<Rightarrow> nat \<Rightarrow> (nat \<times> nat) list" where
  "chunks off tot n =
     (if tot < n then
        let m = min (n - tot) (BSIZE - (off + tot) mod BSIZE) in (tot, m) # chunks off (tot + m) n
      else [])"
  by pat_completeness auto
termination
  by (relation "measure (\<lambda>(off, tot, n). n - tot)") (auto simp: BSIZE_def)

declare chunks.simps [simp del]

text \<open>\<open>memmove(dst + p, src + q, m)\<close>.\<close>

definition copy_mem :: "mem \<Rightarrow> nat \<Rightarrow> mem \<Rightarrow> nat \<Rightarrow> nat \<Rightarrow> mem" where
  "copy_mem dst p src q m = (\<lambda>i. if p \<le> i \<and> i < p + m then src (q + (i - p)) else dst i)"

text \<open>No device is ever installed in \<open>devsw\<close> (file.c), so the device branches of \<open>readi\<close> and
  \<open>writei\<close> return -1.\<close>

definition readi :: "nat \<Rightarrow> mem \<Rightarrow> u32 \<Rightarrow> u32 \<Rightarrow> ('z fsst_scheme, int \<times> mem) xm" where
  "readi ip dst off n =
     bind (get_inode ip) (\<lambda>x.
     if itype x = T_DEV then return (- 1, dst)
     else if isize x < off \<or> off + n < off then return (- 1, dst)
     else
       let n = (if isize x < off + n then isize x - off else n) in
       bind (mfold (chunks (unat off) 0 (unat n)) (\<lambda>(tot, m) dst.
         bind (bmap ip ((off + of_nat tot) div 4096)) (\<lambda>addr.
         bind (bread (idev x) addr) (\<lambda>bp.
         bind (get_data bp) (\<lambda>d.
         andthen (brelse bp)
           (return (copy_mem dst tot d ((unat off + tot) mod BSIZE) m)))))) dst) (\<lambda>dst.
       return (sint n, dst)))"

text \<open>One step of \<open>zeroi\<close> or \<open>writei\<close>: put the bytes into the block and log it.\<close>

definition write_chunk :: "nat \<Rightarrow> u32 \<Rightarrow> u32 \<Rightarrow> (block \<Rightarrow> block) \<Rightarrow> ('z fsst_scheme, unit) xm" where
  "write_chunk ip dev off f =
     bind (bmap ip (off div 4096)) (\<lambda>addr.
     bind (bread dev addr) (\<lambda>bp.
     bind (get_data bp) (\<lambda>d.
     andthen (set_data bp (f d)) (
     andthen (log_write bp)
       (brelse bp)))))"

definition zeroi :: "nat \<Rightarrow> u32 \<Rightarrow> u32 \<Rightarrow> ('z fsst_scheme, unit) xm" where
  "zeroi ip off n =
     bind (get_inode ip) (\<lambda>x.
     andthen (mfor (chunks (unat off) 0 (unat n)) (\<lambda>(tot, m).
       write_chunk ip (idev x) (off + of_nat tot)
         (\<lambda>d. copy_mem d ((unat off + tot) mod BSIZE) zero_block 0 m))) (
     andthen (upd_inode ip (\<lambda>x. x\<lparr>isize := off + n\<rparr>)) (
     bind unix_time (\<lambda>now.
     andthen (upd_inode ip (\<lambda>x. x\<lparr>imtime := now\<rparr>))
       (iupdate ip)))))"

definition writei :: "nat \<Rightarrow> mem \<Rightarrow> u32 \<Rightarrow> u32 \<Rightarrow> ('z fsst_scheme, int) xm" where
  "writei ip src off n =
     bind (get_inode ip) (\<lambda>x.
     if itype x = T_DEV then return (- 1)
     else if isize x < off \<or> off + n < off then return (- 1)
     else if MAXFILE * BSIZE < unat (off + n) then return (- 1)
     else
       andthen (mfor (chunks (unat off) 0 (unat n)) (\<lambda>(tot, m).
         write_chunk ip (idev x) (off + of_nat tot)
           (\<lambda>d. copy_mem d ((unat off + tot) mod BSIZE) src tot m))) (
       andthen (unless (\<not> (0 < n \<and> isize x < off + n)) (
         andthen (upd_inode ip (\<lambda>x. x\<lparr>isize := off + n\<rparr>)) (
         bind unix_time (\<lambda>now.
         andthen (upd_inode ip (\<lambda>x. x\<lparr>imtime := now\<rparr>))
           (iupdate ip)))))
         (return (sint n))))"

end
