(* ===== verification/Xv6_Icache.thy ===== *)
theory Xv6_Icache
  imports Xv6_Inode
begin

text \<open>
  The inode cache and the on-disk inodes. \<open>icache_ok\<close> is the invariant of the cache: an inode is in it at most
  once, so that all its users share one entry and its lock. The theorems are the contracts of \<open>iget\<close>, \<open>ilock\<close>,
  \<open>iunlock\<close>, \<open>idup\<close>, \<open>iput\<close>, \<open>iupdate\<close> and \<open>ialloc\<close>, and the round trip of an inode through its place on the disk.
\<close>

section \<open>The state below the inode cache\<close>

lemma wp_get_inode [wp_simps]: "wp (get_inode ip) Q s = Q (icache s ip) s"
  by (simp add: get_inode_def wp_simps)

lemma wp_upd_inode [wp_simps]:
  "wp (upd_inode ip f) Q s = Q () (s\<lparr>icache := (icache s)(ip := f (icache s ip))\<rparr>)"
  by (simp add: upd_inode_def wp_simps)

lemma cache_icache [simp]:
  "binv (s\<lparr>icache := C\<rparr>) = binv s" "view (s\<lparr>icache := C\<rparr>) = view s" "blk (s\<lparr>icache := C\<rparr>) = blk s"
  "dirty_at (s\<lparr>icache := C\<rparr>) = dirty_at s" "busy_at (s\<lparr>icache := C\<rparr>) = busy_at s"
  "in_image (s\<lparr>icache := C\<rparr>) = in_image s" "holds (s\<lparr>icache := C\<rparr>) = holds s"
  using buf_ok_host [of "s\<lparr>icache := C\<rparr>" s]
  by (simp_all add: binv_def view_def in_image_def blk_def dirty_at_def busy_at_def holds_def fun_eq_iff split: option.split)

lemma txn_icache [simp]:
  "txn_inv (s\<lparr>icache := C\<rparr>) = txn_inv s" "readable_now (s\<lparr>icache := C\<rparr>) = readable_now s"
  by (simp_all add: txn_inv_def log_wf_def head_wf_def readable_now_def Let_def fun_eq_iff)

lemma lframe_icache: "lframe s t \<Longrightarrow> icache t = icache s"
  by (cases s; cases t) (simp add: lframe_def)

lemma like_icache: "like s t \<Longrightarrow> icache t = icache s"
  by (rule lframe_icache) (rule like_fields)

lemma logged_icache: "logged s m bs t \<Longrightarrow> icache t = icache s"
  by (rule lframe_icache) (rule loggedD)

section \<open>Inodes on the disk\<close>

text \<open>Storing an inode and loading it again gives all its fields back; the other inodes of the block are
  untouched.\<close>

definition disk_inode :: "'z bcache_scheme \<Rightarrow> u32 \<Rightarrow> dinode" where
  "disk_inode s i = get_dinode (blk s (IBLOCK i)) (unat i mod IPB)"

lemma load_store_inode: "load_inode (get_dinode (store_inode d k x) k) x = x"
proof -
  have "(\<lambda>i. if i < NDIRECT + 1 then get32 (put_addrs e (p + 24) (iaddrs x) (NDIRECT + 1)) (p + 24 + 4 * i) else iaddrs x i)
      = iaddrs x" for e p
    by (auto simp: fun_eq_iff get32_put_addrs simp del: put_addrs.simps)
  then show ?thesis
    by (simp add: load_inode_def get_dinode_def store_inode_def Let_def get32_put_addrs_other get16_put_addrs_other
        codec_simps cong: if_cong del: put_addrs.simps)
qed

text \<open>The fields of an inode in memory agree with those of one on the disk.\<close>

definition same_fields :: "inode \<Rightarrow> dinode \<Rightarrow> bool" where
  "same_fields x di \<longleftrightarrow> itype x = di_type di \<and> imajor x = di_major di \<and> iminor x = di_minor di \<and> inlink x = di_nlink di
     \<and> isize x = di_size di \<and> ictime x = di_ctime di \<and> iatime x = di_atime di \<and> imtime x = di_mtime di
     \<and> (\<forall>i < NDIRECT + 1. iaddrs x i = di_addrs di i)"

lemma same_fields_load: "same_fields (load_inode di x) di"
  by (simp add: same_fields_def load_inode_def)

lemma same_fields_flags [simp]: "same_fields (x\<lparr>iflags := f\<rparr>) di = same_fields x di"
  by (simp add: same_fields_def)

lemma same_fields_store: "same_fields x (get_dinode (store_inode d k x) k)"
  using same_fields_load [of "get_dinode (store_inode d k x) k" x] by (simp add: load_store_inode)

lemma store_inode_frame: "i < 64 * k \<or> 64 * k + 64 \<le> i \<Longrightarrow> store_inode d k x i = d i"
  by (auto simp: store_inode_def Let_def put_addrs_frame NDIRECT_def c16.put_frame c32.put_frame simp del: put_addrs.simps)

lemma get_dinode_local:
  assumes "\<And>i. 64 * k \<le> i \<Longrightarrow> i < 64 * k + 64 \<Longrightarrow> d i = e i"
  shows "get_dinode d k = get_dinode e k"
proof -
  have g16: "get16 d (64 * k + j) = get16 e (64 * k + j)" if "j + 2 \<le> 64" for j
    using assms that by (intro c16.get_local) auto
  have g32: "get32 d (64 * k + j) = get32 e (64 * k + j)" if "j + 4 \<le> 64" for j
    using assms that by (intro c32.get_local) auto
  have "(\<lambda>i. if i < NDIRECT + 2 then get32 d (64 * k + 24 + 4 * i) else 0)
      = (\<lambda>i. if i < NDIRECT + 2 then get32 e (64 * k + 24 + 4 * i) else 0)"
    using g32 by (auto simp: fun_eq_iff NDIRECT_def add.assoc)
  then show ?thesis
    using g16 [of 0] g16 [of 2] by (simp add: get_dinode_def Let_def g16 g32)
qed

lemma get_store_other: "k \<noteq> j \<Longrightarrow> get_dinode (store_inode d k x) j = get_dinode d j"
  by (rule get_dinode_local) (rule store_inode_frame, arith)

lemma wp_iupdate:
  assumes "txn_inv s" "idev (icache s ip) = ROOTDEV"
    and "\<not> in_log (thelog s) (IBLOCK (inum (icache s ip)))" "readable_now s (IBLOCK (inum (icache s ip)))" "log_room (thelog s) 1"
    and "\<And>t. logged s ((blk s)(IBLOCK (inum (icache s ip)) :=
        store_inode (blk s (IBLOCK (inum (icache s ip)))) (unat (inum (icache s ip)) mod IPB) (icache s ip)))
      [IBLOCK (inum (icache s ip))] t \<Longrightarrow> Q () t"
  shows "wp (iupdate ip) Q s"
  unfolding iupdate_def wp_bind [of "get_inode ip"] wp_get_inode assms(2)
  by (rule wp_update [where f = "\<lambda>d. store_inode d (unat (inum (icache s ip)) mod IPB) (icache s ip)"])
     (use assms in auto)

lemma stored_inode:
  assumes "blk t = (blk s)(IBLOCK i := store_inode (blk s (IBLOCK i)) (unat i mod IPB) x)"
  shows "load_inode (disk_inode t i) x = x" "j \<noteq> i \<Longrightarrow> disk_inode t j = disk_inode s j"
proof -
  show "load_inode (disk_inode t i) x = x" using assms by (simp add: disk_inode_def load_store_inode)
  show "disk_inode t j = disk_inode s j" if "j \<noteq> i"
  proof (cases "IBLOCK j = IBLOCK i")
    case True
    then have "unat i mod IPB \<noteq> unat j mod IPB" using inode_place_inject [of i j] that by auto
    from get_store_other [OF this] True show ?thesis by (simp add: disk_inode_def assms)
  qed (simp add: disk_inode_def assms)
qed

section \<open>The invariant of the cache\<close>

definition in_use :: "(nat \<Rightarrow> inode) \<Rightarrow> u32 \<Rightarrow> u32 \<Rightarrow> nat \<Rightarrow> bool" where
  "in_use C dev ino ip \<longleftrightarrow> ip < NINODE \<and> 0 < iref (C ip) \<and> idev (C ip) = dev \<and> inum (C ip) = ino"

definition icache_ok :: "(nat \<Rightarrow> inode) \<Rightarrow> bool" where
  "icache_ok C \<longleftrightarrow> (\<forall>i < NINODE. 0 \<le> iref (C i))
     \<and> (\<forall>dev ino i j. in_use C dev ino i \<and> in_use C dev ino j \<longrightarrow> i = j)"

lemma in_use_upd:
  "in_use (C(ip := x)) dev ino i \<longleftrightarrow>
     (if i = ip then ip < NINODE \<and> 0 < iref x \<and> idev x = dev \<and> inum x = ino else in_use C dev ino i)"
  by (simp add: in_use_def)

lemma in_use_self: "ip < NINODE \<Longrightarrow> 0 < iref (C ip) \<Longrightarrow> in_use C (idev (C ip)) (inum (C ip)) ip"
  by (simp add: in_use_def)

lemma icache_ok_upd:
  assumes "icache_ok C" "ip < NINODE" "idev x = idev (C ip)" "inum x = inum (C ip)" "0 \<le> iref x"
    and "0 < iref x \<Longrightarrow> 0 < iref (C ip)"
  shows "icache_ok (C(ip := x))"
proof -
  have "in_use C dev ino i" if "in_use (C(ip := x)) dev ino i" for dev ino i
    using that assms in_use_self [OF assms(2)] by (auto simp: in_use_upd split: if_splits)
  then show ?thesis using assms(1,5) unfolding icache_ok_def by (metis fun_upd_apply)
qed

lemma icache_ok_new:
  assumes "icache_ok C" "\<And>i. \<not> in_use C (idev x) (inum x) i" "0 < iref x"
  shows "icache_ok (C(ip := x))"
proof -
  have "\<forall>dev ino i j. in_use (C(ip := x)) dev ino i \<and> in_use (C(ip := x)) dev ino j \<longrightarrow> i = j"
    unfolding in_use_upd using assms(1,2) by (auto simp: icache_ok_def)
  then show ?thesis using assms(1,3) by (auto simp: icache_ok_def)
qed

lemma iget_found:
  assumes "icache_ok (icache s)" "in_use (icache s) dev ino ip"
  shows "iget dev ino s = Ok ip (s\<lparr>icache := (icache s)(ip := (icache s ip)\<lparr>iref := iref (icache s ip) + 1\<rparr>)\<rparr>)"
proof -
  let ?P = "\<lambda>i. 0 < iref (icache s i) \<and> idev (icache s i) = dev \<and> inum (icache s i) = ino"
  have "find ?P [0..<NINODE] = Some ip"
    using assms by (intro find_unique) (auto simp: in_use_def icache_ok_def intro: allE)
  then show ?thesis
    by (simp add: iget_def bind_def gets_def andthen_def upd_inode_def modify_def return_def)
qed

lemma iget_new:
  assumes "icache_ok (icache s)" "\<And>i. \<not> in_use (icache s) dev ino i"
    and "find (\<lambda>i. iref (icache s i) = 0) [0..<NINODE] = Some ip"
  shows "iget dev ino s = Ok ip (s\<lparr>icache := (icache s)(ip := (icache s ip)\<lparr>idev := dev, inum := ino, iref := 1, iflags := 0\<rparr>)\<rparr>)"
proof -
  have "find (\<lambda>i. 0 < iref (icache s i) \<and> idev (icache s i) = dev \<and> inum (icache s i) = ino) [0..<NINODE] = None"
    using assms(2) by (auto simp: find_None_iff in_use_def)
  then show ?thesis
    using assms(3) by (simp add: iget_def bind_def gets_def andthen_def upd_inode_def modify_def return_def)
qed


text \<open>With a free entry in the cache \<open>iget\<close> succeeds.\<close>

lemma wp_iget:
  assumes ok: "icache_ok (icache s)" and free: "\<exists>i < NINODE. iref (icache s i) = 0"
    and post: "\<And>ip C. in_use C dev ino ip \<Longrightarrow> icache_ok C \<Longrightarrow> (\<And>j. j \<noteq> ip \<Longrightarrow> C j = icache s j) \<Longrightarrow> Q ip (s\<lparr>icache := C\<rparr>)"
  shows "wp (iget dev ino) Q s"
proof (cases "\<exists>ip. in_use (icache s) dev ino ip")
  case True
  then obtain ip where ip: "in_use (icache s) dev ino ip" by blast
  then have lt: "ip < NINODE" "0 < iref (icache s ip)" by (auto simp: in_use_def)
  let ?x = "(icache s ip)\<lparr>iref := iref (icache s ip) + 1\<rparr>"
  have "icache_ok ((icache s)(ip := ?x))" using ok lt by (intro icache_ok_upd) auto
  then show ?thesis unfolding wp_def iget_found [OF ok ip] result.case using ip by (intro post) (auto simp: in_use_def)
next
  case False
  then have none: "\<And>i. \<not> in_use (icache s) dev ino i" by blast
  obtain ip where f: "find (\<lambda>i. iref (icache s i) = 0) [0..<NINODE] = Some ip"
    using free by (cases "find (\<lambda>i. iref (icache s i) = 0) [0..<NINODE]") (auto simp: find_None_iff)
  then have lt: "ip < NINODE" using find_Some_in by fastforce
  let ?x = "(icache s ip)\<lparr>idev := dev, inum := ino, iref := 1, iflags := 0\<rparr>"
  have "icache_ok ((icache s)(ip := ?x))" using none by (intro icache_ok_new [OF ok]) auto
  then show ?thesis unfolding wp_def iget_new [OF ok none f] result.case using lt by (intro post) (auto simp: in_use_def)
qed

section \<open>Locking\<close>

lemma lock_flags: "\<not> bit (f :: u32) 0 \<Longrightarrow> (f OR 1) AND - 2 = f"
proof -
  assume f: "\<not> bit f 0"
  have "(f OR 1) AND NOT 1 = f" by (rule bit_word_eqI) (use f in \<open>auto simp: bit_simps intro: gr0I\<close>)
  then show ?thesis by simp
qed

lemma inode_flag_or: "bit ((f :: u32) OR 1) 0" "bit ((f :: u32) OR 2) 1" "bit ((f :: u32) OR 1) 1 = bit f 1"
  by (simp_all add: bit_simps)

lemma wp_ilock_valid:
  assumes "1 \<le> iref (icache s ip)" "\<not> bit (iflags (icache s ip)) 0" "bit (iflags (icache s ip)) 1"
  shows "wp (ilock ip) Q s = Q () (s\<lparr>icache := (icache s)(ip := (icache s ip)\<lparr>iflags := iflags (icache s ip) OR 1\<rparr>)\<rparr>)"
  using assms by (simp add: ilock_def wp_simps I_BUSY_def I_VALID_def flag_simps)

text \<open>The inode is updated while its block is held.\<close>

lemma cframe_icache:
  assumes "cframe (s\<lparr>icache := C\<rparr>) u"
  shows "cframe s (u\<lparr>icache := icache s\<rparr>)"
  using assms by (cases s; cases u) (simp add: cframe_def)

lemma icache_self: "icache u = C \<Longrightarrow> u\<lparr>icache := C\<rparr> = u"
  by simp

lemma like_upd_icache: "like (s\<lparr>icache := C\<rparr>) t \<Longrightarrow> like s (t\<lparr>icache := icache s\<rparr>)"
  using cframe_icache by (auto simp: like_def)

lemma load_inode_flags [simp]:
  "load_inode di (x\<lparr>iflags := f\<rparr>) = (load_inode di x)\<lparr>iflags := f\<rparr>" "iflags (load_inode di x) = iflags x"
  by (simp_all add: load_inode_def cong: if_cong)

lemma wp_read_upd_inode:
  fixes s :: "'z fsst_scheme"
  assumes s: "binv s" "readable_now s b" and post: "\<And>t. like s t \<Longrightarrow> wp k Q (t\<lparr>icache := (icache s)(ip := f (icache s ip))\<rparr>)"
  shows "wp (bind (bread ROOTDEV b) (\<lambda>i. bind (get_data i) (\<lambda>d. andthen (upd_inode ip f) (andthen (brelse i) k)))) Q s"
  unfolding wp_bind wp_andthen
proof (rule bc.rd [OF s(1)])
  fix i t assume t: "binv t" "cframe s t" "view t = a_bread b (view s)" "holds t i b" and old: "\<And>j c. holds s j c \<Longrightarrow> holds t j c"
  let ?C = "(icache s)(ip := f (icache s ip))"
  have ic: "icache t = icache s" by (rule lframe_icache [OF cframe_lframe [OF t(2)]])
  show "wp (get_data i) (\<lambda>d. wp (upd_inode ip f) (\<lambda>_. wp (brelse i) (\<lambda>_. wp k Q))) t"
    unfolding bc.ld [OF t(1,4)] wp_upd_inode ic
  proof (rule bc.rel)
    show "binv (t\<lparr>icache := ?C\<rparr>)" "holds (t\<lparr>icache := ?C\<rparr>) i b" using t by simp_all
    show "b \<in> v_dirty (view (t\<lparr>icache := ?C\<rparr>)) \<or> v_blk (view (t\<lparr>icache := ?C\<rparr>)) b = v_img (view (t\<lparr>icache := ?C\<rparr>)) b"
      using bc.clean [OF s(1), of b] s(2) t(3) by (auto simp: a_bread_def readable_now_def view_def)
    fix u assume u: "binv u" "cframe (t\<lparr>icache := ?C\<rparr>) u" "view u = a_brelse b (view (t\<lparr>icache := ?C\<rparr>))"
      and keep: "\<And>j c. holds (t\<lparr>icache := ?C\<rparr>) j c \<Longrightarrow> c \<noteq> b \<Longrightarrow> holds u j c"
    have "view u = view s"
      using u(3) t(3) s(2) by (simp add: a_bread_def a_brelse_def readable_now_def view_def)
    moreover have "holds u j c" if "holds s j c" for j c
      using keep old [OF that] holds_busy_at [OF that] s(2) by (auto simp: readable_now_def)
    ultimately have "like s (u\<lparr>icache := icache s\<rparr>)"
      using u(1) cframe_trans [OF t(2) cframe_icache [OF u(2)]] ic by (simp add: like_def)
    from post [OF this] show "wp k Q u"
      using icache_self [OF lframe_icache [OF cframe_lframe [OF u(2)]]] by simp
  qed
qed (use s in \<open>auto simp: readable_now_def view_def\<close>)

lemma wp_ilock_load:
  assumes x: "1 \<le> iref (icache s ip)" "\<not> bit (iflags (icache s ip)) 0" "\<not> bit (iflags (icache s ip)) 1" "idev (icache s ip) = ROOTDEV"
    and s: "binv s" "readable_now s (IBLOCK (inum (icache s ip)))" "di_type (disk_inode s (inum (icache s ip))) \<noteq> 0"
    and post: "\<And>t C. like s t \<Longrightarrow> C = (icache s)(ip := (load_inode (disk_inode s (inum (icache s ip))) (icache s ip))
        \<lparr>iflags := iflags (icache s ip) OR 1 OR 2\<rparr>) \<Longrightarrow> Q () (t\<lparr>icache := C\<rparr>)"
  shows "wp (ilock ip) Q s"
proof -
  let ?x = "icache s ip"
  let ?s = "s\<lparr>icache := (icache s)(ip := ?x\<lparr>iflags := iflags ?x OR 1\<rparr>)\<rparr>"
  let ?di = "disk_inode s (inum ?x)"
  have di: "get_dinode (blk ?s (IBLOCK (inum ?x))) (unat (inum ?x) mod IPB) = ?di" by (simp add: disk_inode_def)
  have "wp (bind (bread ROOTDEV (IBLOCK (inum ?x))) (\<lambda>bp. bind (get_data bp) (\<lambda>d.
     let di = get_dinode d (unat (inum ?x) mod IPB) in
     andthen (upd_inode ip (load_inode di)) (andthen (brelse bp)
      (andthen (upd_inode ip (\<lambda>x. x\<lparr>iflags := iflags x OR I_VALID\<rparr>))
        (if di_type di = 0 then panic ''ilock: no type'' else return ())))))) Q ?s"
  proof (rule bread_data)
    show "binv ?s" "readable_now ?s (IBLOCK (inum ?x))" using s by simp_all
    show "wp (bind (bread ROOTDEV (IBLOCK (inum ?x))) (\<lambda>bp. bind (get_data bp) (\<lambda>d.
      andthen (upd_inode ip (load_inode ?di)) (andthen (brelse bp)
      (upd_inode ip (\<lambda>x. x\<lparr>iflags := iflags x OR I_VALID\<rparr>)))))) Q ?s"
    proof (rule wp_read_upd_inode)
      fix t assume "like ?s t"
      from post [OF like_upd_icache [OF this] refl] show "wp (upd_inode ip (\<lambda>x. x\<lparr>iflags := iflags x OR I_VALID\<rparr>)) Q
        (t\<lparr>icache := (icache ?s)(ip := load_inode ?di (icache ?s ip))\<rparr>)"
        by (simp add: wp_upd_inode I_VALID_def or.assoc)
    qed (use s in simp_all)
    show "(let di = get_dinode (blk ?s (IBLOCK (inum ?x))) (unat (inum ?x) mod IPB) in
     andthen (upd_inode ip (load_inode di)) (andthen (brelse i)
      (andthen (upd_inode ip (\<lambda>x. x\<lparr>iflags := iflags x OR I_VALID\<rparr>))
        (if di_type di = 0 then panic ''ilock: no type'' else return ())))) =
      andthen (upd_inode ip (load_inode ?di)) (andthen (brelse i)
      (upd_inode ip (\<lambda>x. x\<lparr>iflags := iflags x OR I_VALID\<rparr>)))" for i
      unfolding di Let_def using s(3) by (simp add: andthen_def bind_def return_def upd_inode_def modify_def fun_eq_iff split: result.split)
  qed
  then show ?thesis
    using x by (simp add: ilock_def wp_simps I_BUSY_def I_VALID_def flag_simps Let_def)
qed

section \<open>A small file system with two inodes in memory\<close>

text \<open>The disk of \<open>small_fs\<close> with two inodes: 1, a directory in block 5, and 2, a file of 5000 bytes in the blocks 6
  and 7. Both are in the inode cache, valid and with one reference.\<close>

definition free_inode :: inode where
  "free_inode = \<lparr>idev = 0, inum = 0, iref = 0, iflags = 0, itype = 0, imajor = 0, iminor = 0, inlink = 0, isize = 0,
     ictime = 0, iatime = 0, imtime = 0, iaddrs = (\<lambda>_. 0)\<rparr>"

definition dir_inode :: inode where
  "dir_inode = free_inode\<lparr>idev := ROOTDEV, inum := 1, iref := 1, iflags := 2, itype := T_DIR, inlink := 1, isize := 128,
     iaddrs := (\<lambda>_. 0)(0 := 5)\<rparr>"

definition file_inode :: inode where
  "file_inode = free_inode\<lparr>idev := ROOTDEV, inum := 2, iref := 1, iflags := 2, itype := T_FILE, inlink := 1, isize := 5000,
     iaddrs := (\<lambda>_. 0)(0 := 6, 1 := 7)\<rparr>"

definition inode_block :: block where
  "inode_block = store_inode (store_inode zero_block 1 dir_inode) 2 file_inode"

definition with_inodes :: "logst \<Rightarrow> (nat \<Rightarrow> inode) \<Rightarrow> fsst" where
  "with_inodes s C = logst.extend s (fsst.fields C)"

definition small_inodes :: "(u32 \<Rightarrow> block) \<Rightarrow> fsst" where
  "small_inodes e = with_inodes (small_fs (e(2 := inode_block)))
     ((\<lambda>_. free_inode)(0 := dir_inode, 3 := file_inode))"

lemma with_inodes_fields [simp]:
  "bufs (with_inodes s C) = bufs s" "img (with_inodes s C) = img s" "imglen (with_inodes s C) = imglen s"
  "hist (with_inodes s C) = hist s" "thelog (with_inodes s C) = thelog s" "icache (with_inodes s C) = C"
  by (simp_all add: with_inodes_def logst.extend_def fsst.fields_def)

lemma with_inodes_cache [simp]:
  "blk (with_inodes s C) = blk s" "dirty_at (with_inodes s C) = dirty_at s" "busy_at (with_inodes s C) = busy_at s"
  "in_image (with_inodes s C) = in_image s" "binv (with_inodes s C) = binv s" "txn_inv (with_inodes s C) = txn_inv s"
  "readable_now (with_inodes s C) = readable_now s"
proof -
  show a: "blk (with_inodes s C) = blk s" "dirty_at (with_inodes s C) = dirty_at s" "busy_at (with_inodes s C) = busy_at s"
    "in_image (with_inodes s C) = in_image s"
    by (simp_all add: blk_def dirty_at_def busy_at_def in_image_def fun_eq_iff split: option.split)
  then show b: "binv (with_inodes s C) = binv s" by (simp add: binv_def buf_ok_def)
  show "txn_inv (with_inodes s C) = txn_inv s" "readable_now (with_inodes s C) = readable_now s"
    using a b by (simp_all add: txn_inv_def log_wf_def head_wf_def readable_now_def Let_def fun_eq_iff)
qed

lemma small_inodes_ok:
  "txn_inv (small_inodes e)" "busy_at (small_inodes e) = {}" "dirty_at (small_inodes e) = {}"
  "thelog (small_inodes e) = small_log" "blk (small_inodes e) = small_disk (e(2 := inode_block))"
  "in_image (small_inodes e) b \<longleftrightarrow> unat b < 20" "unat b < 20 \<Longrightarrow> readable_now (small_inodes e) b"
  "icache (small_inodes e) = (\<lambda>_. free_inode)(0 := dir_inode, 3 := file_inode)"
  by (simp_all add: small_inodes_def small_fs_ok small_readable)

lemma small_icache_ok: "icache_ok (icache (small_inodes e))"
  by (auto simp: icache_ok_def in_use_def small_inodes_ok free_inode_def dir_inode_def file_inode_def split: if_splits)

lemma IBLOCK_2: "IBLOCK 2 = 2" "IBLOCK 1 = 2"
  by (simp_all add: IBLOCK_def)

lemma load_inode_type: "itype (load_inode di x) = di_type di"
  by (simp add: load_inode_def)

section \<open>Properties\<close>



lemma load_inode_place: "idev (load_inode di x) = idev x" "inum (load_inode di x) = inum x" "iref (load_inode di x) = iref x"
  by (simp_all add: load_inode_def)

text \<open>\<open>ilock\<close> of an inode nobody has locked returns with the inode locked and valid; its fields are those of the
  on-disk inode if it was not valid before, and unchanged otherwise. No block and no other inode changes.\<close>

theorem ilock_loads:
  assumes "1 \<le> iref (icache s ip)" "iflags (icache s ip) AND I_BUSY = 0" "idev (icache s ip) = ROOTDEV" "binv s"
    and "readable_now s (IBLOCK (inum (icache s ip)))" "di_type (disk_inode s (inum (icache s ip))) \<noteq> 0"
  shows "\<exists>t. ilock ip s = Ok () t \<and> blk t = blk s \<and> img t = img s \<and> busy_at t = busy_at s
    \<and> iflags (icache t ip) AND I_BUSY \<noteq> 0 \<and> iflags (icache t ip) AND I_VALID \<noteq> 0
    \<and> (if iflags (icache s ip) AND I_VALID = 0 then same_fields (icache t ip) (disk_inode s (inum (icache s ip)))
       else icache t ip = (icache s ip)\<lparr>iflags := iflags (icache t ip)\<rparr>)
    \<and> idev (icache t ip) = ROOTDEV \<and> inum (icache t ip) = inum (icache s ip) \<and> iref (icache t ip) = iref (icache s ip)
    \<and> (\<forall>j. j \<noteq> ip \<longrightarrow> icache t j = icache s j)"
proof -
  have b: "\<not> bit (iflags (icache s ip)) 0" using assms(2) by (simp add: I_BUSY_def flag_simps)
  let ?Q = "\<lambda>_ t. blk t = blk s \<and> img t = img s \<and> busy_at t = busy_at s
    \<and> iflags (icache t ip) AND I_BUSY \<noteq> 0 \<and> iflags (icache t ip) AND I_VALID \<noteq> 0
    \<and> (if iflags (icache s ip) AND I_VALID = 0 then same_fields (icache t ip) (disk_inode s (inum (icache s ip)))
       else icache t ip = (icache s ip)\<lparr>iflags := iflags (icache t ip)\<rparr>)
    \<and> idev (icache t ip) = ROOTDEV \<and> inum (icache t ip) = inum (icache s ip) \<and> iref (icache t ip) = iref (icache s ip)
    \<and> (\<forall>j. j \<noteq> ip \<longrightarrow> icache t j = icache s j)"
  have "wp (ilock ip) ?Q s"
  proof (cases "bit (iflags (icache s ip)) 1")
    case True
    show ?thesis
      unfolding wp_ilock_valid [OF assms(1) b True]
      using True assms(3) by (simp add: I_BUSY_def I_VALID_def flag_simps inode_flag_or)
  next
    case False
    show ?thesis
    proof (rule wp_ilock_load [OF assms(1) b False assms(3-6)])
      fix t C assume t: "like s t" and C: "C = (icache s)(ip := (load_inode (disk_inode s (inum (icache s ip))) (icache s ip))
        \<lparr>iflags := iflags (icache s ip) OR 1 OR 2\<rparr>)"
      have "img t = img s" using t view_fields(4) [of t s] by (simp add: like_def)
      then show "?Q () (t\<lparr>icache := C\<rparr>)"
        using False like_fields(1,3) [OF t] assms(3)
        by (simp add: C I_BUSY_def I_VALID_def flag_simps bit_simps same_fields_load load_inode_place)
    qed
  qed
  then show ?thesis by (auto dest!: wp_Ok)
qed

theorem ilock_loads_witness:
  "\<exists>t. ilock 3 (small_inodes (\<lambda>_. zero_block)\<lparr>icache := (\<lambda>_. free_inode)(3 := file_inode\<lparr>iflags := 0, itype := 0\<rparr>)\<rparr>) = Ok () t
     \<and> itype (icache t 3) = T_FILE"
proof -
  let ?x = "file_inode\<lparr>iflags := 0, itype := 0\<rparr>"
  let ?s = "small_inodes (\<lambda>_. zero_block)\<lparr>icache := (\<lambda>_. free_inode)(3 := ?x)\<rparr>"
  have x: "icache ?s 3 = ?x" by simp
  have n: "inum ?x = 2" "idev ?x = ROOTDEV" "iref ?x = 1" "iflags ?x = 0" by (simp_all add: file_inode_def)
  have "load_inode (disk_inode ?s 2) file_inode = file_inode"
    by (simp add: disk_inode_def small_inodes_ok small_disk_def IBLOCK_2 inode_block_def IPB_def load_store_inode)
  then have d: "di_type (disk_inode ?s 2) = T_FILE" using load_inode_type [of "disk_inode ?s 2" file_inode] by (simp add: file_inode_def)
  have "binv ?s" using small_inodes_ok(1) [of "\<lambda>_. zero_block"] by (simp add: txn_inv_def)
  moreover have "readable_now ?s (IBLOCK 2)" using small_inodes_ok(7) [of 2] by (simp add: IBLOCK_2)
  ultimately show ?thesis
    using ilock_loads [of ?s 3, unfolded x n] d by (auto simp: T_FILE_def same_fields_def)
qed

text \<open>The guards of \<open>ilock\<close>, \<open>iunlock\<close> and \<open>iput\<close>: locking an unreferenced inode, unlocking one that is not locked
  and dropping the last reference to a locked inode that must be freed panic; locking a locked inode never returns.\<close>

theorem inode_lock_refuses:
  "(iref (icache s ip) < 1 \<longrightarrow> ilock ip s = Fail (Panic ''ilock'') s)
   \<and> (1 \<le> iref (icache s ip) \<and> iflags (icache s ip) AND I_BUSY \<noteq> 0 \<longrightarrow> ilock ip s = Fail Hang s)
   \<and> (iflags (icache s ip) AND I_BUSY = 0 \<or> iref (icache s ip) < 1 \<longrightarrow> iunlock ip s = Fail (Panic ''iunlock'') s)
   \<and> (iref (icache s ip) = 1 \<and> inlink (icache s ip) = 0 \<and> iflags (icache s ip) AND I_VALID \<noteq> 0 \<and> iflags (icache s ip) AND I_BUSY \<noteq> 0
      \<longrightarrow> iput ip s = Fail (Panic ''iput busy'') s)"
  by (auto simp: ilock_def iunlock_def iput_def bind_def andthen_def get_inode_def gets_def fail_def)

theorem inode_lock_refuses_witness:
  "iunlock 0 (small_inodes (\<lambda>_. zero_block)) = Fail (Panic ''iunlock'') (small_inodes (\<lambda>_. zero_block))"
  using inode_lock_refuses [of "small_inodes (\<lambda>_. zero_block)" 0]
  by (simp add: small_inodes_ok dir_inode_def I_BUSY_def flag_simps)

text \<open>References and locks are given back: \<open>iput\<close> undoes \<open>idup\<close>, and \<open>iunlock\<close> undoes \<open>ilock\<close> of a valid inode;
  both leave the state as it was.\<close>

theorem inode_roundtrip:
  assumes "1 \<le> iref (icache s ip)"
  shows "bind (idup ip) iput s = Ok () s \<and>
    (iflags (icache s ip) AND I_BUSY = 0 \<and> iflags (icache s ip) AND I_VALID \<noteq> 0 \<longrightarrow> andthen (ilock ip) (iunlock ip) s = Ok () s)"
proof -
  have same: "s\<lparr>icache := (icache s)(ip := icache s ip)\<rparr> = s" by simp
  have "wp (bind (idup ip) iput) (\<lambda>_ t. t = s) s"
    using assms by (simp add: idup_def iput_def wp_simps)
  moreover have "wp (andthen (ilock ip) (iunlock ip)) (\<lambda>_ t. t = s) s"
    if "\<not> bit (iflags (icache s ip)) 0" "bit (iflags (icache s ip)) 1"
    using assms that
    by (simp add: wp_andthen wp_ilock_valid iunlock_def wp_simps I_BUSY_def flag_simps inode_flag_or lock_flags)
  ultimately show ?thesis by (auto dest!: wp_Ok simp: I_BUSY_def I_VALID_def flag_simps)
qed

theorem inode_roundtrip_witness:
  "andthen (ilock 0) (iunlock 0) (small_inodes (\<lambda>_. zero_block)) = Ok () (small_inodes (\<lambda>_. zero_block))"
  using inode_roundtrip [of "small_inodes (\<lambda>_. zero_block)" 0]
  by (simp add: small_inodes_ok dir_inode_def I_BUSY_def I_VALID_def flag_simps)

text \<open>C25. \<open>iupdate\<close> persists the inode: reading the on-disk inode back gives every field of the inode in memory, no other
  on-disk inode changes, and no other block.\<close>

theorem iupdate_persists:
  assumes "txn_inv s" "idev (icache s ip) = ROOTDEV" "inum (icache s ip) = i"
    and "\<not> in_log (thelog s) (IBLOCK i)" "readable_now s (IBLOCK i)" "log_room (thelog s) 1"
  shows "\<exists>t. iupdate ip s = Ok () t \<and> txn_inv t \<and> icache t = icache s \<and> same_fields (icache s ip) (disk_inode t i)
    \<and> (\<forall>j. j \<noteq> i \<longrightarrow> disk_inode t j = disk_inode s j) \<and> (\<forall>b. b \<noteq> IBLOCK i \<longrightarrow> blk t b = blk s b) \<and> img t = img s"
proof -
  have "wp (iupdate ip) (\<lambda>_ t. txn_inv t \<and> icache t = icache s \<and> same_fields (icache s ip) (disk_inode t i)
    \<and> (\<forall>j. j \<noteq> i \<longrightarrow> disk_inode t j = disk_inode s j) \<and> (\<forall>b. b \<noteq> IBLOCK i \<longrightarrow> blk t b = blk s b) \<and> img t = img s) s"
  proof (rule wp_iupdate [OF assms(1,2), unfolded assms(3)])
    fix t assume t: "logged s ((blk s)(IBLOCK i := store_inode (blk s (IBLOCK i)) (unat i mod IPB) (icache s ip))) [IBLOCK i] t"
    note l = loggedD [OF t]
    show "txn_inv t \<and> icache t = icache s \<and> same_fields (icache s ip) (disk_inode t i)
    \<and> (\<forall>j. j \<noteq> i \<longrightarrow> disk_inode t j = disk_inode s j) \<and> (\<forall>b. b \<noteq> IBLOCK i \<longrightarrow> blk t b = blk s b) \<and> img t = img s"
      using l(1,3,6) logged_icache [OF t] stored_inode(2) [OF l(3)] by (simp add: disk_inode_def same_fields_store)
  qed (use assms in auto)
  then show ?thesis by (auto dest!: wp_Ok)
qed

theorem iupdate_persists_witness:
  "\<exists>t. iupdate 3 (small_inodes (\<lambda>_. zero_block)) = Ok () t \<and> di_type (disk_inode t 2) = T_FILE \<and> di_size (disk_inode t 2) = 5000"
  using iupdate_persists [of "small_inodes (\<lambda>_. zero_block)" 3 2] small_inodes_ok(7) [of 2]
  by (auto simp: small_inodes_ok IBLOCK_2 small_log_def in_log_def log_room_def file_inode_def same_fields_def)

section \<open>Allocating an inode\<close>

text \<open>The conditions under which \<open>ialloc\<close> gives out inode \<open>i\<close>: it is the first free one, the blocks of inodes up to its
  own can be read, there is room for a change and a free entry in the cache.\<close>

definition ialloc_ready :: "'z fsst_scheme \<Rightarrow> nat \<Rightarrow> bool" where
  "ialloc_ready s i \<longleftrightarrow> txn_inv s \<and> readable_now s 1 \<and> 1 \<le> i \<and> i < unat (sb_ninodes (sb_of s))
     \<and> di_type (disk_inode s (of_nat i)) = 0 \<and> (\<forall>j. 1 \<le> j \<and> j < i \<longrightarrow> di_type (disk_inode s (of_nat j)) \<noteq> 0)
     \<and> (\<forall>j. 1 \<le> j \<and> j \<le> i \<longrightarrow> readable_now s (IBLOCK (of_nat j)))
     \<and> \<not> in_log (thelog s) (IBLOCK (of_nat i)) \<and> log_room (thelog s) 1
     \<and> icache_ok (icache s) \<and> (\<exists>j < NINODE. iref (icache s j) = 0)"

definition claim_inode :: "block \<Rightarrow> nat \<Rightarrow> u16 \<Rightarrow> block" where
  "claim_inode d k type = put16 (zero_dinode d k) (64 * k) type"

lemma get_zeroed:
  assumes "64 * k \<le> p"
  shows "p + 2 \<le> 64 * k + 64 \<Longrightarrow> get16 (zero_dinode d k) p = 0" "p + 4 \<le> 64 * k + 64 \<Longrightarrow> get32 (zero_dinode d k) p = 0"
  using assms by (simp_all add: get16_def get32_def zero_dinode_def)

lemma get_claim:
  "get_dinode (claim_inode d k type) k = \<lparr>di_type = type, di_major = 0, di_minor = 0, di_nlink = 0, di_size = 0, di_ctime = 0,
     di_atime = 0, di_mtime = 0, di_addrs = (\<lambda>_. 0)\<rparr>"
  by (simp add: get_dinode_def claim_inode_def Let_def get16_put16 c16.get_put_disjoint c16_32.get_across get_zeroed NDIRECT_def fun_eq_iff)

lemma get_claim_other:
  assumes "k \<noteq> j"
  shows "get_dinode (claim_inode d k type) j = get_dinode d j"
proof (rule get_dinode_local)
  fix i assume "64 * j \<le> i" "i < 64 * j + 64"
  then have "i < 64 * k \<or> 64 * k + 64 \<le> i" using assms by arith
  then show "claim_inode d k type i = d i" by (auto simp: claim_inode_def c16.put_frame zero_dinode_def)
qed

lemma ialloc_index:
  assumes "ialloc_ready s i" "j \<le> i"
  shows "unat (of_nat j :: u32) = j"
proof -
  have "j < 2 ^ 32" using assms unsigned_less [of "sb_ninodes (sb_of s)", where 'a = nat] by (simp add: ialloc_ready_def)
  then show ?thesis by (simp add: unat_of_nat take_bit_nat_eq_self)
qed

lemma wp_try_used:
  assumes r: "ialloc_ready s i" and t: "like s t" and j: "1 \<le> j" "j < i"
  shows "wp (ialloc_try ROOTDEV type j) (\<lambda>x u. x = None \<and> like s u) t"
proof -
  have "di_type (disk_inode s (of_nat j)) \<noteq> 0" using r j by (simp add: ialloc_ready_def)
  then have d: "di_type (get_dinode (blk t (IBLOCK (of_nat j))) (j mod IPB)) \<noteq> 0"
    using j ialloc_index [OF r, of j] like_fields(1) [OF t] by (simp add: disk_inode_def)
  have rd: "readable_now t (IBLOCK (of_nat j))" using r j like_fields(12) [OF t] by (simp add: ialloc_ready_def)
  show ?thesis
    unfolding ialloc_try_def
    by (rule bread_data [OF like_fields(5) [OF t] rd, where k' = "\<lambda>bp d. andthen (brelse bp) (return None)"])
       (use d rd like_fields(5) [OF t] like_trans [OF t] in \<open>auto simp: wp_return intro!: wp_read_only\<close>)
qed

text \<open>The allocation up to the \<open>iget\<close> at its end.\<close>

abbreviation claimed :: "'z fsst_scheme \<Rightarrow> nat \<Rightarrow> u16 \<Rightarrow> u32 \<Rightarrow> block" where
  "claimed s i type \<equiv> (blk s)(IBLOCK (of_nat i) := claim_inode (blk s (IBLOCK (of_nat i))) (i mod IPB) type)"

lemma wp_try_free:
  assumes r: "ialloc_ready s i" and t: "like s t"
    and post: "\<And>u. logged s (claimed s i type) [IBLOCK (of_nat i)] u \<Longrightarrow> wp (iget ROOTDEV (of_nat i)) (\<lambda>ip. Q (Some ip)) u"
  shows "wp (ialloc_try ROOTDEV type i) Q t"
proof -
  let ?b = "IBLOCK (of_nat i)"
  have rr: "txn_inv s" "\<not> in_log (thelog s) ?b" "log_room (thelog s) 1" using r by (auto simp: ialloc_ready_def)
  have d: "di_type (get_dinode (blk t ?b) (i mod IPB)) = 0"
    using r ialloc_index [OF r, of i] like_fields(1) [OF t] by (simp add: ialloc_ready_def disk_inode_def)
  have rd: "readable_now t ?b" using r like_fields(12) [OF t] by (simp add: ialloc_ready_def)
  have "wp (bind (bread ROOTDEV ?b) (\<lambda>bp. bind (get_data bp) (\<lambda>d.
       andthen (set_data bp (claim_inode d (i mod IPB) type)) (andthen (log_write bp) (brelse bp)))))
     (\<lambda>_. wp (bind (iget ROOTDEV (of_nat i)) (\<lambda>ip. return (Some ip))) Q) t"
  proof (rule wp_update [OF like_txn [OF rr(1) t] _ rd])
    show "\<not> in_log (thelog t) ?b" "log_room (thelog t) 1" using rr(2,3) like_fields(6) [OF t] by simp_all
    fix u assume "logged t ((blk t)(?b := claim_inode (blk t ?b) (i mod IPB) type)) [?b] u"
    then have "logged s (claimed s i type) [?b] u" using logged_like [OF t] like_fields(1) [OF t] by simp
    from post [OF this] show "wp (bind (iget ROOTDEV (of_nat i)) (\<lambda>ip. return (Some ip))) Q u"
      by (simp only: wp_bind wp_return)
  qed
  then have w: "wp (bind (bread ROOTDEV ?b) (\<lambda>bp. bind (get_data bp) (\<lambda>d. andthen (set_data bp (claim_inode d (i mod IPB) type))
        (andthen (log_write bp) (andthen (brelse bp) (bind (iget ROOTDEV (of_nat i)) (\<lambda>ip. return (Some ip)))))))) Q t"
    by (simp only: wp_bind wp_andthen)
  show ?thesis
    unfolding ialloc_try_def by (rule bread_data [OF like_fields(5) [OF t] rd _ w]) (simp add: d claim_inode_def)
qed

lemma wp_ialloc_iget:
  assumes r: "ialloc_ready s i"
    and post: "\<And>u. logged s (claimed s i type) [IBLOCK (of_nat i)] u \<Longrightarrow> wp (iget ROOTDEV (of_nat i)) Q u"
  shows "wp (ialloc ROOTDEV type) Q s"
proof -
  let ?n = "unat (sb_ninodes (sb_of s))"
  let ?R = "\<lambda>x u. case x of Some a \<Rightarrow> Q a u | None \<Rightarrow> False"
  have loop: "wp (mloop [1..<?n] (ialloc_try ROOTDEV type)) ?R t" if t: "like s t" for t
  proof (rule wp_mloop [where I = "\<lambda>k t. Suc k \<le> i \<and> like s t"])
    fix k u assume k: "k < length [1..<?n]" and u: "Suc k \<le> i \<and> like s u"
    have n: "[1..<?n] ! k = Suc k" using k by simp
    show "wp (ialloc_try ROOTDEV type ([1..<?n] ! k)) (\<lambda>r u. case r of None \<Rightarrow> Suc (Suc k) \<le> i \<and> like s u | Some v \<Rightarrow> ?R (Some v) u) u"
    proof (cases "Suc k = i")
      case True
      show ?thesis unfolding n True by (rule wp_try_free [OF r]) (use u post in auto)
    next
      case False
      then show ?thesis unfolding n by (intro wp_mono [OF wp_try_used [OF r]]) (use u in auto)
    qed
  qed (use t r in \<open>auto simp: ialloc_ready_def\<close>)
  show ?thesis
    unfolding ialloc_def wp_bind
  proof (rule wp_readsb)
    show "binv s" "readable_now s 1" using r by (simp_all add: ialloc_ready_def txn_inv_def)
    fix t assume "like s t"
    from loop [OF this] show "wp (mloop [1..<?n] (ialloc_try ROOTDEV type))
      (\<lambda>a. wp (case a of None \<Rightarrow> panic ''ialloc: no inodes'' | Some x \<Rightarrow> return x) Q) t"
      by (rule wp_mono) (auto simp: wp_return split: option.splits)
  qed
qed

lemma wp_ialloc:
  assumes r: "ialloc_ready s i"
    and post: "\<And>t ip C. logged s (claimed s i type) [IBLOCK (of_nat i)] t \<Longrightarrow>
      in_use C ROOTDEV (of_nat i) ip \<Longrightarrow> icache_ok C \<Longrightarrow> (\<And>j. j \<noteq> ip \<Longrightarrow> C j = icache s j) \<Longrightarrow> Q ip (t\<lparr>icache := C\<rparr>)"
  shows "wp (ialloc ROOTDEV type) Q s"
proof (rule wp_ialloc_iget [OF r])
  fix u assume u: "logged s (claimed s i type) [IBLOCK (of_nat i)] u"
  have "icache_ok (icache s)" "\<exists>j < NINODE. iref (icache s j) = 0" using r by (auto simp: ialloc_ready_def)
  then show "wp (iget ROOTDEV (of_nat i)) Q u" by (intro wp_iget) (use logged_icache [OF u] post [OF u] in auto)
qed

text \<open>What a claimed inode is on the disk, and that no other inode is changed.\<close>

definition new_dinode :: "u16 \<Rightarrow> dinode" where
  "new_dinode type = \<lparr>di_type = type, di_major = 0, di_minor = 0, di_nlink = 0, di_size = 0, di_ctime = 0,
     di_atime = 0, di_mtime = 0, di_addrs = (\<lambda>_. 0)\<rparr>"

lemma claimed_inode:
  assumes r: "ialloc_ready s i" and t: "blk t = claimed s i type"
  shows "disk_inode t (of_nat i) = new_dinode type" "j \<noteq> of_nat i \<Longrightarrow> disk_inode t j = disk_inode s j"
proof -
  have u: "unat (of_nat i :: u32) = i" by (rule ialloc_index [OF r order_refl])
  then show "disk_inode t (of_nat i) = new_dinode type" by (simp add: disk_inode_def t get_claim new_dinode_def)
  show "disk_inode t j = disk_inode s j" if "j \<noteq> of_nat i"
  proof (cases "IBLOCK j = IBLOCK (of_nat i)")
    case True
    then have "i mod IPB \<noteq> unat j mod IPB" using inode_place_inject [of j "of_nat i"] that u by auto
    with True show ?thesis by (simp add: disk_inode_def t get_claim_other)
  qed (simp add: disk_inode_def t)
qed

text \<open>\<open>ialloc\<close> returns the first free inode: on the disk it becomes a cleared inode of the given type, every other inode
  and every other block stays as it was, and the cache entry it returns is one of that inode, with the cache still
  holding every inode at most once.\<close>

theorem ialloc_allocates:
  assumes "ialloc_ready s i"
  shows "\<exists>ip t. ialloc ROOTDEV type s = Ok ip t \<and> in_use (icache t) ROOTDEV (of_nat i) ip \<and> icache_ok (icache t)
    \<and> disk_inode t (of_nat i) = \<lparr>di_type = type, di_major = 0, di_minor = 0, di_nlink = 0, di_size = 0, di_ctime = 0,
        di_atime = 0, di_mtime = 0, di_addrs = (\<lambda>_. 0)\<rparr>
    \<and> (\<forall>j. j \<noteq> of_nat i \<longrightarrow> disk_inode t j = disk_inode s j) \<and> (\<forall>b. b \<noteq> IBLOCK (of_nat i) \<longrightarrow> blk t b = blk s b)
    \<and> (\<forall>j. j \<noteq> ip \<longrightarrow> icache t j = icache s j) \<and> img t = img s"
proof -
  let ?b = "IBLOCK (of_nat i)"
  let ?Q = "\<lambda>ip t. in_use (icache t) ROOTDEV (of_nat i) ip \<and> icache_ok (icache t) \<and> disk_inode t (of_nat i) = new_dinode type
    \<and> (\<forall>j. j \<noteq> of_nat i \<longrightarrow> disk_inode t j = disk_inode s j) \<and> (\<forall>b. b \<noteq> ?b \<longrightarrow> blk t b = blk s b)
    \<and> (\<forall>j. j \<noteq> ip \<longrightarrow> icache t j = icache s j) \<and> img t = img s"
  have "wp (ialloc ROOTDEV type) ?Q s"
  proof (rule wp_ialloc [OF assms])
    fix t ip C assume t: "logged s (claimed s i type) [?b] t"
      and C: "in_use C ROOTDEV (of_nat i) ip" "icache_ok C" "\<And>j. j \<noteq> ip \<Longrightarrow> C j = icache s j"
    note l = loggedD [OF t] and cl = claimed_inode [OF assms loggedD(3) [OF t]]
    show "?Q ip (t\<lparr>icache := C\<rparr>)" using C l(3,6) cl by (simp add: disk_inode_def)
  qed
  then show ?thesis by (auto dest!: wp_Ok simp: new_dinode_def)
qed

lemma stored_type: "di_type (get_dinode (store_inode d k x) k) = itype x"
  using load_inode_type [of "get_dinode (store_inode d k x) k" x] by (simp add: load_store_inode)

lemma small_inode_types:
  "disk_inode (small_inodes e) 1 = get_dinode (store_inode zero_block 1 dir_inode) 1"
  "disk_inode (small_inodes e) 2 = get_dinode (store_inode (store_inode zero_block 1 dir_inode) 2 file_inode) 2"
  "disk_inode (small_inodes e) 3 = get_dinode zero_block 3"
  by (simp_all add: disk_inode_def small_inodes_ok small_disk_def IBLOCK_def inode_block_def IPB_def get_store_other)

theorem ialloc_allocates_witness:
  "\<exists>ip t. ialloc ROOTDEV T_FILE (small_inodes (\<lambda>_. zero_block)) = Ok ip t \<and> in_use (icache t) ROOTDEV 3 ip
    \<and> di_type (disk_inode t 3) = T_FILE"
proof -
  let ?s = "small_inodes (\<lambda>_. zero_block)"
  have j: "Suc 0 \<le> j \<and> j < 3 \<longleftrightarrow> j = 1 \<or> j = 2" "Suc 0 \<le> j \<and> j \<le> 3 \<longleftrightarrow> j = 1 \<or> j = 2 \<or> j = 3" for j :: nat by auto
  have ty: "di_type (disk_inode ?s 1) = T_DIR" "di_type (disk_inode ?s 2) = T_FILE" "di_type (disk_inode ?s 3) = 0"
    by (simp_all only: small_inode_types stored_type)
       (simp_all add: dir_inode_def file_inode_def get_dinode_def get16_def zero_block_def Let_def)
  have rd: "readable_now ?s 1" "readable_now ?s 2" using small_inodes_ok(7) [of 1] small_inodes_ok(7) [of 2] by simp_all
  have sb: "sb_ninodes (sb_of ?s) = 64" by (simp add: sb_of_def small_inodes_ok small_disk_def get_put_sb small_sb_def)
  have "\<exists>k < NINODE. iref (icache ?s k) = 0" by (intro exI [of _ 5]) (simp add: small_inodes_ok free_inode_def NINODE_def)
  then have "ialloc_ready ?s 3"
    using small_inodes_ok(1) [of "\<lambda>_. zero_block"] rd ty small_icache_ok
    by (simp add: ialloc_ready_def j sb T_DIR_def T_FILE_def small_inodes_ok(4) in_log_def small_log_def log_room_def IBLOCK_def)
  from ialloc_allocates [OF this, of T_FILE] show ?thesis by auto
qed

end
