(* ===== verification/Xv6_Content.thy ===== *)
theory Xv6_Content
  imports Xv6_Icache
begin

text \<open>
  The content of a file. The file system sees a file as an array of bytes, \<open>fbyte\<close>, spread over the blocks its
  inode maps; \<open>bmap\<close>, \<open>readi\<close> and \<open>writei\<close> are shown to be the lookup, the reading and the writing of that array,
  for the blocks the inode addresses directly or through its indirect block.
\<close>

section \<open>The block map\<close>

definition file_block :: "'z bcache_scheme \<Rightarrow> inode \<Rightarrow> nat \<Rightarrow> u32" where
  "file_block s x k = (if k < NDIRECT then iaddrs x k else get32 (blk s (iaddrs x NDIRECT)) (4 * (k - NDIRECT)))"

definition place_ok :: "'z bcache_scheme \<Rightarrow> u32 \<Rightarrow> bool" where
  "place_ok s b \<longleftrightarrow> in_image s b \<and> b \<notin> busy_at s"

lemma readable_place: "readable_now s b \<longleftrightarrow> place_ok s b \<and> card (dirty_at s \<union> busy_at s) < NBUF"
  by (simp add: readable_now_def place_ok_def)

text \<open>File block \<open>k\<close> has a disk block, and nobody is using the blocks on the way to it.\<close>

definition mapped :: "'z bcache_scheme \<Rightarrow> inode \<Rightarrow> nat \<Rightarrow> bool" where
  "mapped s x k \<longleftrightarrow> k < NDIRECT + NINDIRECT \<and> file_block s x k \<noteq> 0 \<and> place_ok s (file_block s x k)
     \<and> (NDIRECT \<le> k \<longrightarrow> iaddrs x NDIRECT \<noteq> 0 \<and> place_ok s (iaddrs x NDIRECT))"

lemma like_content:
  assumes "like s t"
  shows "file_block t x k = file_block s x k" "mapped t x k = mapped s x k" "place_ok t b = place_ok s b"
  using like_fields(1,3,4) [OF assms] by (simp_all add: file_block_def mapped_def place_ok_def)

lemma wp_bmap_addr:
  assumes "i < NDIRECT + 1" "iaddrs (icache s ip) i \<noteq> 0"
  shows "wp (bmap_addr ip i) Q s = Q (iaddrs (icache s ip) i) s"
  using assms by (simp add: bmap_addr_def get_addr_def wp_simps)

lemma wp_bmap_entry:
  assumes "binv s" "readable_now s addr" "get32 (blk s addr) (4 * i) \<noteq> 0"
    and "\<And>t. like s t \<Longrightarrow> Q (get32 (blk s addr) (4 * i)) t"
  shows "wp (bmap_entry ROOTDEV addr i) Q s"
  unfolding bmap_entry_def
  by (rule bread_data [OF assms(1,2), where k' = "\<lambda>bp d. andthen (brelse bp) (return (get32 d (4 * i)))"])
     (use assms in \<open>auto simp: wp_return intro: wp_read_only\<close>)

lemma wp_bmap:
  assumes s: "binv s" "card (dirty_at s \<union> busy_at s) < NBUF" "idev (icache s ip) = ROOTDEV"
    and m: "mapped s (icache s ip) (unat bn)"
    and post: "\<And>t. like s t \<Longrightarrow> Q (file_block s (icache s ip) (unat bn)) t"
  shows "wp (bmap ip bn) Q s"
proof (cases "unat bn < NDIRECT")
  case True
  then have "wp (bmap_addr ip (unat bn)) Q s"
    using m post [OF like_refl [OF s(1)]] by (subst wp_bmap_addr) (auto simp: mapped_def file_block_def)
  with True show ?thesis by (simp add: bmap_def wp_simps)
next
  case False
  let ?a = "iaddrs (icache s ip) NDIRECT" and ?i = "unat bn - NDIRECT"
  have "wp (bmap_entry ROOTDEV ?a ?i) Q s"
    using m False s post by (intro wp_bmap_entry) (auto simp: mapped_def file_block_def readable_place)
  moreover have "?i < NINDIRECT" "?a \<noteq> 0" using m False by (auto simp: mapped_def)
  ultimately show ?thesis
    using False s(3) by (simp add: bmap_def wp_simps Let_def wp_bmap_addr)
qed

section \<open>Reading\<close>

definition fbyte :: "'z bcache_scheme \<Rightarrow> inode \<Rightarrow> nat \<Rightarrow> byte" where
  "fbyte s x i = blk s (file_block s x (i div BSIZE)) (i mod BSIZE)"

text \<open>The bytes \<open>tot\<close> to \<open>n\<close> of a buffer replaced by \<open>g\<close>.\<close>

definition fill :: "mem \<Rightarrow> nat \<Rightarrow> nat \<Rightarrow> (nat \<Rightarrow> byte) \<Rightarrow> mem" where
  "fill d a n g = (\<lambda>i. if a \<le> i \<and> i < n then g i else d i)"

lemma fill_fill: "a \<le> b \<Longrightarrow> b \<le> n \<Longrightarrow> fill (fill d a b g) b n g = fill d a n g"
  by (auto simp: fill_def fun_eq_iff)

lemma fill_empty [simp]: "n \<le> a \<Longrightarrow> fill d a n g = d"
  by (auto simp: fill_def fun_eq_iff)

text \<open>A step of the loops stays inside one block.\<close>

lemma add_in_block:
  fixes q :: nat
  assumes "q mod B + j < B"
  shows "(q + j) div B = q div B" "(q + j) mod B = q mod B + j"
proof -
  have "(q mod B + j) mod B = q mod B + j" using assms by simp
  then show m: "(q + j) mod B = q mod B + j" by (metis mod_add_left_eq)
  have "(q + j) div B * B = q div B * B" using div_mult_mod_eq [of "q + j" B] div_mult_mod_eq [of q B] m by linarith
  then show "(q + j) div B = q div B" using assms by simp
qed

lemma chunk_bounds:
  assumes "m = min (n - tot) (BSIZE - (off + tot) mod BSIZE)" "tot < n"
  shows "0 < m" "tot + m \<le> n" "(off + tot) mod BSIZE + m \<le> BSIZE"
    "tot \<le> i \<Longrightarrow> i < tot + m \<Longrightarrow> (off + i) div BSIZE = (off + tot) div BSIZE"
    "tot \<le> i \<Longrightarrow> i < tot + m \<Longrightarrow> (off + i) mod BSIZE = (off + tot) mod BSIZE + (i - tot)"
proof -
  let ?q = "off + tot"
  have lt: "?q mod BSIZE < BSIZE" by (simp add: BSIZE_def)
  show "0 < m" "tot + m \<le> n" and mb: "?q mod BSIZE + m \<le> BSIZE" using assms lt by auto
  assume i: "tot \<le> i" "i < tot + m"
  then have "?q mod BSIZE + (i - tot) < BSIZE" "?q + (i - tot) = off + i" using mb by linarith+
  then show "(off + i) div BSIZE = ?q div BSIZE" "(off + i) mod BSIZE = ?q mod BSIZE + (i - tot)"
    using add_in_block [of ?q BSIZE "i - tot"] by simp_all
qed

lemma word_div_block:
  assumes "unat off + tot < 2 ^ 32"
  shows "unat ((off + of_nat tot :: u32) div 4096) = (unat off + tot) div BSIZE"
proof -
  have "unat (of_nat tot :: u32) = tot" using assms by (simp add: unat_of_nat take_bit_nat_eq_self)
  then have "unat (off + of_nat tot :: u32) = unat off + tot"
    using assms unat_add_lem [of off "of_nat tot :: u32"] by simp
  then show ?thesis by (simp add: unat_div BSIZE_def)
qed

lemma copy_chunk:
  assumes "m = min (n - tot) (BSIZE - (off + tot) mod BSIZE)" "tot < n"
  shows "copy_mem dst tot (blk s (file_block s x ((off + tot) div BSIZE))) ((off + tot) mod BSIZE) m
    = fill dst tot (tot + m) (\<lambda>i. fbyte s x (off + i))"
proof
  fix i
  show "copy_mem dst tot (blk s (file_block s x ((off + tot) div BSIZE))) ((off + tot) mod BSIZE) m i
    = fill dst tot (tot + m) (\<lambda>i. fbyte s x (off + i)) i"
  proof (cases "tot \<le> i \<and> i < tot + m")
    case True
    then have "(off + i) div BSIZE = (off + tot) div BSIZE" "(off + i) mod BSIZE = (off + tot) mod BSIZE + (i - tot)"
      using chunk_bounds(4,5) [OF assms, of i] by auto
    with True show ?thesis by (simp add: copy_mem_def fill_def fbyte_def)
  qed (auto simp: copy_mem_def fill_def)
qed

lemma wp_read_chunks:
  assumes s: "binv s" "card (dirty_at s \<union> busy_at s) < NBUF" "idev x = ROOTDEV" "icache s ip = x" "unat off + n < 2 ^ 32"
    and m: "\<And>i. i < n \<Longrightarrow> mapped s x ((unat off + i) div BSIZE)"
    and t: "like s t"
    and post: "\<And>u. like s u \<Longrightarrow> Q (fill dst tot n (\<lambda>i. fbyte s x (unat off + i))) u"
  shows "wp (mfold (chunks (unat off) tot n) (\<lambda>(tot, m) dst.
         bind (bmap ip ((off + of_nat tot) div 4096)) (\<lambda>addr.
         bind (bread (idev x) addr) (\<lambda>bp.
         bind (get_data bp) (\<lambda>d.
         andthen (brelse bp)
           (return (copy_mem dst tot d ((unat off + tot) mod BSIZE) m)))))) dst) Q t"
  (is "wp (mfold _ ?body _) _ _")
  using s(5) m t post
proof (induction "unat off" tot n arbitrary: dst t rule: chunks.induct)
  case (1 tot n)
  show ?case
  proof (cases "tot < n")
    case False
    then show ?thesis using 1(4,5) by (simp add: chunks.simps wp_return)
  next
    case True
    define m where "m = min (n - tot) (BSIZE - (unat off + tot) mod BSIZE)"
    let ?k = "(unat off + tot) div BSIZE"
    have ch: "chunks (unat off) tot n = (tot, m) # chunks (unat off) (tot + m) n"
      using True by (subst chunks.simps) (simp add: m_def Let_def)
    note l = like_fields [OF 1(4)] and lc = like_content [OF 1(4)]
    have "wp (?body (tot, m) dst) (\<lambda>dst. wp (mfold (chunks (unat off) (tot + m) n) ?body dst) Q) t"
      unfolding prod.case wp_bind [of "bmap _ _"]
    proof (rule wp_bmap)
      have "unat ((off + of_nat tot) div 4096) = ?k" using 1(2) True by (intro word_div_block) simp
      then have k: "mapped s x (unat ((off + of_nat tot) div 4096))"
        "file_block s x (unat ((off + of_nat tot) div 4096)) = file_block s x ?k" using 1(3) [OF True] by simp_all
      have ic: "icache t ip = x" using like_icache [OF 1(4)] s(4) by simp
      show "binv t" "card (dirty_at t \<union> busy_at t) < NBUF" "idev (icache t ip) = ROOTDEV"
        "mapped t (icache t ip) (unat ((off + of_nat tot) div 4096))"
        using s l(2,3,5) k lc(2) ic by simp_all
      fix u assume u: "like t u"
      have su: "like s u" by (rule like_trans [OF 1(4) u])
      have d: "blk u (file_block s x ?k) = blk s (file_block s x ?k)" by (simp add: like_fields(1) [OF su])
      have rd: "readable_now u (file_block s x ?k)"
        using 1(3) [OF True] s(2) like_fields(12) [OF su] by (simp add: readable_place mapped_def)
      have "wp (bind (bread ROOTDEV (file_block s x ?k)) (\<lambda>bp. bind (get_data bp) (\<lambda>d. andthen (brelse bp)
         (return (copy_mem dst tot d ((unat off + tot) mod BSIZE) m)))))
        (\<lambda>dst. wp (mfold (chunks (unat off) (tot + m) n) ?body dst) Q) u"
      proof (rule wp_read_only [OF like_fields(5) [OF su] rd], unfold d wp_return copy_chunk [OF m_def True])
        fix y assume y: "like u y"
        have "tot \<le> tot + m" "tot + m \<le> n" using chunk_bounds(2) [OF m_def True] by simp_all
        note ff = fill_fill [OF this]
        show "wp (mfold (chunks (unat off) (tot + m) n) ?body (fill dst tot (tot + m) (\<lambda>i. fbyte s x (unat off + i)))) Q y"
        proof (rule 1(1) [OF True m_def])
          show "like s y" by (rule like_trans [OF su y])
          show "Q (fill (fill dst tot (tot + m) (\<lambda>i. fbyte s x (unat off + i))) (tot + m) n (\<lambda>i. fbyte s x (unat off + i))) z"
            if "like s z" for z
            unfolding ff by (rule 1(5) [OF that])
        qed (use 1(2,3) in auto)
      qed
      then show "wp (bind (bread (idev x) (file_block t (icache t ip) (unat ((off + of_nat tot) div 4096))))
         (\<lambda>bp. bind (get_data bp) (\<lambda>d. andthen (brelse bp)
         (return (copy_mem dst tot d ((unat off + tot) mod BSIZE) m)))))
        (\<lambda>dst. wp (mfold (chunks (unat off) (tot + m) n) ?body dst) Q) u"
        by (simp add: s(3) lc(1) ic k(2))
    qed
    then show ?thesis by (simp add: ch wp_bind)
  qed
qed

text \<open>The number of bytes \<open>readi\<close> reads.\<close>

definition read_len :: "inode \<Rightarrow> u32 \<Rightarrow> u32 \<Rightarrow> nat" where
  "read_len x off n = min (unat n) (unat (isize x) - unat off)"

lemma no_wrap: "\<not> (off + n < (off :: u32)) \<Longrightarrow> unat (off + n) = unat off + unat n"
  using unat_add_lem [of off n] no_olen_add_nat [of off n] by (simp add: not_less)

lemma read_len_word:
  assumes "\<not> isize x < off" "\<not> off + n < off"
  shows "unat (if isize x < off + n then isize x - off else n) = read_len x off n"
  using assms no_wrap [OF assms(2)] by (auto simp: read_len_def word_less_nat_alt unat_sub_if_size not_less)

lemma sint_unat_small: "unat (w :: u32) < 2 ^ 31 \<Longrightarrow> sint w = int (unat w)"
  using sint_small_int [of "uint w"] uint_less_int [of w "2 ^ 31"] by simp

lemma wp_readi:
  assumes s: "binv s" "card (dirty_at s \<union> busy_at s) < NBUF" "icache s ip = x" "idev x = ROOTDEV" "itype x \<noteq> T_DEV"
    and r: "\<not> isize x < off" "\<not> off + n < off" "read_len x off n < 2 ^ 31"
    and m: "\<And>i. i < read_len x off n \<Longrightarrow> mapped s x ((unat off + i) div BSIZE)"
    and post: "\<And>t. like s t \<Longrightarrow> Q (int (read_len x off n), fill dst 0 (read_len x off n) (\<lambda>i. fbyte s x (unat off + i))) t"
  shows "wp (readi ip dst off n) Q s"
proof -
  define n' where "n' = (if isize x < off + n then isize x - off else n)"
  have n: "unat n' = read_len x off n" unfolding n'_def by (rule read_len_word [OF r(1,2)])
  have lt: "unat off + unat n' < 2 ^ 32"
    using n r(1) unsigned_less [of "isize x", where 'a = nat] by (auto simp: read_len_def word_less_nat_alt)
  have sn: "sint n' = int (read_len x off n)" using sint_unat_small [of n'] r(3) n by simp
  have "wp (mfold (chunks (unat off) 0 (unat n')) (\<lambda>(tot, m) dst.
         bind (bmap ip ((off + of_nat tot) div 4096)) (\<lambda>addr. bind (bread (idev x) addr) (\<lambda>bp. bind (get_data bp) (\<lambda>d.
         andthen (brelse bp) (return (copy_mem dst tot d ((unat off + tot) mod BSIZE) m)))))) dst)
       (\<lambda>dst. wp (return (sint n', dst)) Q) s"
    by (rule wp_read_chunks [OF s(1,2,4,3) lt _ like_refl [OF s(1)]])
       (use m post in \<open>auto simp: n sn wp_return\<close>)
  then show ?thesis
    using s(3,5) r(1,2) unfolding readi_def n'_def by (simp add: wp_bind wp_get_inode Let_def split: if_splits)
qed

section \<open>Writing\<close>

text \<open>The first \<open>N\<close> blocks of a file are mapped, to different blocks outside the log; the indirect block is not
  one of them.\<close>

definition file_wf :: "'z logst_scheme \<Rightarrow> inode \<Rightarrow> nat \<Rightarrow> bool" where
  "file_wf s x N \<longleftrightarrow> (\<forall>k < N. mapped s x k \<and> \<not> in_log (thelog s) (file_block s x k))
     \<and> inj_on (file_block s x) {..<N} \<and> (NDIRECT < N \<longrightarrow> iaddrs x NDIRECT \<notin> file_block s x ` {..<N})"

text \<open>Space for \<open>n\<close> more changed blocks in the cache and in the log.\<close>

definition space :: "'z logst_scheme \<Rightarrow> nat \<Rightarrow> bool" where
  "space s n \<longleftrightarrow> card (dirty_at s \<union> busy_at s) + n \<le> NBUF \<and> log_room (thelog s) n"

lemma space_mono: "space s n \<Longrightarrow> m \<le> n \<Longrightarrow> space s m"
  by (auto simp: space_def log_room_def)

lemma space_readable: "space s (Suc n) \<Longrightarrow> readable_now s b \<longleftrightarrow> place_ok s b"
  by (auto simp: space_def readable_place)

lemma logged_space:
  assumes "logged s m [b] t" "txn_inv s" "space s (Suc n)"
  shows "space t n"
proof -
  have "dirty_at t \<union> busy_at t = insert b (dirty_at s \<union> busy_at s)" using loggedD(4,5) [OF assms(1)] by simp
  then have "card (dirty_at t \<union> busy_at t) \<le> Suc (card (dirty_at s \<union> busy_at s))"
    by (metis card_insert_le_m1 diff_Suc_1 order_refl zero_less_Suc)
  then show ?thesis using assms(3) logged_log(1) [OF assms(1,2)] by (simp add: space_def)
qed

lemma file_block_frame:
  assumes "file_wf s x N" "k < N" "\<And>b. b \<notin> file_block s x ` {..<N} \<Longrightarrow> blk t b = blk s b"
  shows "file_block t x k = file_block s x k"
  using assms by (cases "k < NDIRECT") (auto simp: file_block_def file_wf_def)

lemma file_wf_frame:
  assumes "file_wf s x N" "\<And>b. b \<notin> file_block s x ` {..<N} \<Longrightarrow> blk t b = blk s b"
    and "in_image t = in_image s" "busy_at t = busy_at s" "in_log (thelog t) = in_log (thelog s)"
  shows "file_wf t x N"
proof -
  note f = file_block_frame [OF assms(1) _ assms(2)]
  have "place_ok t = place_ok s" using assms(3,4) by (simp add: place_ok_def fun_eq_iff)
  then have "mapped t x k = mapped s x k" if "k < N" for k using f [OF that] by (simp add: mapped_def)
  moreover have "inj_on (file_block t x) {..<N} = inj_on (file_block s x) {..<N}" using f by (intro inj_on_cong) auto
  moreover have "file_block t x ` {..<N} = file_block s x ` {..<N}" using f by (intro image_cong) auto
  ultimately show ?thesis using assms(1,5) f by (simp add: file_wf_def)
qed

text \<open>Changing one block of the file changes the bytes of that block only.\<close>

lemma fbyte_upd:
  assumes w: "file_wf s x N" "k < N" and t: "blk t = (blk s)(file_block s x k := d)" and i: "i div BSIZE < N"
  shows "fbyte t x i = (if i div BSIZE = k then d (i mod BSIZE) else fbyte s x i)"
proof -
  have "file_block t x (i div BSIZE) = file_block s x (i div BSIZE)"
    using t w(2) by (intro file_block_frame [OF w(1) i]) auto
  moreover have "file_block s x (i div BSIZE) = file_block s x k \<longleftrightarrow> i div BSIZE = k"
    using w i by (auto simp: file_wf_def inj_on_def)
  ultimately show ?thesis using t by (simp add: fbyte_def)
qed

lemma wp_write_chunk:
  assumes s: "txn_inv s" "icache s ip = x" "idev x = ROOTDEV" "space s (Suc n)"
    and w: "file_wf s x N" "unat (off div 4096) = k" "k < N"
    and post: "\<And>t. logged s ((blk s)(file_block s x k := f (blk s (file_block s x k)))) [file_block s x k] t \<Longrightarrow> Q () t"
  shows "wp (write_chunk ip ROOTDEV off f) Q s"
  unfolding write_chunk_def wp_bind [of "bmap _ _"]
proof (rule wp_bmap)
  have m: "mapped s x k" "\<not> in_log (thelog s) (file_block s x k)" using w by (auto simp: file_wf_def)
  show "binv s" "card (dirty_at s \<union> busy_at s) < NBUF" "idev (icache s ip) = ROOTDEV"
    "mapped s (icache s ip) (unat (off div 4096))"
    using s m w(2) by (simp_all add: txn_inv_def space_def)
  fix t assume t: "like s t"
  note l = like_fields [OF t]
  have "wp (bind (bread ROOTDEV (file_block s x k)) (\<lambda>bp. bind (get_data bp) (\<lambda>d.
     andthen (set_data bp (f d)) (andthen (log_write bp) (brelse bp))))) Q t"
  proof (rule wp_update [OF like_txn [OF s(1) t]])
    show "\<not> in_log (thelog t) (file_block s x k)" "log_room (thelog t) 1" using m s(4) l(6) by (auto simp: space_def log_room_def)
    show "readable_now t (file_block s x k)"
      using m(1) s(4) l(12) space_readable [OF s(4)] by (simp add: mapped_def)
    fix u assume "logged t ((blk t)(file_block s x k := f (blk t (file_block s x k)))) [file_block s x k] u"
    then show "Q () u" using logged_like [OF t] l(1) by (intro post) simp
  qed
  then show "wp (bind (bread ROOTDEV (file_block s (icache s ip) (unat (off div 4096)))) (\<lambda>bp. bind (get_data bp) (\<lambda>d.
     andthen (set_data bp (f d)) (andthen (log_write bp) (brelse bp))))) Q t"
    by (simp add: s(2) w(2))
qed

text \<open>What a write of the bytes \<open>off\<close> to \<open>off + n\<close> does to the blocks of a file of \<open>N\<close> blocks, and to nothing else.\<close>

definition content_written :: "'z logst_scheme \<Rightarrow> inode \<Rightarrow> nat \<Rightarrow> nat \<Rightarrow> nat \<Rightarrow> mem \<Rightarrow> 'z logst_scheme \<Rightarrow> bool" where
  "content_written s x N a b g t \<longleftrightarrow> txn_inv t \<and> lframe s t \<and> busy_at t = busy_at s \<and> img t = img s \<and> hist t = hist s
     \<and> in_log (thelog t) = in_log (thelog s) \<and> same_log (thelog s) (thelog t)
     \<and> (\<forall>c. c \<notin> file_block s x ` {..<N} \<longrightarrow> blk t c = blk s c)
     \<and> (\<forall>i. i div BSIZE < N \<longrightarrow> fbyte t x i = (if a \<le> i \<and> i < b then g (i - a) else fbyte s x i))"

lemma content_written_wf:
  assumes "content_written s x N a b g t" "file_wf s x N"
  shows "file_wf t x N" "file_block t x ` {..<N} = file_block s x ` {..<N}" "icache t = icache s"
proof -
  have t: "lframe s t" "busy_at t = busy_at s" "in_log (thelog t) = in_log (thelog s)"
    "\<And>c. c \<notin> file_block s x ` {..<N} \<Longrightarrow> blk t c = blk s c"
    using assms(1) by (auto simp: content_written_def)
  show "file_wf t x N"
    by (rule file_wf_frame [OF assms(2)]) (use t lframe_in_image [OF t(1)] in \<open>auto simp: fun_eq_iff\<close>)
  show "file_block t x ` {..<N} = file_block s x ` {..<N}"
    using file_block_frame [OF assms(2) _ t(4)] by (intro image_cong) auto
  show "icache t = icache s" by (rule lframe_icache [OF t(1)])
qed

lemma written_chunk:
  assumes w: "file_wf s x N" and m: "m = min (n - tot) (BSIZE - (off + tot) mod BSIZE)" "tot < n"
    and k: "(off + tot) div BSIZE < N" and s: "txn_inv s" "log_room (thelog s) (Suc r)"
    and t: "logged s ((blk s)(file_block s x ((off + tot) div BSIZE) :=
       copy_mem (blk s (file_block s x ((off + tot) div BSIZE))) ((off + tot) mod BSIZE) g tot m))
       [file_block s x ((off + tot) div BSIZE)] t"
  shows "content_written s x N (off + tot) (off + (tot + m)) (\<lambda>i. g (tot + i)) t"
proof -
  let ?q = "off + tot"
  note l = loggedD [OF t]
  have "fbyte t x i = (if ?q \<le> i \<and> i < off + (tot + m) then g (tot + (i - ?q)) else fbyte s x i)" if i: "i div BSIZE < N" for i
  proof (cases "i div BSIZE = ?q div BSIZE")
    case True
    then have "?q mod BSIZE \<le> i mod BSIZE \<longleftrightarrow> ?q \<le> i" "i mod BSIZE - ?q mod BSIZE = i - ?q"
      using div_mult_mod_eq [of i BSIZE] div_mult_mod_eq [of ?q BSIZE] by (metis add_le_cancel_left, metis diff_cancel2 add.commute)
    then show ?thesis
      using fbyte_upd [OF w k l(3) i] True by (auto simp: copy_mem_def fbyte_def)
  next
    case False
    have "(off + (tot + j)) div BSIZE = ?q div BSIZE" if "j < m" for j
      using chunk_bounds(4) [OF m, of "tot + j"] that by simp
    then have "\<not> (?q \<le> i \<and> i < off + (tot + m))" using False by (metis add.assoc add_less_cancel_left le_Suc_ex)
    then show ?thesis using fbyte_upd [OF w k l(3) i] False by auto
  qed
  moreover have "in_log (thelog t) = in_log (thelog s)" by (rule logged_log(2) [OF t s])
  ultimately show ?thesis
    using l k logged_same_log [OF t] by (auto simp: content_written_def)
qed

lemma content_written_trans:
  fixes s t :: "'z fsst_scheme"
  assumes "content_written s x N a b g t" "content_written t x N b c h u" "file_wf s x N" "a \<le> b" "b \<le> c"
    and "\<And>i. b \<le> i \<Longrightarrow> i < c \<Longrightarrow> h (i - b) = g (i - a)"
  shows "content_written s x N a c g u"
  using assms(1,2,4-6) content_written_wf(2) [OF assms(1,3)] lframe_trans [of s t u]
    same_log_trans [of "thelog s" "thelog t" "thelog u"]
  unfolding content_written_def by auto

lemma wp_write_chunks:
  fixes s :: "'z fsst_scheme"
  assumes "txn_inv s" "icache s ip = x" "idev x = ROOTDEV" "space s (length (chunks (unat off) tot n) + r)"
    and "file_wf s x N" "unat off + n \<le> N * BSIZE" "unat off + n < 2 ^ 32"
    and "\<And>t. content_written s x N (unat off + tot) (unat off + n) (\<lambda>i. g (tot + i)) t \<Longrightarrow> space t r \<Longrightarrow> Q () t"
  shows "wp (mfor (chunks (unat off) tot n) (\<lambda>(tot, m). write_chunk ip ROOTDEV (off + of_nat tot)
      (\<lambda>d. copy_mem d ((unat off + tot) mod BSIZE) g tot m))) Q s"
  (is "wp (mfor _ ?body) _ _")
  using assms
proof (induction "unat off" tot n arbitrary: s rule: chunks.induct)
  case (1 tot n)
  show ?case
  proof (cases "tot < n")
    case False
    have "content_written s x N (unat off + tot) (unat off + n) (\<lambda>i. g (tot + i)) s"
      using 1(2) False by (auto simp: content_written_def)
    then show ?thesis using 1(5,9) False by (simp add: chunks.simps wp_return)
  next
    case True
    define m where "m = min (n - tot) (BSIZE - (unat off + tot) mod BSIZE)"
    let ?k = "(unat off + tot) div BSIZE"
    note mb = chunk_bounds(2) [OF m_def True]
    have ch: "chunks (unat off) tot n = (tot, m) # chunks (unat off) (tot + m) n"
      using True by (subst chunks.simps) (simp add: m_def Let_def)
    have sp: "space s (Suc (length (chunks (unat off) (tot + m) n) + r))" using 1(5) ch by simp
    have k: "?k < N" "unat ((off + of_nat tot) div 4096) = ?k"
      using 1(7,8) True word_div_block [of off tot] by (auto simp: BSIZE_def less_mult_imp_div_less)
    have "wp (?body (tot, m)) (\<lambda>_. wp (mfor (chunks (unat off) (tot + m) n) ?body) Q) s"
      unfolding prod.case
    proof (rule wp_write_chunk [OF 1(2,3,4) sp 1(6) k(2,1)])
      fix t assume t: "logged s ((blk s)(file_block s x ?k :=
        copy_mem (blk s (file_block s x ?k)) ((unat off + tot) mod BSIZE) g tot m)) [file_block s x ?k] t"
      have room: "log_room (thelog s) (Suc (length (chunks (unat off) (tot + m) n) + r))" using sp by (simp add: space_def)
      note cw = written_chunk [OF 1(6) m_def True k(1) 1(2) room t]
      note wf = content_written_wf [OF cw 1(6)]
      show "wp (mfor (chunks (unat off) (tot + m) n) ?body) Q t"
      proof (rule 1(1) [OF True m_def])
        show "txn_inv t" "icache t ip = x" "file_wf t x N" using loggedD(1) [OF t] wf 1(3) by simp_all
        show "space t (length (chunks (unat off) (tot + m) n) + r)" by (rule logged_space [OF t 1(2) sp])
        fix u assume u: "content_written t x N (unat off + (tot + m)) (unat off + n) (\<lambda>i. g (tot + m + i)) u" "space u r"
        have "content_written s x N (unat off + tot) (unat off + n) (\<lambda>i. g (tot + i)) u"
          by (rule content_written_trans [OF cw u(1) 1(6)]) (use mb in \<open>auto simp: algebra_simps\<close>)
        then show "Q () u" using u(2) by (rule 1(9))
      qed (use 1 in auto)
    qed
    then show ?thesis by (simp add: ch wp_andthen)
  qed
qed

lemma wp_unix_time [wp_simps]: "wp unix_time Q s = Q (clock s (ticks s)) (s\<lparr>ticks := Suc (ticks s)\<rparr>)"
  by (simp add: unix_time_def wp_def)

lemma cache_ticks [simp]:
  "binv (s\<lparr>ticks := k\<rparr>) = binv s" "view (s\<lparr>ticks := k\<rparr>) = view s" "blk (s\<lparr>ticks := k\<rparr>) = blk s"
  "dirty_at (s\<lparr>ticks := k\<rparr>) = dirty_at s" "busy_at (s\<lparr>ticks := k\<rparr>) = busy_at s"
  "in_image (s\<lparr>ticks := k\<rparr>) = in_image s" "holds (s\<lparr>ticks := k\<rparr>) = holds s"
  using buf_ok_host [of "s\<lparr>ticks := k\<rparr>" s]
  by (simp_all add: binv_def view_def in_image_def blk_def dirty_at_def busy_at_def holds_def fun_eq_iff split: option.split)

lemma txn_ticks [simp]:
  "txn_inv (s\<lparr>ticks := k\<rparr>) = txn_inv s" "readable_now (s\<lparr>ticks := k\<rparr>) = readable_now s"
  "place_ok (s\<lparr>ticks := k\<rparr>) = place_ok s" "space (s\<lparr>ticks := k\<rparr>) = space s"
  by (simp_all add: txn_inv_def log_wf_def head_wf_def readable_now_def place_ok_def space_def Let_def fun_eq_iff)

lemma file_block_fields [simp]:
  "file_block s (x\<lparr>isize := a, imtime := b\<rparr>) = file_block s x" "file_block (s\<lparr>icache := C\<rparr>) = file_block s"
  "file_block (s\<lparr>ticks := k\<rparr>) = file_block s"
  by (simp_all add: file_block_def fun_eq_iff)

lemma content_fields [simp]:
  "fbyte s (x\<lparr>isize := a, imtime := b\<rparr>) = fbyte s x" "file_wf s (x\<lparr>isize := a, imtime := b\<rparr>) = file_wf s x"
  "place_ok (s\<lparr>icache := C\<rparr>) = place_ok s" "space (s\<lparr>icache := C\<rparr>) = space s"
  by (simp_all add: fbyte_def file_wf_def mapped_def place_ok_def space_def fun_eq_iff)

text \<open>The block of the inode is apart from the blocks of its file.\<close>

definition inode_apart :: "'z logst_scheme \<Rightarrow> inode \<Rightarrow> nat \<Rightarrow> bool" where
  "inode_apart s x N \<longleftrightarrow> place_ok s (IBLOCK (inum x)) \<and> \<not> in_log (thelog s) (IBLOCK (inum x))
     \<and> IBLOCK (inum x) \<notin> file_block s x ` {..<N} \<and> (NDIRECT < N \<longrightarrow> IBLOCK (inum x) \<noteq> iaddrs x NDIRECT)"

lemma file_other_block:
  assumes w: "file_wf s x N" and b: "b \<notin> file_block s x ` {..<N}" "NDIRECT < N \<longrightarrow> b \<noteq> iaddrs x NDIRECT"
    and t: "blk t = (blk s)(b := d)" "in_image t = in_image s" "busy_at t = busy_at s" "in_log (thelog t) = in_log (thelog s)"
  shows "i div BSIZE < N \<Longrightarrow> fbyte t x i = fbyte s x i" "file_wf t x N" "k < N \<Longrightarrow> file_block t x k = file_block s x k"
proof -
  show f: "file_block t x k = file_block s x k" if "k < N" for k
    using that b(2) t(1) by (auto simp: file_block_def)
  show "fbyte t x i = fbyte s x i" if "i div BSIZE < N"
    using f [OF that] b(1) that t(1) by (auto simp: fbyte_def)
  have "place_ok t = place_ok s" using t by (simp add: place_ok_def fun_eq_iff)
  then have "mapped t x k = mapped s x k" if "k < N" for k using f [OF that] by (simp add: mapped_def)
  moreover have "inj_on (file_block t x) {..<N} = inj_on (file_block s x) {..<N}" using f by (intro inj_on_cong) auto
  moreover have "file_block t x ` {..<N} = file_block s x ` {..<N}" using f by (intro image_cong) auto
  ultimately show "file_wf t x N" using w t(4) f by (simp add: file_wf_def)
qed

text \<open>The inode in memory is that of the disk.\<close>

definition synced :: "'z bcache_scheme \<Rightarrow> inode \<Rightarrow> bool" where
  "synced s x \<longleftrightarrow> load_inode (disk_inode s (inum x)) x = x"

lemma lframe_more: "lframe s t \<Longrightarrow> fsst.more t = fsst.more s"
  by (cases s; cases t) (simp add: lframe_def)

text \<open>The effect of \<open>writei\<close>: on the inode, on the content of the file, and on nothing else.\<close>

definition written :: "'z fsst_scheme \<Rightarrow> nat \<Rightarrow> nat \<Rightarrow> nat \<Rightarrow> nat \<Rightarrow> mem \<Rightarrow> 'z fsst_scheme \<Rightarrow> bool" where
  "written s ip N a n g t \<longleftrightarrow> txn_inv t \<and> in_image t = in_image s \<and> busy_at t = busy_at s \<and> img t = img s \<and> hist t = hist s
     \<and> in_log (thelog t) = in_log (thelog s) \<and> same_log (thelog s) (thelog t) \<and> imglen t = imglen s
     \<and> fsst.more t = fsst.more s \<and> file_wf t (icache s ip) N \<and> (synced s (icache s ip) \<longrightarrow> synced t (icache t ip))
     \<and> (\<exists>now. icache t = (icache s)(ip := (icache s ip)\<lparr>isize := max (isize (icache s ip)) (of_nat (a + n)), imtime := now\<rparr>))
     \<and> (\<forall>c. c \<notin> file_block s (icache s ip) ` {..<N} \<and> c \<noteq> IBLOCK (inum (icache s ip)) \<longrightarrow> blk t c = blk s c)
     \<and> (\<forall>j. j \<noteq> inum (icache s ip) \<and> IBLOCK j \<notin> file_block s (icache s ip) ` {..<N} \<longrightarrow> disk_inode t j = disk_inode s j)
     \<and> (\<forall>i. i div BSIZE < N \<longrightarrow> fbyte t (icache s ip) i = (if a \<le> i \<and> i < a + n then g (i - a) else fbyte s (icache s ip) i))"

text \<open>The end of \<open>writei\<close> and \<open>zeroi\<close>: the new size and time in the inode, which is written back.\<close>

lemma wp_write_tail:
  fixes s :: "'z fsst_scheme"
  assumes s: "txn_inv s" "icache s ip = y" "idev y = ROOTDEV" "place_ok s (IBLOCK (inum y))" "\<not> in_log (thelog s) (IBLOCK (inum y))" "space s (Suc r)"
    and post: "\<And>t. logged (s\<lparr>ticks := Suc (ticks s), icache := (icache s)(ip := y\<lparr>isize := sz, imtime := clock s (ticks s)\<rparr>)\<rparr>)
        ((blk s)(IBLOCK (inum y) := store_inode (blk s (IBLOCK (inum y))) (unat (inum y) mod IPB) (y\<lparr>isize := sz, imtime := clock s (ticks s)\<rparr>)))
        [IBLOCK (inum y)] t \<Longrightarrow> space t r \<Longrightarrow> Q () t"
  shows "wp (andthen (upd_inode ip (\<lambda>x. x\<lparr>isize := sz\<rparr>)) (bind unix_time (\<lambda>now. andthen (upd_inode ip (\<lambda>x. x\<lparr>imtime := now\<rparr>)) (iupdate ip)))) Q s"
proof -
  let ?y = "y\<lparr>isize := sz, imtime := clock s (ticks s)\<rparr>"
  let ?u = "s\<lparr>ticks := Suc (ticks s), icache := (icache s)(ip := ?y)\<rparr>"
  have "wp (iupdate ip) Q ?u"
  proof (rule wp_iupdate)
    show "txn_inv ?u" "idev (icache ?u ip) = ROOTDEV" "\<not> in_log (thelog ?u) (IBLOCK (inum (icache ?u ip)))" "log_room (thelog ?u) 1"
      "readable_now ?u (IBLOCK (inum (icache ?u ip)))"
      using s space_readable [OF s(6)] by (simp_all add: space_def log_room_def)
    fix t assume t: "logged ?u ((blk ?u)(IBLOCK (inum (icache ?u ip)) :=
            store_inode (blk ?u (IBLOCK (inum (icache ?u ip)))) (unat (inum (icache ?u ip)) mod IPB) (icache ?u ip)))
          [IBLOCK (inum (icache ?u ip))] t"
    have "space t r" by (rule logged_space [OF t]) (use s in simp_all)
    then show "Q () t" using t by (intro post) simp_all
  qed
  then show ?thesis using s(2) by (simp add: wp_simps)
qed

lemma wp_writei:
  fixes s :: "'z fsst_scheme"
  assumes s: "txn_inv s" "icache s ip = x" "idev x = ROOTDEV" "itype x \<noteq> T_DEV" "file_wf s x N" "inode_apart s x N"
    and o: "\<not> isize x < off" "\<not> off + n < off" "unat off + unat n \<le> N * BSIZE" "unat n < 2 ^ 31"
    and sp: "space s (length (chunks (unat off) 0 (unat n)) + Suc r)"
    and post: "\<And>t. written s ip N (unat off) (unat n) src t \<Longrightarrow> space t r \<Longrightarrow> Q (int (unat n)) t"
  shows "wp (writei ip src off n) Q s"
proof -
  have e: "unat (off + n) = unat off + unat n" by (rule no_wrap [OF o(2)])
  have lt: "unat off + unat n < 2 ^ 32" using e unsigned_less [of "off + n", where 'a = nat] by simp
  have big: "\<not> MAXFILE * BSIZE < unat (off + n)" using e lt by (simp add: layout_consts)
  have sn: "sint n = int (unat n)" by (rule sint_unat_small [OF o(4)])
  have of: "of_nat (unat off + unat n) = off + n" by simp
  let ?tail = "andthen (unless (\<not> (0 < n \<and> isize x < off + n)) (
         andthen (upd_inode ip (\<lambda>x. x\<lparr>isize := off + n\<rparr>)) (
         bind unix_time (\<lambda>now.
         andthen (upd_inode ip (\<lambda>x. x\<lparr>imtime := now\<rparr>))
           (iupdate ip)))))
         (return (sint n))"
  have "wp (mfor (chunks (unat off) 0 (unat n)) (\<lambda>(tot, m). write_chunk ip ROOTDEV (off + of_nat tot)
      (\<lambda>d. copy_mem d ((unat off + tot) mod BSIZE) src tot m))) (\<lambda>_. wp ?tail Q) s"
  proof (rule wp_write_chunks [OF s(1,2,3) sp s(5) o(3) lt])
    fix t assume c: "content_written s x N (unat off + 0) (unat off + unat n) (\<lambda>i. src (0 + i)) t" and spt: "space t (Suc r)"
    note wf = content_written_wf [OF c s(5)]
    have ct: "txn_inv t" "lframe s t" "busy_at t = busy_at s" "img t = img s" "hist t = hist s"
      "in_log (thelog t) = in_log (thelog s)" "same_log (thelog s) (thelog t)"
      "\<And>c. c \<notin> file_block s x ` {..<N} \<Longrightarrow> blk t c = blk s c"
      "\<And>i. i div BSIZE < N \<Longrightarrow> fbyte t x i = (if unat off \<le> i \<and> i < unat off + unat n then src (i - unat off) else fbyte s x i)"
      using c by (auto simp: content_written_def)
    have im: "in_image t = in_image s" "imglen t = imglen s" "fsst.more t = fsst.more s"
      using lframe_in_image [OF ct(2)] lframe_more [OF ct(2)] ct(2) by (simp_all add: fun_eq_iff lframe_def)
    have dj: "disk_inode t j = disk_inode s j" if "IBLOCK j \<notin> file_block s x ` {..<N}" for j
      using ct(8) [OF that] by (simp add: disk_inode_def)
    show "wp ?tail Q t"
    proof (cases "0 < n \<and> isize x < off + n")
      case False
      then have sz: "max (isize x) (off + n) = isize x" using o(1) by (auto simp: max_def not_less)
      have "blk t (IBLOCK (inum x)) = blk s (IBLOCK (inum x))" using s(6) by (intro ct(8)) (simp add: inode_apart_def)
      then have "synced t x = synced s x" by (simp add: synced_def disk_inode_def)
      then have "written s ip N (unat off) (unat n) src t"
        unfolding written_def s(2) of sz
        using ct im wf s(2) dj by (auto intro: exI [of _ "imtime x"])
      then have "Q (sint n) t" using post [OF _ space_mono [OF spt]] sn by simp
      then show ?thesis using False by (simp add: wp_simps)
    next
      case True
      let ?y = "x\<lparr>isize := off + n, imtime := clock t (ticks t)\<rparr>" and ?b = "IBLOCK (inum x)"
      let ?u = "t\<lparr>ticks := Suc (ticks t), icache := (icache t)(ip := ?y)\<rparr>"
      have sz: "max (isize x) (off + n) = off + n" using True by (auto simp: max_def)
      have "wp (andthen (upd_inode ip (\<lambda>x. x\<lparr>isize := off + n\<rparr>)) (bind unix_time (\<lambda>now. andthen (upd_inode ip (\<lambda>x. x\<lparr>imtime := now\<rparr>)) (iupdate ip))))
          (\<lambda>_. Q (sint n)) t"
      proof (rule wp_write_tail [OF ct(1) _ s(3) _ _ spt])
        fix v assume v: "logged ?u ((blk t)(?b := store_inode (blk t ?b) (unat (inum x) mod IPB) ?y)) [?b] v" and spv: "space v r"
        note l = loggedD [OF v]
        have lv: "in_log (thelog v) = in_log (thelog t)"
          using logged_log(2) [OF v, of r] ct(1) spt by (simp add: space_def)
        have bv: "blk v = (blk t)(?b := store_inode (blk t ?b) (unat (inum x) mod IPB) ?y)" using l(3) by simp
        have ap: "?b \<notin> file_block t x ` {..<N}" "NDIRECT < N \<longrightarrow> ?b \<noteq> iaddrs x NDIRECT"
          using s(6) wf(2) by (auto simp: inode_apart_def)
        note fo = file_other_block [OF wf(1) ap bv]
        have ic: "icache v = (icache s)(ip := ?y)" using logged_icache [OF v] wf(3) by simp
        have "synced v ?y" using stored_inode(1) [of v t "inum x" ?y] bv by (simp add: synced_def)
        moreover have "disk_inode v j = disk_inode s j" if "j \<noteq> inum x" "IBLOCK j \<notin> file_block s x ` {..<N}" for j
          using stored_inode(2) [OF bv that(1)] dj [OF that(2)] by simp
        moreover have "same_log (thelog s) (thelog v)"
          using same_log_trans [OF ct(7)] logged_same_log [OF v] by simp
        moreover have "imglen v = imglen s" "fsst.more v = fsst.more s"
          using l(2) lframe_more [OF l(2)] im by (simp_all add: lframe_def)
        ultimately have "written s ip N (unat off) (unat n) src v"
          unfolding written_def s(2) of sz
          using l(1,5,6,7,8) ct im lv fo bv ic by auto
        then show "Q (sint n) v" using post [OF _ spv] sn by simp
      qed (use s(2,6) wf(3) ct(3,6) im in \<open>simp_all add: inode_apart_def place_ok_def\<close>)
      then show ?thesis using True by (simp add: wp_andthen wp_return unless_def)
    qed
  qed
  then show ?thesis
    using s(2-4) o(1,2) big by (simp add: writei_def wp_bind wp_get_inode wp_andthen)
qed

section \<open>Steps of a transfer\<close>

lemma chunks_empty: "n \<le> tot \<Longrightarrow> chunks off tot n = []"
  by (simp add: chunks.simps)

lemma chunks_step:
  assumes "tot < n" "m = min (n - tot) (BSIZE - (off + tot) mod BSIZE)"
  shows "chunks off tot n = (tot, m) # chunks off (tot + m) n"
  using assms by (subst chunks.simps) (simp add: Let_def)

text \<open>The last step when the range ends in the block that begins at \<open>p\<close>.\<close>

lemma chunks_split:
  assumes "tot \<le> p" "(a + p) mod BSIZE = 0" "p < n" "n \<le> p + BSIZE"
  shows "chunks a tot n = chunks a tot p @ [(p, n - p)]"
  using assms
proof (induction a tot p rule: chunks.induct)
  case (1 a tot p)
  show ?case
  proof (cases "tot < p")
    case True
    define m where "m = min (p - tot) (BSIZE - (a + tot) mod BSIZE)"
    have "BSIZE - (a + tot) mod BSIZE \<le> p - tot"
    proof (rule ccontr)
      assume "\<not> ?thesis"
      then have "(a + tot + (p - tot)) mod BSIZE = (a + tot) mod BSIZE + (p - tot)" by (intro add_in_block) linarith
      then show False using 1(3) True by simp
    qed
    then have m: "m = min (n - tot) (BSIZE - (a + tot) mod BSIZE)" using 1(4) by (simp add: m_def)
    show ?thesis using 1(1) [OF True m_def] chunk_bounds(2) [OF m_def True] 1(3-5) True
      by (simp add: chunks_step [OF True m_def] chunks_step [OF _ m])
  next
    case False
    then have "tot = p" using 1(2) by simp
    then show ?thesis using 1(3-5) by (simp add: chunks_empty chunks_step [where m = "n - p"])
  qed
qed

lemma chunks_partition_aux:
  "concat (map (\<lambda>(t, m). [t..<t + m]) (chunks off tot n)) = [tot..<n]
   \<and> (\<forall>(t, m) \<in> set (chunks off tot n). 0 < m \<and> (off + t) mod BSIZE + m \<le> BSIZE)"
proof (induction off tot n rule: chunks.induct)
  case (1 off tot n)
  show ?case
  proof (cases "tot < n")
    case True
    define m where "m = min (n - tot) (BSIZE - (off + tot) mod BSIZE)"
    note b = chunk_bounds [OF m_def True]
    have "[tot..<n] = [tot..<tot + m] @ [tot + m..<n]" using b(2) upt_add_eq_append [of tot "tot + m" "n - (tot + m)"] by simp
    then show ?thesis using 1 [OF True m_def] b(1,3) by (simp add: chunks_step [OF True m_def])
  qed (simp add: chunks_empty)
qed

text \<open>The number of blocks the steps touch.\<close>

lemma length_chunks:
  "length (chunks off tot n) \<le> (if tot < n then (off + n - 1) div BSIZE - (off + tot) div BSIZE + 1 else 0)"
proof (induction off tot n rule: chunks.induct)
  case (1 off tot n)
  show ?case
  proof (cases "tot < n")
    case True
    define m where "m = min (n - tot) (BSIZE - (off + tot) mod BSIZE)"
    note b = chunk_bounds [OF m_def True]
    have IH: "length (chunks off (tot + m) n) \<le>
        (if tot + m < n then (off + n - 1) div BSIZE - (off + (tot + m)) div BSIZE + 1 else 0)"
      by (rule 1 [OF True m_def])
    have "(off + (tot + m)) div BSIZE = (off + tot) div BSIZE + 1" if "tot + m < n"
    proof -
      have "m = BSIZE - (off + tot) mod BSIZE" using that by (simp add: m_def)
      then have "off + (tot + m) = (off + tot) div BSIZE * BSIZE + BSIZE"
        using div_mult_mod_eq [of "off + tot" BSIZE] b(3) by linarith
      then show ?thesis by (simp add: BSIZE_def)
    qed
    moreover have "(off + (tot + m)) div BSIZE \<le> (off + n - 1) div BSIZE" if "tot + m < n"
      using that by (intro div_le_mono) simp
    ultimately have "length (chunks off (tot + m) n) \<le> (off + n - 1) div BSIZE - (off + tot) div BSIZE"
      using IH by (cases "tot + m < n") auto
    then show ?thesis using True by (simp add: chunks_step [OF True m_def])
  qed (simp add: chunks_empty)
qed

section \<open>Properties\<close>

text \<open>\<open>readi\<close> reads the file: inside the file it returns the bytes of the content from \<open>off\<close> on, as many as were
  asked for and the file has, leaves the rest of the buffer alone, and changes no block and no inode.\<close>

theorem readi_reads:
  assumes "binv s" "card (dirty_at s \<union> busy_at s) < NBUF" "icache s ip = x" "idev x = ROOTDEV" "itype x \<noteq> T_DEV"
    and "off \<le> isize x" "off \<le> off + n" "read_len x off n < 2 ^ 31"
    and "\<forall>i < read_len x off n. mapped s x ((unat off + i) div BSIZE)"
  shows "\<exists>t. readi ip dst off n s = Ok (int (read_len x off n), fill dst 0 (read_len x off n) (\<lambda>i. fbyte s x (unat off + i))) t
    \<and> blk t = blk s \<and> icache t = icache s \<and> busy_at t = busy_at s \<and> dirty_at t = dirty_at s"
proof -
  have "wp (readi ip dst off n) (\<lambda>r t. r = (int (read_len x off n), fill dst 0 (read_len x off n) (\<lambda>i. fbyte s x (unat off + i)))
    \<and> blk t = blk s \<and> icache t = icache s \<and> busy_at t = busy_at s \<and> dirty_at t = dirty_at s) s"
  proof (rule wp_readi [OF assms(1-5)])
    fix t assume t: "like s t"
    show "(int (read_len x off n), fill dst 0 (read_len x off n) (\<lambda>i. fbyte s x (unat off + i))) =
      (int (read_len x off n), fill dst 0 (read_len x off n) (\<lambda>i. fbyte s x (unat off + i)))
      \<and> blk t = blk s \<and> icache t = icache s \<and> busy_at t = busy_at s \<and> dirty_at t = dirty_at s"
      using like_fields(1,2,3) [OF t] like_icache [OF t] by simp
  qed (use assms(6-9) in \<open>auto simp: not_less\<close>)
  then show ?thesis by (auto dest!: wp_Ok)
qed

lemma small_file:
  "icache (small_inodes e) 3 = file_inode" "file_block s file_inode 0 = 6" "file_block s file_inode (Suc 0) = 7"
  by (simp_all add: small_inodes_ok file_block_def file_inode_def NDIRECT_def)

lemma small_file_fields: "idev file_inode = ROOTDEV" "itype file_inode = T_FILE" "isize file_inode = 5000" "inum file_inode = 2"
  by (simp_all add: file_inode_def)

lemma small_file_wf: "file_wf (small_inodes e) file_inode 2" "inode_apart (small_inodes e) file_inode 2"
proof -
  have k: "k < 2 \<longleftrightarrow> k = 0 \<or> k = 1" for k :: nat by auto
  have s: "{..<2 :: nat} = {0, 1}" by auto
  show "file_wf (small_inodes e) file_inode 2"
    by (auto simp: file_wf_def mapped_def k s small_file place_ok_def small_inodes_ok small_log_def in_log_def layout_consts inj_on_def)
  have "inum file_inode = 2" by (simp add: file_inode_def)
  then show "inode_apart (small_inodes e) file_inode 2"
    by (auto simp: inode_apart_def IBLOCK_2 s small_file place_ok_def small_inodes_ok small_log_def in_log_def layout_consts)
qed

theorem readi_reads_witness:
  "\<exists>t. readi 3 zero_block 4000 200 (small_inodes (\<lambda>_. (\<lambda>_. 7))) =
     Ok (200, fill zero_block 0 200 (\<lambda>i. fbyte (small_inodes (\<lambda>_. (\<lambda>_. 7))) file_inode (4000 + i))) t"
proof -
  let ?s = "small_inodes (\<lambda>_. (\<lambda>_. 7))"
  have len: "read_len file_inode 4000 200 = 200" by (simp add: read_len_def file_inode_def)
  have "mapped ?s file_inode ((4000 + i) div BSIZE)" if "i < 200" for i
  proof -
    have "(4000 + i) div BSIZE < 2" using that by (simp add: BSIZE_def less_mult_imp_div_less)
    then show ?thesis using small_file_wf(1) by (simp add: file_wf_def)
  qed
  then show ?thesis
    using readi_reads [of ?s 3 file_inode 4000 200 zero_block] small_inodes_ok(1) len
    by (auto simp: small_file small_inodes_ok(2,3) txn_inv_def NBUF_def small_file_fields T_FILE_def T_DEV_def)
qed

text \<open>The guards of \<open>readi\<close> and \<open>writei\<close>: a device, an offset behind the end of the file and a length that makes
  the end wrap around are refused with -1 and no change.\<close>

theorem transfer_refuses:
  assumes "itype (icache s ip) = T_DEV \<or> isize (icache s ip) < off \<or> off + n < off"
  shows "readi ip buf off n s = Ok (- 1, buf) s \<and> writei ip buf off n s = Ok (- 1) s"
  using assms by (auto simp: readi_def writei_def bind_def get_inode_def gets_def return_def)

theorem transfer_refuses_witness:
  "writei 3 zero_block 6000 1 (small_inodes (\<lambda>_. zero_block)) = Ok (- 1) (small_inodes (\<lambda>_. zero_block))"
  using transfer_refuses [of "small_inodes (\<lambda>_. zero_block)" 3 6000 1 zero_block] by (simp add: small_file file_inode_def)



text \<open>C16. What was written is read back: \<open>readi\<close> of the range that \<open>writei\<close> has just written returns the bytes of its
  buffer.\<close>

theorem write_read_roundtrip:
  fixes s :: "'z fsst_scheme"
  assumes "txn_inv s" "icache s ip = x" "idev x = ROOTDEV" "itype x \<noteq> T_DEV" "file_wf s x N" "inode_apart s x N"
    and "off \<le> isize x" "off \<le> off + n" "unat off + unat n \<le> N * BSIZE" "unat n < 2 ^ 31"
    and "space s (length (chunks (unat off) 0 (unat n)) + 2)"
  shows "\<exists>t. andthen (writei ip src off n) (readi ip dst off n) s = Ok (int (unat n), fill dst 0 (unat n) src) t"
proof -
  have "wp (andthen (writei ip src off n) (readi ip dst off n)) (\<lambda>r t. r = (int (unat n), fill dst 0 (unat n) src)) s"
    unfolding wp_andthen
  proof (rule wp_writei [OF assms(1-6), where r = 1])
    fix t assume t: "written s ip N (unat off) (unat n) src t" and sp: "space t 1"
    obtain now where c: "icache t ip = x\<lparr>isize := max (isize x) (off + n), imtime := now\<rparr>" (is "_ = ?y")
      using t assms(2) by (auto simp: written_def)
    have e: "unat (off + n) = unat off + unat n" by (rule no_wrap) (use assms(8) in simp)
    have len: "read_len ?y off n = unat n"
      using assms(7) e by (auto simp: read_len_def max_def word_le_nat_alt)
    have wf: "file_wf t x N" using t assms(2) by (simp add: written_def)
    have blk: "(unat off + i) div BSIZE < N" if "i < unat n" for i
      using that assms(9) by (intro less_mult_imp_div_less) simp
    have rd: "fill dst 0 (unat n) (\<lambda>i. fbyte t ?y (unat off + i)) = fill dst 0 (unat n) src"
      using t blk by (auto simp: fill_def fun_eq_iff written_def assms(2))
    show "wp (readi ip dst off n) (\<lambda>r t. r = (int (unat n), fill dst 0 (unat n) src)) t"
    proof (rule wp_readi [where x = ?y], unfold len rd)
      show "mapped t ?y ((unat off + i) div BSIZE)" if "i < unat n" for i
        using blk [OF that] wf by (simp add: file_wf_def mapped_def)
    qed (use t c sp assms in \<open>auto simp: written_def txn_inv_def space_def not_less\<close>)
  qed (use assms(7-11) in \<open>auto simp: not_less\<close>)
  then show ?thesis by (auto dest!: wp_Ok)
qed

theorem write_read_roundtrip_witness:
  "\<exists>t. andthen (writei 3 (\<lambda>_. 9) 4000 2000) (readi 3 zero_block 4000 2000) (small_inodes (\<lambda>_. zero_block)) =
     Ok (2000, fill zero_block 0 2000 (\<lambda>_. 9)) t"
proof -
  let ?s = "small_inodes (\<lambda>_. zero_block)"
  have "length (chunks 4000 0 2000) \<le> 2" using length_chunks [of 4000 0 2000] by (simp add: BSIZE_def)
  then have "space ?s (length (chunks (unat (4000 :: u32)) 0 (unat (2000 :: u32))) + 2)"
    by (simp add: space_def small_inodes_ok log_room_def small_log_def NBUF_def)
  then show ?thesis
    using write_read_roundtrip [OF small_inodes_ok(1) small_file(1), of "\<lambda>_. zero_block" 2 4000 2000 "\<lambda>_. 9" zero_block] small_file_wf
    by (auto simp: small_file_fields BSIZE_def T_FILE_def T_DEV_def)
qed

text \<open>The steps of \<open>readi\<close>, \<open>writei\<close> and \<open>zeroi\<close> end, cover the range exactly once and in order, and each stays
  inside one block; there are no more of them than blocks in the range.\<close>

theorem chunks_partition:
  "concat (map (\<lambda>(t, m). [t..<t + m]) (chunks off tot n)) = [tot..<n]
   \<and> list_all (\<lambda>(t, m). 0 < m \<and> (off + t) mod BSIZE + m \<le> BSIZE) (chunks off tot n)
   \<and> length (chunks off tot n) \<le> (if tot < n then (off + n - 1) div BSIZE - (off + tot) div BSIZE + 1 else 0)"
  using chunks_partition_aux [of off tot n] length_chunks [of off tot n] by (auto simp: list_all_iff)

text \<open>C39. Large files are broken: every block number behind the direct and singly indirect blocks makes \<open>bmap\<close> index
  the array \<open>addrs\<close> of the in-memory inode behind its end, because \<open>struct inode\<close> has one address less than
  \<open>struct dinode\<close>.\<close>

theorem bmap_double_indirect:
  "\<forall>bn \<in> {NDIRECT + NINDIRECT..<MAXFILE}. bmap ip (of_nat bn) s = Fail (Undef ''ip->addrs: index out of range'') s"
proof
  fix bn assume bn: "bn \<in> {NDIRECT + NINDIRECT..<MAXFILE}"
  then have u: "unat (of_nat bn :: u32) = bn" by (simp add: unat_of_nat take_bit_nat_eq_self layout_consts)
  have c: "\<not> bn < NDIRECT" "\<not> bn - NDIRECT < NINDIRECT" "bn - NDIRECT < MAXFILE - NDIRECT" using bn by auto
  show "bmap ip (of_nat bn) s = Fail (Undef ''ip->addrs: index out of range'') s"
    unfolding bmap_def u
    using c by (simp add: Let_def bind_def get_inode_def gets_def bmap_addr_def get_addr_def fail_def)
qed

theorem bmap_double_indirect_witness:
  "bmap 3 2000 (small_inodes (\<lambda>_. zero_block)) = Fail (Undef ''ip->addrs: index out of range'') (small_inodes (\<lambda>_. zero_block))"
  using bmap_double_indirect [THEN bspec, of 2000 3 "small_inodes (\<lambda>_. zero_block)"] by (simp add: layout_consts)

text \<open>The file size check of \<open>writei\<close> never fires and the panic at the end of \<open>bmap\<close> is not reached from a
  transfer: the largest file the block map describes is larger than every 32 bit offset.\<close>

theorem file_limit_dead:
  "\<not> MAXFILE * BSIZE < unat (off + n :: u32) \<and> unat (off div 4096 :: u32) < MAXFILE"
proof -
  have "unat (off + n) < 2 ^ 32" "unat off < 2 ^ 32"
    using unsigned_less [of "off + n", where 'a = nat] unsigned_less [of off, where 'a = nat] by simp_all
  then show ?thesis by (simp add: layout_consts unat_div less_mult_imp_div_less)
qed

lemma small_extend:
  "alloc_ready (small_inodes e) 8" "data_block (small_inodes e) 8" "bitmap_at (small_inodes e) 8 = 4" "file_block (small_inodes e) file_inode ` {..<2} = {6, 7}"
proof -
  note f = small_alloc_ready [of "e(2 := inode_block)"]
  have s: "sb_of (small_inodes e) = sb_of (small_fs (e(2 := inode_block)))" by (simp add: sb_of_def small_inodes_def)
  then have b: "bitmap_at (small_inodes e) = bitmap_at (small_fs (e(2 := inode_block)))" by (simp add: bitmap_at_def fun_eq_iff)
  then have i: "is_free (small_inodes e) = is_free (small_fs (e(2 := inode_block)))" by (simp add: is_free_def fun_eq_iff small_inodes_def)
  show "alloc_ready (small_inodes e) 8" "data_block (small_inodes e) 8"
    using f(1,2) s b i by (simp_all add: alloc_ready_def data_block_def small_inodes_def)
  show "bitmap_at (small_inodes e) 8 = 4" using small_group [of 8 "e(2 := inode_block)"] b by simp
  have "{..<2 :: nat} = {0, 1}" by auto
  then show "file_block (small_inodes e) file_inode ` {..<2} = {6, 7}" by (simp add: small_file)
qed

end
