(* ===== verification/Xv6_Dir.thy ===== *)
theory Xv6_Dir
  imports Xv6_Content
begin

text \<open>
  Directories and path names of \<open>xv6/fs.c\<close>. A directory is a file of \<open>struct dirent\<close>; a path is
  the bytes of a C string before its terminating NUL, and a name is the \<open>char[DIRSIZ]\<close> buffer
  the code passes around.
\<close>

section \<open>Directories\<close>

text \<open>\<open>strncmp\<close> and \<open>strncpy\<close> of the C library, on buffers.\<close>

fun strncmp_from :: "mem \<Rightarrow> mem \<Rightarrow> nat \<Rightarrow> nat \<Rightarrow> int" where
  "strncmp_from s t i 0 = 0"
| "strncmp_from s t i (Suc k) =
     (if s i \<noteq> t i then uint (s i) - uint (t i)
      else if s i = 0 then 0
      else strncmp_from s t (Suc i) k)"

definition namecmp :: "mem \<Rightarrow> mem \<Rightarrow> int" where
  "namecmp s t = strncmp_from s t 0 DIRSIZ"

definition strncpy :: "mem \<Rightarrow> nat \<Rightarrow> mem" where
  "strncpy src n = (\<lambda>i. if i < n \<and> (\<forall>j < i. src j \<noteq> 0) then src i else 0)"

text \<open>The offsets of the entries of a directory of \<open>size\<close> bytes.\<close>

definition dir_offsets :: "u32 \<Rightarrow> nat list" where
  "dir_offsets sz = map (\<lambda>k. k * 64) [0..<(unat sz + 63) div 64]"

text \<open>The result is the inode and \<open>*poff\<close>.\<close>

definition dirlookup :: "nat \<Rightarrow> mem \<Rightarrow> ('z fsst_scheme, (nat \<times> u32) option) xm" where
  "dirlookup dp name =
     bind (get_inode dp) (\<lambda>x.
     if itype x \<noteq> T_DIR then panic ''dirlookup not DIR''
     else
       mloop (dir_offsets (isize x)) (\<lambda>off.
         bind (readi dp zero_block (of_nat off) 64) (\<lambda>(r, d).
         if r \<noteq> 64 then panic ''dirlink read''
         else
           let de = get_dirent d in
           if de_inum de = 0 then return None
           else if namecmp name (de_name de) = 0 then
             bind (iget (idev x) (ucast (de_inum de))) (\<lambda>ip.
               return (Some (ip, of_nat off)))
           else return None)))"

text \<open>The loop counter \<open>off\<close> of \<open>dirlink\<close> is a C \<open>int\<close>.\<close>

definition dirlink :: "nat \<Rightarrow> mem \<Rightarrow> u32 \<Rightarrow> ('z fsst_scheme, int) xm" where
  "dirlink dp name ino =
     bind (dirlookup dp name) (\<lambda>r.
     case r of
       Some (ip, _) \<Rightarrow> andthen (iput ip) (return (- 1))
     | None \<Rightarrow>
         bind (get_inode dp) (\<lambda>x.
         bind (mloop (dir_offsets (isize x)) (\<lambda>off.
           if 2 ^ 31 \<le> off then fail (Undef ''off += sizeof(de) overflows'')
           else
             bind (readi dp zero_block (of_nat off) 64) (\<lambda>(r, d).
             if r \<noteq> 64 then panic ''dirlink read''
             else if de_inum (get_dirent d) = 0 then return (Some off)
             else return None))) (\<lambda>r.
         let off = (case r of Some off \<Rightarrow> off | None \<Rightarrow> 64 * length (dir_offsets (isize x)));
             de = \<lparr>de_inum = ucast ino, de_name = strncpy name DIRSIZ\<rparr> in
         if 2 ^ 31 \<le> off then fail (Undef ''off += sizeof(de) overflows'')
         else
           bind (writei dp (put_dirent de) (of_nat off) 64) (\<lambda>r.
           if r \<noteq> 64 then panic ''dirlink'' else return 0))))"

section \<open>Paths\<close>

definition SLASH :: byte where
  "SLASH = 47"

text \<open>\<open>*path\<close>: the end of the string reads as NUL.\<close>

definition deref :: "byte list \<Rightarrow> byte" where
  "deref p = (case p of [] \<Rightarrow> 0 | c # _ \<Rightarrow> c)"

text \<open>The two loops of \<open>skipelem\<close>: over slashes, and over the characters of an element.\<close>

definition skip_slashes :: "byte list \<Rightarrow> byte list" where
  "skip_slashes p = dropWhile (\<lambda>c. c = SLASH) p"

definition elem_len :: "byte list \<Rightarrow> nat" where
  "elem_len p = length (takeWhile (\<lambda>c. c \<noteq> SLASH \<and> c \<noteq> 0) p)"

text \<open>The result is the rest of the path and the new content of \<open>name\<close>, or \<^const>\<open>None\<close> for the
  null pointer.\<close>

definition skipelem :: "byte list \<Rightarrow> mem \<Rightarrow> (byte list \<times> mem) option" where
  "skipelem path name =
     (let path = skip_slashes path in
      if deref path = 0 then None
      else
        let len = elem_len path;
            name = (if DIRSIZ \<le> len then copy_mem name 0 (\<lambda>i. path ! i) 0 DIRSIZ
                    else (copy_mem name 0 (\<lambda>i. path ! i) 0 len)(len := 0)) in
        Some (skip_slashes (drop len path), name))"

text \<open>The loop of \<open>namex\<close>. The fuel is one more than the length of the path;
  \<open>namex_loop_more\<close> in \<open>Xv6_Lookup\<close> shows that it never runs out.\<close>

fun namex_loop :: "nat \<Rightarrow> nat \<Rightarrow> byte list \<Rightarrow> bool \<Rightarrow> mem \<Rightarrow> ('z fsst_scheme, (nat \<times> mem) option) xm" where
  "namex_loop 0 ip path nameiparent name = fail Hang"
| "namex_loop (Suc fuel) ip path nameiparent name =
     (case skipelem path name of
        None \<Rightarrow>
          (if nameiparent then andthen (iput ip) (return None)
           else return (Some (ip, name)))
      | Some (path, name) \<Rightarrow>
          andthen (ilock ip) (
          bind (get_inode ip) (\<lambda>x.
          if itype x \<noteq> T_DIR then andthen (iunlockput ip) (return None)
          else if nameiparent \<and> deref path = 0 then
            andthen (iunlock ip) (return (Some (ip, name)))
          else
            bind (dirlookup ip name) (\<lambda>r.
            case r of
              None \<Rightarrow> andthen (iunlockput ip) (return None)
            | Some (nxt, _) \<Rightarrow>
                andthen (iunlockput ip)
                  (namex_loop fuel nxt path nameiparent name)))))"

text \<open>\<open>curproc\<close> is a null pointer in the FUSE program (fuse.c), so a relative path dereferences
  it.\<close>

definition namex :: "byte list \<Rightarrow> bool \<Rightarrow> mem \<Rightarrow> ('z fsst_scheme, (nat \<times> mem) option) xm" where
  "namex path nameiparent name =
     (if deref path = SLASH then
        bind (iget ROOTDEV ROOTINO) (\<lambda>ip.
          namex_loop (Suc (length path)) ip path nameiparent name)
      else fail (Undef ''curproc->cwd''))"

definition namei :: "byte list \<Rightarrow> ('z fsst_scheme, nat option) xm" where
  "namei path =
     bind (namex path False zero_block) (\<lambda>r. return (map_option fst r))"

definition nameiparent :: "byte list \<Rightarrow> mem \<Rightarrow> ('z fsst_scheme, (nat \<times> mem) option) xm" where
  "nameiparent path name = namex path True name"

end
