(* ===== verification/Xv6_Lookup.thy ===== *)
theory Xv6_Lookup
  imports Xv6_Dir
begin

text \<open>
  What directories and paths mean. Names are compared as C strings of at most \<open>DIRSIZ\<close> bytes; a path is the list of
  its elements between slashes; a directory is the list of its entries. The theorems relate \<open>namecmp\<close>, \<open>skipelem\<close>,
  \<open>namex\<close>, \<open>dirlookup\<close> and \<open>dirlink\<close> to these.
\<close>

section \<open>Names\<close>

text \<open>The C string in a name buffer.\<close>

definition cname :: "mem \<Rightarrow> byte list" where
  "cname m = takeWhile (\<lambda>c. c \<noteq> 0) (map m [0..<DIRSIZ])"

lemma strncmp_iff:
  "strncmp_from s t i k = 0 \<longleftrightarrow> takeWhile (\<lambda>c. c \<noteq> 0) (map s [i..<i + k]) = takeWhile (\<lambda>c. c \<noteq> 0) (map t [i..<i + k])"
proof (induction k arbitrary: i)
  case (Suc k)
  have "[i..<i + Suc k] = i # [Suc i..<Suc i + k]" by (simp add: upt_conv_Cons)
  moreover have "uint (s i) = uint (t i) \<longleftrightarrow> s i = t i" by (simp add: word_uint_eq_iff)
  ultimately show ?case using Suc [of "Suc i"] by (cases "s i = t i") (auto simp del: upt_Suc)
qed simp

lemma namecmp_iff: "namecmp s t = 0 \<longleftrightarrow> cname s = cname t"
  using strncmp_iff [of s t 0 DIRSIZ] by (simp add: namecmp_def cname_def)

lemma takeWhile_map_cong:
  assumes "\<And>j. i \<le> j \<Longrightarrow> j < i + k \<Longrightarrow> (\<forall>l. i \<le> l \<and> l < j \<longrightarrow> P (f l)) \<Longrightarrow> f j = g j"
  shows "takeWhile P (map f [i..<i + k]) = takeWhile P (map g [i..<i + k])"
  using assms
proof (induction k arbitrary: i)
  case (Suc k)
  have e: "[i..<i + Suc k] = i # [Suc i..<Suc i + k]" by (simp add: upt_conv_Cons)
  have fi: "f i = g i" by (rule Suc.prems) auto
  show ?case
  proof (cases "P (f i)")
    case True
    have "f j = g j" if "Suc i \<le> j" "j < Suc i + k" "\<forall>l. Suc i \<le> l \<and> l < j \<longrightarrow> P (f l)" for j
    proof (rule Suc.prems)
      show "\<forall>l. i \<le> l \<and> l < j \<longrightarrow> P (f l)" using that True by (metis Suc_leI le_neq_implies_less)
    qed (use that in auto)
    then show ?thesis unfolding e using Suc.IH [of "Suc i"] fi by simp
  next
    case False
    then show ?thesis unfolding e using fi by simp
  qed
qed simp

lemma cname_strncpy: "cname (strncpy m DIRSIZ) = cname m"
  unfolding cname_def
  using takeWhile_map_cong [of 0 DIRSIZ "\<lambda>c. c \<noteq> 0" m "strncpy m DIRSIZ"] by (auto simp: strncpy_def)

section \<open>Paths\<close>

text \<open>Reference: cut the path at every slash and drop the empty pieces.\<close>

fun split_slash :: "byte list \<Rightarrow> byte list list" where
  "split_slash [] = [[]]"
| "split_slash (c # cs) =
     (if c = SLASH then [] # split_slash cs else (c # hd (split_slash cs)) # tl (split_slash cs))"

definition elems :: "byte list \<Rightarrow> byte list list" where
  "elems p = filter (\<lambda>e. e \<noteq> []) (split_slash p)"

lemma split_slash_app: "SLASH \<notin> set e \<Longrightarrow> split_slash (e @ SLASH # r) = e # split_slash r"
  by (induction e) auto

lemma split_slash_elem: "SLASH \<notin> set e \<Longrightarrow> split_slash e = [e]"
  by (induction e) auto

lemma elems_slash [simp]: "elems (SLASH # p) = elems p"
  by (simp add: elems_def)

lemma elems_skip [simp]: "elems (skip_slashes p) = elems p"
  by (induction p) (auto simp: skip_slashes_def)

lemma elems_app:
  assumes "SLASH \<notin> set e" "e \<noteq> []" "r = [] \<or> hd r = SLASH"
  shows "elems (e @ r) = e # elems r"
proof (cases r)
  case Nil
  then show ?thesis using assms by (simp add: elems_def split_slash_elem)
next
  case (Cons c cs)
  then have "c = SLASH" using assms(3) by simp
  then show ?thesis using assms Cons by (simp add: elems_def split_slash_app)
qed

text \<open>The first element of a path without leading slashes, and what follows it.\<close>

lemma elem_split:
  assumes "0 \<notin> set p"
  shows "take (elem_len p) p = takeWhile (\<lambda>c. c \<noteq> SLASH) p" "drop (elem_len p) p = dropWhile (\<lambda>c. c \<noteq> SLASH) p"
proof -
  have "takeWhile (\<lambda>c. c \<noteq> SLASH \<and> c \<noteq> 0) p = takeWhile (\<lambda>c. c \<noteq> SLASH) p"
    using assms by (induction p) auto
  then show "take (elem_len p) p = takeWhile (\<lambda>c. c \<noteq> SLASH) p" "drop (elem_len p) p = dropWhile (\<lambda>c. c \<noteq> SLASH) p"
    by (simp_all add: elem_len_def takeWhile_eq_take [symmetric] dropWhile_eq_drop [symmetric])
qed

lemma skip_slashes_props: "set (skip_slashes p) \<subseteq> set p" "length (skip_slashes p) \<le> length p"
  "skip_slashes p = [] \<or> hd (skip_slashes p) \<noteq> SLASH"
  using hd_dropWhile [of "\<lambda>c. c = SLASH" p]
  by (auto simp: skip_slashes_def length_dropWhile_le dest: set_dropWhileD)

lemma elems_first:
  assumes "0 \<notin> set p" "p \<noteq> []" "hd p \<noteq> SLASH"
  shows "elems p = take (elem_len p) p # elems (drop (elem_len p) p)" "0 < elem_len p" "elem_len p \<le> length p"
proof -
  let ?e = "takeWhile (\<lambda>c. c \<noteq> SLASH) p" and ?r = "dropWhile (\<lambda>c. c \<noteq> SLASH) p"
  note sp = elem_split [OF assms(1)]
  have "?e \<noteq> []" using assms(2,3) by (cases p) auto
  moreover have "?r = [] \<or> hd ?r = SLASH" using hd_dropWhile [of "\<lambda>c. c \<noteq> SLASH" p] by auto
  moreover have "SLASH \<notin> set ?e" by (auto dest: set_takeWhileD)
  ultimately have "elems (?e @ ?r) = ?e # elems ?r" by (intro elems_app)
  then show "elems p = take (elem_len p) p # elems (drop (elem_len p) p)" unfolding sp by simp
  show "0 < elem_len p" using \<open>?e \<noteq> []\<close> sp(1) by (cases "elem_len p") auto
  show "elem_len p \<le> length p" by (simp add: elem_len_def length_takeWhile_le)
qed

lemma skipelem_None: "0 \<notin> set p \<Longrightarrow> skipelem p name = None \<longleftrightarrow> skip_slashes p = []"
  using skip_slashes_props(1) [of p]
  by (cases "skip_slashes p") (auto simp: skipelem_def Let_def deref_def)

lemma skipelem_Some:
  assumes "0 \<notin> set p" "skipelem p name = Some (rest, name')"
  shows "elems p = take (elem_len (skip_slashes p)) (skip_slashes p) # elems rest"
    "rest = skip_slashes (drop (elem_len (skip_slashes p)) (skip_slashes p))" "length rest < length p" "0 \<notin> set rest"
    "name' = (let e = take (elem_len (skip_slashes p)) (skip_slashes p) in
       if DIRSIZ \<le> length e then fill name 0 DIRSIZ (\<lambda>i. e ! i) else (fill name 0 (length e) (\<lambda>i. e ! i))(length e := 0))"
proof -
  let ?p = "skip_slashes p"
  have z: "0 \<notin> set ?p" using assms(1) skip_slashes_props(1) by blast
  have ne: "?p \<noteq> []" using assms skipelem_None by fastforce
  then have h: "hd ?p \<noteq> SLASH" using skip_slashes_props(3) by blast
  note f = elems_first [OF z ne h]
  have d: "deref ?p \<noteq> 0" using ne z by (cases ?p) (auto simp: deref_def)
  show rest: "rest = skip_slashes (drop (elem_len ?p) ?p)" using assms(2) d by (simp add: skipelem_def Let_def)
  show "elems p = take (elem_len ?p) ?p # elems rest" unfolding rest using f(1) by simp
  have "length rest \<le> length ?p - elem_len ?p" unfolding rest using skip_slashes_props(2) [of "drop (elem_len ?p) ?p"] by simp
  then show "length rest < length p" using f(2,3) skip_slashes_props(2) [of p] by linarith
  show "0 \<notin> set rest" unfolding rest using z skip_slashes_props(1) [of "drop (elem_len ?p) ?p"] by (auto dest: in_set_dropD)
  have c: "copy_mem name 0 (\<lambda>i. ?p ! i) 0 n = fill name 0 n (\<lambda>i. take (elem_len ?p) ?p ! i)" if "n \<le> elem_len ?p" for n
    using that by (auto simp: copy_mem_def fill_def fun_eq_iff)
  have l: "length (take (elem_len ?p) ?p) = elem_len ?p" using f(3) by simp
  show "name' = (let e = take (elem_len ?p) ?p in
       if DIRSIZ \<le> length e then fill name 0 DIRSIZ (\<lambda>i. e ! i) else (fill name 0 (length e) (\<lambda>i. e ! i))(length e := 0))"
    using assms(2) d unfolding skipelem_def Let_def l
    by (cases "DIRSIZ \<le> elem_len ?p") (simp_all add: c)
qed

text \<open>The name buffer holds the first \<open>DIRSIZ\<close> bytes of the element.\<close>

lemma cname_elem:
  assumes "0 \<notin> set e"
  shows "cname (if DIRSIZ \<le> length e then fill name 0 DIRSIZ (\<lambda>i. e ! i)
      else (fill name 0 (length e) (\<lambda>i. e ! i))(length e := 0)) = take DIRSIZ e"
proof (cases "DIRSIZ \<le> length e")
  case True
  have "map (fill name 0 DIRSIZ (\<lambda>i. e ! i)) [0..<DIRSIZ] = take DIRSIZ e"
    using True by (auto simp: list_eq_iff_nth_eq fill_def)
  moreover have "takeWhile (\<lambda>c. c \<noteq> 0) (take DIRSIZ e) = take DIRSIZ e"
    using assms by (auto simp: takeWhile_eq_all_conv dest: in_set_takeD)
  ultimately show ?thesis using True by (simp add: cname_def)
next
  case False
  let ?m = "(fill name 0 (length e) (\<lambda>i. e ! i))(length e := 0)"
  have lt: "length e < DIRSIZ" using False by simp
  have u: "[0..<DIRSIZ] = [0..<length e] @ length e # [Suc (length e)..<DIRSIZ]"
    using upt_add_eq_append [of 0 "length e" "DIRSIZ - length e"] upt_conv_Cons [OF lt] lt by simp
  have m: "map ?m [0..<length e] = e" by (rule nth_equalityI) (auto simp: fill_def)
  have "map ?m [0..<DIRSIZ] = e @ 0 # map ?m [Suc (length e)..<DIRSIZ]"
    unfolding u map_append m list.map(2) by simp
  moreover have "takeWhile (\<lambda>c. c \<noteq> 0) (e @ 0 # r) = e" for r
    using assms by (subst takeWhile_append2) auto
  ultimately have "cname ?m = e" unfolding cname_def by (simp only:)
  then show ?thesis using False by simp
qed

section \<open>The fuel of the path walk\<close>

lemma namex_loop_more:
  assumes "0 \<notin> set path" "length path < fuel" "length path < fuel'"
  shows "(namex_loop fuel ip path np name :: ('z fsst_scheme, (nat \<times> mem) option) xm) = namex_loop fuel' ip path np name"
  using assms
proof (induction fuel arbitrary: fuel' ip path name)
  case (Suc fuel)
  obtain f where f: "fuel' = Suc f" using Suc.prems by (cases fuel') auto
  show ?case
  proof (cases "skipelem path name")
    case None
    then show ?thesis by (simp add: f)
  next
    case (Some r)
    obtain p n where r: "r = (p, n)" by (cases r)
    note sk = skipelem_Some [OF Suc.prems(1) Some [unfolded r]]
    have "(namex_loop fuel i p np n :: ('z fsst_scheme, (nat \<times> mem) option) xm) = namex_loop f i p np n" for i
      using Suc.IH [of p f i n] sk(3,4) Suc.prems(2,3) f by simp
    then show ?thesis unfolding f namex_loop.simps Some r option.case prod.case by (simp only:)
  qed
qed simp

section \<open>Directories\<close>

definition dir_entry :: "'z bcache_scheme \<Rightarrow> inode \<Rightarrow> nat \<Rightarrow> dirent" where
  "dir_entry s x k = get_dirent (fill zero_block 0 64 (\<lambda>i. fbyte s x (64 * k + i)))"

definition dir_count :: "inode \<Rightarrow> nat" where
  "dir_count x = unat (isize x) div 64"

text \<open>A directory of whole entries in \<open>N\<close> blocks.\<close>

definition dir_wf :: "'z logst_scheme \<Rightarrow> inode \<Rightarrow> nat \<Rightarrow> bool" where
  "dir_wf s x N \<longleftrightarrow> itype x = T_DIR \<and> idev x = ROOTDEV \<and> 64 dvd unat (isize x) \<and> unat (isize x) \<le> N * BSIZE
     \<and> file_wf s x N"

lemma file_wf_size: "file_wf s x N \<Longrightarrow> N * BSIZE \<le> 2 ^ 23"
proof (cases N)
  case (Suc k)
  assume "file_wf s x N"
  then have "k < NDIRECT + NINDIRECT" using Suc by (auto simp: file_wf_def mapped_def)
  then show ?thesis using Suc by (simp add: layout_consts)
qed simp

lemma dir_wf_size: "dir_wf s x N \<Longrightarrow> unat (isize x) \<le> 2 ^ 23"
  using file_wf_size [of s x N] by (auto simp: dir_wf_def)

text \<open>An entry in use with the given name.\<close>

definition named :: "'z bcache_scheme \<Rightarrow> inode \<Rightarrow> mem \<Rightarrow> nat \<Rightarrow> bool" where
  "named s x name k \<longleftrightarrow> de_inum (dir_entry s x k) \<noteq> 0 \<and> cname (de_name (dir_entry s x k)) = cname name"

lemma dir_offsets_eq: "64 dvd unat (isize x) \<Longrightarrow> dir_offsets (isize x) = map (\<lambda>k. k * 64) [0..<dir_count x]"
  by (auto simp: dir_offsets_def dir_count_def elim!: dvdE)

lemma like_dir:
  assumes "like s t"
  shows "fbyte t x = fbyte s x" "dir_entry t x = dir_entry s x" "named t x name = named s x name" "file_wf t x N = file_wf s x N"
    "dir_wf t x N = dir_wf s x N"
proof -
  note l = like_fields(1,6) [OF assms] and c = like_content [OF assms]
  show f: "fbyte t x = fbyte s x" by (simp add: fbyte_def l c fun_eq_iff)
  show e: "dir_entry t x = dir_entry s x" by (simp add: dir_entry_def f fun_eq_iff)
  show "named t x name = named s x name" by (simp add: named_def e fun_eq_iff)
  have b: "file_block t x = file_block s x" by (simp add: c(1) fun_eq_iff)
  show w: "file_wf t x N = file_wf s x N" by (simp add: file_wf_def l c(2) b)
  show "dir_wf t x N = dir_wf s x N" by (simp add: dir_wf_def w)
qed

lemma entry_range:
  assumes "dir_wf s x N" "k < dir_count x"
  shows "64 * k + 64 \<le> unat (isize x)" "64 * k < 2 ^ 31" "unat (of_nat (k * 64) :: u32) = 64 * k"
proof -
  obtain c where c: "unat (isize x) = 64 * c" using assms(1) by (auto simp: dir_wf_def elim!: dvdE)
  have "64 * Suc k \<le> 64 * c" using assms(2) c by (intro mult_le_mono2) (simp add: dir_count_def)
  then show r: "64 * k + 64 \<le> unat (isize x)" using c by simp
  then show l: "64 * k < 2 ^ 31" using dir_wf_size [OF assms(1)] by simp
  show "unat (of_nat (k * 64) :: u32) = 64 * k"
    using l by (simp add: unat_of_nat take_bit_nat_eq_self mult.commute del: of_nat_mult)
qed

lemma no_wrap_small: "unat off + 64 < 2 ^ 32 \<Longrightarrow> \<not> off + 64 < (off :: u32)"
  by (simp add: word_less_nat_alt unat_add_lem [of off 64, THEN iffD1])

lemma wp_read_entry_into:
  assumes s: "binv s" "card (dirty_at s \<union> busy_at s) < NBUF" "icache s dp = x" "dir_wf s x N" "k < dir_count x"
    and post: "\<And>t. like s t \<Longrightarrow> Q (64, fill dst 0 64 (\<lambda>i. fbyte s x (64 * k + i))) t"
  shows "wp (readi dp dst (of_nat (k * 64)) 64) Q s"
proof -
  note r = entry_range [OF s(4,5)]
  have len: "read_len x (of_nat (k * 64)) 64 = 64" unfolding read_len_def r(3) using r(1) by simp
  have d: "itype x \<noteq> T_DEV" "idev x = ROOTDEV" "file_wf s x N" "unat (isize x) \<le> N * BSIZE"
    using s(4) by (auto simp: dir_wf_def T_DIR_def T_DEV_def)
  show ?thesis
  proof (rule wp_readi [OF s(1-3) d(2,1)], unfold len r(3))
    show "\<not> isize x < of_nat (k * 64)" unfolding word_less_nat_alt r(3) using r(1) by simp
    show "\<not> of_nat (k * 64) + 64 < (of_nat (k * 64) :: u32)"
      by (rule no_wrap_small) (unfold r(3), use r(2) in simp)
    show "mapped s x ((64 * k + i) div BSIZE)" if "i < 64" for i
    proof -
      have "(64 * k + i) div BSIZE < N" using that r(1) d(4) by (intro less_mult_imp_div_less) simp
      then show ?thesis using d(3) by (simp add: file_wf_def)
    qed
    fix t assume t: "like s t"
    show "Q (int 64, fill dst 0 64 (\<lambda>i. fbyte s x (64 * k + i))) t" using post [OF t] by simp
  qed simp
qed

lemma wp_read_entry:
  assumes "binv s" "card (dirty_at s \<union> busy_at s) < NBUF" "icache s dp = x" "dir_wf s x N" "k < dir_count x"
    and "\<And>t d. like s t \<Longrightarrow> get_dirent d = dir_entry s x k \<Longrightarrow> Q (64, d) t"
  shows "wp (readi dp zero_block (of_nat (k * 64)) 64) Q s"
  by (rule wp_read_entry_into [OF assms(1-5)]) (simp add: assms(6) dir_entry_def)

lemma wp_dirlookup:
  assumes s: "binv s" "card (dirty_at s \<union> busy_at s) < NBUF" "icache s dp = x" "dir_wf s x N"
    and none: "\<And>t. (\<forall>k < dir_count x. \<not> named s x name k) \<Longrightarrow> like s t \<Longrightarrow> Q None t"
    and some: "\<And>k t. k < dir_count x \<Longrightarrow> named s x name k \<Longrightarrow> (\<forall>j < k. \<not> named s x name j) \<Longrightarrow> like s t \<Longrightarrow>
      wp (iget ROOTDEV (ucast (de_inum (dir_entry s x k)))) (\<lambda>ip. Q (Some (ip, of_nat (k * 64)))) t"
  shows "wp (dirlookup dp name) Q s"
proof -
  have d: "itype x = T_DIR" "idev x = ROOTDEV" "64 dvd unat (isize x)" using s(4) by (auto simp: dir_wf_def)
  let ?body = "\<lambda>off. bind (readi dp zero_block (of_nat off) 64) (\<lambda>(r, d).
         if r \<noteq> 64 then panic ''dirlink read''
         else let de = get_dirent d in
           if de_inum de = 0 then return None
           else if namecmp name (de_name de) = 0 then
             bind (iget ROOTDEV (ucast (de_inum de))) (\<lambda>ip. return (Some (ip, of_nat off)))
           else return None)"
  have "wp (mloop (map (\<lambda>k. k * 64) [0..<dir_count x]) ?body) Q s"
  proof (rule wp_mloop [where I = "\<lambda>k t. like s t \<and> (\<forall>j < k. \<not> named s x name j)"])
    fix k t assume k: "k < length (map (\<lambda>k. k * 64) [0..<dir_count x])" and t: "like s t \<and> (\<forall>j < k. \<not> named s x name j)"
    then have kc: "k < dir_count x" and lt: "like s t" by simp_all
    note l = like_fields(2,3,5) [OF lt] and ld = like_dir [OF lt]
    have "wp (?body (k * 64)) (\<lambda>r u. case r of None \<Rightarrow> like s u \<and> (\<forall>j < Suc k. \<not> named s x name j) | Some v \<Rightarrow> Q (Some v) u) t"
      unfolding wp_bind
    proof (rule wp_read_entry)
      show "binv t" "card (dirty_at t \<union> busy_at t) < NBUF" "icache t dp = x" "dir_wf t x N" "k < dir_count x"
        using s l ld like_icache [OF lt] kc by simp_all
      fix u e assume u: "like t u" and "get_dirent e = dir_entry t x k"
      then have e: "get_dirent e = dir_entry s x k" by (simp add: ld)
      have su: "like s u" by (rule like_trans [OF lt u])
      have nm: "named s x name k \<longleftrightarrow> de_inum (dir_entry s x k) \<noteq> 0 \<and> namecmp name (de_name (dir_entry s x k)) = 0"
        by (auto simp: named_def namecmp_iff)
      show "wp (case (64, e) of (r, d) \<Rightarrow> if r \<noteq> 64 then panic ''dirlink read''
         else let de = get_dirent d in
           if de_inum de = 0 then return None
           else if namecmp name (de_name de) = 0 then
             bind (iget ROOTDEV (ucast (de_inum de))) (\<lambda>ip. return (Some (ip, of_nat (k * 64))))
           else return None) (\<lambda>r u. case r of None \<Rightarrow> like s u \<and> (\<forall>j < Suc k. \<not> named s x name j) | Some v \<Rightarrow> Q (Some v) u) u"
      proof (cases "named s x name k")
        case True
        then show ?thesis using some [OF kc True _ su] t nm by (simp add: e Let_def wp_bind wp_return)
      next
        case False
        then show ?thesis using t nm su by (auto simp: e Let_def wp_return less_Suc_eq)
      qed
    qed
    moreover have "map (\<lambda>k. k * 64) [0..<dir_count x] ! k = k * 64" using kc by simp
    ultimately show "wp (?body (map (\<lambda>k. k * 64) [0..<dir_count x] ! k))
      (\<lambda>r u. case r of None \<Rightarrow> like s u \<and> (\<forall>j < Suc k. \<not> named s x name j) | Some v \<Rightarrow> Q (Some v) u) t"
      by (simp only:)
  qed (use like_refl [OF s(1)] none in auto)
  then show ?thesis
    unfolding dirlookup_def wp_bind [of "get_inode dp"] wp_get_inode s(3) d(2) dir_offsets_eq [OF d(3)]
    using d(1) by simp
qed

text \<open>The search loops of \<open>dirlink\<close> and \<open>isdirempty\<close>.\<close>

lemma wp_scan:
  assumes s: "binv s" "card (dirty_at s \<union> busy_at s) < NBUF" "icache s dp = x" "dir_wf s x N"
    and none: "\<And>t. (\<forall>k. a \<le> k \<and> k < dir_count x \<longrightarrow> \<not> P (dir_entry s x k)) \<Longrightarrow> like s t \<Longrightarrow> Q None t"
    and some: "\<And>k t. a \<le> k \<Longrightarrow> k < dir_count x \<Longrightarrow> P (dir_entry s x k) \<Longrightarrow> (\<forall>j. a \<le> j \<and> j < k \<longrightarrow> \<not> P (dir_entry s x j)) \<Longrightarrow>
      like s t \<Longrightarrow> Q (Some (g (k * 64))) t"
  shows "wp (mloop (map (\<lambda>k. k * 64) [a..<dir_count x]) (\<lambda>off. if 2 ^ 31 \<le> off then fail err else
      bind (readi dp zero_block (of_nat off) 64) (\<lambda>(r, d). if r \<noteq> 64 then panic msg
        else if P (get_dirent d) then return (Some (g off)) else return None))) Q s"
proof (rule wp_mloop [where I = "\<lambda>i t. like s t \<and> (\<forall>j. a \<le> j \<and> j < a + i \<longrightarrow> \<not> P (dir_entry s x j))"])
  fix i t assume i: "i < length (map (\<lambda>k. k * 64) [a..<dir_count x])"
    and t: "like s t \<and> (\<forall>j. a \<le> j \<and> j < a + i \<longrightarrow> \<not> P (dir_entry s x j))"
  let ?k = "a + i"
  have kc: "?k < dir_count x" and lt: "like s t" and nth: "map (\<lambda>k. k * 64) [a..<dir_count x] ! i = ?k * 64"
    using i t by simp_all
  note l = like_fields(2,3,5) [OF lt] and ld = like_dir [OF lt]
  have small: "\<not> 2 ^ 31 \<le> ?k * 64" using entry_range(2) [OF s(4) kc] by (simp add: mult.commute)
  show "wp ((\<lambda>off. if 2 ^ 31 \<le> off then fail err else
      bind (readi dp zero_block (of_nat off) 64) (\<lambda>(r, d). if r \<noteq> 64 then panic msg
        else if P (get_dirent d) then return (Some (g off)) else return None)) (map (\<lambda>k. k * 64) [a..<dir_count x] ! i))
    (\<lambda>r u. case r of None \<Rightarrow> like s u \<and> (\<forall>j. a \<le> j \<and> j < a + Suc i \<longrightarrow> \<not> P (dir_entry s x j)) | Some v \<Rightarrow> Q (Some v) u) t"
    unfolding nth if_not_P [OF small] wp_bind
  proof (rule wp_read_entry)
    show "binv t" "card (dirty_at t \<union> busy_at t) < NBUF" "icache t dp = x" "dir_wf t x N" "?k < dir_count x"
      using s l ld like_icache [OF lt] kc by simp_all
    fix u e assume u: "like t u" and "get_dirent e = dir_entry t x ?k"
    then have e: "get_dirent e = dir_entry s x ?k" by (simp add: ld)
    have su: "like s u" by (rule like_trans [OF lt u])
    show "wp (case (64, e) of (r, d) \<Rightarrow> if r \<noteq> 64 then panic msg
        else if P (get_dirent d) then return (Some (g (?k * 64))) else return None)
      (\<lambda>r u. case r of None \<Rightarrow> like s u \<and> (\<forall>j. a \<le> j \<and> j < a + Suc i \<longrightarrow> \<not> P (dir_entry s x j)) | Some v \<Rightarrow> Q (Some v) u) u"
    proof (cases "P (dir_entry s x ?k)")
      case True
      then show ?thesis using some [OF _ kc True _ su] t by (simp add: e wp_return)
    next
      case False
      have "\<forall>j. a \<le> j \<and> j < a + Suc i \<longrightarrow> \<not> P (dir_entry s x j)"
        using t False by (metis add_Suc_right less_Suc_eq)
      then show ?thesis using False su by (simp add: e wp_return)
    qed
  qed
next
  fix t assume t: "like s t \<and> (\<forall>j. a \<le> j \<and> j < a + length (map (\<lambda>k. k * 64) [a..<dir_count x]) \<longrightarrow> \<not> P (dir_entry s x j))"
  then show "Q None t" by (intro none) auto
qed (use like_refl [OF s(1)] in auto)

text \<open>An entry written into a directory.\<close>

lemma entry_block: "(64 * k + i) div BSIZE < N" if "64 * k + 64 \<le> N * BSIZE" "i < 64" for k i N
  using that by (intro less_mult_imp_div_less) simp

lemma dirent_bytes:
  "get_dirent (fill zero_block 0 64 (put_dirent \<lparr>de_inum = w, de_name = strncpy name DIRSIZ\<rparr>)) =
    \<lparr>de_inum = w, de_name = strncpy name DIRSIZ\<rparr>"
proof -
  let ?de = "\<lparr>de_inum = w, de_name = strncpy name DIRSIZ\<rparr>"
  have "fill zero_block 0 64 (put_dirent ?de) i = put_dirent ?de i" if "i < 64" for i
    using that by (simp add: fill_def)
  then have "get16 (fill zero_block 0 64 (put_dirent ?de)) 0 = get16 (put_dirent ?de) 0" by (intro c16.get_local) auto
  moreover have "fill zero_block 0 64 (put_dirent ?de) (i + 2) = strncpy name DIRSIZ i" for i
    by (auto simp: fill_def put_dirent_def c16.put_frame zero_block_def strncpy_def DIRSIZ_def)
  moreover have "get16 (put_dirent ?de) 0 = w" by (simp add: put_dirent_def get16_put16)
  ultimately show ?thesis by (simp add: get_dirent_def)
qed

lemma written_entry:
  assumes t: "written s dp N (64 * k) 64 (put_dirent \<lparr>de_inum = w, de_name = strncpy name DIRSIZ\<rparr>) t"
    and k: "64 * k + 64 \<le> N * BSIZE" and j: "64 * j + 64 \<le> N * BSIZE"
  shows "dir_entry t (icache s dp) j =
    (if j = k then \<lparr>de_inum = w, de_name = strncpy name DIRSIZ\<rparr> else dir_entry s (icache s dp) j)"
proof (cases "j = k")
  case True
  have "fbyte t (icache s dp) (64 * k + i) = put_dirent \<lparr>de_inum = w, de_name = strncpy name DIRSIZ\<rparr> i" if "i < 64" for i
    using t entry_block [OF k that] that by (simp add: written_def)
  then have "fill zero_block 0 64 (\<lambda>i. fbyte t (icache s dp) (64 * k + i)) =
      fill zero_block 0 64 (put_dirent \<lparr>de_inum = w, de_name = strncpy name DIRSIZ\<rparr>)"
    by (auto simp: fill_def fun_eq_iff)
  then show ?thesis using True dirent_bytes by (simp add: dir_entry_def)
next
  case False
  have "fbyte t (icache s dp) (64 * j + i) = fbyte s (icache s dp) (64 * j + i)" if "i < 64" for i
  proof -
    have "\<not> (64 * k \<le> 64 * j + i \<and> 64 * j + i < 64 * k + 64)" using False that by presburger
    then show ?thesis using t entry_block [OF j that] by (auto simp: written_def)
  qed
  then have "fill zero_block 0 64 (\<lambda>i. fbyte t (icache s dp) (64 * j + i)) =
      fill zero_block 0 64 (\<lambda>i. fbyte s (icache s dp) (64 * j + i))"
    by (auto simp: fill_def fun_eq_iff)
  then show ?thesis using False by (simp add: dir_entry_def)
qed

text \<open>The entry \<open>dirlink\<close> uses: the first free one, or a new one at the end.\<close>

definition free_slot :: "'z bcache_scheme \<Rightarrow> inode \<Rightarrow> nat" where
  "free_slot s x = (case find (\<lambda>k. de_inum (dir_entry s x k) = 0) [0..<dir_count x] of Some k \<Rightarrow> k | None \<Rightarrow> dir_count x)"

lemma free_slot_none: "\<forall>k < dir_count x. de_inum (dir_entry s x k) \<noteq> 0 \<Longrightarrow> free_slot s x = dir_count x"
  by (simp add: free_slot_def find_None_iff [THEN iffD2])

lemma free_slot_some:
  assumes "k < dir_count x" "de_inum (dir_entry s x k) = 0" "\<forall>j < k. de_inum (dir_entry s x j) \<noteq> 0"
  shows "free_slot s x = k"
proof -
  have "find (\<lambda>k. de_inum (dir_entry s x k) = 0) [0..<dir_count x] = Some k"
    using assms by (auto simp: find_Some_iff intro!: exI [of _ k])
  then show ?thesis by (simp add: free_slot_def)
qed

lemma free_slot_le: "free_slot s x \<le> dir_count x"
  by (auto simp: free_slot_def dest: find_Some_in split: option.split)

lemma entry_chunk: "length (chunks (64 * k) 0 64) \<le> 1"
proof -
  have "(64 * k + 64 - 1) div BSIZE = 64 * k div BSIZE"
  proof -
    have "(64 * k) mod 4096 \<le> 4032"
    proof -
      have "(64 * k) mod (64 * 64) = 64 * (k mod 64)" by (rule mult_mod_right [symmetric])
      then show ?thesis using mod_less_divisor [of 64 k] by simp
    qed
    then show ?thesis using add_in_block(1) [of "64 * k" BSIZE 63] by (simp add: BSIZE_def)
  qed
  then show ?thesis using length_chunks [of "64 * k" 0 64] by simp
qed

lemma wp_dirlink:
  fixes s :: "'z fsst_scheme"
  assumes s: "txn_inv s" "icache s dp = x" "dir_wf s x N" "inode_apart s x N" "space s (2 + r)"
    and k: "free_slot s x = k" "64 * k + 64 \<le> N * BSIZE" and absent: "\<forall>j < dir_count x. \<not> named s x name j"
    and post: "\<And>t u. like s t \<Longrightarrow> written t dp N (64 * k) 64 (put_dirent \<lparr>de_inum = ucast ino, de_name = strncpy name DIRSIZ\<rparr>) u \<Longrightarrow> space u r \<Longrightarrow> Q 0 u"
  shows "wp (dirlink dp name ino) Q s"
proof -
  let ?de = "\<lparr>de_inum = ucast ino, de_name = strncpy name DIRSIZ\<rparr>"
  have b: "binv s" "card (dirty_at s \<union> busy_at s) < NBUF" using s(1,5) by (auto simp: txn_inv_def space_def)
  have d: "itype x = T_DIR" "idev x = ROOTDEV" "64 dvd unat (isize x)" "unat (isize x) + 64 < 2 ^ 31" "file_wf s x N"
    using s(3) dir_wf_size [OF s(3)] by (auto simp: dir_wf_def)
  have cnt: "64 * dir_count x = unat (isize x)" using d(3) by (simp add: dir_count_def)
  have kle: "64 * k \<le> unat (isize x)" using free_slot_le [of s x] k(1) cnt by (metis mult_le_mono2)
  have ku: "unat (of_nat (k * 64) :: u32) = 64 * k"
    using kle d(4) by (simp add: unat_of_nat take_bit_nat_eq_self mult.commute del: of_nat_mult)
  have fin: "wp (if 2 ^ 31 \<le> k * 64 then fail e else bind (writei dp (put_dirent ?de) (of_nat (k * 64)) 64)
      (\<lambda>r. if r \<noteq> 64 then panic ''dirlink'' else return 0)) Q t" if t: "like s t" for t e
  proof -
    note l = like_fields [OF t] and lc = like_content [OF t]
    have small: "\<not> 2 ^ 31 \<le> k * 64" using kle d(4) by simp
    have lap: "inode_apart t x N" using s(4) l(6) lc by (simp add: inode_apart_def)
    have "wp (writei dp (put_dirent ?de) (of_nat (k * 64)) 64) (\<lambda>r. wp (if r \<noteq> 64 then panic ''dirlink'' else return 0) Q) t"
    proof (rule wp_writei [where x = x and N = N and r = r], unfold ku)
      show "txn_inv t" "icache t dp = x" "idev x = ROOTDEV" "itype x \<noteq> T_DEV" "file_wf t x N" "inode_apart t x N"
        using like_txn [OF s(1) t] like_icache [OF t] s(2) d like_dir(4) [OF t] lap by (simp_all add: T_DIR_def T_DEV_def)
      show "\<not> isize x < of_nat (k * 64)" unfolding word_less_nat_alt ku using kle by simp
      show "\<not> of_nat (k * 64) + 64 < (of_nat (k * 64) :: u32)" by (rule no_wrap_small) (unfold ku, use kle d(4) in simp)
      show "64 * k + unat (64 :: u32) \<le> N * BSIZE" using k(2) by simp
      show "space t (length (chunks (64 * k) 0 (unat (64 :: u32))) + Suc r)"
      proof (rule space_mono)
        show "space t (2 + r)" using s(5) l(2,3,6) by (simp add: space_def)
      qed (use entry_chunk [of k] in simp)
      fix u assume u: "written t dp N (64 * k) (unat (64 :: u32)) (put_dirent ?de) u" "space u r"
      show "wp (if int (unat (64 :: u32)) \<noteq> 64 then panic ''dirlink'' else return 0) Q u"
        using post [OF t _ u(2)] u(1) by (simp add: wp_return)
    qed simp
    then show ?thesis using small by (simp add: wp_bind)
  qed
  show ?thesis
    unfolding dirlink_def wp_bind [of "dirlookup _ _"]
  proof (rule wp_dirlookup [OF b s(2,3)])
    fix t assume t: "like s t"
    note l = like_fields [OF t]
    let ?scan = "mloop (map (\<lambda>k. k * 64) [0..<dir_count x]) (\<lambda>off. if 2 ^ 31 \<le> off then fail (Undef ''off += sizeof(de) overflows'')
        else bind (readi dp zero_block (of_nat off) 64) (\<lambda>(r, d).
          if r \<noteq> 64 then panic ''dirlink read'' else if de_inum (get_dirent d) = 0 then return (Some off) else return None))"
    have "wp ?scan (\<lambda>r u. like s u \<and> (case r of Some off \<Rightarrow> off | None \<Rightarrow> 64 * dir_count x) = k * 64) t"
    proof (rule wp_scan [where N = N and P = "\<lambda>de. de_inum de = 0" and g = id and a = 0, unfolded id_def])
      show "binv t" "card (dirty_at t \<union> busy_at t) < NBUF" "icache t dp = x" "dir_wf t x N"
        using b s(2,3) l(2,3,5) like_icache [OF t] like_dir(5) [OF t] by simp_all
    qed (use k(1) free_slot_none [of x s] free_slot_some [of _ x s] like_trans [OF t] in \<open>auto simp: like_dir(2) [OF t]\<close>)
    then show "wp (case None of Some (ip, _) \<Rightarrow> andthen (iput ip) (return (- 1)) | None \<Rightarrow>
         bind (get_inode dp) (\<lambda>x. bind (mloop (dir_offsets (isize x)) (\<lambda>off.
           if 2 ^ 31 \<le> off then fail (Undef ''off += sizeof(de) overflows'') else
             bind (readi dp zero_block (of_nat off) 64) (\<lambda>(r, d).
             if r \<noteq> 64 then panic ''dirlink read'' else if de_inum (get_dirent d) = 0 then return (Some off) else return None))) (\<lambda>r.
         let off = (case r of Some off \<Rightarrow> off | None \<Rightarrow> 64 * length (dir_offsets (isize x))); de = ?de in
         if 2 ^ 31 \<le> off then fail (Undef ''off += sizeof(de) overflows'')
         else bind (writei dp (put_dirent de) (of_nat off) 64) (\<lambda>r. if r \<noteq> 64 then panic ''dirlink'' else return 0)))) Q t"
      unfolding option.case wp_bind [of "get_inode dp"] wp_get_inode like_icache [OF t] s(2) dir_offsets_eq [OF d(3)] wp_bind [of "mloop _ _"]
    proof (rule wp_mono)
      fix a u assume "like s u \<and> (case a of Some off \<Rightarrow> off | None \<Rightarrow> 64 * dir_count x) = k * 64"
      then have u: "like s u" and o: "(case a of Some off \<Rightarrow> off | None \<Rightarrow> 64 * length (map (\<lambda>k. k * 64) [0..<dir_count x])) = k * 64"
        by (cases a; simp)+
      show "wp (let off = (case a of Some off \<Rightarrow> off | None \<Rightarrow> 64 * length (map (\<lambda>k. k * 64) [0..<dir_count x])); de = ?de in
         if 2 ^ 31 \<le> off then fail (Undef ''off += sizeof(de) overflows'')
         else bind (writei dp (put_dirent de) (of_nat off) 64) (\<lambda>r. if r \<noteq> 64 then panic ''dirlink'' else return 0)) Q u"
        unfolding o Let_def by (rule fin [OF u])
    qed
  qed (use absent in auto)
qed

text \<open>The effect of \<open>dirlink\<close> on the directory.\<close>

definition linked_in :: "'z fsst_scheme \<Rightarrow> nat \<Rightarrow> nat \<Rightarrow> mem \<Rightarrow> u32 \<Rightarrow> 'z fsst_scheme \<Rightarrow> bool" where
  "linked_in s dp N name ino t \<longleftrightarrow> (let x = icache s dp; y = icache t dp; k = free_slot s x in
     txn_inv t \<and> dir_wf t y N \<and> dir_entry t y k = \<lparr>de_inum = ucast ino, de_name = strncpy name DIRSIZ\<rparr>
     \<and> (\<forall>j. 64 * j + 64 \<le> N * BSIZE \<and> j \<noteq> k \<longrightarrow> dir_entry t y j = dir_entry s x j)
     \<and> dir_count y = max (dir_count x) (Suc k) \<and> (\<forall>j. j \<noteq> dp \<longrightarrow> icache t j = icache s j)
     \<and> (\<forall>c. c \<notin> file_block s x ` {..<N} \<and> c \<noteq> IBLOCK (inum x) \<longrightarrow> blk t c = blk s c)
     \<and> (icache_ok (icache s) \<longrightarrow> icache_ok (icache t))
     \<and> ((\<exists>i < NINODE. iref (icache s i) = 0) \<longrightarrow> (\<exists>i < NINODE. iref (icache t i) = 0)))"

lemma fbyte_fields [simp]: "fbyte s (x\<lparr>isize := a, imtime := b\<rparr>) = fbyte s x"
  by (simp add: fbyte_def file_block_def fun_eq_iff)

lemma dir_entry_fields [simp]: "dir_entry s (x\<lparr>isize := a, imtime := b\<rparr>) = dir_entry s x"
  by (simp add: dir_entry_def fun_eq_iff)

lemma max_count:
  assumes "64 dvd unat (isize x)" "64 * k \<le> unat (isize x)" "unat (isize x) + 64 < 2 ^ 31"
  shows "unat (max (isize x) (of_nat (64 * k + 64))) = max (unat (isize x)) (64 * k + 64)"
    "max (unat (isize x)) (64 * k + 64) div 64 = max (dir_count x) (Suc k)"
    "64 dvd max (unat (isize x)) (64 * k + 64)"
proof -
  have u: "unat (of_nat (64 * k + 64) :: u32) = 64 * k + 64"
    using assms by (simp add: unat_of_nat take_bit_nat_eq_self del: of_nat_add of_nat_mult)
  show "unat (max (isize x) (of_nat (64 * k + 64))) = max (unat (isize x)) (64 * k + 64)"
    by (simp add: max_def word_le_nat_alt u del: of_nat_add of_nat_mult)
  obtain c where c: "unat (isize x) = 64 * c" using assms(1) by (auto elim!: dvdE)
  have m: "max (unat (isize x)) (64 * k + 64) = 64 * max c (Suc k)" unfolding c by (simp add: max_def)
  then show "max (unat (isize x)) (64 * k + 64) div 64 = max (dir_count x) (Suc k)" "64 dvd max (unat (isize x)) (64 * k + 64)"
    by (simp_all add: dir_count_def c)
qed

lemma linked_inI:
  fixes s :: "'z fsst_scheme"
  assumes t: "like s t" "written t dp N (64 * free_slot s x) 64 (put_dirent \<lparr>de_inum = ucast ino, de_name = strncpy name DIRSIZ\<rparr>) u"
    and x: "icache s dp = x" "dir_wf s x N" "64 * free_slot s x + 64 \<le> N * BSIZE"
  shows "linked_in s dp N name ino u"
proof -
  let ?k = "free_slot s x"
  have ic: "icache t = icache s" by (rule like_icache [OF t(1)])
  obtain now where c: "icache u = (icache s)(dp := x\<lparr>isize := max (isize x) (of_nat (64 * ?k + 64)), imtime := now\<rparr>)"
    using t(2) ic x(1) by (auto simp: written_def)
  have d: "64 dvd unat (isize x)" "unat (isize x) + 64 < 2 ^ 31" "itype x = T_DIR" "idev x = ROOTDEV" "unat (isize x) \<le> N * BSIZE"
    using x(2) dir_wf_size [OF x(2)] by (auto simp: dir_wf_def)
  have kle: "64 * ?k \<le> unat (isize x)"
    using mult_le_mono2 [OF free_slot_le [of s x], of 64] d(1) by (simp add: dir_count_def)
  note mc = max_count [OF d(1) kle d(2)]
  have w: "file_wf u x N" "txn_inv u" using t(2) ic x(1) by (simp_all add: written_def)
  have e: "dir_entry u x j = (if j = ?k then \<lparr>de_inum = ucast ino, de_name = strncpy name DIRSIZ\<rparr> else dir_entry s x j)"
    if "64 * j + 64 \<le> N * BSIZE" for j
    using written_entry [OF t(2) x(3) that] ic x(1) like_dir(2) [OF t(1)] by simp
  have blk: "blk u c = blk s c" if "c \<notin> file_block s x ` {..<N}" "c \<noteq> IBLOCK (inum x)" for c
  proof -
    have "file_block t x ` {..<N} = file_block s x ` {..<N}" by (simp add: like_content(1) [OF t(1)])
    then show ?thesis using t(2) that ic x(1) like_fields(1) [OF t(1)] by (simp add: written_def)
  qed
  have ok: "icache_ok (icache u)" if "icache_ok (icache s)"
    unfolding c
  proof (cases "dp < NINODE")
    case True
    then show "icache_ok ((icache s)(dp := x\<lparr>isize := max (isize x) (of_nat (64 * ?k + 64)), imtime := now\<rparr>))"
      using that x(1) by (intro icache_ok_upd) (auto simp: icache_ok_def)
  next
    case False
    then show "icache_ok ((icache s)(dp := x\<lparr>isize := max (isize x) (of_nat (64 * ?k + 64)), imtime := now\<rparr>))"
      using that unfolding icache_ok_def in_use_def by (auto split: if_splits)
  qed
  have "dir_wf u (icache u dp) N"
    using w d x(3) kle mc(1,3) by (simp add: c dir_wf_def)
  moreover have "dir_count (icache u dp) = max (dir_count x) (Suc ?k)" using mc(1,2) by (simp add: c dir_count_def)
  moreover have "\<exists>i < NINODE. iref (icache u i) = 0" if "\<exists>i < NINODE. iref (icache s i) = 0"
    using that x(1) by (auto simp: c)
  ultimately show ?thesis
    using w e [OF x(3)] e blk ok unfolding linked_in_def Let_def x(1) by (simp add: c)
qed

lemma linked_in_named:
  assumes l: "linked_in s dp N name ino t" and x: "icache s dp = x" "dir_wf s x N" "64 * free_slot s x + 64 \<le> N * BSIZE"
    and absent: "\<forall>j < dir_count x. \<not> named s x name j" and ino: "ucast ino \<noteq> (0 :: u16)"
  shows "\<forall>j < dir_count (icache t dp). named t (icache t dp) name j \<longleftrightarrow> j = free_slot s x"
proof (intro allI impI)
  fix j assume j: "j < dir_count (icache t dp)"
  have l': "dir_entry t (icache t dp) (free_slot s x) = \<lparr>de_inum = ucast ino, de_name = strncpy name DIRSIZ\<rparr>"
    "\<And>j. 64 * j + 64 \<le> N * BSIZE \<Longrightarrow> j \<noteq> free_slot s x \<Longrightarrow> dir_entry t (icache t dp) j = dir_entry s x j"
    "dir_count (icache t dp) = max (dir_count x) (Suc (free_slot s x))"
    using l x(1) by (auto simp: linked_in_def Let_def)
  show "named t (icache t dp) name j \<longleftrightarrow> j = free_slot s x"
  proof (cases "j = free_slot s x")
    case True
    then show ?thesis using l'(1) ino by (simp add: named_def cname_strncpy)
  next
    case False
    then have jc: "j < dir_count x" using j l'(3) free_slot_le [of s x] by (auto simp: max_def split: if_splits)
    then have "64 * j + 64 \<le> N * BSIZE" using entry_range(1) [OF x(2) jc] x(2) by (simp add: dir_wf_def)
    then show ?thesis using l'(2) [OF _ False] absent jc False by (simp add: named_def)
  qed
qed

section \<open>Properties\<close>

text \<open>\<open>namecmp\<close> is equality of C strings: it is zero exactly if the first \<open>DIRSIZ\<close> bytes, up to a NUL, agree. And
  the name \<open>strncpy\<close> stores in a directory entry is equal to the one it was given.\<close>

theorem namecmp_equality:
  "(namecmp a b = 0 \<longleftrightarrow> cname a = cname b) \<and> namecmp (strncpy a DIRSIZ) a = 0"
  by (simp add: namecmp_iff cname_strncpy)

text \<open>C26. \<open>skipelem\<close> cuts a path at its slashes: it fails exactly if the path has no element, and otherwise leaves in
  the buffer the first element (its first \<open>DIRSIZ\<close> bytes) and returns a shorter path that has the remaining elements
  and is empty if there are none.\<close>

theorem skipelem_elems:
  assumes "0 \<notin> set p"
  shows "case skipelem p name of
      None \<Rightarrow> elems p = []
    | Some (rest, name') \<Rightarrow> elems p \<noteq> [] \<and> elems rest = tl (elems p) \<and> cname name' = take DIRSIZ (hd (elems p))
        \<and> length rest < length p \<and> (deref rest = 0 \<longleftrightarrow> elems rest = [])"
proof (cases "skipelem p name")
  case None
  then have "elems (skip_slashes p) = []" using skipelem_None [OF assms] by (simp add: elems_def)
  then show ?thesis using None by simp
next
  case (Some r)
  obtain rest name' where r: "r = (rest, name')" by (cases r)
  note sk = skipelem_Some [OF assms Some [unfolded r]]
  let ?e = "take (elem_len (skip_slashes p)) (skip_slashes p)"
  have "0 \<notin> set ?e" using assms skip_slashes_props(1) [of p] by (auto dest: in_set_takeD)
  from cname_elem [OF this, of name] have nm: "cname name' = take DIRSIZ ?e" unfolding sk(5) Let_def .
  have "deref rest = 0 \<longleftrightarrow> elems rest = []"
  proof (cases rest)
    case Nil
    then show ?thesis by (simp add: deref_def elems_def)
  next
    case (Cons c cs)
    then have "hd rest \<noteq> SLASH" using sk(2) skip_slashes_props(3) by (metis list.discI)
    then show ?thesis using elems_first(1) [of rest] sk(4) Cons by (auto simp: deref_def)
  qed
  then show ?thesis using Some r sk(1,3) nm by simp
qed

theorem skipelem_elems_witness:
  "skipelem [47, 97, 47, 98] zero_block \<noteq> None \<and> elems [47, 97, 47, 98] = [[97], [98]]"
proof -
  have e: "elems [47, 97, 47, 98] = [[97], [98]]" by (simp add: elems_def SLASH_def)
  have "(0 :: byte) \<notin> set [47, 97, 47, 98]" by simp
  from skipelem_elems [OF this, of zero_block] e show ?thesis by (auto split: option.splits)
qed

text \<open>The walk of \<open>namex\<close> along a path ends: more iterations than the length of the path never change its
  result, so the fuel of the model is enough for every path.\<close>

theorem namex_terminates:
  assumes "0 \<notin> set path"
  shows "namex_loop (Suc (length path) + k) ip path np name s = namex_loop (Suc (length path)) ip path np name s"
  by (rule fun_cong, rule namex_loop_more) (use assms in auto)

theorem namex_terminates_witness:
  "namex_loop 10 0 [47] False zero_block (small_inodes (\<lambda>_. zero_block)) = Ok (Some (0, zero_block)) (small_inodes (\<lambda>_. zero_block))"
proof -
  have "(0 :: byte) \<notin> set [47]" by simp
  from namex_terminates [OF this, of 8 0 False zero_block "small_inodes (\<lambda>_. zero_block)"]
  show ?thesis by (simp add: skipelem_def skip_slashes_def SLASH_def deref_def Let_def return_def numeral_eq_Suc)
qed

text \<open>\<open>dirlookup\<close> returns the inode of the first entry in use with the name, and the offset of that entry, or
  nothing if there is none; it changes no block.\<close>

theorem dirlookup_finds:
  fixes s :: "'z fsst_scheme"
  assumes "binv s" "card (dirty_at s \<union> busy_at s) < NBUF" "icache s dp = x" "dir_wf s x N"
    and "icache_ok (icache s)" "\<exists>i < NINODE. iref (icache s i) = 0"
  shows "\<exists>r t. dirlookup dp name s = Ok r t \<and> blk t = blk s \<and> icache_ok (icache t)
    \<and> (case find (named s x name) [0..<dir_count x] of
         None \<Rightarrow> r = None \<and> icache t = icache s
       | Some k \<Rightarrow> \<exists>ip. r = Some (ip, of_nat (k * 64)) \<and> in_use (icache t) ROOTDEV (ucast (de_inum (dir_entry s x k))) ip)"
proof -
  let ?Q = "\<lambda>r t. blk t = blk s \<and> icache_ok (icache t) \<and> (case find (named s x name) [0..<dir_count x] of
         None \<Rightarrow> r = None \<and> icache t = icache s
       | Some k \<Rightarrow> \<exists>ip. r = Some (ip, of_nat (k * 64)) \<and> in_use (icache t) ROOTDEV (ucast (de_inum (dir_entry s x k))) ip)"
  have "wp (dirlookup dp name) ?Q s"
  proof (rule wp_dirlookup [OF assms(1-4)])
    fix t assume n: "\<forall>k < dir_count x. \<not> named s x name k" and t: "like s t"
    have "find (named s x name) [0..<dir_count x] = None" using n by (simp add: find_None_iff)
    then show "?Q None t" using like_fields(1) [OF t] like_icache [OF t] assms(5) by simp
  next
    fix k t assume k: "k < dir_count x" "named s x name k" "\<forall>j < k. \<not> named s x name j" and t: "like s t"
    have f: "find (named s x name) [0..<dir_count x] = Some k"
      using k by (auto simp: find_Some_iff intro!: exI [of _ k])
    show "wp (iget ROOTDEV (ucast (de_inum (dir_entry s x k)))) (\<lambda>ip. ?Q (Some (ip, of_nat (k * 64)))) t"
      unfolding f option.case
      by (rule wp_iget) (use like_fields(1) [OF t] like_icache [OF t] assms(5,6) in auto)
  qed
  then show ?thesis by (auto dest!: wp_Ok)
qed

definition name_a :: mem where
  "name_a = zero_block(0 := 97)"

lemma cname_name_a: "cname name_a = [97]"
  by (simp add: cname_def DIRSIZ_def name_a_def zero_block_def upt_rec [of 0] upt_rec [of "Suc 0"])

definition dir_disk :: "u32 \<Rightarrow> block" where
  "dir_disk = (\<lambda>_. zero_block)(5 := copy_mem zero_block 64 (put_dirent \<lparr>de_inum = 2, de_name = strncpy name_a DIRSIZ\<rparr>) 0 64)"

lemma small_dir_block: "file_block s dir_inode 0 = 5"
  by (simp add: file_block_def dir_inode_def NDIRECT_def)

lemma small_dir_fields: "idev dir_inode = ROOTDEV" "itype dir_inode = T_DIR" "isize dir_inode = 128" "inum dir_inode = 1" "dir_count dir_inode = 2"
  by (simp_all add: dir_inode_def dir_count_def)

lemma small_dir_wf: "dir_wf (small_inodes e) dir_inode 1" "inode_apart (small_inodes e) dir_inode 1"
  by (auto simp: dir_wf_def small_dir_fields file_wf_def mapped_def small_dir_block place_ok_def small_inodes_ok small_log_def in_log_def
      layout_consts inode_apart_def IBLOCK_2 inj_on_def)

lemma small_dir_bytes: "i < 4096 \<Longrightarrow> fbyte (small_inodes dir_disk) dir_inode i = dir_disk 5 i"
  by (simp add: fbyte_def BSIZE_def small_dir_block small_inodes_ok small_disk_def)

lemma dir_disk_5: "dir_disk 5 i = (if 64 \<le> i \<and> i < 128 then put_dirent \<lparr>de_inum = 2, de_name = strncpy name_a DIRSIZ\<rparr> (i - 64) else 0)"
  by (simp add: dir_disk_def copy_mem_def zero_block_def)

lemma small_dir_entries:
  "dir_entry (small_inodes dir_disk) dir_inode (Suc 0) = \<lparr>de_inum = 2, de_name = strncpy name_a DIRSIZ\<rparr>"
  "de_inum (dir_entry (small_inodes dir_disk) dir_inode 0) = 0"
proof -
  let ?de = "\<lparr>de_inum = 2, de_name = strncpy name_a DIRSIZ\<rparr>"
  have "fill zero_block 0 64 (\<lambda>i. fbyte (small_inodes dir_disk) dir_inode (64 * Suc 0 + i)) = fill zero_block 0 64 (put_dirent ?de)"
    by (auto simp: fill_def fun_eq_iff small_dir_bytes dir_disk_5)
  then show "dir_entry (small_inodes dir_disk) dir_inode (Suc 0) = ?de" by (simp only: dir_entry_def dirent_bytes)
  have "fill zero_block 0 64 (\<lambda>i. fbyte (small_inodes dir_disk) dir_inode (64 * 0 + i)) = zero_block"
    by (auto simp: fill_def fun_eq_iff small_dir_bytes dir_disk_5 zero_block_def)
  then show "de_inum (dir_entry (small_inodes dir_disk) dir_inode 0) = 0"
    by (simp only: dir_entry_def) (simp add: get_dirent_def get16_def zero_block_def)
qed

lemma small_dir_named: "named (small_inodes dir_disk) dir_inode name_a k \<longleftrightarrow> k = 1" if "k < 2"
proof -
  have "k = 0 \<or> k = 1" using that by auto
  then show ?thesis using small_dir_entries by (auto simp: named_def cname_strncpy)
qed

lemma small_dir_cache:
  "icache (small_inodes e) 0 = dir_inode" "\<exists>i < NINODE. iref (icache (small_inodes e) i) = 0" "binv (small_inodes e)"
  "card (dirty_at (small_inodes e) \<union> busy_at (small_inodes e)) < NBUF"
  using small_inodes_ok(1) [of e]
  by (auto simp: small_inodes_ok txn_inv_def NBUF_def NINODE_def free_inode_def intro!: exI [of _ 5])

lemma small_dir_space: "space (small_inodes e) 2" "space (small_inodes e) 3"
  by (simp_all add: space_def small_inodes_ok log_room_def small_log_def NBUF_def)

lemma small_dir_slot: "free_slot (small_inodes dir_disk) dir_inode = 0"
  by (rule free_slot_some) (simp_all add: small_dir_fields small_dir_entries)

lemma small_dir_absent: "\<forall>j < dir_count dir_inode. \<not> named (small_inodes dir_disk) dir_inode (name_a(1 := 98)) j"
proof -
  have "cname (name_a(1 := 98)) \<noteq> cname name_a"
    by (simp add: cname_def DIRSIZ_def name_a_def zero_block_def upt_rec [of 0] upt_rec [of "Suc 0"])
  then show ?thesis
    using small_dir_entries by (auto simp: small_dir_fields named_def cname_strncpy less_Suc_eq numeral_2_eq_2)
qed

theorem dirlookup_finds_witness:
  "\<exists>ip t. dirlookup 0 name_a (small_inodes dir_disk) = Ok (Some (ip, 64)) t \<and> in_use (icache t) ROOTDEV 2 ip"
proof -
  have "find (named (small_inodes dir_disk) dir_inode name_a) [0..<dir_count dir_inode] = Some 1"
    by (rule find_unique) (auto simp: small_dir_fields small_dir_named)
  then show ?thesis
    using dirlookup_finds [OF small_dir_cache(3,4,1) small_dir_wf(1) small_icache_ok small_dir_cache(2), where name = name_a, of dir_disk]
    by (auto simp: small_dir_entries)
qed

text \<open>C17. \<open>dirlink\<close> adds an entry: if the name is not in the directory and there is a block for the entry, it puts the inode
  number and the name into the first free entry, or a new one at the end, and leaves every other entry as it was.\<close>

theorem dirlink_adds:
  fixes s :: "'z fsst_scheme"
  assumes "txn_inv s" "icache s dp = x" "dir_wf s x N" "inode_apart s x N" "space s 2"
    and "64 * free_slot s x + 64 \<le> N * BSIZE" "\<forall>j < dir_count x. \<not> named s x name j"
  shows "\<exists>t. dirlink dp name ino s = Ok 0 t \<and> txn_inv t
    \<and> dir_entry t (icache t dp) (free_slot s x) = \<lparr>de_inum = ucast ino, de_name = strncpy name DIRSIZ\<rparr>
    \<and> (\<forall>j. 64 * j + 64 \<le> N * BSIZE \<and> j \<noteq> free_slot s x \<longrightarrow> dir_entry t (icache t dp) j = dir_entry s x j)
    \<and> dir_count (icache t dp) = max (dir_count x) (Suc (free_slot s x)) \<and> (\<forall>j. j \<noteq> dp \<longrightarrow> icache t j = icache s j)
    \<and> (\<forall>c. c \<notin> file_block s x ` {..<N} \<and> c \<noteq> IBLOCK (inum x) \<longrightarrow> blk t c = blk s c)"
proof -
  have "wp (dirlink dp name ino) (\<lambda>r t. r = 0 \<and> linked_in s dp N name ino t) s"
    by (rule wp_dirlink [OF assms(1-4), where r = 0]) (use assms(2-7) in \<open>auto intro: linked_inI\<close>)
  then obtain t where "dirlink dp name ino s = Ok 0 t" "linked_in s dp N name ino t" by (auto dest!: wp_Ok)
  then show ?thesis using assms(2) by (auto simp: linked_in_def Let_def)
qed

theorem dirlink_adds_witness:
  "\<exists>t. dirlink 0 (name_a(1 := 98)) 7 (small_inodes dir_disk) = Ok 0 t
     \<and> dir_entry t (icache t 0) 0 = \<lparr>de_inum = 7, de_name = strncpy (name_a(1 := 98)) DIRSIZ\<rparr>"
  using dirlink_adds [OF small_inodes_ok(1) small_dir_cache(1) small_dir_wf small_dir_space(1), where name = "name_a(1 := 98)" and ino = 7, of dir_disk]
    small_dir_absent small_dir_slot by (auto simp: BSIZE_def)

text \<open>C18. Insert and lookup: after \<open>dirlink\<close> has added a name, \<open>dirlookup\<close> of that name finds the inode number it was
  given.\<close>

theorem dirlink_dirlookup:
  fixes s :: "'z fsst_scheme"
  assumes "txn_inv s" "icache s dp = x" "dir_wf s x N" "inode_apart s x N" "space s 3"
    and "64 * free_slot s x + 64 \<le> N * BSIZE" "\<forall>j < dir_count x. \<not> named s x name j"
    and "icache_ok (icache s)" "\<exists>i < NINODE. iref (icache s i) = 0" "ucast ino \<noteq> (0 :: u16)"
  shows "\<exists>ip t. andthen (dirlink dp name ino) (dirlookup dp name) s = Ok (Some (ip, of_nat (free_slot s x * 64))) t
    \<and> in_use (icache t) ROOTDEV (ucast (ucast ino :: u16)) ip"
proof -
  let ?k = "free_slot s x"
  have "wp (andthen (dirlink dp name ino) (dirlookup dp name)) (\<lambda>r t. \<exists>ip. r = Some (ip, of_nat (?k * 64))
    \<and> in_use (icache t) ROOTDEV (ucast (ucast ino :: u16)) ip) s"
    unfolding wp_andthen
  proof (rule wp_dirlink [OF assms(1-4), where r = 1])
    fix t0 t assume "like s t0" "written t0 dp N (64 * ?k) 64 (put_dirent \<lparr>de_inum = ucast ino, de_name = strncpy name DIRSIZ\<rparr>) t"
      and sp: "space t 1"
    then have l: "linked_in s dp N name ino t" using linked_inI assms(2,3,6) by blast
    let ?y = "icache t dp"
    note n = linked_in_named [OF l assms(2,3,6,7,10)]
    have kc: "?k < dir_count ?y" using l assms(2) by (simp add: linked_in_def Let_def)
    show "wp (dirlookup dp name) (\<lambda>r t. \<exists>ip. r = Some (ip, of_nat (?k * 64)) \<and> in_use (icache t) ROOTDEV (ucast (ucast ino :: u16)) ip) t"
    proof (rule wp_dirlookup [where x = ?y and N = N])
      show "binv t" "card (dirty_at t \<union> busy_at t) < NBUF" "icache t dp = ?y" "dir_wf t ?y N"
        using l sp by (auto simp: linked_in_def Let_def txn_inv_def space_def)
    next
      fix u assume "\<forall>k < dir_count ?y. \<not> named t ?y name k"
      then show "\<exists>ip. None = Some (ip, of_nat (?k * 64)) \<and> in_use (icache u) ROOTDEV (ucast (ucast ino :: u16)) ip"
        using n kc by auto
    next
      fix k u assume k: "k < dir_count ?y" "named t ?y name k" and u: "like t u"
      then have "k = ?k" using n by simp
      moreover have "de_inum (dir_entry t ?y ?k) = ucast ino" using l assms(2) by (simp add: linked_in_def Let_def)
      moreover have "icache_ok (icache u)" "\<exists>i < NINODE. iref (icache u i) = 0"
        using l like_icache [OF u] assms(8,9) by (auto simp: linked_in_def Let_def)
      ultimately show "wp (iget ROOTDEV (ucast (de_inum (dir_entry t ?y k)))) (\<lambda>ip r. \<exists>ipa. Some (ip, of_nat (k * 64)) = Some (ipa, of_nat (?k * 64))
          \<and> in_use (icache r) ROOTDEV (ucast (ucast ino :: u16)) ipa) u"
        by (auto intro!: wp_iget)
    qed
  qed (use assms in auto)
  then show ?thesis by (auto dest!: wp_Ok)
qed

theorem dirlink_dirlookup_witness:
  "\<exists>ip t. andthen (dirlink 0 (name_a(1 := 98)) 7) (dirlookup 0 (name_a(1 := 98))) (small_inodes dir_disk) = Ok (Some (ip, 0)) t
     \<and> in_use (icache t) ROOTDEV 7 ip"
  using dirlink_dirlookup [OF small_inodes_ok(1) small_dir_cache(1) small_dir_wf small_dir_space(2), where name = "name_a(1 := 98)" and ino = 7, of dir_disk]
    small_dir_absent small_dir_slot small_icache_ok small_dir_cache(2) by (auto simp: BSIZE_def)

end
