(* ===== verification/Xv6_File.thy ===== *)
theory Xv6_File
  imports Xv6_Lookup
begin

text \<open>
  Open files of \<open>xv6/file.c\<close>: the table of \<open>struct file\<close> with its reference counts, and the
  operations on an open file. A \<open>struct file*\<close> is the index of the entry. The pipe operations
  are the stubs of \<open>xv6/pipe.c\<close>: no pipe can be made, reading and writing one fails.
\<close>

section \<open>State (file.h, file.c)\<close>

datatype fdtype = FD_NONE | FD_PIPE | FD_INODE

record ofile =
  ftype :: fdtype
  fref :: int
  readable :: bool
  writable :: bool
  fip :: nat
  foff :: u32

definition NFILE :: nat where
  "NFILE = 100"

record filest = fsst +
  ftable :: "nat \<Rightarrow> ofile"

definition get_file :: "nat \<Rightarrow> ('z filest_scheme, ofile) xm" where
  "get_file f = gets (\<lambda>s. ftable s f)"

definition upd_file :: "nat \<Rightarrow> (ofile \<Rightarrow> ofile) \<Rightarrow> ('z filest_scheme, unit) xm" where
  "upd_file f g = modify (\<lambda>s. s\<lparr>ftable := (ftable s)(f := g (ftable s f))\<rparr>)"

section \<open>Pipes (pipe.c)\<close>

definition pipealloc :: "('z filest_scheme, int) xm" where
  "pipealloc = return (- 1)"

definition pipeclose :: "('z filest_scheme, unit) xm" where
  "pipeclose = return ()"

definition piperead :: "int \<Rightarrow> ('z filest_scheme, int) xm" where
  "piperead n = return (- 1)"

definition pipewrite :: "int \<Rightarrow> ('z filest_scheme, int) xm" where
  "pipewrite n = return (- 1)"

section \<open>Operations\<close>

definition fileinit :: "('z filest_scheme, unit) xm" where
  "fileinit = return ()"

definition filealloc :: "('z filest_scheme, nat option) xm" where
  "filealloc =
     bind (gets ftable) (\<lambda>T.
     case find (\<lambda>f. fref (T f) = 0) [0..<NFILE] of
       Some f \<Rightarrow> andthen (upd_file f (\<lambda>x. x\<lparr>fref := 1\<rparr>)) (return (Some f))
     | None \<Rightarrow> return None)"

definition filedup :: "nat \<Rightarrow> ('z filest_scheme, nat) xm" where
  "filedup f =
     bind (get_file f) (\<lambda>x.
     if fref x < 1 then panic ''filedup''
     else andthen (upd_file f (\<lambda>x. x\<lparr>fref := fref x + 1\<rparr>)) (return f))"

definition fileclose :: "nat \<Rightarrow> ('z filest_scheme, unit) xm" where
  "fileclose f =
     bind (get_file f) (\<lambda>x.
     if fref x < 1 then panic ''fileclose''
     else if 0 < fref x - 1 then upd_file f (\<lambda>x. x\<lparr>fref := fref x - 1\<rparr>)
     else
       andthen (upd_file f (\<lambda>x. x\<lparr>fref := 0, ftype := FD_NONE\<rparr>))
         (case ftype x of
            FD_PIPE \<Rightarrow> pipeclose
          | FD_INODE \<Rightarrow> andthen begin_op (andthen (iput (fip x)) end_op)
          | FD_NONE \<Rightarrow> return ()))"

definition zero_stat :: stat where
  "zero_stat = \<lparr>st_type = 0, st_dev = 0, st_ino = 0, st_nlink = 0, st_size = 0,
     st_atime = 0, st_mtime = 0, st_ctime = 0\<rparr>"

text \<open>The result and the content of \<open>*st\<close>.\<close>

definition filestat :: "nat \<Rightarrow> stat \<Rightarrow> ('z filest_scheme, int \<times> stat) xm" where
  "filestat f st =
     bind (get_file f) (\<lambda>x.
     if ftype x = FD_INODE then
       andthen (ilock (fip x)) (
       bind (stati (fip x)) (\<lambda>st.
       andthen (iunlock (fip x))
         (return (0, st))))
     else return (- 1, st))"

definition fileread :: "nat \<Rightarrow> mem \<Rightarrow> int \<Rightarrow> ('z filest_scheme, int \<times> mem) xm" where
  "fileread f addr n =
     bind (get_file f) (\<lambda>x.
     if \<not> readable x then return (- 1, addr)
     else case ftype x of
       FD_PIPE \<Rightarrow> bind (piperead n) (\<lambda>r. return (r, addr))
     | FD_INODE \<Rightarrow>
         andthen (ilock (fip x)) (
         bind (readi (fip x) addr (foff x) (word_of_int n)) (\<lambda>(r, addr).
         andthen (unless (r \<le> 0) (upd_file f (\<lambda>x. x\<lparr>foff := foff x + word_of_int r\<rparr>))) (
         andthen (iunlock (fip x))
           (return (r, addr)))))
     | FD_NONE \<Rightarrow> panic ''fileread'')"

text \<open>\<open>((LOGSIZE-1-1-2) / 2) * 512\<close>, and the pieces \<open>(i, n1)\<close> the loop of \<open>filewrite\<close> cuts
  \<open>n\<close> bytes into.\<close>

definition max_write :: nat where
  "max_write = ((LOGSIZE - 1 - 1 - 2) div 2) * 512"

definition pieces :: "nat \<Rightarrow> (nat \<times> nat) list" where
  "pieces n = map (\<lambda>k. (k * max_write, min max_write (n - k * max_write)))
     [0..<(n + max_write - 1) div max_write]"

text \<open>The body of that loop for one piece; a negative result of \<open>writei\<close> leaves the loop.\<close>

definition write_piece :: "nat \<Rightarrow> mem \<Rightarrow> nat \<times> nat \<Rightarrow> ('z filest_scheme, unit option) xm" where
  "write_piece f addr piece =
     (let (i, n1) = piece in
      andthen begin_op (
      bind (get_file f) (\<lambda>x.
      andthen (ilock (fip x)) (
      bind (writei (fip x) (\<lambda>j. addr (i + j)) (foff x) (of_nat n1)) (\<lambda>r.
      andthen (unless (r \<le> 0) (upd_file f (\<lambda>x. x\<lparr>foff := foff x + word_of_int r\<rparr>))) (
      andthen (iunlock (fip x)) (
      andthen end_op (
        if r < 0 then return (Some ())
        else if r \<noteq> int n1 then panic ''short filewrite''
        else return None))))))))"

definition filewrite :: "nat \<Rightarrow> mem \<Rightarrow> int \<Rightarrow> ('z filest_scheme, int) xm" where
  "filewrite f addr n =
     bind (get_file f) (\<lambda>x.
     if \<not> writable x then return (- 1)
     else case ftype x of
       FD_PIPE \<Rightarrow> pipewrite n
     | FD_INODE \<Rightarrow>
         bind (get_inode (fip x)) (\<lambda>ip.
         andthen (unless (foff x \<le> isize ip) (
           andthen begin_op (
           andthen (ilock (fip x)) (
           bind (get_inode (fip x)) (\<lambda>ip'.
           andthen (zeroi (fip x) (isize ip') (foff x - isize ip)) (
           andthen (iunlock (fip x))
             end_op)))))) (
         bind (mloop (pieces (nat n)) (write_piece f addr)) (\<lambda>r.
         return (if r = None \<and> 0 \<le> n then n else - 1))))
     | FD_NONE \<Rightarrow> panic ''filewrite'')"

end
