(* ===== verification/Xv6_Sysfile.thy ===== *)
theory Xv6_Sysfile
  imports Xv6_File
begin

text \<open>
  The system calls of \<open>xv6/sysfile.c\<close>, each with its transaction. A file handle \<open>fh\<close> is the
  \<open>struct file*\<close> as an option, a path is the bytes of the C string.
\<close>

section \<open>Creating and opening\<close>

definition O_RDONLY :: u32 where
  "O_RDONLY = 0"

definition O_WRONLY :: u32 where
  "O_WRONLY = 1"

definition O_RDWR :: u32 where
  "O_RDWR = 2"

definition O_CREATE :: u32 where
  "O_CREATE = 512"

text \<open>A string literal in memory.\<close>

definition cstr :: "byte list \<Rightarrow> mem" where
  "cstr bs = (\<lambda>i. if i < length bs then bs ! i else 0)"

definition DOT :: mem where
  "DOT = cstr [46]"

definition DOTDOT :: mem where
  "DOTDOT = cstr [46, 46]"

text \<open>The part of \<open>create\<close> that makes the new inode; \<open>ialloc\<close> never returns a null pointer.\<close>

definition create_new :: "nat \<Rightarrow> mem \<Rightarrow> u16 \<Rightarrow> u16 \<Rightarrow> u16 \<Rightarrow> ('z fsst_scheme, nat) xm" where
  "create_new dp name type major minor =
     bind (get_inode dp) (\<lambda>d.
     bind (ialloc (idev d) type) (\<lambda>ip.
     andthen (ilock ip) (
     andthen (upd_inode ip (\<lambda>x. x\<lparr>imajor := major, iminor := minor, inlink := 1\<rparr>)) (
     bind unix_time (\<lambda>now.
     andthen (upd_inode ip (\<lambda>x. x\<lparr>iatime := now, imtime := now, ictime := now\<rparr>)) (
     andthen (iupdate ip) (
     bind (get_inode ip) (\<lambda>x.
     andthen (unless (type \<noteq> T_DIR) (
       andthen (upd_inode dp (\<lambda>x. x\<lparr>inlink := inlink x + 1\<rparr>)) (
       andthen (iupdate dp) (
       bind (dirlink ip DOT (inum x)) (\<lambda>r1.
       if r1 < 0 then panic ''create dots''
       else
         bind (dirlink ip DOTDOT (inum d)) (\<lambda>r2.
         if r2 < 0 then panic ''create dots'' else return ())))))) (
     bind (dirlink dp name (inum x)) (\<lambda>r.
     if r < 0 then panic ''create: dirlink''
     else
       andthen (iunlockput dp)
         (return ip)))))))))))"

definition create :: "byte list \<Rightarrow> u16 \<Rightarrow> u16 \<Rightarrow> u16 \<Rightarrow> ('z fsst_scheme, nat option) xm" where
  "create path type major minor =
     bind (nameiparent path zero_block) (\<lambda>r.
     case r of
       None \<Rightarrow> return None
     | Some (dp, name) \<Rightarrow>
         andthen (ilock dp) (
         bind (dirlookup dp name) (\<lambda>r.
         case r of
           Some (ip, off) \<Rightarrow>
             andthen (iunlockput dp) (
             andthen (ilock ip) (
             bind (get_inode ip) (\<lambda>x.
             if type = T_FILE \<and> itype x = T_FILE then return (Some ip)
             else andthen (iunlockput ip) (return None))))
         | None \<Rightarrow> bind (create_new dp name type major minor) (\<lambda>ip. return (Some ip)))))"

definition sys_open :: "byte list \<Rightarrow> u32 \<Rightarrow> ('z filest_scheme, nat option) xm" where
  "sys_open path omode =
     andthen begin_op (
     bind (if omode AND O_CREATE \<noteq> 0 then create path T_FILE 0 0
           else
             bind (namei path) (\<lambda>r.
             case r of
               None \<Rightarrow> return None
             | Some ip \<Rightarrow>
                 andthen (ilock ip) (
                 bind (get_inode ip) (\<lambda>x.
                 if itype x = T_DIR \<and> omode \<noteq> O_RDONLY then
                   andthen (iunlockput ip) (return None)
                 else return (Some ip))))) (\<lambda>r.
     case r of
       None \<Rightarrow> andthen end_op (return None)
     | Some ip \<Rightarrow>
         bind filealloc (\<lambda>r.
         case r of
           None \<Rightarrow> andthen (iunlockput ip) (andthen end_op (return None))
         | Some f \<Rightarrow>
             andthen (iunlock ip) (
             andthen end_op (
             andthen (upd_file f (\<lambda>x. x\<lparr>ftype := FD_INODE, fip := ip, foff := 0,
                 readable := (omode AND O_WRONLY = 0),
                 writable := (omode AND O_WRONLY \<noteq> 0 \<or> omode AND O_RDWR \<noteq> 0)\<rparr>))
               (return (Some f)))))))"

section \<open>Operations on handles\<close>

definition sys_fileclose :: "nat option \<Rightarrow> ('z filest_scheme, int) xm" where
  "sys_fileclose fh = (case fh of
     None \<Rightarrow> fail (Undef ''fileclose of a null pointer'')
   | Some f \<Rightarrow> andthen (fileclose f) (return 0))"

text \<open>The \<open>size_t\<close> argument becomes the \<open>int\<close> of \<open>fileread\<close> and \<open>filewrite\<close>.\<close>

definition int_of_size :: "nat \<Rightarrow> int" where
  "int_of_size sz = sint (of_nat sz :: u32)"

definition sys_read :: "nat option \<Rightarrow> mem \<Rightarrow> nat \<Rightarrow> u32 \<Rightarrow> ('z filest_scheme, int \<times> mem) xm" where
  "sys_read fh buf sz off = (case fh of
     None \<Rightarrow> return (- 1, buf)
   | Some f \<Rightarrow>
       andthen (upd_file f (\<lambda>x. x\<lparr>foff := off\<rparr>))
         (fileread f buf (int_of_size sz)))"

definition sys_write :: "nat option \<Rightarrow> mem \<Rightarrow> nat \<Rightarrow> u32 \<Rightarrow> ('z filest_scheme, int) xm" where
  "sys_write fh buf sz off = (case fh of
     None \<Rightarrow> return (- 1)
   | Some f \<Rightarrow>
       andthen (upd_file f (\<lambda>x. x\<lparr>foff := off\<rparr>))
         (filewrite f buf (int_of_size sz)))"

definition sys_fstat :: "byte list \<Rightarrow> stat \<Rightarrow> ('z filest_scheme, int \<times> stat) xm" where
  "sys_fstat path st =
     bind (sys_open path O_RDONLY) (\<lambda>r.
     case r of
       None \<Rightarrow> return (- 1, st)
     | Some f \<Rightarrow>
         bind (filestat f st) (\<lambda>res.
         andthen (fileclose f)
           (return res)))"

definition sys_readdirent :: "nat option \<Rightarrow> mem \<Rightarrow> u32 \<Rightarrow> ('z filest_scheme, int \<times> mem) xm" where
  "sys_readdirent fh e off = (case fh of
     None \<Rightarrow> return (- 1, e)
   | Some f \<Rightarrow>
       bind (get_file f) (\<lambda>x.
       bind (get_inode (fip x)) (\<lambda>ip.
       if itype ip \<noteq> T_DIR then return (- 1, e)
       else if isize ip \<le> off then return (0, e)
       else
         andthen (upd_file f (\<lambda>x. x\<lparr>foff := off\<rparr>))
           (fileread f e 64))))"

definition sys_truncate :: "byte list \<Rightarrow> ('z filest_scheme, int) xm" where
  "sys_truncate path =
     bind (sys_open path O_RDWR) (\<lambda>r.
     case r of
       None \<Rightarrow> return (- 1)
     | Some f \<Rightarrow>
         andthen begin_op (
         bind (get_file f) (\<lambda>x.
         andthen (itrunc (fip x)) (
         andthen end_op (
         andthen (fileclose f)
           (return 0))))))"

section \<open>Directories and names\<close>

definition sys_mkdir :: "byte list \<Rightarrow> ('z filest_scheme, int) xm" where
  "sys_mkdir path =
     andthen begin_op (
     bind (create path T_DIR 0 0) (\<lambda>r.
     case r of
       None \<Rightarrow> andthen end_op (return (- 1))
     | Some ip \<Rightarrow>
         andthen (iunlockput ip) (
         andthen end_op
           (return 0))))"

definition sys_mksock :: "byte list \<Rightarrow> ('z filest_scheme, int) xm" where
  "sys_mksock path =
     andthen begin_op (
     bind (create path T_SOCK 0 0) (\<lambda>r.
     case r of
       None \<Rightarrow> andthen end_op (return (- 1))
     | Some ip \<Rightarrow>
         andthen (iunlockput ip) (
         andthen end_op
           (return 0))))"

definition isdirempty :: "nat \<Rightarrow> ('z fsst_scheme, bool) xm" where
  "isdirempty dp =
     bind (get_inode dp) (\<lambda>x.
     bind (mloop (drop 2 (dir_offsets (isize x))) (\<lambda>off.
       if 2 ^ 31 \<le> off then fail (Undef ''off += sizeof(de) overflows'')
       else
         bind (readi dp zero_block (of_nat off) 64) (\<lambda>(r, d).
         if r \<noteq> 64 then panic ''isdirempty: readi''
         else if de_inum (get_dirent d) \<noteq> 0 then return (Some ())
         else return None))) (\<lambda>r.
     return (r = None)))"

definition ENOENT :: int where
  "ENOENT = - 2"

text \<open>\<open>ip->nlink < 1\<close> compares a \<open>short\<close>.\<close>

definition sys_dounlink :: "byte list \<Rightarrow> ('z fsst_scheme, int) xm" where
  "sys_dounlink path =
     bind (nameiparent path zero_block) (\<lambda>r.
     case r of
       None \<Rightarrow> return (- 1)
     | Some (dp, name) \<Rightarrow>
         andthen (ilock dp) (
         if namecmp name DOT = 0 \<or> namecmp name DOTDOT = 0 then
           andthen (iunlockput dp) (return (- 1))
         else
           bind (dirlookup dp name) (\<lambda>r.
           case r of
             None \<Rightarrow> andthen (iunlockput dp) (return ENOENT)
           | Some (ip, off) \<Rightarrow>
               andthen (ilock ip) (
               bind (get_inode ip) (\<lambda>x.
               if sint (inlink x) < 1 then panic ''unlink: nlink < 1''
               else
                 bind (if itype x = T_DIR then isdirempty ip else return True) (\<lambda>e.
                 if \<not> e then
                   andthen (iunlockput ip) (
                   andthen (iunlockput dp)
                     (return (- 1)))
                 else
                   bind (writei dp zero_block off 64) (\<lambda>w.
                   if w \<noteq> 64 then panic ''unlink: writei''
                   else
                     andthen (unless (itype x \<noteq> T_DIR) (
                       andthen (upd_inode dp (\<lambda>x. x\<lparr>inlink := inlink x - 1\<rparr>))
                         (iupdate dp))) (
                     andthen (iunlockput dp) (
                     andthen (upd_inode ip (\<lambda>x. x\<lparr>inlink := inlink x - 1\<rparr>)) (
                     andthen (iupdate ip) (
                     andthen (iunlockput ip)
                       (return 0))))))))))))"

definition sys_unlink :: "byte list \<Rightarrow> ('z fsst_scheme, int) xm" where
  "sys_unlink path =
     andthen begin_op (
     bind (sys_dounlink path) (\<lambda>r.
     andthen end_op
       (return r)))"

text \<open>The \<open>bad:\<close> label of \<open>sys_dolink\<close>.\<close>

definition link_bad :: "nat \<Rightarrow> ('z fsst_scheme, int) xm" where
  "link_bad ip =
     andthen (ilock ip) (
     andthen (upd_inode ip (\<lambda>x. x\<lparr>inlink := inlink x - 1\<rparr>)) (
     andthen (iupdate ip) (
     andthen (iunlockput ip)
       (return (- 1)))))"

text \<open>The two early returns call \<open>end_op\<close> although the caller, \<open>sys_rename\<close>, does so too.\<close>

definition sys_dolink :: "byte list \<Rightarrow> byte list \<Rightarrow> ('z fsst_scheme, int) xm" where
  "sys_dolink old_path new_path =
     bind (namei old_path) (\<lambda>r.
     case r of
       None \<Rightarrow> andthen end_op (return (- 1))
     | Some ip \<Rightarrow>
         andthen (ilock ip) (
         bind (get_inode ip) (\<lambda>x.
         if itype x = T_DIR then
           andthen (iunlockput ip) (
           andthen end_op
             (return (- 1)))
         else
           andthen (upd_inode ip (\<lambda>x. x\<lparr>inlink := inlink x + 1\<rparr>)) (
           andthen (iupdate ip) (
           andthen (iunlock ip) (
           bind (nameiparent new_path zero_block) (\<lambda>r.
           case r of
             None \<Rightarrow> link_bad ip
           | Some (dp, name) \<Rightarrow>
               andthen (ilock dp) (
               bind (get_inode dp) (\<lambda>d.
               bind (if idev d \<noteq> idev x then return (- 1) else dirlink dp name (inum x)) (\<lambda>l.
               if l < 0 then
                 andthen (iunlockput dp)
                   (link_bad ip)
               else
                 andthen (iunlockput dp) (
                 andthen (iput ip)
                   (return 0))))))))))))"

definition sys_rename :: "byte list \<Rightarrow> byte list \<Rightarrow> ('z fsst_scheme, int) xm" where
  "sys_rename path1 path2 =
     andthen begin_op (
     bind (sys_dounlink path2) (\<lambda>r.
     bind (if r = 0 \<or> r = ENOENT then
             bind (sys_dolink path1 path2) (\<lambda>r.
             if r = 0 then sys_dounlink path1 else return r)
           else return r) (\<lambda>r.
     andthen end_op
       (return r))))"

definition sys_utime :: "byte list \<Rightarrow> u32 \<Rightarrow> ('z filest_scheme, int) xm" where
  "sys_utime path time =
     bind (sys_open path O_WRONLY) (\<lambda>r.
     case r of
       None \<Rightarrow> return (- 1)
     | Some f \<Rightarrow>
         andthen begin_op (
         bind (get_file f) (\<lambda>x.
         andthen (ilock (fip x)) (
         andthen (upd_inode (fip x) (\<lambda>x. x\<lparr>imtime := time\<rparr>)) (
         andthen (iupdate (fip x)) (
         andthen (iunlock (fip x)) (
         andthen end_op (
         andthen (fileclose f)
           (return 0)))))))))"

end
