(* ===== verification/Xv6_Fuse.thy ===== *)
theory Xv6_Fuse
  imports Xv6_Sysfile
begin

text \<open>
  The FUSE handlers of \<open>xv6/fuse.c\<close>: what the host kernel calls. They count the calls, answer for
  the special file \<open>/stats\<close>, convert arguments and call \<open>sysfile.c\<close>. \<open>fuse_main\<close> of libfuse, which
  calls the handlers, is not modelled. \<open>fi->fh\<close> is the handle a handler returns or is given;
  \<open>filler\<close> of \<open>fuse_readdir\<close> is the list of the names it is called with.
\<close>

section \<open>State and statistics\<close>

text \<open>The counters \<open>fsstats\<close> are in the host record, which the block layer counts in.\<close>

record fusest = filest +
  statsbuf :: string

definition count :: "(stats \<Rightarrow> stats) \<Rightarrow> ('z host_scheme, unit) xm" where
  "count f = modify (\<lambda>s. s\<lparr>fsstats := f (fsstats s)\<rparr>)"

definition stats_path :: "byte list" where
  "stats_path = [47, 115, 116, 97, 116, 115]"

text \<open>The conversion \<open>%ld\<close> of \<open>sprintf\<close>.\<close>

fun dec_digits :: "nat \<Rightarrow> string" where
  "dec_digits n = (if n < 10 then [char_of (48 + n)] else dec_digits (n div 10) @ [char_of (48 + n mod 10)])"

declare dec_digits.simps [simp del]

definition dec :: "int \<Rightarrow> string" where
  "dec i = (if i < 0 then CHR ''-'' # dec_digits (nat (- i)) else dec_digits (nat i))"

definition stat_line :: "string \<Rightarrow> int \<Rightarrow> string" where
  "stat_line label v = label @ CHR '' '' # dec v @ [char_of (10 :: nat)]"

definition print_stats :: "stats \<Rightarrow> string" where
  "print_stats st = concat [stat_line ''nread'' (nread st), stat_line ''nwrite'' (nwrite st),
     stat_line ''nflush'' (nflush st), stat_line ''ngetattr'' (ngetattr st), stat_line ''nopen'' (nopen st),
     stat_line ''nrelease'' (nrelease st), stat_line ''nreadir'' (nreaddir st),
     stat_line ''nfuse_read'' (nfuse_read st), stat_line ''nfuse_write'' (nfuse_write st),
     stat_line ''ncreate'' (ncreate st), stat_line ''ntrunc'' (ntrunc st), stat_line ''nmkdir'' (nmkdir st),
     stat_line ''nrmdir'' (nrmdir st), stat_line ''nunlink'' (nunlink st)]"

text \<open>\<open>char statsbuf[1024]\<close>: \<open>sprintf\<close> stores the text and its NUL.\<close>

definition fill_statsbuf :: "('z fusest_scheme, unit) xm" where
  "fill_statsbuf =
     bind (gets fsstats) (\<lambda>st.
     if 1024 \<le> length (print_stats st) then fail (Undef ''statsbuf overflows'')
     else modify (\<lambda>s. s\<lparr>statsbuf := print_stats st\<rparr>))"

section \<open>Handlers\<close>

text \<open>The \<open>struct stat\<close> the kernel gets: \<open>st_mode\<close> with the host's file types, and the fields the
  handler fills in.\<close>

record kstat =
  k_mode :: nat
  k_nlink :: int
  k_size :: int
  k_atime :: int
  k_ctime :: int
  k_mtime :: int

definition zero_kstat :: kstat where
  "zero_kstat = \<lparr>k_mode = 0, k_nlink = 0, k_size = 0, k_atime = 0, k_ctime = 0, k_mtime = 0\<rparr>"

definition S_IFREG :: nat where
  "S_IFREG = 32768"

definition S_IFDIR :: nat where
  "S_IFDIR = 16384"

definition S_IFSOCK :: nat where
  "S_IFSOCK = 49152"

definition kstat_of :: "stat \<Rightarrow> kstat" where
  "kstat_of st = \<lparr>
     k_mode = (if st_type st = T_DIR then S_IFDIR OR 511
               else if st_type st = T_SOCK then S_IFSOCK OR 511
               else S_IFREG OR 511),
     k_nlink = sint (st_nlink st), k_size = uint (st_size st), k_atime = sint (st_atime st),
     k_ctime = sint (st_ctime st), k_mtime = sint (st_mtime st)\<rparr>"

definition fuse_getattr :: "byte list \<Rightarrow> ('z fusest_scheme, int \<times> kstat) xm" where
  "fuse_getattr path =
     (if path = stats_path then
        andthen fill_statsbuf (
        bind (gets statsbuf) (\<lambda>b.
          return (0, zero_kstat\<lparr>k_mode := S_IFREG OR 292, k_nlink := 1, k_size := int (length b)\<rparr>)))
      else
        andthen (count (\<lambda>x. x\<lparr>ngetattr := ngetattr x + 1\<rparr>)) (
        bind (sys_fstat path zero_stat) (\<lambda>(r, st).
        if 0 \<le> r then return (r, kstat_of st)
        else return (- 2, zero_kstat))))"

text \<open>The result and the new \<open>fi->fh\<close>.\<close>

definition fuse_open :: "byte list \<Rightarrow> u32 \<Rightarrow> nat option \<Rightarrow> ('z fusest_scheme, int \<times> nat option) xm" where
  "fuse_open path flags fh =
     (if path = stats_path then return (0, fh)
      else
        andthen (count (\<lambda>x. x\<lparr>nopen := nopen x + 1\<rparr>)) (
        bind (sys_open path flags) (\<lambda>r.
          return (if r = None then - 1 else 0, r))))"

definition fuse_release :: "byte list \<Rightarrow> nat option \<Rightarrow> ('z fusest_scheme, int) xm" where
  "fuse_release path fh =
     (if path = stats_path then return 0
      else
        andthen (count (\<lambda>x. x\<lparr>nrelease := nrelease x + 1\<rparr>))
          (sys_fileclose fh))"

text \<open>The loop of \<open>fuse_readdir\<close>; an entry is at most 64 bytes, so a directory of \<open>n\<close> bytes takes
  \<open>n div 64 + 2\<close> calls.\<close>

fun readdir_loop :: "nat \<Rightarrow> nat option \<Rightarrow> mem \<Rightarrow> u32 \<Rightarrow> mem list \<Rightarrow> ('z filest_scheme, int \<times> mem list) xm" where
  "readdir_loop 0 fh e off names = fail Hang"
| "readdir_loop (Suc fuel) fh e off names =
     bind (sys_readdirent fh e off) (\<lambda>(r, e).
     if 0 < r then
       readdir_loop fuel fh e (off + 64)
         (if de_inum (get_dirent e) = 0 then names else names @ [de_name (get_dirent e)])
     else return (r, names))"

definition fuse_readdir :: "byte list \<Rightarrow> u32 \<Rightarrow> ('z fusest_scheme, int \<times> mem list) xm" where
  "fuse_readdir path flags =
     andthen (count (\<lambda>x. x\<lparr>nreaddir := nreaddir x + 1\<rparr>)) (
     bind (sys_open path flags) (\<lambda>r.
     case r of
       None \<Rightarrow> return (- 1, [])
     | Some f \<Rightarrow>
         bind (gets (\<lambda>s. unat (isize (icache s (fip (ftable s f)))))) (\<lambda>n.
         bind (readdir_loop (n div 64 + 2) (Some f) zero_block 0 []) (\<lambda>res.
         andthen (sys_fileclose (Some f))
           (return res)))))"

text \<open>\<open>memcpy(buf, statsbuf + offset, size)\<close>. The comparison \<open>offset + size > len\<close> is one of
  unsigned 64 bit numbers; offsets are not negative.\<close>

definition string_mem :: "string \<Rightarrow> mem" where
  "string_mem s = (\<lambda>i. if i < length s then of_char (s ! i) else 0)"

definition fuse_read :: "byte list \<Rightarrow> mem \<Rightarrow> nat \<Rightarrow> nat \<Rightarrow> nat option \<Rightarrow> ('z fusest_scheme, int \<times> mem) xm" where
  "fuse_read path buf sz offset fh =
     (if path = stats_path then
        bind (gets statsbuf) (\<lambda>b.
        let len = length b;
            sz' = (if offset < len then (if len < offset + sz then len - offset else sz) else 0);
            buf' = (if offset < len then copy_mem buf 0 (string_mem b) offset sz' else buf) in
        andthen (count (\<lambda>_. zero_stats))
          (return (int sz', buf')))
      else
        andthen (count (\<lambda>x. x\<lparr>nfuse_read := nfuse_read x + 1\<rparr>))
          (sys_read fh buf sz (of_nat offset)))"

definition fuse_write :: "byte list \<Rightarrow> mem \<Rightarrow> nat \<Rightarrow> nat \<Rightarrow> nat option \<Rightarrow> ('z fusest_scheme, int) xm" where
  "fuse_write path buf sz offset fh =
     andthen (count (\<lambda>x. x\<lparr>nfuse_write := nfuse_write x + 1\<rparr>))
       (sys_write fh buf sz (of_nat offset))"

text \<open>The host's open flags (fcntl.h of Linux).\<close>

definition LINUX_O_WRONLY :: u32 where
  "LINUX_O_WRONLY = 1"

definition LINUX_O_RDWR :: u32 where
  "LINUX_O_RDWR = 2"

definition LINUX_O_CREAT :: u32 where
  "LINUX_O_CREAT = 64"

definition create_mode :: "u32 \<Rightarrow> u32" where
  "create_mode flags =
     (if flags AND LINUX_O_CREAT \<noteq> 0 then O_CREATE else 0)
     OR (if flags AND LINUX_O_RDWR \<noteq> 0 then O_RDWR else 0)
     OR (if flags AND LINUX_O_WRONLY \<noteq> 0 then O_WRONLY else 0)"

definition fuse_create :: "byte list \<Rightarrow> u32 \<Rightarrow> ('z fusest_scheme, int \<times> nat option) xm" where
  "fuse_create path flags =
     andthen (count (\<lambda>x. x\<lparr>ncreate := ncreate x + 1\<rparr>)) (
     bind (sys_open path (create_mode flags)) (\<lambda>r.
       return (if r = None then - 1 else 0, r)))"

definition fuse_truncate :: "byte list \<Rightarrow> int \<Rightarrow> ('z fusest_scheme, int) xm" where
  "fuse_truncate path off =
     andthen (count (\<lambda>x. x\<lparr>ntrunc := ntrunc x + 1\<rparr>))
       (if off \<noteq> 0 then return (- 1) else sys_truncate path)"

definition fuse_mkdir :: "byte list \<Rightarrow> ('z fusest_scheme, int) xm" where
  "fuse_mkdir path =
     andthen (count (\<lambda>x. x\<lparr>nmkdir := nmkdir x + 1\<rparr>))
       (sys_mkdir path)"

definition fuse_rmdir :: "byte list \<Rightarrow> ('z fusest_scheme, int) xm" where
  "fuse_rmdir path =
     andthen (count (\<lambda>x. x\<lparr>nrmdir := nrmdir x + 1\<rparr>))
       (sys_unlink path)"

definition fuse_unlink :: "byte list \<Rightarrow> ('z fusest_scheme, int) xm" where
  "fuse_unlink path =
     andthen (count (\<lambda>x. x\<lparr>nunlink := nunlink x + 1\<rparr>))
       (sys_unlink path)"

definition fuse_rename :: "byte list \<Rightarrow> byte list \<Rightarrow> ('z fusest_scheme, int) xm" where
  "fuse_rename path1 path2 = sys_rename path1 path2"

text \<open>\<open>tv[2].tv_sec\<close>, where \<open>tv\<close> is the pair of times the kernel passes.\<close>

definition fuse_utimens :: "byte list \<Rightarrow> u32 list \<Rightarrow> ('z fusest_scheme, int) xm" where
  "fuse_utimens path tv =
     (if 2 < length tv then sys_utime path (tv ! 2)
      else fail (Undef ''tv: index out of range''))"

definition fuse_chmod :: "byte list \<Rightarrow> nat \<Rightarrow> ('z fusest_scheme, int) xm" where
  "fuse_chmod path mode = return 0"

text \<open>\<open>S_ISSOCK(m)\<close> is \<open>(m & S_IFMT) == S_IFSOCK\<close>.\<close>

definition fuse_mknod :: "byte list \<Rightarrow> nat \<Rightarrow> ('z fusest_scheme, int) xm" where
  "fuse_mknod path m = (if m AND 61440 \<noteq> S_IFSOCK then return (- 1) else sys_mksock path)"

section \<open>Start-up\<close>

text \<open>\<open>open(disk, O_RDWR)\<close> succeeds or not.\<close>

definition ideinit :: "bool \<Rightarrow> ('z host_scheme, unit) xm" where
  "ideinit opens = (if opens then return () else fail (Exit ''failed to open disk''))"

text \<open>\<open>main\<close> up to the call of \<open>fuse_main\<close>.\<close>

definition fuse_start :: "nat \<Rightarrow> bool \<Rightarrow> ('z fusest_scheme, unit) xm" where
  "fuse_start argc opens =
     (if argc < 2 then fail (Exit ''disk-file fuse-args'')
      else
        andthen binit (
        andthen fileinit (
        andthen (ideinit opens)
          initlog)))"

end
