(* ===== verification/Xv6_Mkfs.thy ===== *)
theory Xv6_Mkfs
  imports Xv6_Fuse
begin

text \<open>
  The program \<open>xv6/mkfs.c\<close>, which makes the initial image: boot block, superblock, inode blocks,
  bitmap, data blocks, log. Its state is the image file and the two allocation counters. The
  functions that share their name with \<open>fs.c\<close> have the prefix \<open>mk_\<close>.
\<close>

section \<open>State and constants\<close>

definition SIZE :: nat where
  "SIZE = 10000"

definition NINODES :: nat where
  "NINODES = 4000"

definition nbitmap :: nat where
  "nbitmap = SIZE div (BSIZE * 8) + 1"

definition ninodeblocks :: nat where
  "ninodeblocks = NINODES div IPB + 1"

definition nmeta :: nat where
  "nmeta = 2 + ninodeblocks + nbitmap"

definition nblocks :: nat where
  "nblocks = SIZE - LOGSIZE - nmeta"

record mkst =
  m_img :: "u32 \<Rightarrow> block"
  m_len :: nat
  freeinode :: u32
  freeblock :: u32

text \<open>The byte order conversions, on the little-endian host.\<close>

definition xshort :: "u16 \<Rightarrow> u16" where
  "xshort x = get16 (put16 zero_block 0 x) 0"

definition xint :: "u32 \<Rightarrow> u32" where
  "xint x = get32 (put32 zero_block 0 x) 0"

section \<open>Sectors and inodes\<close>

text \<open>\<open>sec * BSIZE\<close> is an unsigned 32 bit product.\<close>

definition mk_sector :: "u32 \<Rightarrow> u32" where
  "mk_sector sec = (sec * 4096) div 4096"

definition wsect :: "u32 \<Rightarrow> block \<Rightarrow> (mkst, unit) xm" where
  "wsect sec d = modify (\<lambda>s. let b = mk_sector sec in
     s\<lparr>m_img := (\<lambda>c. if c = b then d
                   else if m_len s \<le> unat c \<and> unat c < unat b then zero_block
                   else m_img s c),
       m_len := max (m_len s) (Suc (unat b))\<rparr>)"

definition rsect :: "u32 \<Rightarrow> (mkst, block) xm" where
  "rsect sec = (\<lambda>s. if m_len s \<le> unat (mk_sector sec) then Fail (Exit ''read'') s
     else Ok (m_img s (mk_sector sec)) s)"

text \<open>\<open>*dip = *ip\<close> for a whole \<open>struct dinode\<close>.\<close>

definition put_dinode :: "block \<Rightarrow> nat \<Rightarrow> dinode \<Rightarrow> block" where
  "put_dinode d k di = (let p = 64 * k in
     put_addrs
       (put32 (put32 (put32 (put32 (put16 (put16 (put16 (put16 d p (di_type di)) (p + 2) (di_major di))
         (p + 4) (di_minor di)) (p + 6) (di_nlink di)) (p + 8) (di_size di)) (p + 12) (di_ctime di))
         (p + 16) (di_atime di)) (p + 20) (di_mtime di))
       (p + 24) (di_addrs di) (NDIRECT + 2))"

definition winode :: "u32 \<Rightarrow> dinode \<Rightarrow> (mkst, unit) xm" where
  "winode ino di =
     bind (rsect (IBLOCK ino)) (\<lambda>d.
       wsect (IBLOCK ino) (put_dinode d (unat ino mod IPB) di))"

definition rinode :: "u32 \<Rightarrow> (mkst, dinode) xm" where
  "rinode ino =
     bind (rsect (IBLOCK ino)) (\<lambda>d.
       return (get_dinode d (unat ino mod IPB)))"

definition null_dinode :: dinode where
  "null_dinode = \<lparr>di_type = 0, di_major = 0, di_minor = 0, di_nlink = 0, di_size = 0, di_ctime = 0,
     di_atime = 0, di_mtime = 0, di_addrs = (\<lambda>_. 0)\<rparr>"

definition mk_ialloc :: "u16 \<Rightarrow> (mkst, u32) xm" where
  "mk_ialloc type =
     bind (gets freeinode) (\<lambda>ino.
     andthen (modify (\<lambda>s. s\<lparr>freeinode := ino + 1\<rparr>)) (
     andthen (winode ino (null_dinode\<lparr>di_type := xshort type, di_nlink := xshort 1, di_size := xint 0\<rparr>))
       (return ino)))"

text \<open>The bitmap with the first \<open>used\<close> bits set.\<close>

definition bitmap_block :: "nat \<Rightarrow> block" where
  "bitmap_block used = fold (\<lambda>i d. d(i div 8 := d (i div 8) OR push_bit (i mod 8) 1)) [0..<used] zero_block"

definition mk_balloc :: "nat \<Rightarrow> (mkst, unit) xm" where
  "mk_balloc used =
     (if BSIZE * 8 \<le> used then panic ''assert used < BSIZE*8''
      else wsect (of_nat (ninodeblocks + 2)) (bitmap_block used))"

section \<open>Appending to a file\<close>

definition take_block :: "(mkst, u32) xm" where
  "take_block =
     bind (gets freeblock) (\<lambda>b.
     andthen (modify (\<lambda>s. s\<lparr>freeblock := b + 1\<rparr>))
       (return b))"

text \<open>The block of the file the loop of \<open>iappend\<close> writes to, and the inode with the addresses it
  added. The array \<open>indirect\<close> has \<open>NINDIRECT\<close> entries.\<close>

definition iappend_block :: "dinode \<Rightarrow> nat \<Rightarrow> (mkst, u32 \<times> dinode) xm" where
  "iappend_block din fbn =
     (if MAXFILE \<le> fbn then panic ''assert fbn < MAXFILE''
      else if fbn < NDIRECT then
        bind (if xint (di_addrs din fbn) = 0 then
                bind take_block (\<lambda>b. return (din\<lparr>di_addrs := (di_addrs din)(fbn := xint b)\<rparr>))
              else return din) (\<lambda>din.
        return (xint (di_addrs din fbn), din))
      else
        bind (if xint (di_addrs din NDIRECT) = 0 then
                bind take_block (\<lambda>b. return (din\<lparr>di_addrs := (di_addrs din)(NDIRECT := xint b)\<rparr>))
              else return din) (\<lambda>din.
        bind (rsect (xint (di_addrs din NDIRECT))) (\<lambda>indirect.
        let k = fbn - NDIRECT in
        if NINDIRECT \<le> k then fail (Undef ''indirect: index out of range'')
        else if get32 indirect (4 * k) = 0 then
          bind take_block (\<lambda>b.
          andthen (wsect (xint (di_addrs din NDIRECT)) (put32 indirect (4 * k) (xint b)))
            (return (xint (xint b), din)))
        else return (xint (get32 indirect (4 * k)), din))))"

definition iappend :: "u32 \<Rightarrow> mem \<Rightarrow> nat \<Rightarrow> (mkst, unit) xm" where
  "iappend ino p n =
     bind (rinode ino) (\<lambda>din.
     let off = xint (di_size din) in
     bind (mfold (chunks (unat off) 0 n) (\<lambda>(tot, n1) din.
       bind (iappend_block din (unat ((off + of_nat tot) div 4096))) (\<lambda>(x, din).
       bind (rsect x) (\<lambda>buf.
       andthen (wsect x (copy_mem buf ((unat off + tot) mod BSIZE) p tot n1))
         (return din)))) din) (\<lambda>din.
     winode ino (din\<lparr>di_size := xint (off + of_nat n)\<rparr>)))"

section \<open>The program\<close>

definition dirent_of :: "u16 \<Rightarrow> byte list \<Rightarrow> mem" where
  "dirent_of ino name = put_dirent \<lparr>de_inum = xshort ino, de_name = strncpy (cstr name) DIRSIZ\<rparr>"

text \<open>The pieces \<open>read(fd, buf, sizeof(buf))\<close> returns for a file.\<close>

function read_pieces :: "byte list \<Rightarrow> byte list list" where
  "read_pieces bs = (if bs = [] then [] else take BSIZE bs # read_pieces (drop BSIZE bs))"
  by pat_completeness auto
termination
  by (relation "measure length") (auto simp: BSIZE_def)

declare read_pieces.simps [simp del]

text \<open>One argument of the command line: its name and the content of the file, if it can be
  opened.\<close>

definition mk_add_file :: "u32 \<Rightarrow> byte list \<times> byte list option \<Rightarrow> (mkst, unit) xm" where
  "mk_add_file rootino arg =
     (let (name, content) = arg in
      if SLASH \<in> set name then panic ''assert index(argv[i], slash) == 0''
      else case content of
        None \<Rightarrow> fail (Exit ''open'')
      | Some bs \<Rightarrow>
          let name = (if name \<noteq> [] \<and> hd name = 95 then tl name else name) in
          bind (mk_ialloc T_FILE) (\<lambda>ino.
          andthen (iappend rootino (dirent_of (ucast ino) name) 64)
            (mfor (read_pieces bs) (\<lambda>piece. iappend ino (cstr piece) (length piece)))))"

text \<open>\<open>main\<close>, from the opened image file on.\<close>

definition mkfs :: "(byte list \<times> byte list option) list \<Rightarrow> (mkst, unit) xm" where
  "mkfs files =
     andthen (modify (\<lambda>s. s\<lparr>freeblock := of_nat nmeta\<rparr>)) (
     andthen (mfor [0..<SIZE] (\<lambda>i. wsect (of_nat i) zero_block)) (
     andthen (wsect 1 (put_sb zero_block \<lparr>sb_size = xint (of_nat SIZE), sb_nblocks = xint (of_nat nblocks),
         sb_ninodes = xint (of_nat NINODES), sb_nlog = xint (of_nat LOGSIZE)\<rparr>)) (
     bind (mk_ialloc T_DIR) (\<lambda>rootino.
     if rootino \<noteq> ROOTINO then panic ''assert rootino == ROOTINO''
     else
       andthen (iappend rootino (dirent_of (ucast rootino) [46]) 64) (
       andthen (iappend rootino (dirent_of (ucast rootino) [46, 46]) 64) (
       andthen (mfor files (mk_add_file rootino)) (
       bind (rinode rootino) (\<lambda>din.
       andthen (winode rootino (din\<lparr>di_size := xint ((xint (di_size din) div 4096 + 1) * 4096)\<rparr>)) (
       bind (gets freeblock) (\<lambda>b.
         mk_balloc (unat b)))))))))))"

definition mkfs_start :: mkst where
  "mkfs_start = \<lparr>m_img = (\<lambda>_. zero_block), m_len = 0, freeinode = 1, freeblock = 0\<rparr>"

end
