(* ===== verification/Xv6_Image.thy ===== *)
theory Xv6_Image
  imports Xv6_Mkfs
begin

text \<open>
  The image \<open>mkfs\<close> makes, against the kernel that mounts it: what \<open>wsect\<close>, \<open>winode\<close> and \<open>iappend\<close> do to the image, the
  blocks of an empty file system, and how \<open>fs.c\<close> reads them.
\<close>

section \<open>Sectors and inodes\<close>

lemma xshort_id [simp]: "xshort w = w"
  by (simp add: xshort_def get16_put16)

lemma xint_id [simp]: "xint w = w"
  by (simp add: xint_def get32_put32)

lemma mk_sector_id:
  assumes "unat sec < 2 ^ 20"
  shows "mk_sector sec = sec"
proof -
  have "unat (sec * 4096) = unat sec * 4096" using assms unat_mult_lem [of sec 4096] by simp
  then have "unat (mk_sector sec) = unat sec" by (simp add: mk_sector_def unat_div)
  then show ?thesis by (rule word_unat_eq_iff [THEN iffD2])
qed

lemma wp_wsect:
  assumes "unat sec < m_len s" "m_len s \<le> 2 ^ 20"
  shows "wp (wsect sec d) Q s = Q () (s\<lparr>m_img := (m_img s)(sec := d)\<rparr>)"
proof -
  have "(\<lambda>c. if c = sec then d else if m_len s \<le> unat c \<and> unat c < unat sec then zero_block else m_img s c) = (m_img s)(sec := d)"
    using assms(1) by (auto simp: fun_eq_iff)
  moreover have "max (m_len s) (Suc (unat sec)) = m_len s" using assms(1) by simp
  ultimately show ?thesis using assms by (simp add: wsect_def wp_modify mk_sector_id Let_def)
qed

lemma wp_rsect:
  assumes "unat sec < m_len s" "m_len s \<le> 2 ^ 20"
  shows "wp (rsect sec) Q s = Q (m_img s sec) s"
  using assms by (simp add: rsect_def wp_def mk_sector_id)

lemma get_put_dinode:
  "get_dinode (put_dinode d k di) k = di\<lparr>di_addrs := (\<lambda>i. if i < NDIRECT + 2 then di_addrs di i else 0)\<rparr>"
  by (simp add: get_dinode_def put_dinode_def Let_def get32_put_addrs get32_put_addrs_other get16_put_addrs_other
      codec_simps c32.get_put_slot c16.get_put_slot c32_16.get_across c16_32.get_across fun_eq_iff del: put_addrs.simps cong: if_cong)

text \<open>The bitmap \<open>mkfs\<close> writes, read with the test of \<open>balloc\<close> in \<open>fs.c\<close>.\<close>

lemma bitmap_block_free: "bit_free (bitmap_block used) i \<longleftrightarrow> used \<le> i"
proof (induction used)
  case 0
  show ?case by (simp add: bitmap_block_def bit_free_def zero_block_def)
next
  case (Suc n)
  have "bitmap_block (Suc n) = mark_used (bitmap_block n) n" by (simp add: bitmap_block_def mark_used_def)
  then show ?case using Suc by (auto simp: bit_free_mark_used le_Suc_eq)
qed

section \<open>Appending\<close>

lemma wp_take_block: "wp take_block Q s = Q (freeblock s) (s\<lparr>freeblock := freeblock s + 1\<rparr>)"
  by (simp add: take_block_def wp_simps)

lemma wp_iappend_direct:
  assumes "fbn < NDIRECT"
  shows "wp (iappend_block din fbn) Q s =
    (if di_addrs din fbn = 0
     then Q (freeblock s, din\<lparr>di_addrs := (di_addrs din)(fbn := freeblock s)\<rparr>) (s\<lparr>freeblock := freeblock s + 1\<rparr>)
     else Q (di_addrs din fbn, din) s)"
  using assms by (simp add: iappend_block_def wp_simps wp_take_block layout_consts)

lemma chunks_one:
  assumes "0 < n" "n \<le> BSIZE - off mod BSIZE"
  shows "chunks off 0 n = [(0, n)]"
  using assms by (subst chunks.simps) (simp add: Let_def min_absorb1 chunks_empty)

text \<open>Appending to a direct block of the file, with everything inside the image.\<close>

lemma wp_iappend_one:
  assumes s: "unat (IBLOCK ino) < m_len s" "m_len s \<le> 2 ^ 20"
    and din: "din = get_dinode (m_img s (IBLOCK ino)) (unat ino mod IPB)" "off = unat (di_size din)"
    and n: "0 < n" "n \<le> BSIZE - off mod BSIZE" "off div BSIZE = fbn" "fbn < NDIRECT"
    and b: "b = (if di_addrs din fbn = 0 then freeblock s else di_addrs din fbn)" "unat b < m_len s" "b \<noteq> IBLOCK ino"
    and post: "Q () (s\<lparr>freeblock := (if di_addrs din fbn = 0 then freeblock s + 1 else freeblock s),
      m_img := (m_img s)(b := copy_mem (m_img s b) (off mod BSIZE) p 0 n,
        IBLOCK ino := put_dinode (m_img s (IBLOCK ino)) (unat ino mod IPB)
          (din\<lparr>di_addrs := (di_addrs din)(fbn := b), di_size := di_size din + of_nat n\<rparr>))\<rparr>)"
  shows "wp (iappend ino p n) Q s"
proof -
  have fbn: "unat (di_size din div 4096) = fbn" using n(3) din(2) by (simp add: unat_div BSIZE_def)
  note ch = chunks_one [OF n(1,2)]
  note simps = iappend_def rinode_def winode_def wp_simps wp_rsect wp_wsect din(1) [symmetric] Let_def ch fbn
    wp_iappend_direct [OF n(4)] din(2) [symmetric]
  show ?thesis
  proof (cases "di_addrs din fbn = 0")
    case True
    then show ?thesis using post s b by (simp add: simps)
  next
    case False
    then have "din\<lparr>di_addrs := (di_addrs din)(fbn := b)\<rparr> = din" using b(1) by simp
    with False show ?thesis using post s b by (simp add: simps)
  qed
qed

section \<open>The empty file system\<close>

lemma mk_consts: "ninodeblocks = 63" "nbitmap = 1" "nmeta = 66" "nblocks = 9904" "SIZE = 10000" "LOGSIZE = 30" "NINODES = 4000"
  by (simp_all add: ninodeblocks_def nbitmap_def nmeta_def nblocks_def SIZE_def NINODES_def layout_consts LOGSIZE_def MAXOPBLOCKS_def)

lemma wp_zero_image:
  assumes "Q () (mkfs_start\<lparr>m_len := SIZE, freeblock := b\<rparr>)"
  shows "wp (mfor [0..<SIZE] (\<lambda>i. wsect (of_nat i) zero_block)) Q (mkfs_start\<lparr>freeblock := b\<rparr>)"
proof (rule wp_mfor [where I = "\<lambda>k t. t = mkfs_start\<lparr>m_len := k, freeblock := b\<rparr>"])
  fix k t assume k: "k < length [0..<SIZE]" and t: "t = mkfs_start\<lparr>m_len := k, freeblock := b\<rparr>"
  have u: "unat (of_nat k :: u32) = k" using k by (simp add: unat_of_nat take_bit_nat_eq_self mk_consts)
  then have m: "mk_sector (of_nat k) = of_nat k" using k by (intro mk_sector_id) (simp add: mk_consts)
  show "wp (wsect (of_nat ([0..<SIZE] ! k)) zero_block) (\<lambda>_ t. t = mkfs_start\<lparr>m_len := Suc k, freeblock := b\<rparr>) t"
    using k by (auto simp: wsect_def wp_modify m u t mkfs_start_def Let_def fun_eq_iff cong: if_cong)
qed (use assms in \<open>simp_all add: mkfs_start_def\<close>)

text \<open>The block of the root directory, as the program leaves it.\<close>

definition root_block :: block where
  "root_block = copy_mem (copy_mem zero_block 0 (dirent_of 1 [46]) 0 64) 64 (dirent_of 1 [46, 46]) 0 64"

text \<open>The root inode with \<open>n\<close> bytes.\<close>

definition root_of :: "u32 \<Rightarrow> u32 \<Rightarrow> dinode" where
  "root_of b n = null_dinode\<lparr>di_type := T_DIR, di_nlink := 1, di_size := n, di_addrs := (\<lambda>_. 0)(0 := b)\<rparr>"

lemma get_root: "get_dinode (put_dinode d (Suc 0) (root_of b n)) (Suc 0) = root_of b n"
  by (auto simp: get_put_dinode root_of_def null_dinode_def fun_eq_iff layout_consts)

lemma IBLOCK_1: "IBLOCK 1 = 2"
  by (simp add: IBLOCK_def)

lemma root_upd:
  "(root_of b n)\<lparr>di_addrs := (di_addrs (root_of b n))(0 := c), di_size := m\<rparr> = root_of c m"
  "(root_of b n)\<lparr>di_size := m\<rparr> = root_of b m" "di_addrs (root_of b n) 0 = b" "di_size (root_of b n) = n"
  "di_addrs (root_of b n) (Suc i) = 0"
  by (simp_all add: root_of_def)

text \<open>Appending an entry to the root directory.\<close>

lemma wp_root_append:
  assumes "m_img s 2 = put_dinode d 1 (root_of b (of_nat off))" "m_len s = SIZE" "off + 64 \<le> BSIZE" "off mod 64 = 0"
    and "b = 0 \<and> freeblock s = 66 \<or> b = 66 \<and> freeblock s = 67"
    and "\<And>e. Q () (s\<lparr>freeblock := 67, m_img := (m_img s)(66 := copy_mem (m_img s 66) off p 0 64,
      2 := put_dinode e 1 (root_of 66 (of_nat (off + 64))))\<rparr>)"
  shows "wp (iappend 1 p 64) Q s"
proof -
  have u: "unat (of_nat off :: u32) = off" "unat (66 :: u32) = 66" using assms(3) by (simp_all add: unat_of_nat take_bit_nat_eq_self BSIZE_def)
  have r: "get_dinode (m_img s 2) 1 = root_of b (of_nat off)" by (simp add: assms(1) get_root)
  have f: "(if di_addrs (root_of b (of_nat off)) 0 = 0 then freeblock s + 1 else freeblock s) = 67"
    using assms(5) by (auto simp: root_upd)
  have m: "off mod BSIZE = off" "off div BSIZE = 0" using assms(3) by (simp_all add: BSIZE_def)
  show ?thesis
    by (rule wp_iappend_one [where din = "root_of b (of_nat off)" and off = off and fbn = 0 and b = 66], unfold f IBLOCK_1)
       (use assms(2,3,5,6) r m u in \<open>auto simp: mk_consts IPB_def root_upd NDIRECT_def BSIZE_def\<close>)
qed

definition empty_image :: "block \<Rightarrow> mkst" where
  "empty_image d = \<lparr>m_img = (\<lambda>_. zero_block)(1 := put_sb zero_block
      \<lparr>sb_size = of_nat SIZE, sb_nblocks = of_nat nblocks, sb_ninodes = of_nat NINODES, sb_nlog = of_nat LOGSIZE\<rparr>,
      66 := root_block, 2 := put_dinode d 1 (root_of 66 4096), 65 := bitmap_block 67), m_len = SIZE, freeinode = 2, freeblock = 67\<rparr>"

lemma wp_mkfs_empty:
  assumes post: "\<And>d. Q () (empty_image d)"
  shows "wp (mkfs []) Q mkfs_start"
proof -
  let ?sb = "put_sb zero_block \<lparr>sb_size = of_nat SIZE, sb_nblocks = of_nat nblocks, sb_ninodes = of_nat NINODES, sb_nlog = of_nat LOGSIZE\<rparr>"
  let ?z = "(\<lambda>_. zero_block)(1 := ?sb)"
  let ?st = "\<lambda>img k. \<lparr>m_img = img, m_len = SIZE, freeinode = 2, freeblock = k\<rparr>"
  let ?tail = "bind (rinode 1) (\<lambda>din. andthen (winode 1 (din\<lparr>di_size := (di_size din div 4096 + 1) * 4096\<rparr>))
    (bind (gets freeblock) (\<lambda>b. mk_balloc (unat b))))"
  have null: "null_dinode\<lparr>di_type := T_DIR, di_nlink := 1, di_size := 0\<rparr> = root_of 0 0"
    by (simp add: root_of_def null_dinode_def fun_eq_iff)
  have tail: "wp ?tail Q (?st (?z(66 := root_block, 2 := put_dinode d 1 (root_of 66 128))) 67)" for d
    using post [of "put_dinode d 1 (root_of 66 128)"]
    by (simp add: rinode_def winode_def wp_simps wp_rsect wp_wsect mk_balloc_def IBLOCK_1 mk_consts IPB_def get_root root_upd
        BSIZE_def empty_image_def fun_upd_twist)
  have second: "wp (iappend 1 (dirent_of 1 [46, 46]) 64) (\<lambda>_. wp ?tail Q)
      (?st (?z(66 := copy_mem zero_block 0 (dirent_of 1 [46]) 0 64, 2 := put_dinode d 1 (root_of 66 64))) 67)" for d
    by (rule wp_root_append [where off = 64 and b = 66 and d = d]) (use tail in \<open>simp_all add: BSIZE_def root_block_def fun_upd_twist\<close>)
  have "wp (iappend 1 (dirent_of 1 [46]) 64) (\<lambda>_. wp (iappend 1 (dirent_of 1 [46, 46]) 64) (\<lambda>_. wp ?tail Q))
      (?st (?z(2 := put_dinode zero_block 1 (root_of 0 0))) 66)"
    by (rule wp_root_append [where off = 0 and b = 0 and d = zero_block]) (use second in \<open>simp_all add: BSIZE_def fun_upd_twist\<close>)
  then show ?thesis
    unfolding mkfs_def wp_andthen wp_modify mk_consts
    by (intro wp_zero_image [unfolded mk_consts])
       (simp add: mkfs_start_def mk_consts wp_simps wp_wsect mk_ialloc_def winode_def IBLOCK_1 wp_rsect null IPB_def ROOTINO_def fun_upd_twist)
qed

section \<open>The image as the kernel reads it\<close>

lemma entry_agree:
  assumes "\<And>i. i < 64 \<Longrightarrow> d i = put_dirent de i"
  shows "de_inum (get_dirent d) = de_inum de" "cname (de_name (get_dirent d)) = cname (de_name de)"
proof -
  have "get16 d 0 = get16 (put_dirent de) 0" using assms [of 0] assms [of 1] by (simp add: get16_def)
  then show "de_inum (get_dirent d) = de_inum de"
    using get_put_dirent [of de] by (simp add: get_dirent_def) (metis dirent.select_convs(1))
  have "de_name de i = d (i + 2)" if "i < DIRSIZ" for i
    using assms [of "i + 2"] that by (simp add: put_dirent_def c16.put_frame DIRSIZ_def)
  then have "map (de_name de) [0..<DIRSIZ] = map (\<lambda>i. d (i + 2)) [0..<DIRSIZ]" by simp
  then show "cname (de_name (get_dirent d)) = cname (de_name de)"
    by (simp only: cname_def get_dirent_def dirent.select_convs)
qed

lemma root_entry:
  assumes "blk s 66 = root_block" "iaddrs x 0 = 66" "k < 64"
  shows "de_inum (dir_entry s x k) = (if k < 2 then 1 else 0)"
    "k = 0 \<Longrightarrow> cname (de_name (dir_entry s x k)) = cname DOT"
    "k = 1 \<Longrightarrow> cname (de_name (dir_entry s x k)) = cname DOTDOT"
proof -
  have b: "fbyte s x (64 * k + i) = root_block (64 * k + i)" if "i < 64" for i
  proof -
    have "64 * k + i < 4096" using assms(3) that by simp
    then show ?thesis using assms(1,2) by (simp add: fbyte_def file_block_def BSIZE_def NDIRECT_def)
  qed
  have e0: "fill zero_block 0 64 (\<lambda>i. fbyte s x (64 * k + i)) i = dirent_of 1 [46] i" if "k = 0" "i < 64" for i
    using that b [of i] by (simp add: fill_def root_block_def copy_mem_def)
  have e1: "fill zero_block 0 64 (\<lambda>i. fbyte s x (64 * k + i)) i = dirent_of 1 [46, 46] i" if "k = 1" "i < 64" for i
    using that b [of i] by (simp add: fill_def root_block_def copy_mem_def)
  show "k = 0 \<Longrightarrow> cname (de_name (dir_entry s x k)) = cname DOT"
    unfolding dir_entry_def using entry_agree(2) [OF e0 [unfolded dirent_of_def]] by (simp add: DOT_def cname_strncpy)
  show "k = 1 \<Longrightarrow> cname (de_name (dir_entry s x k)) = cname DOTDOT"
    unfolding dir_entry_def using entry_agree(2) [OF e1 [unfolded dirent_of_def]] by (simp add: DOTDOT_def cname_strncpy)
  show "de_inum (dir_entry s x k) = (if k < 2 then 1 else 0)"
    using entry_agree(1) [OF e0 [unfolded dirent_of_def]] entry_agree(1) [OF e1 [unfolded dirent_of_def]]
     b [of 0] b [of 1]
    by (cases "k < 2") (auto simp: dir_entry_def less_2_cases_iff get_dirent_def get16_def fill_def root_block_def copy_mem_def zero_block_def)
qed

section \<open>Properties\<close>

text \<open>C29. \<open>mkfs\<close> makes a file system. Without files to copy it ends normally with an image of \<open>SIZE\<close> blocks that a kernel
  that has these blocks reads as follows: the superblock has the sizes of \<open>mkfs.c\<close>; exactly the blocks behind the
  metadata and the block of the root directory are free, those of the log included; the root inode is a directory of
  one block whose first two entries are \<open>.\<close> and \<open>..\<close>, both the root directory itself, and whose other entries are
  free.\<close>

theorem mkfs_makes_fs:
  "\<exists>t. mkfs [] mkfs_start = Ok () t \<and> m_len t = SIZE \<and> (\<forall>s :: fsst. \<forall>y. blk s = m_img t \<longrightarrow>
    (let x = load_inode (disk_inode s ROOTINO) y in
      sb_of s = \<lparr>sb_size = of_nat SIZE, sb_nblocks = of_nat nblocks, sb_ninodes = of_nat NINODES, sb_nlog = of_nat LOGSIZE\<rparr>
      \<and> (\<forall>b < SIZE. is_free s b \<longleftrightarrow> nmeta < b)
      \<and> itype x = T_DIR \<and> inlink x = 1 \<and> isize x = of_nat BSIZE \<and> file_block s x 0 = of_nat nmeta
      \<and> (\<forall>k < dir_count x. de_inum (dir_entry s x k) = (if k < 2 then 1 else 0))
      \<and> named s x DOT 0 \<and> named s x DOTDOT 1))"
proof -
  have "wp (mkfs []) (\<lambda>_ t. \<exists>d. t = empty_image d) mkfs_start" by (rule wp_mkfs_empty) blast
  then obtain t d where t: "mkfs [] mkfs_start = Ok () t" "t = empty_image d" by (auto dest!: wp_Ok)
  have img: "m_img t 1 = put_sb zero_block \<lparr>sb_size = of_nat SIZE, sb_nblocks = of_nat nblocks, sb_ninodes = of_nat NINODES, sb_nlog = of_nat LOGSIZE\<rparr>"
    "m_img t 2 = put_dinode d 1 (root_of 66 4096)" "m_img t 65 = bitmap_block 67" "m_img t 66 = root_block"
    by (simp_all add: t(2) empty_image_def)
  show ?thesis
  proof (intro exI conjI allI impI)
    show "mkfs [] mkfs_start = Ok () t" "m_len t = SIZE" using t by (simp_all add: empty_image_def)
    fix s :: fsst and y assume s: "blk s = m_img t"
    define x where "x = load_inode (disk_inode s ROOTINO) y"
    have di: "disk_inode s ROOTINO = root_of 66 4096"
      by (simp add: disk_inode_def s ROOTINO_def IBLOCK_1 img IPB_def get_root)
    have x: "itype x = T_DIR" "inlink x = 1" "isize x = 4096" "iaddrs x 0 = 66"
      by (simp_all add: x_def di load_inode_def root_of_def)
    have sb: "sb_of s = \<lparr>sb_size = of_nat SIZE, sb_nblocks = of_nat nblocks, sb_ninodes = of_nat NINODES, sb_nlog = of_nat LOGSIZE\<rparr>"
      by (simp add: sb_of_def s img get_put_sb)
    have "is_free s b \<longleftrightarrow> nmeta < b" if b: "b < SIZE" for b
    proof -
      have "(of_nat b :: u32) div 32768 = 0"
        using b by (intro word_unat_eq_iff [THEN iffD2]) (simp add: unat_div unat_of_nat take_bit_nat_eq_self mk_consts)
      then have "bitmap_at s b = 65" by (simp add: bitmap_at_def sb BBLOCK_def mk_consts)
      then show ?thesis using b by (auto simp: is_free_def s img bitmap_block_free BPB_def BSIZE_def mk_consts)
    qed
    moreover note e = root_entry [of s x, unfolded s, OF img(4) x(4)]
    have "dir_count x = 64" by (simp add: dir_count_def x)
    ultimately show "let x = load_inode (disk_inode s ROOTINO) y in
      sb_of s = \<lparr>sb_size = of_nat SIZE, sb_nblocks = of_nat nblocks, sb_ninodes = of_nat NINODES, sb_nlog = of_nat LOGSIZE\<rparr>
      \<and> (\<forall>b < SIZE. is_free s b \<longleftrightarrow> nmeta < b)
      \<and> itype x = T_DIR \<and> inlink x = 1 \<and> isize x = of_nat BSIZE \<and> file_block s x 0 = of_nat nmeta
      \<and> (\<forall>k < dir_count x. de_inum (dir_entry s x k) = (if k < 2 then 1 else 0))
      \<and> named s x DOT 0 \<and> named s x DOTDOT 1"
      unfolding x_def [symmetric] Let_def
      using sb x e(1) e(2) [of 0] e(3) [of 1] by (simp add: named_def file_block_def layout_consts mk_consts)
  qed
qed

theorem mkfs_makes_fs_witness:
  "\<exists>t. mkfs [] mkfs_start = Ok () t \<and>
    (\<exists>s :: fsst. blk s = m_img t \<and> sb_size (sb_of s) = 10000 \<and> \<not> is_free s 66 \<and> is_free s 9980)"
proof -
  obtain t where t: "mkfs [] mkfs_start = Ok () t" and *: "\<forall>s :: fsst. \<forall>y. blk s = m_img t \<longrightarrow>
      sb_of s = \<lparr>sb_size = of_nat SIZE, sb_nblocks = of_nat nblocks, sb_ninodes = of_nat NINODES, sb_nlog = of_nat LOGSIZE\<rparr>
      \<and> (\<forall>b < SIZE. is_free s b \<longleftrightarrow> nmeta < b)"
    using mkfs_makes_fs unfolding Let_def by blast
  let ?r = "boot (m_img t) SIZE small_log"
  let ?s = "with_inodes ?r (\<lambda>_. free_inode)"
  have r: "binv ?r" "dirty_at ?r = {}" "busy_at ?r = {}" "img ?r = m_img t"
    using booted_boot [of small_log SIZE "m_img t"] by (auto simp: booted_def)
  then have "blk ?s = m_img t" using blk_clean [of ?r] by (simp add: fun_eq_iff)
  then show ?thesis using t * by (intro exI [of _ t] conjI exI [of _ ?s]) (simp_all add: mk_consts)
qed

end
