(* ===== verification/Xv6_Durable.thy ===== *)
theory Xv6_Durable
  imports Xv6_Sysfile
begin

text \<open>
  System calls that write to a file, from the call down to the medium. A file is a list of bytes, \<open>content\<close>, and
  \<open>disk_content\<close> is the list found through the inode on the disk. \<open>crash_states\<close> says to which states a crash during a
  sequence of transactions can lead, and composes along the sequence; with it the loop of \<open>filewrite\<close>, one transaction
  for each piece, is shown to overwrite the list piece by piece, each piece completely or not at all.
\<close>

section \<open>Sequences of transactions\<close>

text \<open>Between two system calls: nothing is in use, nothing pinned, the log is empty.\<close>

definition quiet :: "'z logst_scheme \<Rightarrow> bool" where
  "quiet s \<longleftrightarrow> txn_inv s \<and> busy_at s = {} \<and> lh_n (thelog s) = 0 \<and> outstanding (thelog s) = 0
     \<and> committing (thelog s) = 0 \<and> log_empty s"

lemma quietD:
  assumes "quiet s"
  shows "txn_inv s" "busy_at s = {}" "dirty_at s = {}" "blk s = img s" "log_empty s"
proof -
  show "txn_inv s" "busy_at s = {}" "log_empty s" and d: "dirty_at s = {}"
    using assms by (auto simp: quiet_def txn_inv_def sectors_def)
  show "blk s = img s" using assms txn_clean [of s] by (auto simp: quiet_def sectors_def)
qed

text \<open>A history that ends with a sync: what follows does not touch what it left on the medium.\<close>

definition ends_synced :: "io list \<Rightarrow> bool" where
  "ends_synced h \<longleftrightarrow> h = [] \<or> last h = Sync"

lemma crashes_sync:
  "m \<in> crashes w (g @ Sync # h) d \<Longrightarrow> m \<in> crashes w (g @ [Sync]) d \<or> m \<in> crashes [] h (apply_io (w @ g) d)"
proof (induction g arbitrary: w d)
  case (Cons i g)
  then show ?case using Cons.IH [of "w @ [i]" d] Cons.IH [of "[]" "apply_io w d"] by (cases i) auto
qed auto

lemma crashes_append:
  assumes "m \<in> crashes [] (g @ h) d" "ends_synced g"
  shows "m \<in> crashes [] g d \<or> m \<in> crashes [] h (apply_io g d)"
proof (cases "g = []")
  case False
  then have "g = butlast g @ [Sync]" using assms(2) append_butlast_last_id [of g] by (simp add: ends_synced_def)
  then obtain g' where g: "g = g' @ [Sync]" by blast
  show ?thesis using crashes_sync [of m "[]" g' h d] assms(1) by (auto simp: g)
qed (use assms(1) in simp)

lemma ends_synced_append: "ends_synced g \<Longrightarrow> ends_synced h \<Longrightarrow> ends_synced (g @ h)"
  by (auto simp: ends_synced_def last_append)

lemma ends_synced_txn: "ends_synced (txn_io L d)"
  by (simp add: ends_synced_def txn_io_def commit_io_def)

text \<open>From one quiet state to another, with the writes and syncs \<open>h\<close> in between.\<close>

definition committed :: "'z logst_scheme \<Rightarrow> io list \<Rightarrow> 'z logst_scheme \<Rightarrow> bool" where
  "committed s h t \<longleftrightarrow> quiet t \<and> imglen t = imglen s \<and> log_geometry (thelog t) = log_geometry (thelog s)
     \<and> hist t = hist s @ h \<and> ends_synced h \<and> img t = apply_io h (img s)"

text \<open>A crash during \<open>h\<close> recovers, to the blocks of one of the states \<open>U\<close>.\<close>

definition crash_states :: "'z logst_scheme \<Rightarrow> io list \<Rightarrow> 'z logst_scheme set \<Rightarrow> bool" where
  "crash_states s h U \<longleftrightarrow> (\<forall>m \<in> crashes [] h (img s). \<forall>r :: 'z logst_scheme. booted (thelog s) (imglen s) m r \<longrightarrow>
     (\<exists>r'. recover_from_log r = Ok () r' \<and> txn_inv r' \<and> log_empty r' \<and>
       (\<exists>u \<in> U. \<forall>b. \<not> in_log (thelog s) b \<longrightarrow> blk r' b = blk u b)))"

lemma crash_states_mono: "crash_states s h U \<Longrightarrow> U \<subseteq> V \<Longrightarrow> crash_states s h V"
  unfolding crash_states_def by blast

lemma committed_trans:
  assumes "committed s g t" "committed t h u"
  shows "committed s (g @ h) u"
  using assms by (auto simp: committed_def ends_synced_append)

lemma crash_states_trans:
  assumes "committed s g t" "crash_states s g U" "crash_states t h U"
  shows "crash_states s (g @ h) U"
  unfolding crash_states_def
proof (intro ballI allI impI)
  fix m and r :: "'a logst_scheme" assume m: "m \<in> crashes [] (g @ h) (img s)" and r: "booted (thelog s) (imglen s) m r"
  have t: "ends_synced g" "img t = apply_io g (img s)" "imglen t = imglen s" "log_geometry (thelog t) = log_geometry (thelog s)"
    using assms(1) by (auto simp: committed_def)
  have r': "booted (thelog t) (imglen t) m r" using r t(3,4) by (simp add: booted_def)
  have il: "in_log (thelog t) = in_log (thelog s)" using geometry_place(3) [OF t(4)] .
  show "\<exists>r'. recover_from_log r = Ok () r' \<and> txn_inv r' \<and> log_empty r' \<and>
       (\<exists>u \<in> U. \<forall>b. \<not> in_log (thelog s) b \<longrightarrow> blk r' b = blk u b)"
    using crashes_append [OF m t(1)]
  proof
    assume "m \<in> crashes [] g (img s)"
    then show ?thesis using assms(2) r unfolding crash_states_def by blast
  next
    assume "m \<in> crashes [] h (apply_io g (img s))"
    then show ?thesis using assms(3) r' t(2) unfolding crash_states_def il by simp
  qed
qed

text \<open>Beginning and ending a transaction of a single system call. \<open>inside s t\<close>: the call that began in \<open>s\<close> has come
  to \<open>t\<close>, with everything it changed in the cache only.\<close>

definition inside :: "'z logst_scheme \<Rightarrow> 'z logst_scheme \<Rightarrow> bool" where
  "inside s t \<longleftrightarrow> txn_inv t \<and> busy_at t = {} \<and> outstanding (thelog t) = 1 \<and> committing (thelog t) = 0
     \<and> imglen t = imglen s \<and> log_geometry (thelog t) = log_geometry (thelog s) \<and> img t = img s \<and> hist t = hist s"

lemma wp_begin_op_quiet:
  assumes "quiet s" "Q () (s\<lparr>thelog := (thelog s)\<lparr>outstanding := 1\<rparr>\<rparr>)"
  shows "wp begin_op Q s"
  using assms by (simp add: begin_op_def wp_simps quiet_def LOGSIZE_def MAXOPBLOCKS_def)

lemma wp_end_op_inside:
  assumes s: "quiet s" and t: "inside s t"
    and post: "\<And>u h. committed s h u \<Longrightarrow> crash_states s h {s, u} \<Longrightarrow> lframe t u \<Longrightarrow>
      (\<And>b. \<not> in_log (thelog s) b \<Longrightarrow> blk u b = blk t b) \<Longrightarrow> Q () u"
  shows "wp end_op Q t"
proof -
  have t': "txn_inv t" "busy_at t = {}" "outstanding (thelog t) = 1" "committing (thelog t) = 0" "img t = img s"
    "hist t = hist s" "imglen t = imglen s" and g: "log_geometry (thelog t) = log_geometry (thelog s)"
    using t by (auto simp: inside_def)
  note p = geometry_place [OF g]
  have e: "log_empty t" using quietD(5) [OF s] t'(5) p(2) by (simp add: log_empty_def)
  show ?thesis
  proof (rule wp_end_op_last [OF t'(1-4)])
    let ?h = "txn_io (thelog t) (blk t)"
    fix u assume u: "txn_inv u" "lframe t u" "thelog u = (thelog t)\<lparr>lh_n := 0, outstanding := 0\<rparr>" "busy_at u = {}"
      "dirty_at u = {}" "blk u = apply_io ?h (blk t)" "img u = apply_io ?h (img t)" "hist u = hist t @ ?h"
    have gu: "log_geometry (thelog u) = log_geometry (thelog s)" using u(3) g by (simp add: log_geometry_def)
    have b: "blk u b = blk t b" if "\<not> in_log (thelog s) b" for b
      using txn_io_new(2) [OF t'(1,2)] that p(3) u(6) by simp
    have "log_empty u" using txn_io_log_empty [OF e, of "blk t"] u(3,7) by (simp add: log_empty_def)
    then have "committed s ?h u"
      using u t' gu ends_synced_txn by (simp add: committed_def quiet_def lframe_def)
    moreover have "crash_states s ?h {s, u}"
      unfolding crash_states_def
    proof (intro ballI allI impI)
      fix m and r :: "'a logst_scheme" assume m: "m \<in> crashes [] ?h (img s)" and r: "booted (thelog s) (imglen s) m r"
      have r': "booted (thelog t) (imglen t) m r" using r g t'(7) by (simp add: booted_def)
      note c = txn_crash [OF t'(1,2) e _ r', unfolded t'(5), OF m]
      have "rec_disk (thelog r) m = rec_disk (thelog t) m"
        by (rule rec_disk_geometry) (use r' in \<open>simp add: booted_def\<close>)
      then show "\<exists>r'. recover_from_log r = Ok () r' \<and> txn_inv r' \<and> log_empty r' \<and>
          (\<exists>u \<in> {s, u}. \<forall>b. \<not> in_log (thelog s) b \<longrightarrow> blk r' b = blk u b)"
        using wp_recover_booted [OF r' c(1,2)] c(3) b quietD(4) [OF s] p(3) by auto
    qed
    ultimately show "Q () u" using u(2) b by (rule post)
  qed
qed

section \<open>The content of a file\<close>

text \<open>A file as a list of bytes, and the list after a write.\<close>

definition content :: "'z bcache_scheme \<Rightarrow> inode \<Rightarrow> byte list" where
  "content s x = map (fbyte s x) [0..<unat (isize x)]"

definition overwrite :: "byte list \<Rightarrow> nat \<Rightarrow> byte list \<Rightarrow> byte list" where
  "overwrite c a bs = take a c @ bs @ drop (a + length bs) c"

lemma length_overwrite: "a \<le> length c \<Longrightarrow> length (overwrite c a bs) = max (length c) (a + length bs)"
  by (simp add: overwrite_def)

lemma nth_overwrite:
  assumes "a \<le> length c" "i < max (length c) (a + length bs)"
  shows "overwrite c a bs ! i = (if a \<le> i \<and> i < a + length bs then bs ! (i - a) else c ! i)"
  using assms by (auto simp: overwrite_def nth_append)

lemma overwrite_overwrite:
  assumes "a \<le> length c"
  shows "overwrite (overwrite c a bs) (a + length bs) cs = overwrite c a (bs @ cs)"
  using assms by (simp add: overwrite_def ac_simps)

lemma overwrite_empty [simp]: "overwrite c a [] = c"
  by (simp add: overwrite_def)

text \<open>A file of at most \<open>N\<close> blocks that can be written: its blocks and its inode are in the image outside the log, and
  the inode in memory is that of the disk.\<close>

definition file_ok :: "'z logst_scheme \<Rightarrow> inode \<Rightarrow> nat \<Rightarrow> bool" where
  "file_ok s x N \<longleftrightarrow> idev x = ROOTDEV \<and> itype x \<noteq> T_DEV \<and> file_wf s x N \<and> inode_apart s x N
     \<and> (NDIRECT < N \<longrightarrow> \<not> in_log (thelog s) (iaddrs x NDIRECT)) \<and> synced s x \<and> unat (isize x) \<le> N * BSIZE"

definition stored :: "'z bcache_scheme \<Rightarrow> inode \<Rightarrow> inode" where
  "stored s x = load_inode (disk_inode s (inum x)) x"

text \<open>The content of the file on the disk, found through its inode on the disk.\<close>

definition disk_content :: "'z bcache_scheme \<Rightarrow> inode \<Rightarrow> byte list" where
  "disk_content s x = content s (stored s x)"

lemma file_ok_synced: "file_ok s x N \<Longrightarrow> stored s x = x"
  by (simp add: file_ok_def synced_def stored_def)

lemma file_block_agree:
  assumes "file_ok s x N" "k < N" "\<And>b. \<not> in_log (thelog s) b \<Longrightarrow> blk t b = blk s b"
  shows "file_block t x k = file_block s x k"
  using assms by (auto simp: file_block_def file_ok_def not_less)

lemma fbyte_agree:
  assumes "file_ok s x N" "i < N * BSIZE" "\<And>b. \<not> in_log (thelog s) b \<Longrightarrow> blk t b = blk s b"
  shows "fbyte t x i = fbyte s x i"
proof -
  have k: "i div BSIZE < N" using assms(2) by (simp add: less_mult_imp_div_less)
  then have "\<not> in_log (thelog s) (file_block s x (i div BSIZE))" using assms(1) by (simp add: file_ok_def file_wf_def)
  then show ?thesis using file_block_agree [OF assms(1) k assms(3)] assms(3) by (simp add: fbyte_def)
qed

lemma disk_inode_agree:
  assumes "file_ok s x N" "\<And>b. \<not> in_log (thelog s) b \<Longrightarrow> blk t b = blk s b"
  shows "disk_inode t (inum x) = disk_inode s (inum x)"
  using assms by (simp add: file_ok_def inode_apart_def disk_inode_def)

lemma disk_content_agree:
  assumes "file_ok s x N" "\<And>b. \<not> in_log (thelog s) b \<Longrightarrow> blk t b = blk s b"
  shows "disk_content t x = content s x"
proof -
  have "stored t x = x" using disk_inode_agree [OF assms] file_ok_synced [OF assms(1)] by (simp add: stored_def)
  then show ?thesis
    unfolding disk_content_def content_def
    using fbyte_agree [OF assms(1) _ assms(2)] assms(1) by (auto simp: file_ok_def)
qed

lemma file_ok_agree:
  assumes "file_ok s x N" "\<And>b. \<not> in_log (thelog s) b \<Longrightarrow> blk t b = blk s b"
    and "in_image t = in_image s" "busy_at t = busy_at s" "in_log (thelog t) = in_log (thelog s)"
  shows "file_ok t x N"
proof -
  note f = file_block_agree [OF assms(1) _ assms(2)]
  have p: "place_ok t = place_ok s" using assms(3,4) by (simp add: place_ok_def fun_eq_iff)
  then have "mapped t x k = mapped s x k" if "k < N" for k using f [OF that] by (simp add: mapped_def)
  moreover have "inj_on (file_block t x) {..<N} = inj_on (file_block s x) {..<N}" using f by (intro inj_on_cong) auto
  moreover have im: "file_block t x ` {..<N} = file_block s x ` {..<N}" using f by (intro image_cong) auto
  ultimately have "file_wf t x N" using assms(1,5) f by (simp add: file_ok_def file_wf_def)
  moreover have "inode_apart t x N" using assms(1,5) p im by (simp add: file_ok_def inode_apart_def)
  moreover have "synced t x" using assms(1) disk_inode_agree [OF assms(1,2)] by (simp add: file_ok_def synced_def)
  ultimately show ?thesis using assms(1,5) by (simp add: file_ok_def)
qed

text \<open>The fields of the inode that do not matter for its content.\<close>

lemma file_block_flags [simp]: "file_block s (x\<lparr>iflags := a\<rparr>) = file_block s x"
  by (simp add: file_block_def fun_eq_iff)

lemma file_ok_flags [simp]:
  "file_ok s (x\<lparr>iflags := a\<rparr>) N = file_ok s x N" "content s (x\<lparr>iflags := a\<rparr>) = content s x"
  "synced s (x\<lparr>iflags := a\<rparr>) = synced s x"
proof -
  have [simp]: "mapped s (x\<lparr>iflags := a\<rparr>) = mapped s x" by (simp add: mapped_def fun_eq_iff)
  show [simp]: "synced s (x\<lparr>iflags := a\<rparr>) = synced s x" by (cases x) (simp add: synced_def load_inode_def cong: if_cong)
  show "file_ok s (x\<lparr>iflags := a\<rparr>) N = file_ok s x N" by (simp add: file_ok_def file_wf_def inode_apart_def)
  show "content s (x\<lparr>iflags := a\<rparr>) = content s x" by (simp add: content_def fbyte_def)
qed

section \<open>Writing one piece\<close>

lemma written_content:
  assumes w: "written s ip N a n g t" and x: "icache s ip = x" "file_ok s x N" "a \<le> unat (isize x)" "a + n \<le> N * BSIZE"
    and sz: "a + n < 2 ^ 32"
  shows "content t (icache t ip) = overwrite (content s x) a (map g [0..<n])" "file_ok t (icache t ip) N"
proof -
  obtain now where y: "icache t ip = x\<lparr>isize := max (isize x) (of_nat (a + n)), imtime := now\<rparr>" (is "_ = ?y")
    using w x(1) by (auto simp: written_def)
  have u: "unat (of_nat (a + n) :: u32) = a + n" using sz by (simp add: unat_of_nat take_bit_nat_eq_self del: of_nat_add)
  have l: "unat (isize ?y) = max (unat (isize x)) (a + n)"
    using u by (auto simp: max_def word_le_nat_alt simp del: of_nat_add)
  have le: "unat (isize x) \<le> N * BSIZE" using x(2) by (simp add: file_ok_def)
  have f: "fbyte t x i = (if a \<le> i \<and> i < a + n then g (i - a) else fbyte s x i)" if "i < N * BSIZE" for i
  proof -
    have "i div BSIZE < N" using that by (simp add: less_mult_imp_div_less)
    then show ?thesis using w x(1) by (simp add: written_def)
  qed
  show "content t (icache t ip) = overwrite (content s x) a (map g [0..<n])"
    unfolding y
  proof (rule nth_equalityI)
    have a: "a \<le> length (content s x)" using x(3) by (simp add: content_def)
    show len: "length (content t ?y) = length (overwrite (content s x) a (map g [0..<n]))"
      using l length_overwrite [OF a] by (simp add: content_def)
    fix i assume i: "i < length (content t ?y)"
    then have "i < max (unat (isize x)) (a + n)" using l by (simp add: content_def)
    then show "content t ?y ! i = overwrite (content s x) a (map g [0..<n]) ! i"
      using f [of i] le x(3,4) l nth_overwrite [OF a, of i "map g [0..<n]"] by (auto simp: content_def)
  qed
  have p: "place_ok t = place_ok s" using w by (simp add: written_def place_ok_def fun_eq_iff)
  have b: "blk t c = blk s c" if "c \<notin> file_block s x ` {..<N}" "c \<noteq> IBLOCK (inum x)" for c
    using w that x(1) by (simp add: written_def)
  have ap: "IBLOCK (inum x) \<notin> file_block s x ` {..<N}" "NDIRECT < N \<longrightarrow> IBLOCK (inum x) \<noteq> iaddrs x NDIRECT"
    "NDIRECT < N \<longrightarrow> iaddrs x NDIRECT \<notin> file_block s x ` {..<N}" using x(2) by (auto simp: file_ok_def inode_apart_def file_wf_def)
  have "file_block t x k = file_block s x k" if "k < N" for k
    using that b [of "iaddrs x NDIRECT"] ap by (auto simp: file_block_def)
  then have "file_block t x ` {..<N} = file_block s x ` {..<N}" by (intro image_cong) auto
  then have "inode_apart t ?y N" using x(2) w p by (simp add: file_ok_def inode_apart_def written_def)
  then show "file_ok t (icache t ip) N"
    using w x l le by (simp add: y file_ok_def written_def)
qed

text \<open>An inode in use by an open file: referenced, read in, not locked.\<close>

definition inode_ready :: "inode \<Rightarrow> bool" where
  "inode_ready x \<longleftrightarrow> 1 \<le> iref x \<and> \<not> bit (iflags x) 0 \<and> bit (iflags x) 1"

lemma wp_iunlock:
  assumes "1 \<le> iref (icache s ip)" "bit (iflags (icache s ip)) 0"
  shows "wp (iunlock ip) Q s = Q () (s\<lparr>icache := (icache s)(ip := (icache s ip)\<lparr>iflags := iflags (icache s ip) AND - 2\<rparr>)\<rparr>)"
  using assms by (simp add: iunlock_def wp_simps I_BUSY_def flag_simps)

lemma wp_get_file [wp_simps]: "wp (get_file f) Q s = Q (ftable s f) s"
  by (simp add: get_file_def wp_simps)

lemma wp_upd_file [wp_simps]: "wp (upd_file f g) Q s = Q () (s\<lparr>ftable := (ftable s)(f := g (ftable s f))\<rparr>)"
  by (simp add: upd_file_def wp_simps)

lemma cache_ftable [simp]:
  "binv (s\<lparr>ftable := C\<rparr>) = binv s" "view (s\<lparr>ftable := C\<rparr>) = view s" "blk (s\<lparr>ftable := C\<rparr>) = blk s"
  "dirty_at (s\<lparr>ftable := C\<rparr>) = dirty_at s" "busy_at (s\<lparr>ftable := C\<rparr>) = busy_at s"
  "in_image (s\<lparr>ftable := C\<rparr>) = in_image s" "holds (s\<lparr>ftable := C\<rparr>) = holds s"
  using buf_ok_host [of "s\<lparr>ftable := C\<rparr>" s]
  by (simp_all add: binv_def view_def in_image_def blk_def dirty_at_def busy_at_def holds_def fun_eq_iff split: option.split)

lemma txn_ftable [simp]: "txn_inv (s\<lparr>ftable := C\<rparr>) = txn_inv s"
  by (simp add: txn_inv_def log_wf_def head_wf_def Let_def fun_eq_iff)

lemma stored_fields [simp]: "stored s (x\<lparr>isize := a, imtime := b\<rparr>) = stored s x"
  by (cases x) (simp add: stored_def load_inode_def cong: if_cong)

lemma lframe_ftable: "lframe s t \<Longrightarrow> ftable t = ftable s"
  by (cases s; cases t) (simp add: lframe_def)

text \<open>The effect of a write of \<open>n\<close> bytes at \<open>a\<close> to the open file \<open>f\<close>: on the content of the file, the size and time in
  its inode and the offset of the open file, and on nothing else.\<close>

definition piece_written :: "'z filest_scheme \<Rightarrow> nat \<Rightarrow> nat \<Rightarrow> nat \<Rightarrow> nat \<Rightarrow> nat \<Rightarrow> mem \<Rightarrow> 'z filest_scheme \<Rightarrow> bool" where
  "piece_written s f ip N a n g t \<longleftrightarrow>
     content t (icache t ip) = overwrite (content s (icache s ip)) a (map g [0..<n]) \<and> file_ok t (icache t ip) N
     \<and> (\<exists>sz now. icache t = (icache s)(ip := (icache s ip)\<lparr>isize := sz, imtime := now\<rparr>))
     \<and> ftable t = (ftable s)(f := (ftable s f)\<lparr>foff := of_nat (a + n)\<rparr>)
     \<and> in_log (thelog t) = in_log (thelog s)
     \<and> (\<forall>k < N. file_block t (icache s ip) k = file_block s (icache s ip) k)
     \<and> (\<forall>b. b \<notin> file_block s (icache s ip) ` {..<N} \<and> b \<noteq> IBLOCK (inum (icache s ip)) \<and> \<not> in_log (thelog s) b \<longrightarrow> blk t b = blk s b)"

lemma piece_written_trans:
  assumes "piece_written s f ip N a n g t" "piece_written t f ip N (a + n) m (\<lambda>i. g (n + i)) u"
    and "a \<le> unat (isize (icache s ip))"
  shows "piece_written s f ip N a (n + m) g u"
proof -
  have l: "a \<le> length (content s (icache s ip))" using assms(3) by (simp add: content_def)
  have m: "map g [0..<n] @ map (\<lambda>i. g (n + i)) [0..<m] = map g [0..<n + m]"
    by (rule nth_equalityI) (auto simp: nth_append)
  obtain sz now where t: "icache t = (icache s)(ip := (icache s ip)\<lparr>isize := sz, imtime := now\<rparr>)"
    using assms(1) by (auto simp: piece_written_def)
  have c: "overwrite (overwrite (content s (icache s ip)) a (map g [0..<n])) (a + n) (map (\<lambda>i. g (n + i)) [0..<m])
      = overwrite (content s (icache s ip)) a (map g [0..<n + m])"
    using overwrite_overwrite [OF l, of "map g [0..<n]"] m by simp
  have im: "file_block t (icache s ip) ` {..<N} = file_block s (icache s ip) ` {..<N}"
    using assms(1) by (intro image_cong) (auto simp: piece_written_def)
  show ?thesis
    using assms(1,2) c t im by (auto simp: piece_written_def add.assoc)
qed

lemma written_blocks:
  assumes w: "written s ip N a n g t" and x: "icache s ip = x" "file_ok s x N" and k: "k < N"
  shows "file_block t x k = file_block s x k"
proof -
  have b: "blk t c = blk s c" if "c \<notin> file_block s x ` {..<N}" "c \<noteq> IBLOCK (inum x)" for c
    using w that x(1) by (simp add: written_def)
  show ?thesis using k b [of "iaddrs x NDIRECT"] x(2) by (auto simp: file_block_def file_ok_def inode_apart_def file_wf_def)
qed

lemma piece_blocks: "n \<le> max_write \<Longrightarrow> length (chunks a 0 n) \<le> 3"
proof -
  assume n: "n \<le> max_write"
  have "(a + n - 1) div BSIZE \<le> (a + 2 * BSIZE) div BSIZE"
    using n by (intro div_le_mono) (simp add: max_write_def LOGSIZE_def MAXOPBLOCKS_def BSIZE_def)
  then have "(a + n - 1) div BSIZE \<le> a div BSIZE + 2" by (simp add: BSIZE_def)
  then show ?thesis using length_chunks [of a 0 n] by (auto split: if_splits)
qed

text \<open>The state in which \<open>writei\<close> runs: the transaction has begun and the inode is locked.\<close>

definition in_call :: "'z fsst_scheme \<Rightarrow> nat \<Rightarrow> 'z fsst_scheme" where
  "in_call s ip = s\<lparr>thelog := (thelog s)\<lparr>outstanding := 1\<rparr>,
     icache := (icache s)(ip := (icache s ip)\<lparr>iflags := iflags (icache s ip) OR 1\<rparr>)\<rparr>"

lemma in_call_fields [simp]:
  "blk (in_call s ip) = blk s" "busy_at (in_call s ip) = busy_at s" "dirty_at (in_call s ip) = dirty_at s"
  "in_image (in_call s ip) = in_image s" "txn_inv (in_call s ip) = txn_inv s" "img (in_call s ip) = img s"
  "hist (in_call s ip) = hist s" "imglen (in_call s ip) = imglen s" "thelog (in_call s ip) = (thelog s)\<lparr>outstanding := 1\<rparr>"
  "fsst.more (in_call s ip) = fsst.more s" "file_block (in_call s ip) x = file_block s x" "content (in_call s ip) x = content s x"
  "icache (in_call s ip) = (icache s)(ip := (icache s ip)\<lparr>iflags := iflags (icache s ip) OR 1\<rparr>)"
  by (simp_all add: in_call_def content_def fbyte_def file_block_def fun_eq_iff)

lemma file_ok_in_call: "file_ok s x N \<Longrightarrow> file_ok (in_call s ip) (x\<lparr>iflags := a\<rparr>) N"
  unfolding file_ok_flags by (rule file_ok_agree) simp_all

lemma commit_piece:
  assumes s: "quiet s" and x: "icache s ip = x" "file_ok s x N" "a \<le> unat (isize x)" and n: "a + n \<le> N * BSIZE" "a + n < 2 ^ 32"
    and t: "written (in_call s ip) ip N a n g t" "icache t ip = y\<lparr>iflags := iflags x OR 1\<rparr>" "y = x\<lparr>isize := sz, imtime := now\<rparr>"
    and v: "committed s h v" "icache v = (icache s)(ip := y)" "in_image v = in_image t"
      "ftable v = (ftable s)(f := (ftable s f)\<lparr>foff := of_nat (a + n)\<rparr>)"
    and bv: "\<And>b. \<not> in_log (thelog s) b \<Longrightarrow> blk v b = blk t b"
  shows "piece_written s f ip N a n g v"
proof -
  let ?x' = "x\<lparr>iflags := iflags x OR 1\<rparr>"
  have ok: "file_ok (in_call s ip) ?x' N" by (rule file_ok_in_call [OF x(2)])
  have ic: "icache (in_call s ip) ip = ?x'" using x(1) by simp
  have wc: "content t y = overwrite (content s x) a (map g [0..<n])" "file_ok t y N"
    using written_content [OF t(1) ic ok _ n] x(3) by (simp_all add: t(2))
  have il: "in_log (thelog t) = in_log (thelog s)" using t(1) by (simp add: written_def)
  have bt: "blk v b = blk t b" if "\<not> in_log (thelog t) b" for b using bv that il by simp
  have "busy_at v = busy_at t" using v(1) t(1) quietD(2) [OF s] by (simp add: committed_def quiet_def written_def)
  moreover have lv: "in_log (thelog v) = in_log (thelog t)"
    unfolding il by (rule geometry_place(3)) (use v(1) in \<open>simp add: committed_def\<close>)
  ultimately have ok_v: "file_ok v y N" by (intro file_ok_agree [OF wc(2) bt v(3)])
  have "content v y = content t y"
    using disk_content_agree [OF wc(2) bt] file_ok_synced [OF ok_v] by (simp add: disk_content_def)
  moreover have "file_block v x k = file_block s x k" if k: "k < N" for k
    using file_block_agree [OF wc(2) k bt] written_blocks [OF t(1) ic ok k] by (simp add: t(3))
  moreover have "blk v b = blk s b" if "b \<notin> file_block s x ` {..<N}" "b \<noteq> IBLOCK (inum x)" "\<not> in_log (thelog s) b" for b
    using bv [OF that(3)] t(1) that(1,2) x(1) by (simp add: written_def)
  ultimately show ?thesis
    unfolding piece_written_def using wc(1) ok_v x(1) v lv il t(3) by auto
qed

text \<open>The transaction around \<open>writei\<close>: \<open>W t y\<close> is what \<open>writei\<close> leaves, with the locked inode \<open>y\<close>.\<close>

lemma wp_write_piece_call:
  fixes s :: "'z filest_scheme"
  assumes s: "quiet s" and f: "fip (ftable s f) = ip" "foff (ftable s f) = of_nat a"
    and x: "icache s ip = x" "inode_ready x" and n: "0 < n"
    and wr: "\<And>R. (\<And>t y. W t y \<Longrightarrow> R (int n) t) \<Longrightarrow> wp (writei ip (\<lambda>j. g (i + j)) (of_nat a) (of_nat n)) R (in_call s ip)"
    and W: "\<And>t y. W t y \<Longrightarrow> inside s t \<and> fsst.more t = fsst.more s \<and> icache t = (icache s)(ip := y\<lparr>iflags := iflags x OR 1\<rparr>)
      \<and> iref y = iref x \<and> iflags y = iflags x"
    and post: "\<And>t y v h. W t y \<Longrightarrow> committed s h v \<Longrightarrow> crash_states s h {s, v} \<Longrightarrow> icache v = (icache s)(ip := y) \<Longrightarrow> in_image v = in_image t \<Longrightarrow>
      ftable v = (ftable s)(f := (ftable s f)\<lparr>foff := of_nat (a + n)\<rparr>) \<Longrightarrow> (\<And>b. \<not> in_log (thelog s) b \<Longrightarrow> blk v b = blk t b) \<Longrightarrow> Q None v"
  shows "wp (write_piece f g (i, n)) Q s"
proof -
  let ?rest = "\<lambda>r. andthen (unless (r \<le> 0) (upd_file f (\<lambda>x. x\<lparr>foff := foff x + word_of_int r\<rparr>))) (
      andthen (iunlock ip) (andthen end_op (
        if r < 0 then return (Some ()) else if r \<noteq> int n then panic ''short filewrite'' else return None)))"
  have "wp (writei ip (\<lambda>j. g (i + j)) (of_nat a) (of_nat n)) (\<lambda>r. wp (?rest r) Q) (in_call s ip)"
  proof (rule wr)
    fix t y assume t: "W t y"
    note w = W [OF t]
    let ?u = "t\<lparr>ftable := (ftable s)(f := (ftable s f)\<lparr>foff := of_nat (a + n)\<rparr>), icache := (icache s)(ip := y)\<rparr>"
    have ft: "ftable t = ftable s" using w by (cases s; cases t) simp
    have fy: "y\<lparr>iflags := iflags x\<rparr> = y" using w by (cases y) simp
    have "inside s ?u" using w by (simp add: inside_def)
    then have "wp end_op (\<lambda>_. Q None) ?u"
    proof (rule wp_end_op_inside [OF s])
      fix v h assume v: "committed s h v" "crash_states s h {s, v}" "lframe ?u v"
        and bv: "\<And>b. \<not> in_log (thelog s) b \<Longrightarrow> blk v b = blk ?u b"
      show "Q None v" using t v(1,2)
        by (rule post) (use lframe_icache [OF v(3)] lframe_ftable [OF v(3)] lframe_in_image [OF v(3)] bv in \<open>simp_all add: fun_eq_iff\<close>)
    qed
    then show "wp (?rest (int n)) Q t"
      using x(2) n f ft w by (simp add: wp_simps wp_iunlock inode_ready_def inode_flag_or lock_flags fy)
  qed
  then show ?thesis
    unfolding write_piece_def prod.case Let_def wp_andthen [of begin_op]
    using x(1,2) f by (intro wp_begin_op_quiet [OF s]) (simp add: wp_simps wp_ilock_valid inode_ready_def in_call_def)
qed

lemma wp_write_piece:
  fixes s :: "'z filest_scheme"
  assumes s: "quiet s" "5 \<le> lsize (thelog s)"
    and f: "fip (ftable s f) = ip" "foff (ftable s f) = of_nat a"
    and x: "icache s ip = x" "inode_ready x" "file_ok s x N" "a \<le> unat (isize x)"
    and n: "0 < n" "n \<le> max_write" "a + n \<le> N * BSIZE" "a + n < 2 ^ 32"
    and post: "\<And>t h. committed s h t \<Longrightarrow> crash_states s h {s, t} \<Longrightarrow> piece_written s f ip N a n (\<lambda>j. g (i + j)) t \<Longrightarrow> Q None t"
  shows "wp (write_piece f g (i, n)) Q s"
proof -
  let ?x' = "x\<lparr>iflags := iflags x OR 1\<rparr>" and ?g = "\<lambda>j. g (i + j)"
  let ?W = "\<lambda>t y. written (in_call s ip) ip N a n ?g t \<and> (\<exists>sz now. y = x\<lparr>isize := sz, imtime := now\<rparr>) \<and> icache t = (icache s)(ip := y\<lparr>iflags := iflags x OR 1\<rparr>)"
  have ua: "unat (of_nat a :: u32) = a" "unat (of_nat n :: u32) = n"
    using n(4) by (simp_all add: unat_of_nat take_bit_nat_eq_self)
  have n31: "n < 2 ^ 31" using n(2) by (simp add: max_write_def LOGSIZE_def MAXOPBLOCKS_def)
  have sp: "space (in_call s ip) (length (chunks a 0 n) + Suc 0)"
    using quietD(2,3) [OF s(1)] s piece_blocks [OF n(2), of a] by (auto simp: space_def log_room_def NBUF_def LOGSIZE_def quiet_def)
  have ok: "file_ok (in_call s ip) ?x' N" by (rule file_ok_in_call [OF x(3)])
  have le: "\<not> isize x < of_nat a" "\<not> (of_nat a + of_nat n :: u32) < of_nat a"
    using x(4) ua n(4) by (simp_all add: word_less_nat_alt unat_word_ariths)
  show ?thesis
  proof (rule wp_write_piece_call [OF s(1) f x(1,2) n(1), where W = ?W])
    fix R assume R: "\<And>t y. ?W t y \<Longrightarrow> R (int n) t"
    show "wp (writei ip ?g (of_nat a) (of_nat n)) R (in_call s ip)"
    proof (rule wp_writei [where r = 0 and x = ?x' and N = N], unfold ua)
      fix t assume t: "written (in_call s ip) ip N a n ?g t" and "space t 0"
      obtain sz now where "icache t = (icache s)(ip := ?x'\<lparr>isize := sz, imtime := now\<rparr>)"
        using t x(1) by (auto simp: written_def)
      with t show "R (int n) t" by (intro R [where y = "x\<lparr>isize := sz, imtime := now\<rparr>"]) auto
    qed (use ok x(1,4) le n n31 sp quietD(1) [OF s(1)] in \<open>auto simp: file_ok_def\<close>)
  next
    fix t y assume "?W t y"
    then show "inside s t \<and> fsst.more t = fsst.more s \<and> icache t = (icache s)(ip := y\<lparr>iflags := iflags x OR 1\<rparr>) \<and> iref y = iref x \<and> iflags y = iflags x"
      using quietD(2) [OF s(1)] s(1) by (auto simp: inside_def written_def same_log_def log_geometry_def quiet_def)
  next
    fix t y v h assume t: "?W t y" and v: "committed s h v" "crash_states s h {s, v}" "icache v = (icache s)(ip := y)" "in_image v = in_image t"
      "ftable v = (ftable s)(f := (ftable s f)\<lparr>foff := of_nat (a + n)\<rparr>)" "\<And>b. \<not> in_log (thelog s) b \<Longrightarrow> blk v b = blk t b"
    from t obtain sz now where y: "y = x\<lparr>isize := sz, imtime := now\<rparr>" "icache t ip = y\<lparr>iflags := iflags x OR 1\<rparr>" by auto
    from v(1,2) commit_piece [OF s(1) x(1,3,4) n(3,4) conjunct1 [OF t] y(2,1) v(1,3,4,5,6)] show "Q None v" by (rule post)
  qed
qed

section \<open>The loop of \<open>filewrite\<close>\<close>

lemma pieces_nth:
  assumes "k < length (pieces n)"
  shows "pieces n ! k = (k * max_write, min max_write (n - k * max_write))" "k * max_write < n"
    "min (Suc k * max_write) n = k * max_write + min max_write (n - k * max_write)"
proof -
  have m: "0 < max_write" by (simp add: max_write_def LOGSIZE_def MAXOPBLOCKS_def)
  show "pieces n ! k = (k * max_write, min max_write (n - k * max_write))" using assms by (simp add: pieces_def)
  have "Suc k \<le> (n + max_write - 1) div max_write" using assms by (simp add: pieces_def)
  then have "Suc k * max_write \<le> n + max_write - 1" using m by (simp add: less_eq_div_iff_mult_less_eq)
  then show "k * max_write < n" using m by simp
  then show "min (Suc k * max_write) n = k * max_write + min max_write (n - k * max_write)" by auto
qed

lemma pieces_all: "min (length (pieces n) * max_write) n = n"
proof -
  have m: "0 < max_write" by (simp add: max_write_def LOGSIZE_def MAXOPBLOCKS_def)
  have "n < Suc ((n + max_write - 1) div max_write) * max_write - max_write + 1"
    using dividend_less_div_times [OF m, of "n + max_write - 1"] m by simp
  then show ?thesis by (simp add: pieces_def)
qed

text \<open>What is known after \<open>k\<close> pieces: they are on the disk, and a crash on the way left some number of them.\<close>

definition pieces_done :: "'z filest_scheme \<Rightarrow> nat \<Rightarrow> nat \<Rightarrow> nat \<Rightarrow> nat \<Rightarrow> nat \<Rightarrow> mem \<Rightarrow> nat \<Rightarrow> 'z filest_scheme \<Rightarrow> bool" where
  "pieces_done s f ip N a n g k t \<longleftrightarrow> (\<exists>h. committed s h t
     \<and> crash_states s h {u. \<exists>j. piece_written s f ip N a (min (j * max_write) n) g u}
     \<and> piece_written s f ip N a (min (k * max_write) n) g t)"

lemma piece_written_refl:
  assumes "file_ok s (icache s ip) N" "foff (ftable s f) = of_nat a"
  shows "piece_written s f ip N a 0 g s"
  unfolding piece_written_def
proof (intro conjI exI)
  show "icache s = (icache s)(ip := (icache s ip)\<lparr>isize := isize (icache s ip), imtime := imtime (icache s ip)\<rparr>)" by simp
  show "ftable s = (ftable s)(f := (ftable s f)\<lparr>foff := of_nat (a + 0)\<rparr>)" by (simp flip: assms(2))
qed (use assms(1) in simp_all)

lemma quiet_crash_states: "quiet s \<Longrightarrow> s \<in> U \<Longrightarrow> crash_states s [] U"
  unfolding crash_states_def
proof (intro ballI allI impI)
  fix m and r :: "'a logst_scheme"
  assume s: "quiet s" "s \<in> U" and m: "m \<in> crashes [] [] (img s)" and r: "booted (thelog s) (imglen s) m r"
  have m': "m = img s" using m by simp
  have "m \<in> crashes [] (txn_io (thelog s) (blk s)) (img s)" using m s(1) by (simp add: txn_io_def quiet_def)
  note c = txn_crash [OF quietD(1,2,5) [OF s(1)] this r]
  have "rec_disk (thelog r) m = rec_disk (thelog s) m" by (rule rec_disk_geometry) (use r in \<open>simp add: booted_def\<close>)
  then show "\<exists>r'. recover_from_log r = Ok () r' \<and> txn_inv r' \<and> log_empty r' \<and>
       (\<exists>u \<in> U. \<forall>b. \<not> in_log (thelog s) b \<longrightarrow> blk r' b = blk u b)"
    using wp_recover_booted [OF r c(1,2)] c(3) quietD(4) [OF s(1)] s(2) by (auto intro!: bexI [OF _ s(2)])
qed

lemma wp_write_pieces:
  fixes s :: "'z filest_scheme"
  assumes s: "quiet s" "5 \<le> lsize (thelog s)"
    and f: "fip (ftable s f) = ip" "foff (ftable s f) = of_nat a"
    and x: "icache s ip = x" "inode_ready x" "file_ok s x N" "a \<le> unat (isize x)"
    and n: "a + n \<le> N * BSIZE" "a + n < 2 ^ 32"
    and post: "\<And>t. pieces_done s f ip N a n g (length (pieces n)) t \<Longrightarrow> Q None t"
  shows "wp (mloop (pieces n) (write_piece f g)) Q s"
proof (rule wp_mloop [where I = "pieces_done s f ip N a n g"])
  have pw: "piece_written s f ip N a 0 g s" using piece_written_refl [of s ip N f a] x f by simp
  then have "piece_written s f ip N a (min (0 * max_write) n) g s" by simp
  then have "s \<in> {u. \<exists>j. piece_written s f ip N a (min (j * max_write) n) g u}" by blast
  from quiet_crash_states [OF s(1) this] pw show "pieces_done s f ip N a n g 0 s"
    unfolding pieces_done_def by (intro exI [of _ "[]"]) (use s(1) in \<open>auto simp: committed_def ends_synced_def\<close>)
next
  fix k t assume k: "k < length (pieces n)" and I: "pieces_done s f ip N a n g k t"
  let ?b = "k * max_write" and ?m = "min max_write (n - k * max_write)"
  note p = pieces_nth [OF k]
  obtain h where h: "committed s h t" "crash_states s h {u. \<exists>j. piece_written s f ip N a (min (j * max_write) n) g u}"
    "piece_written s f ip N a ?b g t"
    using I p(2) by (auto simp: pieces_done_def min_absorb1)
  obtain sz now where ic: "icache t = (icache s)(ip := x\<lparr>isize := sz, imtime := now\<rparr>)"
    using h(3) x(1) by (auto simp: piece_written_def)
  have ft: "ftable t f = (ftable s f)\<lparr>foff := of_nat (a + ?b)\<rparr>" using h(3) by (simp add: piece_written_def)
  have len: "length (content t (icache t ip)) = length (overwrite (content s x) a (map g [0..<?b]))"
    using h(3) x(1) by (simp add: piece_written_def)
  have l: "a + ?b \<le> unat (isize (icache t ip))"
    using len length_overwrite [of a "content s x" "map g [0..<?b]"] x(4) by (simp add: content_def)
  have g: "log_geometry (thelog t) = log_geometry (thelog s)" using h(1) by (simp add: committed_def)
  show "wp (write_piece f g (pieces n ! k))
    (\<lambda>r u. case r of None \<Rightarrow> pieces_done s f ip N a n g (Suc k) u | Some v \<Rightarrow> Q (Some v) u) t"
    unfolding p(1)
  proof (rule wp_write_piece [where a = "a + ?b" and N = N, OF _ _ _ _ refl])
    show "quiet t" "5 \<le> lsize (thelog t)" using h(1) s(2) g by (simp_all add: committed_def log_geometry_def)
    show "fip (ftable t f) = ip" "foff (ftable t f) = of_nat (a + ?b)" using ft f by simp_all
    show "inode_ready (icache t ip)" "file_ok t (icache t ip) N" "a + ?b \<le> unat (isize (icache t ip))"
      using ic x(2) h(3) l by (simp_all add: inode_ready_def piece_written_def)
    show "0 < ?m" "?m \<le> max_write" "a + ?b + ?m \<le> N * BSIZE" "a + ?b + ?m < 2 ^ 32"
      using p(2) n by (auto simp: max_write_def LOGSIZE_def MAXOPBLOCKS_def)
    fix u h' assume u: "committed t h' u" "crash_states t h' {t, u}" "piece_written t f ip N (a + ?b) ?m (\<lambda>j. g (?b + j)) u"
    have pu: "piece_written s f ip N a (min (Suc k * max_write) n) g u"
      unfolding p(3) by (rule piece_written_trans [OF h(3) u(3)]) (use x in auto)
    have pt: "piece_written s f ip N a (min (k * max_write) n) g t" using h(3) p(2) by (simp add: min_absorb1)
    have "crash_states t h' {u. \<exists>j. piece_written s f ip N a (min (j * max_write) n) g u}"
      by (rule crash_states_mono [OF u(2)]) (use pt pu in blast)
    from crash_states_trans [OF h(1,2) this] committed_trans [OF h(1) u(1)] pu
    show "case None of None \<Rightarrow> pieces_done s f ip N a n g (Suc k) u | Some v \<Rightarrow> Q (Some v) u"
      by (auto simp: pieces_done_def)
  qed
qed (rule post)

section \<open>Properties\<close>

lemma quiet_ftable [simp]:
  "quiet (s\<lparr>ftable := C\<rparr>) = quiet s" "file_ok (s\<lparr>ftable := C\<rparr>) x N = file_ok s x N"
  "content (s\<lparr>ftable := C\<rparr>) x = content s x" "file_block (s\<lparr>ftable := C\<rparr>) x = file_block s x"
proof -
  show b [simp]: "file_block (s\<lparr>ftable := C\<rparr>) x = file_block s x" for s :: "'b filest_scheme" and C x
    by (simp add: file_block_def fun_eq_iff)
  have [simp]: "place_ok (s\<lparr>ftable := C\<rparr>) = place_ok s" by (simp add: place_ok_def fun_eq_iff)
  show "quiet (s\<lparr>ftable := C\<rparr>) = quiet s" by (simp add: quiet_def log_empty_def)
  show "content (s\<lparr>ftable := C\<rparr>) x = content s x" by (simp add: content_def fbyte_def)
  show "file_ok (s\<lparr>ftable := C\<rparr>) x N = file_ok s x N"
    by (simp add: file_ok_def file_wf_def inode_apart_def mapped_def synced_def disk_inode_def)
qed

lemma recovered_content:
  assumes "piece_written s f ip N a n g u" "icache s ip = x" "\<And>b. \<not> in_log (thelog u) b \<Longrightarrow> blk r b = blk u b"
  shows "disk_content r x = overwrite (content s x) a (map g [0..<n])"
proof -
  have u: "file_ok u (icache u ip) N" "content u (icache u ip) = overwrite (content s x) a (map g [0..<n])"
    using assms(1,2) by (auto simp: piece_written_def)
  have "stored r (icache u ip) = stored r x" using assms(1,2) by (auto simp: piece_written_def)
  then show ?thesis using disk_content_agree [OF u(1) assms(3)] u(2) by (simp add: disk_content_def)
qed

text \<open>C1. A write system call is durable and crash safe. Writing \<open>n\<close> bytes inside or at the end of an open file returns
  \<open>n\<close>, with the bytes in the content of the file and on the disk. If the machine fails at any point of the call, then
  a machine booted from what is left recovers a file whose content is the old one with some number of whole pieces of
  the data written to it: a multiple of \<open>max_write\<close> bytes, or all of it. So a write of at most \<open>max_write\<close> bytes is
  atomic. All blocks outside the log other than those of the file and its inode are as they were.\<close>

theorem sys_write_durable:
  fixes s :: "'z filest_scheme"
  assumes "quiet s" "5 \<le> lsize (thelog s)"
    and "ftype (ftable s f) = FD_INODE" "writable (ftable s f)" "fip (ftable s f) = ip"
    and "icache s ip = x" "inode_ready x" "file_ok s x N" "off \<le> isize x"
    and "unat off + n \<le> N * BSIZE" "unat off + n < 2 ^ 32" "n < 2 ^ 31"
  shows "\<exists>t h. sys_write (Some f) data n off s = Ok (int n) t \<and> quiet t \<and> hist t = hist s @ h
    \<and> content t (icache t ip) = overwrite (content s x) (unat off) (map data [0..<n])
    \<and> disk_content t x = overwrite (content s x) (unat off) (map data [0..<n])
    \<and> (\<forall>m \<in> crashes [] h (img s). \<forall>r. booted (thelog s) (imglen s) m r \<longrightarrow>
        (\<exists>r' k. recover_from_log r = Ok () (r' :: 'z filest_scheme)
          \<and> disk_content r' x = overwrite (content s x) (unat off) (map data [0..<min (k * max_write) n])
          \<and> (\<forall>b. b \<notin> file_block s x ` {..<N} \<and> b \<noteq> IBLOCK (inum x) \<and> \<not> in_log (thelog s) b \<longrightarrow> blk r' b = blk s b)))"
proof -
  let ?s = "s\<lparr>ftable := (ftable s)(f := (ftable s f)\<lparr>foff := off\<rparr>)\<rparr>"
  let ?pw = "\<lambda>j. piece_written ?s f ip N (unat off) (min (j * max_write) n) data"
  have sn: "int_of_size n = int n"
    using assms(12) sint_unat_small [of "of_nat n"] by (simp add: int_of_size_def unat_of_nat take_bit_nat_eq_self)
  have "wp (mloop (pieces n) (write_piece f data)) (\<lambda>r t. r = None \<and> pieces_done ?s f ip N (unat off) n data (length (pieces n)) t) ?s"
    by (rule wp_write_pieces [where x = x]) (use assms in \<open>simp_all add: word_le_nat_alt\<close>)
  then have "wp (sys_write (Some f) data n off)
      (\<lambda>r t. r = int n \<and> pieces_done ?s f ip N (unat off) n data (length (pieces n)) t) s"
    using assms(3-6,9) by (simp add: sys_write_def filewrite_def wp_simps sn) (auto elim: wp_mono)
  then obtain t h where t: "sys_write (Some f) data n off s = Ok (int n) t" "committed ?s h t"
    and c: "crash_states ?s h {u. \<exists>j. ?pw j u}" and p: "piece_written ?s f ip N (unat off) n data t"
    by (auto simp: pieces_done_def pieces_all dest!: wp_Ok)
  have "\<exists>r' k. recover_from_log r = Ok () r'
      \<and> disk_content r' x = overwrite (content s x) (unat off) (map data [0..<min (k * max_write) n])
      \<and> (\<forall>b. b \<notin> file_block s x ` {..<N} \<and> b \<noteq> IBLOCK (inum x) \<and> \<not> in_log (thelog s) b \<longrightarrow> blk r' b = blk s b)"
    if "m \<in> crashes [] h (img s)" "booted (thelog s) (imglen s) m r" for m and r :: "'z filest_scheme"
  proof -
    have "\<exists>r'. recover_from_log r = Ok () r' \<and> txn_inv r' \<and> log_empty r' \<and>
       (\<exists>u \<in> {u. \<exists>j. ?pw j u}. \<forall>b. \<not> in_log (thelog s) b \<longrightarrow> blk r' b = blk u b)"
      using c that unfolding crash_states_def by simp
    then obtain r' u j where r: "recover_from_log r = Ok () r'" "?pw j u" "\<forall>b. \<not> in_log (thelog s) b \<longrightarrow> blk r' b = blk u b"
      by blast
    have "in_log (thelog u) = in_log (thelog s)" using r(2) by (simp add: piece_written_def)
    then have "disk_content r' x = overwrite (content ?s x) (unat off) (map data [0..<min (j * max_write) n])"
      using r(3) assms(6) by (intro recovered_content [OF r(2)]) simp_all
    moreover have "blk r' b = blk s b" if "b \<notin> file_block s x ` {..<N}" "b \<noteq> IBLOCK (inum x)" "\<not> in_log (thelog s) b" for b
      using r(2,3) that assms(6) by (simp add: piece_written_def)
    ultimately show ?thesis using r(1) by auto
  qed
  moreover have "content t (icache t ip) = overwrite (content s x) (unat off) (map data [0..<n])"
    using p assms(6) by (simp add: piece_written_def)
  moreover have "disk_content t x = overwrite (content ?s x) (unat off) (map data [0..<n])"
    using assms(6) by (intro recovered_content [OF p]) simp_all
  ultimately show ?thesis using t by (intro exI [of _ t] exI [of _ h]) (simp add: committed_def)
qed

text \<open>The small file system between system calls, with its file open for writing.\<close>

definition open_file :: ofile where
  "open_file = \<lparr>ftype = FD_INODE, fref = 1, readable = True, writable = True, fip = 3, foff = 0\<rparr>"

definition with_files :: "fsst \<Rightarrow> (nat \<Rightarrow> ofile) \<Rightarrow> filest" where
  "with_files s F = fsst.extend s (filest.fields F)"

definition idle_fs :: filest where
  "idle_fs = with_files ((small_inodes (\<lambda>_. zero_block))\<lparr>thelog := small_log\<lparr>outstanding := 0\<rparr>\<rparr>)
     ((\<lambda>_. open_file\<lparr>ftype := FD_NONE, fref := 0\<rparr>)(0 := open_file))"

lemma with_files_fields [simp]:
  "bufs (with_files s F) = bufs s" "img (with_files s F) = img s" "imglen (with_files s F) = imglen s"
  "hist (with_files s F) = hist s" "thelog (with_files s F) = thelog s" "icache (with_files s F) = icache s"
  "ftable (with_files s F) = F"
  by (simp_all add: with_files_def fsst.extend_def filest.fields_def)

lemma with_files_cache [simp]:
  "blk (with_files s F) = blk s" "dirty_at (with_files s F) = dirty_at s" "busy_at (with_files s F) = busy_at s"
  "in_image (with_files s F) = in_image s" "txn_inv (with_files s F) = txn_inv s"
proof -
  show a: "blk (with_files s F) = blk s" "dirty_at (with_files s F) = dirty_at s" "busy_at (with_files s F) = busy_at s"
    "in_image (with_files s F) = in_image s"
    by (simp_all add: blk_def dirty_at_def busy_at_def in_image_def fun_eq_iff split: option.split)
  then have "binv (with_files s F) = binv s" by (simp add: binv_def buf_ok_def)
  with a show "txn_inv (with_files s F) = txn_inv s" by (simp add: txn_inv_def log_wf_def head_wf_def Let_def)
qed

lemma idle_fs_ok:
  "quiet idle_fs" "icache idle_fs 3 = file_inode" "thelog idle_fs = small_log\<lparr>outstanding := 0\<rparr>" "ftable idle_fs 0 = open_file"
  "file_ok idle_fs file_inode 2" "img idle_fs = blk idle_fs" "blk idle_fs = small_disk ((\<lambda>_. zero_block)(2 := inode_block))"
proof -
  let ?s = "small_inodes (\<lambda>_. zero_block)"
  show f: "icache idle_fs 3 = file_inode" "thelog idle_fs = small_log\<lparr>outstanding := 0\<rparr>" "ftable idle_fs 0 = open_file"
    and b: "blk idle_fs = small_disk ((\<lambda>_. zero_block)(2 := inode_block))"
    by (simp_all add: idle_fs_def small_file small_inodes_ok)
  have i: "txn_inv idle_fs" "busy_at idle_fs = {}"
    using txn_inv_counters(2) [where s = ?s and n = 0] small_inodes_ok(1,2,4) [of "\<lambda>_. zero_block"] by (simp_all add: idle_fs_def)
  then show im: "img idle_fs = blk idle_fs"
    using txn_clean [of idle_fs] f(2) by (simp add: fun_eq_iff sectors_def small_log_def)
  have "img idle_fs (log_head (thelog idle_fs)) = zero_block"
    unfolding im b f(2) by (simp add: log_head_def small_log_def small_disk_def)
  then have "log_empty idle_fs" by (simp add: log_empty_def zero_block_def get32_def)
  then show "quiet idle_fs" using i f(2) by (simp add: quiet_def small_log_def)
  have "synced idle_fs file_inode"
    by (simp add: synced_def disk_inode_def b small_disk_def IBLOCK_2 inode_block_def IPB_def load_store_inode small_file_fields)
  moreover have "file_wf idle_fs file_inode 2"
    by (rule file_wf_frame [OF small_file_wf(1) [of "\<lambda>_. zero_block"]]) (simp_all add: idle_fs_def small_inodes_ok)
  moreover have "file_block idle_fs file_inode = file_block ?s file_inode" by (simp add: file_block_def idle_fs_def fun_eq_iff)
  then have "inode_apart idle_fs file_inode 2" 
    using small_file_wf(2) [of "\<lambda>_. zero_block"] by (simp add: inode_apart_def idle_fs_def place_ok_def small_inodes_ok)
  ultimately show "file_ok idle_fs file_inode 2"
    by (simp add: file_ok_def small_file_fields T_FILE_def T_DEV_def BSIZE_def NDIRECT_def)
qed

theorem sys_write_durable_witness:
  "\<exists>t h. sys_write (Some 0) (\<lambda>_. 9) 2000 4000 idle_fs = Ok 2000 t
    \<and> disk_content t file_inode = overwrite (content idle_fs file_inode) 4000 (replicate 2000 9)
    \<and> (\<forall>m \<in> crashes [] h (img idle_fs). \<forall>r. booted (thelog idle_fs) (imglen idle_fs) m r \<longrightarrow>
        (\<exists>r' k. recover_from_log r = Ok () (r' :: filest)
          \<and> disk_content r' file_inode = overwrite (content idle_fs file_inode) 4000 (replicate (min (k * max_write) 2000) 9)))"
proof -
  have r: "map (\<lambda>_. 9 :: byte) [0..<k] = replicate k 9" for k :: nat by (simp add: map_replicate_const)
  have x: "inode_ready file_inode" by (simp add: inode_ready_def file_inode_def flag_simps)
  have o: "ftype (ftable idle_fs 0) = FD_INODE" "writable (ftable idle_fs 0)" "fip (ftable idle_fs 0) = 3"
    by (simp_all add: idle_fs_ok open_file_def)
  show ?thesis
    using sys_write_durable [OF idle_fs_ok(1) _ o idle_fs_ok(2) x idle_fs_ok(5), of 4000 2000 "\<lambda>_. 9"]
    unfolding r by (simp add: idle_fs_ok(3) small_log_def small_file_fields BSIZE_def) blast
qed

text \<open>C10. Reading a file: inside the file \<open>sys_read\<close> returns as many bytes of its content from \<open>off\<close> on as were asked for
  and the file has, leaves the rest of the buffer alone, moves the offset of the open file, and changes nothing else.\<close>

theorem sys_read_content:
  fixes s :: "'z filest_scheme"
  assumes "binv s" "card (dirty_at s \<union> busy_at s) < NBUF"
    and "ftype (ftable s f) = FD_INODE" "readable (ftable s f)" "fip (ftable s f) = ip"
    and "icache s ip = x" "inode_ready x" "file_ok s x N" "off \<le> isize x" "unat off + n < 2 ^ 32" "n < 2 ^ 31"
  defines "bs \<equiv> take n (drop (unat off) (content s x))"
  shows "\<exists>t. sys_read (Some f) buf n off s = Ok (int (length bs), fill buf 0 (length bs) (\<lambda>i. bs ! i)) t
    \<and> ftable t = (ftable s)(f := (ftable s f)\<lparr>foff := off + of_nat (length bs)\<rparr>)
    \<and> icache t = icache s \<and> blk t = blk s \<and> busy_at t = busy_at s \<and> dirty_at t = dirty_at s"
proof -
  let ?x' = "x\<lparr>iflags := iflags x OR 1\<rparr>" and ?n = "of_nat n :: u32"
  let ?F = "(ftable s)(f := (ftable s f)\<lparr>foff := off\<rparr>)"
  let ?s = "s\<lparr>ftable := ?F, icache := (icache s)(ip := ?x')\<rparr>"
  let ?l = "length bs"
  let ?post = "\<lambda>(r, m) t. r = int ?l \<and> m = fill buf 0 ?l (\<lambda>i. bs ! i)
    \<and> ftable t = (ftable s)(f := (ftable s f)\<lparr>foff := off + of_nat ?l\<rparr>)
    \<and> icache t = icache s \<and> blk t = blk s \<and> busy_at t = busy_at s \<and> dirty_at t = dirty_at s"
  have sn: "int_of_size n = int n" "unat ?n = n"
    using assms(11) sint_unat_small [of "of_nat n"] by (simp_all add: int_of_size_def unat_of_nat take_bit_nat_eq_self)
  have wrap: "\<not> off + ?n < off" using assms(10) sn(2) by (simp add: word_less_nat_alt unat_word_ariths)
  have l: "?l = read_len ?x' off ?n" using sn(2) by (simp add: bs_def read_len_def content_def)
  have c: "fbyte ?s ?x' (unat off + i) = bs ! i" if "i < ?l" for i
  proof -
    have "fbyte ?s ?x' j = fbyte s x j" for j by (simp add: fbyte_def)
    then show ?thesis using that assms(9) by (simp add: bs_def content_def word_le_nat_alt less_diff_conv add.commute)
  qed
  have fl: "fill buf 0 ?l (\<lambda>i. fbyte ?s ?x' (unat off + i)) = fill buf 0 ?l (\<lambda>i. bs ! i)"
    using c by (auto simp: fill_def fun_eq_iff)
  have "wp (readi ip buf off ?n) (\<lambda>a. wp (case a of (r, m) \<Rightarrow> andthen (unless (r \<le> 0) (upd_file f (\<lambda>x. x\<lparr>foff := foff x + word_of_int r\<rparr>))) (
         andthen (iunlock ip) (return (r, m)))) ?post) ?s"
  proof (rule wp_readi [where x = ?x'], unfold l [symmetric] fl)
    show "mapped ?s ?x' ((unat off + i) div BSIZE)" if "i < ?l" for i
    proof -
      have "unat off + i < N * BSIZE" using that assms(8) by (auto simp: bs_def content_def file_ok_def)
      then have "mapped s x ((unat off + i) div BSIZE)" using assms(8) by (simp add: less_mult_imp_div_less file_ok_def file_wf_def)
      then show ?thesis by (simp add: mapped_def place_ok_def)
    qed
    fix t assume t: "like ?s t"
    show "wp (case (int ?l, fill buf 0 ?l (\<lambda>i. bs ! i)) of (r, m) \<Rightarrow> andthen (unless (r \<le> 0) (upd_file f (\<lambda>x. x\<lparr>foff := foff x + word_of_int r\<rparr>))) (
         andthen (iunlock ip) (return (r, m)))) ?post t"
      using assms(6,7) like_fields(1-3) [OF t] like_icache [OF t] lframe_ftable [OF like_fields(7) [OF t]]
      by (simp add: wp_simps wp_iunlock inode_ready_def inode_flag_or lock_flags fun_upd_idem)
  qed (use assms sn l wrap in \<open>auto simp: file_ok_def not_less bs_def\<close>)
  then have "wp (sys_read (Some f) buf n off) ?post s"
    using assms(3-7) by (simp add: sys_read_def fileread_def wp_simps sn wp_ilock_valid inode_ready_def)
  then show ?thesis by (auto dest!: wp_Ok)
qed

theorem sys_read_content_witness:
  "\<exists>t. sys_read (Some 0) zero_block 2000 4000 idle_fs = Ok (1000, fill zero_block 0 1000 (\<lambda>i. take 2000 (drop 4000 (content idle_fs file_inode)) ! i)) t"
proof -
  have x: "inode_ready file_inode" by (simp add: inode_ready_def file_inode_def flag_simps)
  have o: "ftype (ftable idle_fs 0) = FD_INODE" "readable (ftable idle_fs 0)" "fip (ftable idle_fs 0) = 3"
    by (simp_all add: idle_fs_ok open_file_def)
  have i: "binv idle_fs" "card (dirty_at idle_fs \<union> busy_at idle_fs) < NBUF"
    using quietD(1-3) [OF idle_fs_ok(1)] by (simp_all add: txn_inv_def NBUF_def)
  show ?thesis
    using sys_read_content [OF i o idle_fs_ok(2) x idle_fs_ok(5), of 4000 2000 zero_block]
    by (auto simp: content_def small_file_fields)
qed

end
