(* ===== verification/C_Loop.thy ===== *)
theory C_Loop
  imports Xv6_Base "HOL-Library.While_Combinator"
begin

text \<open>
  C loops whose end is not bounded by their counter: \<open>run_loop\<close> iterates a body over results with the while combinator, so that
  a loop that runs forever is \<^const>\<open>None\<close> and nothing has to be said about the number of iterations; \<open>cwhile\<close> is the same
  as a statement of the monad. The lemmas say when a loop never ends, and give the rule of total correctness with an
  invariant and a measure.
\<close>

text \<open>The next iteration after a result; a failure is kept.\<close>

definition after :: "('s, 'a) result \<Rightarrow> ('a \<Rightarrow> ('s, 'b) xm) \<Rightarrow> ('s, 'b) result" where
  "after r g = (case r of Ok a t \<Rightarrow> g a t | Fail e t \<Rightarrow> Fail e t)"

definition run_loop :: "('a \<Rightarrow> 's \<Rightarrow> bool) \<Rightarrow> ('a \<Rightarrow> ('s, 'a) xm) \<Rightarrow> 'a \<Rightarrow> 's \<Rightarrow> ('s, 'a) result option" where
  "run_loop c body a s =
     while_option (\<lambda>r. case r of Ok a t \<Rightarrow> c a t | Fail _ _ \<Rightarrow> False) (\<lambda>r. after r body) (Ok a s)"

text \<open>The state of a loop that runs forever is not observed again.\<close>

definition cwhile :: "('a \<Rightarrow> bool) \<Rightarrow> ('a \<Rightarrow> ('s, 'a) xm) \<Rightarrow> 'a \<Rightarrow> ('s, 'a) xm" where
  "cwhile c body a s = (case run_loop (\<lambda>a _. c a) body a s of None \<Rightarrow> Fail Hang s | Some r \<Rightarrow> r)"

lemma while_option_stuck: "b s \<Longrightarrow> c s = s \<Longrightarrow> while_option b c s = None"
proof -
  assume "b s" "c s = s"
  moreover from this have "(c ^^ k) s = s" for k by (induction k) simp_all
  ultimately show ?thesis by (simp add: while_option_def)
qed

lemma run_loop_stuck: "c a s \<Longrightarrow> body a s = Ok a s \<Longrightarrow> run_loop c body a s = None"
  unfolding run_loop_def by (rule while_option_stuck) (simp_all add: after_def)

lemma run_loop_skip: "\<not> c a s \<Longrightarrow> run_loop c body a s = Some (Ok a s)"
  by (simp add: run_loop_def while_option_unfold)

lemma run_loop_once:
  assumes "c a s" "body a s = r" "\<And>b t. r = Ok b t \<Longrightarrow> \<not> c b t"
  shows "run_loop c body a s = Some r"
  using assms by (cases r) (simp_all add: run_loop_def while_option_unfold after_def)

lemma run_loop_step: "c a s \<Longrightarrow> body a s = Ok b t \<Longrightarrow> run_loop c body a s = run_loop c body b t"
  by (simp add: run_loop_def while_option_unfold [of _ _ "Ok a s"] after_def)

lemma run_loop_fail: "c a s \<Longrightarrow> body a s = Fail e t \<Longrightarrow> run_loop c body a s = Some (Fail e t)"
  by (rule run_loop_once) simp_all

text \<open>A loop that keeps its condition and never fails does not end.\<close>

lemma run_loop_forever:
  assumes "I a s" "\<And>a s. I a s \<Longrightarrow> c a s \<and> (\<exists>b t. body a s = Ok b t \<and> I b t)"
  shows "run_loop c body a s = None"
proof -
  let ?P = "\<lambda>r. case r of Ok a t \<Rightarrow> I a t | Fail _ _ \<Rightarrow> False"
  have step: "?P r \<Longrightarrow> ?P (after r body)" for r using assms(2) by (fastforce simp: after_def split: result.splits)
  have "?P (((\<lambda>r. after r body) ^^ k) (Ok a s))" for k
    by (induction k) (simp add: assms(1), use step in simp)
  moreover have "case r of Ok a t \<Rightarrow> c a t | Fail _ _ \<Rightarrow> False" if "?P r" for r using that assms(2) by (cases r) auto
  ultimately show ?thesis by (simp add: run_loop_def while_option_def)
qed

text \<open>Total correctness of a loop.\<close>

lemma wp_cwhile:
  assumes "I a s"
    and step: "\<And>a s. I a s \<Longrightarrow> c a \<Longrightarrow> wp (body a) (\<lambda>b t. I b t \<and> m b t < (m a s :: nat)) s"
    and post: "\<And>a s. I a s \<Longrightarrow> \<not> c a \<Longrightarrow> Q a s"
  shows "wp (cwhile c body a) Q s"
  using assms(1)
proof (induction "m a s" arbitrary: a s rule: less_induct)
  case less
  show ?case
  proof (cases "c a")
    case True
    obtain b t where b: "body a s = Ok b t" "I b t" "m b t < m a s"
      using step [OF less.prems True] by (auto simp: wp_def split: result.splits)
    have "wp (cwhile c body b) Q t" by (rule less.hyps [OF b(3,2)])
    moreover have "run_loop (\<lambda>a _. c a) body a s = run_loop (\<lambda>a _. c a) body b t" by (rule run_loop_step) (use True b in simp_all)
    ultimately show ?thesis by (auto simp: wp_def cwhile_def split: option.splits)
  next
    case False
    then have "run_loop (\<lambda>a _. c a) body a s = Some (Ok a s)" by (intro run_loop_skip) simp
    then show ?thesis using post [OF less.prems False] by (simp add: wp_def cwhile_def)
  qed
qed

text \<open>A loop that keeps its condition until its body fails.\<close>

lemma cwhile_fails:
  assumes "I a s"
    and step: "\<And>a s. I a s \<Longrightarrow> c a \<and> ((\<exists>b t. body a s = Ok b t \<and> I b t \<and> m b < (m a :: nat)) \<or> (\<exists>t. body a s = Fail e t))"
  shows "\<exists>t. cwhile c body a s = Fail e t"
  using assms(1)
proof (induction "m a" arbitrary: a s rule: less_induct)
  case less
  have c: "c a" using step [OF less.prems] by simp
  consider (more) b t where "body a s = Ok b t" "I b t" "m b < m a" | (fails) t where "body a s = Fail e t"
    using step [OF less.prems] by blast
  then show ?case
  proof cases
    case more
    then have "run_loop (\<lambda>a _. c a) body a s = run_loop (\<lambda>a _. c a) body b t" using c by (intro run_loop_step)
    moreover have "\<exists>u. cwhile c body b t = Fail e u" by (rule less.hyps [OF more(3,2)])
    ultimately show ?thesis by (auto simp: cwhile_def split: option.splits)
  next
    case fails
    then have "run_loop (\<lambda>a _. c a) body a s = Some (Fail e t)" using c by (intro run_loop_fail)
    then show ?thesis by (simp add: cwhile_def)
  qed
qed

end
