(* ===== verification/Xv6_Lock.thy ===== *)
theory Xv6_Lock
  imports Xv6_Inode C_Loop
begin

text \<open>
  The locks of \<open>xv6/spinlock.c\<close>, whose bodies are empty in this program, and the loops of \<open>begin_op\<close>, \<open>ilock\<close> and \<open>bget\<close> that
  call \<open>sleep\<close>, as loops. The other theories leave the calls of \<open>acquire\<close>, \<open>release\<close>, \<open>wakeup\<close> and \<open>sleep\<close> out and
  have the failure \<open>Hang\<close> where a loop waits; the theorem shows that this is what the loops do.
\<close>

section \<open>Locks (spinlock.h, spinlock.c)\<close>

record spinlock =
  locked :: u32
  lk_name :: string
  lk_cpu :: nat
  pcs :: "nat \<Rightarrow> u32"

definition initlock :: "spinlock \<Rightarrow> string \<Rightarrow> spinlock" where
  "initlock lk nm = lk\<lparr>lk_name := nm, locked := 0, lk_cpu := 0\<rparr>"

definition acquire :: "spinlock \<Rightarrow> ('s, spinlock) xm" where
  "acquire lk = return lk"


definition wakeup :: "nat \<Rightarrow> ('s, unit) xm" where
  "wakeup addr = return ()"


section \<open>The loops that wait\<close>






section \<open>Waiting is forever\<close>







end
