(* ===== verification/Xv6_Walk.thy ===== *)
theory Xv6_Walk
  imports Xv6_Durable
begin

text \<open>
  The walk of \<open>namex\<close> over several directories: an abstract walk over the tree on the disk, what the
  inode cache looks like while nobody holds a lock, and the proof that \<open>namex\<close> follows the abstract walk and
  gives every lock and every reference back but the one it returns.
\<close>

section \<open>The tree on the disk\<close>

text \<open>Inode \<open>i\<close> as the disk has it.\<close>

definition node :: "'z bcache_scheme \<Rightarrow> u32 \<Rightarrow> inode" where
  "node s i = load_inode (disk_inode s i) (free_inode\<lparr>idev := ROOTDEV, inum := i\<rparr>)"

text \<open>One step of a path and the whole path, on the disk alone: the first entry in use whose name agrees
  with the first \<open>DIRSIZ\<close> characters of the element.\<close>

definition entry_named :: "'z bcache_scheme \<Rightarrow> inode \<Rightarrow> byte list \<Rightarrow> nat \<Rightarrow> bool" where
  "entry_named s x e k \<longleftrightarrow> de_inum (dir_entry s x k) \<noteq> 0 \<and> cname (de_name (dir_entry s x k)) = take DIRSIZ e"

definition lookup :: "'z bcache_scheme \<Rightarrow> u32 \<Rightarrow> byte list \<Rightarrow> u32 option" where
  "lookup s i e = (let x = node s i in
     if itype x \<noteq> T_DIR then None
     else map_option (\<lambda>k. ucast (de_inum (dir_entry s x k))) (find (entry_named s x e) [0..<dir_count x]))"

fun walk :: "'z bcache_scheme \<Rightarrow> u32 \<Rightarrow> byte list list \<Rightarrow> u32 option" where
  "walk s i [] = Some i"
| "walk s i (e # es) = (case lookup s i e of None \<Rightarrow> None | Some j \<Rightarrow> walk s j es)"

text \<open>What \<open>namex\<close> looks for: the inode at the end of the path, or the directory before its last
  element.\<close>

definition target :: "'z bcache_scheme \<Rightarrow> bool \<Rightarrow> u32 \<Rightarrow> byte list list \<Rightarrow> u32 option" where
  "target s parent i es =
     (if parent then
        if es = [] then None
        else case walk s i (butlast es) of
               None \<Rightarrow> None
             | Some j \<Rightarrow> if itype (node s j) = T_DIR then Some j else None
      else walk s i es)"

lemma target_simps:
  "target s True i [] = None" "target s False i [] = Some i"
  "target s True i [e] = (if itype (node s i) = T_DIR then Some i else None)"
  "(es \<noteq> [] \<or> \<not> parent) \<Longrightarrow> target s parent i (e # es) =
     (case lookup s i e of None \<Rightarrow> None | Some j \<Rightarrow> target s parent j es)"
  by (auto simp: target_def split: option.split)

text \<open>The inodes \<open>I\<close> are a tree: each of them is allocated and linked, directories are well-formed, and
  their entries name inodes of \<open>I\<close>.\<close>

definition tree_ok :: "'z logst_scheme \<Rightarrow> u32 set \<Rightarrow> bool" where
  "tree_ok s I \<longleftrightarrow> (\<forall>i \<in> I. place_ok s (IBLOCK i) \<and> di_type (disk_inode s i) \<noteq> 0 \<and> di_nlink (disk_inode s i) \<noteq> 0
     \<and> (di_type (disk_inode s i) = T_DIR \<longrightarrow> (\<exists>N. dir_wf s (node s i) N)
        \<and> (\<forall>k < dir_count (node s i). de_inum (dir_entry s (node s i) k) \<noteq> 0 \<longrightarrow>
             ucast (de_inum (dir_entry s (node s i) k)) \<in> I)))"

lemma same_addrs_content:
  assumes "\<And>k. k < NDIRECT + 1 \<Longrightarrow> iaddrs x k = iaddrs y k"
  shows "file_block s x = file_block s y" "fbyte s x = fbyte s y" "dir_entry s x = dir_entry s y"
    "mapped s x = mapped s y" "file_wf s x N = file_wf s y N"
proof -
  show b: "file_block s x = file_block s y" using assms by (auto simp: file_block_def fun_eq_iff)
  then show f: "fbyte s x = fbyte s y" by (simp add: fbyte_def fun_eq_iff)
  then show "dir_entry s x = dir_entry s y" by (simp add: dir_entry_def fun_eq_iff)
  show m: "mapped s x = mapped s y" using b assms [of NDIRECT] by (simp add: mapped_def fun_eq_iff)
  show "file_wf s x N = file_wf s y N" using b m assms [of NDIRECT] by (simp add: file_wf_def)
qed

lemma node_fields:
  "itype (node s i) = di_type (disk_inode s i)" "isize (node s i) = di_size (disk_inode s i)"
  "idev (node s i) = ROOTDEV" "k < NDIRECT + 1 \<Longrightarrow> iaddrs (node s i) k = di_addrs (disk_inode s i) k"
  by (simp_all add: node_def load_inode_def)

text \<open>An inode in memory with the fields of the disk is the same directory.\<close>

lemma same_fields_node:
  assumes "same_fields x (disk_inode s i)"
  shows "itype x = itype (node s i)" "dir_count x = dir_count (node s i)" "dir_entry s x = dir_entry s (node s i)"
    "idev x = ROOTDEV \<Longrightarrow> dir_wf s x N = dir_wf s (node s i) N"
proof -
  have a: "iaddrs x k = iaddrs (node s i) k" if "k < NDIRECT + 1" for k
    using assms that by (simp add: same_fields_def node_fields)
  show "itype x = itype (node s i)" "dir_count x = dir_count (node s i)"
    using assms by (simp_all add: same_fields_def node_fields dir_count_def)
  show "dir_entry s x = dir_entry s (node s i)" by (rule same_addrs_content) (rule a)
  show "dir_wf s x N = dir_wf s (node s i) N" if "idev x = ROOTDEV"
    using assms that same_addrs_content(5) [where s = s, OF a] by (simp add: dir_wf_def same_fields_def node_fields)
qed

section \<open>Browsing\<close>

text \<open>A state that differs only in what the two caches hold.\<close>

definition browsed :: "'z fsst_scheme \<Rightarrow> 'z fsst_scheme \<Rightarrow> bool" where
  "browsed s t \<longleftrightarrow> like s (t\<lparr>icache := icache s\<rparr>)"

lemma browsed_refl: "binv s \<Longrightarrow> browsed s s"
  by (simp add: browsed_def like_refl)

lemma browsed_like: "like s t \<Longrightarrow> browsed s (t\<lparr>icache := C\<rparr>)"
  using icache_self [OF like_icache [of s t]] by (simp add: browsed_def)

lemma browsed_upd: "binv s \<Longrightarrow> browsed s (s\<lparr>icache := C\<rparr>)"
  by (rule browsed_like) (rule like_refl)

lemma browsed_trans:
  assumes "browsed s t" "browsed t u"
  shows "browsed s u"
proof -
  have "like ((t\<lparr>icache := icache s\<rparr>)\<lparr>icache := icache t\<rparr>) (u\<lparr>icache := icache t\<rparr>)"
    using assms(2) by (simp add: browsed_def)
  from like_upd_icache [OF this] have "like (t\<lparr>icache := icache s\<rparr>) (u\<lparr>icache := icache s\<rparr>)" by simp
  with assms(1) show ?thesis by (auto simp: browsed_def intro: like_trans)
qed

lemma browsed_fields:
  assumes "browsed s t"
  shows "binv t" "blk t = blk s" "dirty_at t = dirty_at s" "busy_at t = busy_at s" "place_ok t = place_ok s"
    "disk_inode t = disk_inode s" "node t = node s" "dir_entry t = dir_entry s" "lookup t = lookup s"
    "tree_ok t I = tree_ok s I" "thelog t = thelog s" "dir_wf t = dir_wf s"
proof -
  note l = like_fields [OF assms [unfolded browsed_def]] and d = like_dir [OF assms [unfolded browsed_def]]
    and c = like_content [OF assms [unfolded browsed_def]]
  show "binv t" and b: "blk t = blk s" and "dirty_at t = dirty_at s" "busy_at t = busy_at s" and "thelog t = thelog s"
    using l(1-3,5,6) by simp_all
  have "place_ok (t\<lparr>icache := icache s\<rparr>) = place_ok t" by (simp add: place_ok_def fun_eq_iff)
  with c(3) show p: "place_ok t = place_ok s" by (simp add: fun_eq_iff)
  show di: "disk_inode t = disk_inode s" by (simp add: disk_inode_def fun_eq_iff b)
  then show n: "node t = node s" by (simp add: node_def fun_eq_iff)
  have "dir_entry (t\<lparr>icache := icache s\<rparr>) = dir_entry t"
    by (simp add: dir_entry_def fbyte_def file_block_def fun_eq_iff)
  with d(2) show e: "dir_entry t = dir_entry s" by (simp add: fun_eq_iff)
  have en: "entry_named t = entry_named s" by (intro ext) (simp add: entry_named_def e)
  show "lookup t = lookup s" by (intro ext) (simp add: lookup_def Let_def n e en)
  have "dir_wf (t\<lparr>icache := icache s\<rparr>) = dir_wf t"
    by (simp add: dir_wf_def file_wf_def mapped_def place_ok_def file_block_def fun_eq_iff)
  with d(5) show w: "dir_wf t = dir_wf s" by (simp add: fun_eq_iff)
  show "tree_ok t I = tree_ok s I" by (simp add: tree_ok_def p di n e w)
qed

lemma browsed_walk:
  assumes "browsed s t"
  shows "walk t i es = walk s i es" "target t parent i es = target s parent i es"
proof -
  show w: "walk t i es = walk s i es" for i es
    by (induction es arbitrary: i) (simp_all add: browsed_fields(9) [OF assms] split: option.split)
  show "target t parent i es = target s parent i es"
    by (simp add: target_def w browsed_fields(7) [OF assms] split: option.split)
qed

section \<open>The inode cache while nobody holds a lock\<close>

text \<open>An entry at rest: of the root device, unlocked, and if it was read in, with the fields of the disk.\<close>

definition at_rest :: "'z bcache_scheme \<Rightarrow> inode \<Rightarrow> bool" where
  "at_rest s x \<longleftrightarrow> idev x = ROOTDEV \<and> \<not> bit (iflags x) 0
     \<and> (bit (iflags x) 1 \<longrightarrow> same_fields x (disk_inode s (inum x)))"

definition coherent :: "'z fsst_scheme \<Rightarrow> bool" where
  "coherent s \<longleftrightarrow> icache_ok (icache s) \<and> (\<forall>ip < NINODE. 0 < iref (icache s ip) \<longrightarrow> at_rest s (icache s ip))"

text \<open>The reference counts agree, and \<open>dropped\<close> is the cache after one reference is given back.\<close>

definition same_refs :: "(nat \<Rightarrow> inode) \<Rightarrow> (nat \<Rightarrow> inode) \<Rightarrow> bool" where
  "same_refs C D \<longleftrightarrow> (\<forall>i < NINODE. iref (D i) = iref (C i) \<and> (iref (C i) \<noteq> 0 \<longrightarrow> inum (D i) = inum (C i)))"

definition dropped :: "(nat \<Rightarrow> inode) \<Rightarrow> nat \<Rightarrow> nat \<Rightarrow> inode" where
  "dropped C ip = C(ip := (C ip)\<lparr>iref := iref (C ip) - 1\<rparr>)"

definition two_free :: "(nat \<Rightarrow> inode) \<Rightarrow> bool" where
  "two_free C \<longleftrightarrow> (\<exists>a b. a < NINODE \<and> b < NINODE \<and> a \<noteq> b \<and> iref (C a) = 0 \<and> iref (C b) = 0)"

lemma same_refs_refl: "same_refs C C"
  by (simp add: same_refs_def)

lemma same_refs_trans: "same_refs C D \<Longrightarrow> same_refs D E \<Longrightarrow> same_refs C E"
  by (simp add: same_refs_def)

text \<open>\<open>iget\<close> adds a reference: to the entry of the inode, or to a free entry that becomes its entry.\<close>

definition got :: "(nat \<Rightarrow> inode) \<Rightarrow> u32 \<Rightarrow> nat \<Rightarrow> (nat \<Rightarrow> inode) \<Rightarrow> bool" where
  "got C i ip D \<longleftrightarrow> ip < NINODE \<and> icache_ok D \<and>
     (in_use C ROOTDEV i ip \<and> D = C(ip := (C ip)\<lparr>iref := iref (C ip) + 1\<rparr>)
      \<or> iref (C ip) = 0 \<and> D = C(ip := (C ip)\<lparr>idev := ROOTDEV, inum := i, iref := 1, iflags := 0\<rparr>))"

lemma wp_iget_got:
  assumes ok: "icache_ok (icache s)" and free: "\<exists>i < NINODE. iref (icache s i) = 0"
    and post: "\<And>ip D. got (icache s) i ip D \<Longrightarrow> Q ip (s\<lparr>icache := D\<rparr>)"
  shows "wp (iget ROOTDEV i) Q s"
proof (cases "\<exists>ip. in_use (icache s) ROOTDEV i ip")
  case True
  then obtain ip where ip: "in_use (icache s) ROOTDEV i ip" by blast
  then have lt: "ip < NINODE" "0 < iref (icache s ip)" by (auto simp: in_use_def)
  then have "icache_ok ((icache s)(ip := (icache s ip)\<lparr>iref := iref (icache s ip) + 1\<rparr>))"
    using ok by (intro icache_ok_upd) auto
  then show ?thesis unfolding wp_def iget_found [OF ok ip] result.case using ip lt by (intro post) (simp add: got_def)
next
  case False
  then have none: "\<And>j. \<not> in_use (icache s) ROOTDEV i j" by blast
  obtain ip where f: "find (\<lambda>i. iref (icache s i) = 0) [0..<NINODE] = Some ip"
    using free by (cases "find (\<lambda>i. iref (icache s i) = 0) [0..<NINODE]") (auto simp: find_None_iff)
  then have lt: "ip < NINODE" "iref (icache s ip) = 0" using find_Some_in by (fastforce simp: find_Some_iff)+
  have "icache_ok ((icache s)(ip := (icache s ip)\<lparr>idev := ROOTDEV, inum := i, iref := 1, iflags := 0\<rparr>))"
    using none by (intro icache_ok_new [OF ok]) auto
  then show ?thesis unfolding wp_def iget_new [OF ok none f] result.case using lt by (intro post) (simp add: got_def)
qed

lemma got_in_use: "got C i ip D \<Longrightarrow> in_use D ROOTDEV i ip"
  by (auto simp: got_def in_use_def)

lemma got_dropped: "got C i ip D \<Longrightarrow> same_refs C (dropped D ip)"
  by (auto simp: got_def same_refs_def dropped_def)

text \<open>Locking: afterwards the inode is locked and has the fields of the disk.\<close>

definition locked_as :: "'z bcache_scheme \<Rightarrow> inode \<Rightarrow> inode \<Rightarrow> bool" where
  "locked_as s x y \<longleftrightarrow> idev y = ROOTDEV \<and> inum y = inum x \<and> iref y = iref x \<and> bit (iflags y) 0 \<and> bit (iflags y) 1
     \<and> same_fields y (disk_inode s (inum x))"

lemma wp_ilock_rest:
  fixes s :: "'z fsst_scheme"
  assumes s: "binv s" "readable_now s (IBLOCK (inum (icache s ip)))" "di_type (disk_inode s (inum (icache s ip))) \<noteq> 0"
    and x: "1 \<le> iref (icache s ip)" "at_rest s (icache s ip)"
    and post: "\<And>t y. browsed s t \<Longrightarrow> icache t = (icache s)(ip := y) \<Longrightarrow> locked_as s (icache s ip) y \<Longrightarrow> Q () t"
  shows "wp (ilock ip) Q s"
proof (cases "bit (iflags (icache s ip)) 1")
  case True
  have b: "\<not> bit (iflags (icache s ip)) 0" using x(2) by (simp add: at_rest_def)
  show ?thesis
    unfolding wp_ilock_valid [OF x(1) b True]
    by (rule post [OF browsed_upd [OF s(1)]])
       (use True x(2) in \<open>auto simp: locked_as_def at_rest_def bit_simps\<close>)
next
  case False
  have b: "\<not> bit (iflags (icache s ip)) 0" "idev (icache s ip) = ROOTDEV" using x(2) by (simp_all add: at_rest_def)
  show ?thesis
  proof (rule wp_ilock_load [OF x(1) b(1) False b(2) s])
    fix t C assume t: "like s t" and C: "C = (icache s)(ip := (load_inode (disk_inode s (inum (icache s ip))) (icache s ip))
        \<lparr>iflags := iflags (icache s ip) OR 1 OR 2\<rparr>)"
    show "Q () (t\<lparr>icache := C\<rparr>)"
      by (rule post [OF browsed_like [OF t]])
         (use b in \<open>auto simp: C locked_as_def load_inode_place same_fields_load bit_simps\<close>)
  qed
qed

text \<open>Giving lock and reference of a linked inode back.\<close>

lemma wp_iput_linked:
  assumes "inlink (icache s ip) \<noteq> 0 \<or> \<not> bit (iflags (icache s ip)) 1 \<or> iref (icache s ip) \<noteq> 1"
  shows "wp (iput ip) Q s = Q () (s\<lparr>icache := dropped (icache s) ip\<rparr>)"
  using assms by (auto simp: iput_def wp_simps dropped_def I_VALID_def flag_simps)

lemma wp_iunlockput_linked:
  assumes "1 \<le> iref (icache s ip)" "bit (iflags (icache s ip)) 0" "inlink (icache s ip) \<noteq> 0"
  shows "wp (iunlockput ip) Q s = Q () (s\<lparr>icache := dropped ((icache s)(ip := (icache s ip)\<lparr>iflags := iflags (icache s ip) AND - 2\<rparr>)) ip\<rparr>)"
  unfolding iunlockput_def wp_andthen wp_iunlock [OF assms(1,2)]
  by (subst wp_iput_linked) (use assms in simp_all)

text \<open>An inode that was locked is at rest again when it is unlocked.\<close>

lemma unlocked_rest: "locked_as s x y \<Longrightarrow> at_rest s (y\<lparr>iflags := iflags y AND - 2, iref := r\<rparr>)"
proof -
  have "same_fields (z\<lparr>iref := r\<rparr>) d = same_fields z d" for z d by (simp add: same_fields_def)
  moreover have "\<not> bit (f AND - 2) 0" for f :: u32
    using bit_simps(1) by (simp add: bit_and_iff bit_minus_2_iff)
  ultimately show "locked_as s x y \<Longrightarrow> ?thesis"
    by (auto simp: locked_as_def at_rest_def)
qed

lemma rest_iref [simp]: "at_rest s (x\<lparr>iref := r\<rparr>) = at_rest s x"
  by (simp add: at_rest_def same_fields_def)

lemma rest_flags0: "at_rest s (x\<lparr>idev := ROOTDEV, inum := i, iref := r, iflags := 0\<rparr>)"
  by (simp add: at_rest_def)

section \<open>The walk\<close>

abbreviation unlocked :: "inode \<Rightarrow> inode" where
  "unlocked x \<equiv> x\<lparr>iflags := iflags x AND - 2\<rparr>"

abbreviation released :: "(nat \<Rightarrow> inode) \<Rightarrow> nat \<Rightarrow> nat \<Rightarrow> inode" where
  "released D ip \<equiv> dropped (D(ip := unlocked (D ip))) ip"

lemma locked_cache_ok:
  assumes "coherent s" "ip < NINODE" "1 \<le> iref (icache s ip)" "locked_as s (icache s ip) y"
  shows "icache_ok ((icache s)(ip := y))"
  using assms by (intro icache_ok_upd) (auto simp: coherent_def locked_as_def at_rest_def)

text \<open>The cache after the lock and the reference of the directory are given back, without and with an
  \<open>iget\<close> of the next inode in between.\<close>

lemma released_coherent:
  assumes s: "coherent s" "ip < NINODE" "1 \<le> iref (icache s ip)" "locked_as s (icache s ip) y"
  shows "icache_ok (released ((icache s)(ip := y)) ip)"
    "\<forall>i < NINODE. 0 < iref (released ((icache s)(ip := y)) ip i) \<longrightarrow> at_rest s (released ((icache s)(ip := y)) ip i)"
    "same_refs (dropped (icache s) ip) (released ((icache s)(ip := y)) ip)"
proof -
  have y: "iref y = iref (icache s ip)" "inum y = inum (icache s ip)" using s(4) by (simp_all add: locked_as_def)
  have "icache_ok (((icache s)(ip := y))(ip := (unlocked y)\<lparr>iref := iref y - 1\<rparr>))"
    by (rule icache_ok_upd [OF locked_cache_ok [OF s] s(2)]) (use s(3) y in auto)
  then show "icache_ok (released ((icache s)(ip := y)) ip)" by (simp add: dropped_def)
  show "\<forall>i < NINODE. 0 < iref (released ((icache s)(ip := y)) ip i) \<longrightarrow> at_rest s (released ((icache s)(ip := y)) ip i)"
    using s(1) unlocked_rest [OF s(4), of "iref y - 1"] by (auto simp: dropped_def coherent_def)
  show "same_refs (dropped (icache s) ip) (released ((icache s)(ip := y)) ip)"
    using y by (simp add: same_refs_def dropped_def)
qed

lemma advanced_coherent:
  assumes s: "coherent s" "ip < NINODE" "1 \<le> iref (icache s ip)" "locked_as s (icache s ip) y"
    and g: "got ((icache s)(ip := y)) j nx D"
  shows "icache_ok (released D ip)"
    "\<forall>i < NINODE. 0 < iref (released D ip i) \<longrightarrow> at_rest s (released D ip i)"
    "same_refs (dropped (icache s) ip) (dropped (released D ip) nx)" "in_use (released D ip) ROOTDEV j nx"
    "1 \<le> iref (D ip)" "bit (iflags (D ip)) 0" "inlink (D ip) = inlink y"
proof -
  have y: "iref y = iref (icache s ip)" "inum y = inum (icache s ip)" "bit (iflags y) 0" "idev y = ROOTDEV"
    using s(4) by (simp_all add: locked_as_def)
  have nx: "nx < NINODE" "icache_ok D" using g by (simp_all add: got_def)
  consider (self) "nx = ip" "D = (icache s)(ip := y\<lparr>iref := iref y + 1\<rparr>)" "inum y = j"
    | (found) "nx \<noteq> ip" "in_use (icache s) ROOTDEV j nx"
        "D = (icache s)(ip := y, nx := (icache s nx)\<lparr>iref := iref (icache s nx) + 1\<rparr>)"
    | (new) "nx \<noteq> ip" "iref (icache s nx) = 0"
        "D = (icache s)(ip := y, nx := (icache s nx)\<lparr>idev := ROOTDEV, inum := j, iref := 1, iflags := 0\<rparr>)"
    using g s(3) y(1) by (cases "nx = ip") (auto simp: got_def in_use_def)
  note cases = this
  show d: "1 \<le> iref (D ip)" "bit (iflags (D ip)) 0" "inlink (D ip) = inlink y"
    using cases s(3) y by (cases; simp)+
  show "icache_ok (released D ip)"
  proof -
    have "icache_ok (D(ip := (unlocked (D ip))\<lparr>iref := iref (D ip) - 1\<rparr>))"
      using nx(2) s(2) d(1) by (intro icache_ok_upd) auto
    then show ?thesis by (simp add: dropped_def)
  qed
  have old: "at_rest s (icache s i)" if "i < NINODE" "0 < iref (icache s i)" for i
    using s(1) that by (simp add: coherent_def)
  have rest: "at_rest s ((unlocked (D ip))\<lparr>iref := r\<rparr>)" for r
    using cases unlocked_rest [OF s(4)] by cases (simp_all del: rest_iref)
  have "at_rest s (D i)" if "i \<noteq> ip" "i < NINODE" "0 < iref (D i)" for i
    using cases that old [OF that(2)] rest_flags0
    by cases (auto simp: in_use_def split: if_splits)
  with rest show "\<forall>i < NINODE. 0 < iref (released D ip i) \<longrightarrow> at_rest s (released D ip i)"
    by (auto simp: dropped_def)
  show "same_refs (dropped (icache s) ip) (dropped (released D ip) nx)"
    using cases y by cases (auto simp: same_refs_def dropped_def)
  show "in_use (released D ip) ROOTDEV j nx"
    using cases y s(3) nx(1) by cases (auto simp: in_use_def dropped_def)
qed

lemma free_after_hold:
  assumes "same_refs C0 (dropped C ip)" "two_free C0"
  shows "\<exists>i < NINODE. i \<noteq> ip \<and> iref (C i) = 0"
proof -
  from assms(2) obtain a b where ab: "a < NINODE" "b < NINODE" "a \<noteq> b" "iref (C0 a) = 0" "iref (C0 b) = 0"
    by (auto simp: two_free_def)
  then have "iref (dropped C ip a) = 0" "iref (dropped C ip b) = 0" using assms(1) by (auto simp: same_refs_def)
  with ab show ?thesis by (cases "a = ip") (auto simp: dropped_def split: if_splits)
qed

text \<open>The result of a walk: nothing and no reference, or the entry of the inode that was looked for and one
  reference.\<close>

definition arrived :: "(nat \<Rightarrow> inode) \<Rightarrow> u32 option \<Rightarrow> bool \<Rightarrow> byte list list \<Rightarrow> (nat \<times> mem) option \<Rightarrow> (nat \<Rightarrow> inode) \<Rightarrow> bool" where
  "arrived C0 goal parent es r C \<longleftrightarrow> (case goal of
       None \<Rightarrow> r = None \<and> same_refs C0 C
     | Some i \<Rightarrow> \<exists>ip name. r = Some (ip, name) \<and> in_use C ROOTDEV i ip \<and> same_refs C0 (dropped C ip)
         \<and> (parent \<longrightarrow> cname name = take DIRSIZ (last es)))"

lemma find_named_entry:
  assumes "cname name = take DIRSIZ e"
  shows "named s x name = entry_named s x e"
  using assms by (simp add: named_def entry_named_def fun_eq_iff)

lemma lookup_find:
  fixes s :: "'z logst_scheme"
  assumes "same_fields x (disk_inode s i)" "itype x = T_DIR"
  shows "lookup s i e = map_option (\<lambda>k. ucast (de_inum (dir_entry s x k))) (find (entry_named s x e) [0..<dir_count x])"
proof -
  note n = same_fields_node [OF assms(1)]
  have "entry_named s (node s i) e = entry_named s x e" by (simp add: entry_named_def n(3) fun_eq_iff)
  then show ?thesis using assms(2) by (simp add: lookup_def Let_def n(1,2) flip: n(3))
qed

text \<open>The lookup of one element in a locked directory.\<close>

lemma wp_dirlookup_element:
  fixes s :: "'z fsst_scheme"
  assumes s: "binv s" "card (dirty_at s \<union> busy_at s) < NBUF" "icache_ok (icache s)" "\<exists>i < NINODE. iref (icache s i) = 0"
    and x: "same_fields (icache s dp) (disk_inode s i)" "idev (icache s dp) = ROOTDEV" "itype (icache s dp) = T_DIR"
      "dir_wf s (node s i) N" "cname name = take DIRSIZ e"
    and none: "\<And>t. lookup s i e = None \<Longrightarrow> browsed s t \<Longrightarrow> icache t = icache s \<Longrightarrow> Q None t"
    and some: "\<And>j t ip D off. lookup s i e = Some j \<Longrightarrow> browsed s t \<Longrightarrow> got (icache s) j ip D \<Longrightarrow> icache t = D \<Longrightarrow>
      Q (Some (ip, off)) t"
  shows "wp (dirlookup dp name) Q s"
proof -
  let ?x = "icache s dp"
  note l = lookup_find [OF x(1,3), of e] and nm = find_named_entry [OF x(5), of s ?x]
  have w: "dir_wf s ?x N" using same_fields_node(4) [OF x(1,2)] x(4) by simp
  show ?thesis
  proof (rule wp_dirlookup [OF s(1,2) refl w], unfold nm)
    fix t assume n: "\<forall>k < dir_count ?x. \<not> entry_named s ?x e k" and t: "like s t"
    have "find (entry_named s ?x e) [0..<dir_count ?x] = None" using n by (simp add: find_None_iff)
    moreover have "browsed s t" using browsed_like [OF t, of "icache t"] by simp
    ultimately show "Q None t"
      using l like_icache [OF t] by (intro none) simp_all
  next
    fix k t assume k: "k < dir_count ?x" "entry_named s ?x e k" "\<forall>j < k. \<not> entry_named s ?x e j" and t: "like s t"
    have "find (entry_named s ?x e) [0..<dir_count ?x] = Some k" using k by (auto simp: find_Some_iff intro!: exI [of _ k])
    then have j: "lookup s i e = Some (ucast (de_inum (dir_entry s ?x k)))" using l by simp
    show "wp (iget ROOTDEV (ucast (de_inum (dir_entry s ?x k)))) (\<lambda>ip. Q (Some (ip, of_nat (k * 64)))) t"
      by (rule wp_iget_got) (use s(3,4) like_icache [OF t] some [OF j browsed_like [OF t]] in auto)
  qed
qed

text \<open>An element that is found is an inode of the tree.\<close>

lemma lookup_tree:
  assumes "tree_ok s I" "i \<in> I" "lookup s i e = Some j"
  shows "j \<in> I"
proof -
  obtain k where k: "itype (node s i) = T_DIR" "find (entry_named s (node s i) e) [0..<dir_count (node s i)] = Some k"
    "j = ucast (de_inum (dir_entry s (node s i) k))"
    using assms(3) by (auto simp: lookup_def Let_def split: if_splits)
  then have "k < dir_count (node s i)" "de_inum (dir_entry s (node s i) k) \<noteq> 0"
    by (auto simp: find_Some_iff entry_named_def)
  then show ?thesis using assms(1,2) k(1,3) by (auto simp: tree_ok_def node_fields)
qed

lemma coherentI:
  assumes "browsed s t" "icache_ok (icache t)" "\<forall>i < NINODE. 0 < iref (icache t i) \<longrightarrow> at_rest s (icache t i)"
  shows "coherent t"
  using assms browsed_fields(6) [OF assms(1)] by (simp add: coherent_def at_rest_def)

text \<open>What the walk needs and keeps: the tree, the caches at rest, a reference to the current inode, and
  room for one more inode.\<close>

definition walking :: "(nat \<Rightarrow> inode) \<Rightarrow> u32 set \<Rightarrow> nat \<Rightarrow> 'z fsst_scheme \<Rightarrow> bool" where
  "walking C0 I ip s \<longleftrightarrow> binv s \<and> card (dirty_at s \<union> busy_at s) < NBUF \<and> tree_ok s I \<and> coherent s \<and> two_free C0
     \<and> ip < NINODE \<and> 1 \<le> iref (icache s ip) \<and> inum (icache s ip) \<in> I \<and> same_refs C0 (dropped (icache s) ip)"

lemma walking_next:
  assumes "walking C0 I ip s" "browsed s t" "icache t = released D ip" "locked_as s (icache s ip) y"
    "got ((icache s)(ip := y)) j nx D" "j \<in> I"
  shows "walking C0 I nx t" "inum (icache t nx) = j"
proof -
  have w: "coherent s" "ip < NINODE" "1 \<le> iref (icache s ip)" "same_refs C0 (dropped (icache s) ip)"
    using assms(1) by (simp_all add: walking_def)
  note a = advanced_coherent [OF w(1-3) assms(4,5)]
  have "in_use (icache t) ROOTDEV j nx" using a(4) assms(3) by simp
  then show j: "inum (icache t nx) = j" by (simp add: in_use_def)
  have "coherent t" by (rule coherentI [OF assms(2)]) (use a assms(3) in simp_all)
  moreover have "same_refs C0 (dropped (icache t) nx)" using same_refs_trans [OF w(4) a(3)] assms(3) by simp
  ultimately show "walking C0 I nx t"
    using assms(1) \<open>in_use (icache t) ROOTDEV j nx\<close> assms(6) j browsed_fields [OF assms(2)]
    by (auto simp: walking_def in_use_def)
qed

lemma skipelem_element:
  assumes "0 \<notin> set path" "skipelem path name = Some (rest, name')"
  shows "\<exists>e. elems path = e # elems rest \<and> cname name' = take DIRSIZ e \<and> 0 \<notin> set rest \<and> length rest < length path
    \<and> (deref rest = 0 \<longleftrightarrow> elems rest = [])"
proof -
  note sk = skipelem_Some [OF assms]
  let ?e = "take (elem_len (skip_slashes path)) (skip_slashes path)"
  have "0 \<notin> set ?e" using assms(1) skip_slashes_props(1) [of path] by (auto dest: in_set_takeD)
  then have "cname name' = take DIRSIZ ?e" unfolding sk(5) Let_def by (rule cname_elem)
  moreover have "deref rest = 0 \<longleftrightarrow> elems rest = []"
  proof (cases "rest = []")
    case True
    then show ?thesis by (simp add: deref_def elems_def)
  next
    case False
    then have "hd rest \<noteq> SLASH" using sk(2) skip_slashes_props(3) by metis
    then have "elems rest \<noteq> []" using elems_first(1) [OF sk(4) False] by simp
    moreover have "deref rest \<noteq> 0" using False sk(4) by (cases rest) (auto simp: deref_def)
    ultimately show ?thesis by simp
  qed
  ultimately show ?thesis using sk by blast
qed


lemma skipelem_no_element: "0 \<notin> set path \<Longrightarrow> skipelem path name = None \<Longrightarrow> elems path = []"
  using elems_skip [of path] skipelem_None [of path name] by (simp add: elems_def)

lemma arrived_Cons:
  "es \<noteq> [] \<or> \<not> parent \<Longrightarrow> arrived C0 goal parent (e # es) r C = arrived C0 goal parent es r C"
  by (auto simp: arrived_def split: option.split)

lemma arrived_None: "same_refs C0 C \<Longrightarrow> arrived C0 None parent es None C"
  by (simp add: arrived_def)

text \<open>The body of the loop after the directory is locked.\<close>

definition namex_step :: "nat \<Rightarrow> nat \<Rightarrow> byte list \<Rightarrow> bool \<Rightarrow> mem \<Rightarrow> ('z fsst_scheme, (nat \<times> mem) option) xm" where
  "namex_step fuel ip path parent name =
     bind (get_inode ip) (\<lambda>x.
       if itype x \<noteq> T_DIR then andthen (iunlockput ip) (return None)
       else if parent \<and> deref path = 0 then andthen (iunlock ip) (return (Some (ip, name)))
       else bind (dirlookup ip name) (\<lambda>r. case r of
           None \<Rightarrow> andthen (iunlockput ip) (return None)
         | Some (nxt, _) \<Rightarrow> andthen (iunlockput ip) (namex_loop fuel nxt path parent name)))"

lemma released_result:
  assumes w: "walking C0 I ip s" and t: "browsed s t" "icache t = (icache s)(ip := y)" "locked_as s (icache s ip) y"
    and link: "di_nlink (disk_inode s (inum (icache s ip))) \<noteq> 0"
    and post: "\<And>u. browsed s u \<Longrightarrow> coherent u \<Longrightarrow> same_refs C0 (icache u) \<Longrightarrow> Q () u"
  shows "wp (iunlockput ip) Q t"
proof -
  have s: "coherent s" "ip < NINODE" "1 \<le> iref (icache s ip)" "same_refs C0 (dropped (icache s) ip)" "binv t"
    using w browsed_fields(1) [OF t(1)] by (simp_all add: walking_def)
  have y: "1 \<le> iref y" "bit (iflags y) 0" "inlink y \<noteq> 0"
    using t(3) s(3) link by (simp_all add: locked_as_def same_fields_def)
  note r = released_coherent [OF s(1-3) t(3)]
  let ?u = "t\<lparr>icache := released ((icache s)(ip := y)) ip\<rparr>"
  have b: "browsed s ?u" by (rule browsed_trans [OF t(1) browsed_upd [OF s(5)]])
  have "coherent ?u" by (rule coherentI [OF b]) (use r(1,2) in simp_all)
  moreover have "same_refs C0 (icache ?u)" using same_refs_trans [OF s(4) r(3)] by simp
  ultimately have "Q () ?u" by (rule post [OF b])
  then show ?thesis
    by (subst wp_iunlockput_linked) (use t(2) y in simp_all)
qed

lemma wp_namex_step:
  fixes s :: "'z fsst_scheme"
  assumes w: "walking C0 I ip s" and t: "browsed s t" "icache t = (icache s)(ip := y)" "locked_as s (icache s ip) y"
    and i: "i = inum (icache s ip)" and n: "cname name = take DIRSIZ e" and d: "deref rest = 0 \<longleftrightarrow> elems rest = []"
    and post: "\<And>r u. browsed s u \<Longrightarrow> coherent u \<Longrightarrow>
      arrived C0 (target s parent i (e # elems rest)) parent (e # elems rest) r (icache u) \<Longrightarrow> Q r u"
    and more: "\<And>j nx u. lookup s i e = Some j \<Longrightarrow> browsed s u \<Longrightarrow> walking C0 I nx u \<Longrightarrow> inum (icache u nx) = j \<Longrightarrow>
      elems rest \<noteq> [] \<or> \<not> parent \<Longrightarrow> wp (namex_loop fuel nx rest parent name) Q u"
  shows "wp (namex_step fuel ip rest parent name) Q t"
proof -
  have s: "tree_ok s I" "coherent s" "two_free C0" "ip < NINODE" "1 \<le> iref (icache s ip)" "i \<in> I"
    "same_refs C0 (dropped (icache s) ip)" "card (dirty_at s \<union> busy_at s) < NBUF" "binv t"
    using w browsed_fields(1) [OF t(1)] by (simp_all add: walking_def i)
  have disk: "di_nlink (disk_inode s i) \<noteq> 0" using s(1,6) by (simp add: tree_ok_def)
  note rel = released_result [OF w t disk [unfolded i]]
  have y: "icache t ip = y" "idev y = ROOTDEV" "inum y = i" "1 \<le> iref y" "bit (iflags y) 0" "inlink y \<noteq> 0"
    "same_fields y (disk_inode s i)"
    using t(2,3) s(5) disk i by (simp_all add: locked_as_def same_fields_def)
  have ty: "itype y = itype (node s i)" by (rule same_fields_node [OF y(7)])
  consider (nodir) "itype y \<noteq> T_DIR" | (final) "itype y = T_DIR" "parent" "elems rest = []"
    | (dir) "itype y = T_DIR" "elems rest \<noteq> [] \<or> \<not> parent" by blast
  then show ?thesis
  proof cases
    case nodir
    then have "target s parent i (e # elems rest) = None"
      using ty by (cases "parent \<and> elems rest = []") (auto simp: target_simps lookup_def)
    then have "wp (iunlockput ip) (\<lambda>_. Q None) t"
      using post by (intro rel) (auto simp: arrived_None)
    then show ?thesis using nodir y(1) by (simp add: namex_step_def wp_simps)
  next
    case final
    let ?C = "(icache s)(ip := unlocked y)"
    let ?u = "t\<lparr>icache := ?C\<rparr>"
    have b: "browsed s ?u" by (rule browsed_trans [OF t(1) browsed_upd [OF s(9)]])
    have "icache_ok ?C" using s y t(3) by (intro icache_ok_upd) (auto simp: coherent_def locked_as_def at_rest_def)
    moreover have "at_rest s (unlocked y)" using unlocked_rest [OF t(3), of "iref y"] by simp
    ultimately have "coherent ?u" using s(2) by (intro coherentI [OF b]) (auto simp: coherent_def)
    moreover have "arrived C0 (target s parent i (e # elems rest)) parent (e # elems rest) (Some (ip, name)) ?C"
      using final ty y s(4,7) n t(3)
      by (auto simp: target_simps arrived_def in_use_def same_refs_def dropped_def locked_as_def)
    ultimately have "Q (Some (ip, name)) ?u" by (intro post [OF b]) simp_all
    moreover have "wp (iunlock ip) R t = R () ?u" for R
      by (subst wp_iunlock) (use y t(2) in simp_all)
    ultimately show ?thesis using final d y(1) by (simp add: namex_step_def wp_simps)
  next
    case dir
    obtain N where N: "dir_wf s (node s i) N" using s(1,6) dir(1) ty by (auto simp: tree_ok_def node_fields)
    note bf = browsed_fields [OF t(1)]
    have tgt: "target s parent i (e # elems rest) = (case lookup s i e of None \<Rightarrow> None | Some j \<Rightarrow> target s parent j (elems rest))"
      by (rule target_simps) (rule dir(2))
    have "wp (dirlookup ip name) (\<lambda>r. wp (case r of
           None \<Rightarrow> andthen (iunlockput ip) (return None)
         | Some (nxt, _) \<Rightarrow> andthen (iunlockput ip) (namex_loop fuel nxt rest parent name)) Q) t"
    proof (rule wp_dirlookup_element [where i = i and e = e and N = N])
      show "binv t" "card (dirty_at t \<union> busy_at t) < NBUF" using bf s(8) by simp_all
      show "icache_ok (icache t)" unfolding t(2) by (rule locked_cache_ok [OF s(2,4,5) t(3)])
      show "\<exists>k < NINODE. iref (icache t k) = 0"
        using free_after_hold [OF s(7,3)] t(2) by auto
      show "same_fields (icache t ip) (disk_inode t i)" "idev (icache t ip) = ROOTDEV" "itype (icache t ip) = T_DIR"
        "dir_wf t (node t i) N" "cname name = take DIRSIZ e"
        using y dir(1) N n bf by simp_all
    next
      fix u assume l: "lookup t i e = None" and u: "browsed t u" "icache u = icache t"
      have "wp (iunlockput ip) (\<lambda>_. Q None) u"
        by (rule released_result [OF w browsed_trans [OF t(1) u(1)] _ t(3) disk [unfolded i]])
           (use t(2) u(2) l bf(9) tgt post in \<open>auto simp: arrived_None\<close>)
      then show "wp (case None of None \<Rightarrow> andthen (iunlockput ip) (return None)
         | Some (nxt, _) \<Rightarrow> andthen (iunlockput ip) (namex_loop fuel nxt rest parent name)) Q u"
        by (simp add: wp_simps)
    next
      fix j u nx D off assume l: "lookup t i e = Some j" and u: "browsed t u" "got (icache t) j nx D" "icache u = D"
      have g: "got ((icache s)(ip := y)) j nx D" using u(2) t(2) by simp
      have l': "lookup s i e = Some j" using l bf(9) by simp
      note a = advanced_coherent [OF s(2,4,5) t(3) g]
      let ?v = "u\<lparr>icache := released D ip\<rparr>"
      have v: "browsed s ?v" by (rule browsed_trans [OF browsed_trans [OF t(1) u(1)] browsed_upd [OF browsed_fields(1) [OF u(1)]]])
      note nxt = walking_next [OF w v _ t(3) g lookup_tree [OF s(1,6) l']]
      have "wp (namex_loop fuel nx rest parent name) Q ?v"
        by (rule more [OF l' v _ _ dir(2)]) (rule nxt; simp)+
      moreover have "wp (iunlockput ip) R u = R () ?v" for R
        by (subst wp_iunlockput_linked) (use a(5-7) y(6) u(3) in simp_all)
      ultimately show "wp (case Some (nx, off) of None \<Rightarrow> andthen (iunlockput ip) (return None)
         | Some (nxt, _) \<Rightarrow> andthen (iunlockput ip) (namex_loop fuel nxt rest parent name)) Q u"
        by (simp add: wp_simps)
    qed
    then show ?thesis using dir d y(1) by (auto simp: namex_step_def wp_simps)
  qed
qed

lemma wp_namex_loop:
  fixes s :: "'z fsst_scheme"
  assumes "0 \<notin> set path" "length path < fuel" "walking C0 I ip s"
    and "\<And>r t. browsed s t \<Longrightarrow> coherent t \<Longrightarrow>
      arrived C0 (target s parent (inum (icache s ip)) (elems path)) parent (elems path) r (icache t) \<Longrightarrow> Q r t"
  shows "wp (namex_loop fuel ip path parent name) Q s"
  using assms
proof (induction fuel arbitrary: ip path name s)
  case (Suc fuel)
  let ?i = "inum (icache s ip)"
  have w: "binv s" "card (dirty_at s \<union> busy_at s) < NBUF" "tree_ok s I" "coherent s" "two_free C0" "ip < NINODE"
    "1 \<le> iref (icache s ip)" "?i \<in> I" "same_refs C0 (dropped (icache s) ip)"
    using Suc.prems(3) by (simp_all add: walking_def)
  have x: "at_rest s (icache s ip)" using w(4,6,7) by (simp add: coherent_def)
  have disk: "readable_now s (IBLOCK ?i)" "di_type (disk_inode s ?i) \<noteq> 0" "di_nlink (disk_inode s ?i) \<noteq> 0"
    using w(2,3,8) by (auto simp: tree_ok_def readable_place)
  have link: "inlink (icache s ip) \<noteq> 0" if "bit (iflags (icache s ip)) 1"
    using x that disk(3) by (simp add: at_rest_def same_fields_def)
  show ?case
  proof (cases "skipelem path name")
    case None
    then have es: "elems path = []" by (rule skipelem_no_element [OF Suc.prems(1)])
    show ?thesis
    proof (cases parent)
      case True
      have "icache_ok (dropped (icache s) ip)"
        unfolding dropped_def using w(4,6,7) by (intro icache_ok_upd) (auto simp: coherent_def)
      moreover have "\<forall>i < NINODE. 0 < iref (dropped (icache s) ip i) \<longrightarrow> at_rest s (dropped (icache s) ip i)"
        using w(4,6,7) by (auto simp: coherent_def dropped_def)
      ultimately have "coherent (s\<lparr>icache := dropped (icache s) ip\<rparr>)"
        by (intro coherentI [OF browsed_upd [OF w(1)]]) simp_all
      then have "Q None (s\<lparr>icache := dropped (icache s) ip\<rparr>)"
        by (rule Suc.prems(4) [OF browsed_upd [OF w(1)]]) (use True es w(9) in \<open>simp add: target_simps arrived_None\<close>)
      moreover have "wp (iput ip) R s = R () (s\<lparr>icache := dropped (icache s) ip\<rparr>)" for R
        by (rule wp_iput_linked) (use link in blast)
      ultimately show ?thesis using None True by (simp add: wp_simps)
    next
      case False
      have "in_use (icache s) ROOTDEV ?i ip" using w(6,7) x by (simp add: in_use_def at_rest_def)
      then have "Q (Some (ip, name)) s"
        by (intro Suc.prems(4) [OF browsed_refl [OF w(1)] w(4)]) (use False es w(9) in \<open>simp add: target_simps arrived_def\<close>)
      then show ?thesis using None False by (simp add: wp_simps)
    qed
  next
    case (Some p)
    then obtain rest name' where sk: "skipelem path name = Some (rest, name')" by (cases p) auto
    obtain e where e: "elems path = e # elems rest" "cname name' = take DIRSIZ e" "0 \<notin> set rest" "length rest < length path"
      "deref rest = 0 \<longleftrightarrow> elems rest = []"
      using skipelem_element [OF Suc.prems(1) sk] by blast
    have "wp (ilock ip) (\<lambda>_. wp (namex_step fuel ip rest parent name') Q) s"
    proof (rule wp_ilock_rest [OF w(1) disk(1,2) w(7) x])
      fix t y assume t: "browsed s t" "icache t = (icache s)(ip := y)" "locked_as s (icache s ip) y"
      show "wp (namex_step fuel ip rest parent name') Q t"
      proof (rule wp_namex_step [OF Suc.prems(3) t refl e(2,5)])
        show "Q r u" if "browsed s u" "coherent u"
          "arrived C0 (target s parent ?i (e # elems rest)) parent (e # elems rest) r (icache u)" for r u
          using Suc.prems(4) that e(1) by simp
        show "wp (namex_loop fuel nx rest parent name') Q u"
          if l: "lookup s ?i e = Some j" and u: "browsed s u" "walking C0 I nx u" "inum (icache u nx) = j"
            and ne: "elems rest \<noteq> [] \<or> \<not> parent" for j nx u
        proof (rule Suc.IH [OF e(3) _ u(2)])
          show "length rest < fuel" using e(4) Suc.prems(2) by simp
          fix r v assume v: "browsed u v" "coherent v"
            "arrived C0 (target u parent (inum (icache u nx)) (elems rest)) parent (elems rest) r (icache v)"
          have "target s parent ?i (elems path) = target u parent j (elems rest)"
            using target_simps(4) [OF ne, of s ?i e] l e(1) browsed_walk(2) [OF u(1)] by simp
          then have "arrived C0 (target s parent ?i (elems path)) parent (elems path) r (icache v)"
            using v(3) arrived_Cons [OF ne] u(3) e(1) by simp
          then show "Q r v" by (rule Suc.prems(4) [OF browsed_trans [OF u(1) v(1)] v(2)])
        qed
      qed
    qed
    then show ?thesis by (simp add: sk wp_simps namex_step_def)
  qed
qed simp

section \<open>Properties\<close>

lemma got_coherent:
  assumes "coherent s" "browsed s t" "got (icache s) i ip D" "icache t = D"
  shows "coherent t"
proof (rule coherentI [OF assms(2)])
  show "icache_ok (icache t)" using assms(3,4) by (simp add: got_def)
  have "at_rest s (D k)" if "k < NINODE" "0 < iref (D k)" for k
    using assms(1,3) that rest_flags0 by (auto simp: got_def coherent_def in_use_def split: if_splits)
  then show "\<forall>k < NINODE. 0 < iref (icache t k) \<longrightarrow> at_rest s (icache t k)" using assms(4) by simp
qed

lemma wp_namex:
  fixes s :: "'z fsst_scheme"
  assumes s: "binv s" "card (dirty_at s \<union> busy_at s) < NBUF" "tree_ok s I" "ROOTINO \<in> I" "coherent s" "two_free (icache s)"
    and path: "0 \<notin> set path" "deref path = SLASH"
    and post: "\<And>r t. browsed s t \<Longrightarrow> coherent t \<Longrightarrow>
      arrived (icache s) (target s parent ROOTINO (elems path)) parent (elems path) r (icache t) \<Longrightarrow> Q r t"
  shows "wp (namex path parent name) Q s"
proof -
  have "wp (iget ROOTDEV ROOTINO) (\<lambda>ip. wp (namex_loop (Suc (length path)) ip path parent name) Q) s"
  proof (rule wp_iget_got)
    show "icache_ok (icache s)" using s(5) by (simp add: coherent_def)
    show "\<exists>i < NINODE. iref (icache s i) = 0" using s(6) by (auto simp: two_free_def)
    fix ip D assume g: "got (icache s) ROOTINO ip D"
    let ?u = "s\<lparr>icache := D\<rparr>"
    have u: "browsed s ?u" by (rule browsed_upd [OF s(1)])
    have "in_use D ROOTDEV ROOTINO ip" by (rule got_in_use [OF g])
    then have w: "walking (icache s) I ip ?u" and n: "inum (icache ?u ip) = ROOTINO"
      using s g got_coherent [OF s(5) u g] got_dropped [OF g] browsed_fields [OF u]
      by (auto simp: walking_def in_use_def)
    show "wp (namex_loop (Suc (length path)) ip path parent name) Q ?u"
      by (rule wp_namex_loop [OF path(1) _ w])
         (use post browsed_trans [OF u] browsed_walk(2) [OF u] n in auto)
  qed
  then show ?thesis using path(2) by (simp add: namex_def wp_simps)
qed

text \<open>C11. \<open>namex\<close> resolves a path as the tree on the disk has it. It takes the elements of the path one after the other
  and follows, in each directory, the first entry with that name. It returns the inode at the end of the path, or for
  \<open>nameiparent\<close> the directory before its last element and that element as a name; if an element is missing or not a
  directory it returns nothing. Nobody's lock is left behind, the returned inode has one reference more, every
  other reference count is as before, and no block changes.\<close>

theorem namex_resolves:
  fixes s :: "'z fsst_scheme"
  assumes "binv s" "card (dirty_at s \<union> busy_at s) < NBUF" "tree_ok s I" "ROOTINO \<in> I" "coherent s" "two_free (icache s)"
    and "0 \<notin> set path" "deref path = SLASH"
  shows "\<exists>r t. namex path parent name s = Ok r t \<and> blk t = blk s \<and> img t = img s \<and> coherent t
    \<and> arrived (icache s) (target s parent ROOTINO (elems path)) parent (elems path) r (icache t)"
proof -
  have "wp (namex path parent name) (\<lambda>r t. blk t = blk s \<and> img t = img s \<and> coherent t
    \<and> arrived (icache s) (target s parent ROOTINO (elems path)) parent (elems path) r (icache t)) s"
  proof (rule wp_namex [OF assms])
    fix r t assume t: "browsed s t" "coherent t"
      "arrived (icache s) (target s parent ROOTINO (elems path)) parent (elems path) r (icache t)"
    have "img t = img s" using t(1) view_fields(4) [of "t\<lparr>icache := icache s\<rparr>" s] by (simp add: browsed_def like_def)
    then show "blk t = blk s \<and> img t = img s \<and> coherent t
      \<and> arrived (icache s) (target s parent ROOTINO (elems path)) parent (elems path) r (icache t)"
      using t browsed_fields(2) [OF t(1)] by simp
  qed
  then show ?thesis by (auto dest!: wp_Ok)
qed

lemma walk_tree: "tree_ok s I \<Longrightarrow> i \<in> I \<Longrightarrow> walk s i es = Some j \<Longrightarrow> j \<in> I"
  by (induction es arbitrary: i) (auto split: option.splits dest: lookup_tree)

lemma small_disk_fields:
  "same_fields dir_inode (disk_inode (small_inodes e) 1)" "same_fields file_inode (disk_inode (small_inodes e) 2)"
proof -
  have "disk_inode (small_inodes e) 1 = get_dinode (store_inode zero_block 1 dir_inode) 1"
    by (simp add: disk_inode_def small_inodes_ok small_disk_def IBLOCK_2 inode_block_def IPB_def get_store_other)
  then show "same_fields dir_inode (disk_inode (small_inodes e) 1)" by (simp add: same_fields_store)
  show "same_fields file_inode (disk_inode (small_inodes e) 2)"
    by (simp add: disk_inode_def small_inodes_ok small_disk_def IBLOCK_2 inode_block_def IPB_def same_fields_store)
qed

lemma small_tree:
  "tree_ok (small_inodes dir_disk) {1, 2}" "coherent (small_inodes e)" "two_free (icache (small_inodes e))"
proof -
  let ?s = "small_inodes dir_disk"
  note f = small_disk_fields [of dir_disk]
  note d = same_fields_node [OF f(1)]
  have "dir_wf ?s (node ?s 1) 1" using d(4) [of 1] small_dir_wf(1) [of dir_disk] small_dir_fields(1) by (simp only:)
  moreover have "de_inum (dir_entry ?s (node ?s 1) k) = 0 \<or> ucast (de_inum (dir_entry ?s (node ?s 1) k)) = (2 :: u32)"
    if "k < dir_count (node ?s 1)" for k
  proof -
    have "k = 0 \<or> k = Suc 0" using that d(2) small_dir_fields(5) by auto
    then show ?thesis using small_dir_entries d(3) by auto
  qed
  moreover have "di_type (disk_inode ?s 1) = T_DIR" "di_nlink (disk_inode ?s 1) = 1" "di_type (disk_inode ?s 2) = T_FILE" "di_nlink (disk_inode ?s 2) = 1"
    using f by (simp_all add: same_fields_def dir_inode_def file_inode_def)
  ultimately show "tree_ok ?s {1, 2}"
    by (auto simp: tree_ok_def place_ok_def small_inodes_ok IBLOCK_2 T_DIR_def T_FILE_def)
  show "coherent (small_inodes e)"
    using small_icache_ok [of e] small_disk_fields [of e]
    by (auto simp: coherent_def at_rest_def small_inodes_ok dir_inode_def file_inode_def free_inode_def bit_numeral_rec split: if_splits)
  show "two_free (icache (small_inodes e))"
    unfolding two_free_def
    by (rule exI [of _ 5], rule exI [of _ 6]) (simp add: small_inodes_ok NINODE_def free_inode_def)
qed

lemma small_lookup: "lookup (small_inodes dir_disk) 1 [97] = Some 2"
proof -
  let ?s = "small_inodes dir_disk"
  note f = small_disk_fields(1) [of dir_disk]
  have "entry_named ?s dir_inode [97] = named ?s dir_inode name_a"
    by (simp add: named_def entry_named_def DIRSIZ_def fun_eq_iff cname_name_a)
  moreover have "find (named ?s dir_inode name_a) [0..<dir_count dir_inode] = Some 1"
    by (rule find_unique) (auto simp: small_dir_fields small_dir_named)
  ultimately show ?thesis
    using lookup_find [OF f] by (simp add: small_dir_fields small_dir_entries)
qed

theorem namex_resolves_witness:
  "\<exists>ip name t. namex [47, 97] False zero_block (small_inodes dir_disk) = Ok (Some (ip, name)) t
     \<and> in_use (icache t) ROOTDEV 2 ip \<and> same_refs (icache (small_inodes dir_disk)) (dropped (icache t) ip)"
proof -
  have "elems [47, 97] = [[97]]" by (simp add: elems_def SLASH_def)
  then have "target (small_inodes dir_disk) False ROOTINO (elems [47, 97]) = Some 2"
    using small_lookup by (simp add: target_def ROOTINO_def)
  then show ?thesis
    using namex_resolves [OF small_dir_cache(3,4) small_tree(1) _ small_tree(2,3), where path = "[47, 97]" and parent = False and name = zero_block]
    by (auto simp: deref_def SLASH_def ROOTINO_def arrived_def)
qed

end
