(* ===== verification/Xv6_Open.thy ===== *)
theory Xv6_Open
  imports Xv6_Walk Xv6_Fuse
begin

text \<open>
  System calls that read only, from the path the host kernel passes to what it is told: the state inside such a
  call, \<open>sys_open\<close> of a file that exists, \<open>filestat\<close>, \<open>fileclose\<close>, \<open>sys_fstat\<close> and \<open>fuse_getattr\<close>.
\<close>

section \<open>Inside a call that changes nothing on the disk\<close>

text \<open>The call that began in \<open>s\<close> has come to \<open>u\<close>; only the caches, the file table and the number \<open>n\<close> of
  outstanding calls differ.\<close>

definition steady :: "int \<Rightarrow> 'z filest_scheme \<Rightarrow> 'z filest_scheme \<Rightarrow> bool" where
  "steady n s u \<longleftrightarrow> thelog u = (thelog s)\<lparr>outstanding := n\<rparr>
     \<and> like s (u\<lparr>thelog := thelog s, icache := icache s, ftable := ftable s\<rparr>)"

lemma cframe_upd_tables:
  "cframe s t \<Longrightarrow> cframe (s\<lparr>thelog := L, icache := C, ftable := F\<rparr>) (t\<lparr>thelog := L, icache := C, ftable := F\<rparr>)"
  by (cases s; cases t) (simp add: cframe_def)

lemma like_upd_tables:
  "like s t \<Longrightarrow> like (s\<lparr>thelog := L, icache := C, ftable := F\<rparr>) (t\<lparr>thelog := L, icache := C, ftable := F\<rparr>)"
  by (auto simp: like_def cframe_upd_tables)

lemma steady_browsed:
  assumes "steady n s u" "browsed u v"
  shows "steady n s v" "ftable v = ftable u"
proof -
  have l: "like u (v\<lparr>icache := icache u\<rparr>)" using assms(2) by (simp add: browsed_def)
  have "ftable (v\<lparr>icache := icache u\<rparr>) = ftable u" by (rule lframe_ftable) (rule like_fields(7) [OF l])
  then show "ftable v = ftable u" by simp
  have "thelog v = thelog u" using like_fields(6) [OF l] by simp
  moreover have "like (u\<lparr>thelog := thelog s, icache := icache s, ftable := ftable s\<rparr>)
      (v\<lparr>thelog := thelog s, icache := icache s, ftable := ftable s\<rparr>)"
    using like_upd_tables [OF l, where L = "thelog s" and C = "icache s" and F = "ftable s"] by simp
  ultimately show "steady n s v" using assms(1) like_trans by (auto simp: steady_def)
qed

lemma steady_tables [simp]:
  "steady n s (u\<lparr>icache := C\<rparr>) = steady n s u" "steady n s (u\<lparr>ftable := F\<rparr>) = steady n s u"
  by (simp_all add: steady_def)

lemma steady_outstanding: "steady n s u \<Longrightarrow> steady m s (u\<lparr>thelog := (thelog u)\<lparr>outstanding := m\<rparr>\<rparr>)"
  by (simp add: steady_def)

lemma steady_refl: "quiet s \<Longrightarrow> steady 0 s s"
proof -
  assume q: "quiet s"
  then have "(thelog s)\<lparr>outstanding := 0\<rparr> = thelog s" by (simp add: quiet_def)
  then show ?thesis using q by (simp add: steady_def quiet_def txn_inv_def like_refl)
qed

lemma steady_fields:
  assumes "steady n s u"
  shows "binv u" "blk u = blk s" "dirty_at u = dirty_at s" "busy_at u = busy_at s" "place_ok u = place_ok s"
    "disk_inode u = disk_inode s" "node u = node s" "lookup u = lookup s" "tree_ok u I = tree_ok s I"
    "img u = img s" "hist u = hist s" "in_image u = in_image s" "imglen u = imglen s" "dir_entry u = dir_entry s"
proof -
  let ?u = "u\<lparr>thelog := thelog s, icache := icache s, ftable := ftable s\<rparr>"
  have l: "like s ?u" and log: "thelog u = (thelog s)\<lparr>outstanding := n\<rparr>" using assms by (simp_all add: steady_def)
  have "?u\<lparr>icache := icache s\<rparr> = ?u" by (cases u) simp
  then have "browsed s ?u" using l by (simp only: browsed_def)
  note b = browsed_fields [OF this]
  show "binv u" "blk u = blk s" "dirty_at u = dirty_at s" "busy_at u = busy_at s" using b(1-4) by simp_all
  then show d: "disk_inode u = disk_inode s" by (intro ext) (simp add: disk_inode_def)
  show "node u = node s" by (intro ext) (simp add: node_def d)
  have "view ?u = view s" "cframe s ?u" using l by (simp_all add: like_def)
  then show "img u = img s" "hist u = hist s" and "imglen u = imglen s"
    using view_fields(4,5) [of ?u s] by (simp_all add: cframe_def)
  show "in_image u = in_image s" using like_fields(4) [OF l] by (simp add: fun_eq_iff in_image_def)
  have e: "dir_entry u = dir_entry ?u" "file_block u = file_block ?u"
    by (simp_all add: dir_entry_def fbyte_def file_block_def fun_eq_iff cong: if_cong)
  then show de: "dir_entry u = dir_entry s" using b(8) by simp
  then have "entry_named u = entry_named s" by (intro ext) (simp add: entry_named_def)
  then show "lookup u = lookup s"
    using de \<open>node u = node s\<close> by (intro ext) (simp add: lookup_def Let_def)
  have p: "place_ok u = place_ok ?u" by (simp add: place_ok_def fun_eq_iff in_image_def)
  then show "place_ok u = place_ok s" using b(5) by simp
  have "in_log (thelog u) = in_log (thelog s)"
    by (rule geometry_place) (simp add: log log_geometry_def)
  then have "dir_wf u = dir_wf ?u"
    by (intro ext) (simp add: dir_wf_def file_wf_def mapped_def e p)
  then show "tree_ok u I = tree_ok s I"
    using b(5,12) e(1) p \<open>disk_inode u = disk_inode s\<close> \<open>node u = node s\<close> b(8) by (simp add: tree_ok_def)
qed

lemma steady_walk: "steady n s u \<Longrightarrow> target u parent i es = target s parent i es"
proof -
  assume u: "steady n s u"
  have "walk u i es = walk s i es" for i es
    by (induction es arbitrary: i) (simp_all add: steady_fields(8) [OF u] split: option.split)
  then show ?thesis by (simp add: target_def steady_fields(7) [OF u] split: option.split)
qed

lemma steady_coherent:
  assumes "steady n s u" "icache_ok (icache u)" "\<forall>i < NINODE. 0 < iref (icache u i) \<longrightarrow> at_rest s (icache u i)"
  shows "coherent u"
  using assms steady_fields(6) [OF assms(1)] by (simp add: coherent_def at_rest_def)

lemma coherent_tables [simp]:
  "coherent (u\<lparr>ftable := F\<rparr>) = coherent u" "coherent (u\<lparr>thelog := L\<rparr>) = coherent u"
  by (simp_all add: coherent_def at_rest_def disk_inode_def)

lemma wp_begin_steady:
  assumes "quiet s" "steady 0 s u" "Q () (u\<lparr>thelog := (thelog u)\<lparr>outstanding := 1\<rparr>\<rparr>)"
  shows "wp begin_op Q u"
  using assms by (simp add: begin_op_def wp_simps quiet_def steady_def LOGSIZE_def MAXOPBLOCKS_def)

lemma wp_end_steady:
  assumes "quiet s" "steady 1 s u" "Q () (u\<lparr>thelog := (thelog u)\<lparr>outstanding := 0\<rparr>\<rparr>)"
  shows "wp end_op Q u"
proof -
  have L: "thelog u = (thelog s)\<lparr>outstanding := 1\<rparr>" "lh_n (thelog s) = 0" "committing (thelog s) = 0"
    using assms(1,2) by (auto simp: quiet_def steady_def)
  have e: "(thelog s)\<lparr>outstanding := 0, committing := 0\<rparr> = (thelog s)\<lparr>outstanding := 0\<rparr>"
    using L(3) by (cases "thelog s") simp
  show ?thesis using assms(3) L by (simp add: end_op_def commit_def wp_simps e)
qed

lemma steady_quiet: "quiet s \<Longrightarrow> steady 0 s u \<Longrightarrow> quiet u"
proof -
  assume q: "quiet s" and u: "steady 0 s u"
  let ?u = "u\<lparr>thelog := thelog s, icache := icache s, ftable := ftable s\<rparr>"
  have L: "thelog u = thelog s" using q u by (auto simp: quiet_def steady_def)
  then have e: "?u = u\<lparr>icache := icache s, ftable := ftable s\<rparr>" by (cases u) simp
  have "txn_inv ?u" by (rule like_txn [of s]) (use q u in \<open>simp_all only: quiet_def steady_def\<close>)
  then have "txn_inv u" unfolding e by simp
  then show ?thesis using q L steady_fields(4,10) [OF u] by (simp add: quiet_def log_empty_def)
qed

section \<open>Opening\<close>

lemma steady_room: "quiet s \<Longrightarrow> steady n s u \<Longrightarrow> card (dirty_at u \<union> busy_at u) < NBUF"
  using quietD(2,3) [of s] by (simp add: steady_fields NBUF_def)

lemma steady_locked: "steady n s u \<Longrightarrow> locked_as u x y = locked_as s x y" "steady n s u \<Longrightarrow> at_rest u x = at_rest s x"
  by (simp_all add: locked_as_def at_rest_def steady_fields(6))

lemma wp_namei_steady:
  fixes s u :: "'z filest_scheme"
  assumes s: "quiet s" "tree_ok s I" "ROOTINO \<in> I" and u: "steady n s u" "coherent u" "two_free (icache u)"
    and path: "0 \<notin> set path" "deref path = SLASH"
    and none: "\<And>v. walk s ROOTINO (elems path) = None \<Longrightarrow> steady n s v \<Longrightarrow> ftable v = ftable u \<Longrightarrow> coherent v \<Longrightarrow>
      same_refs (icache u) (icache v) \<Longrightarrow> Q None v"
    and some: "\<And>v i ip. walk s ROOTINO (elems path) = Some i \<Longrightarrow> i \<in> I \<Longrightarrow> steady n s v \<Longrightarrow> ftable v = ftable u \<Longrightarrow>
      coherent v \<Longrightarrow> in_use (icache v) ROOTDEV i ip \<Longrightarrow> same_refs (icache u) (dropped (icache v) ip) \<Longrightarrow> Q (Some ip) v"
  shows "wp (namei path) Q u"
proof -
  note f = steady_fields [OF u(1)]
  have "wp (namex path False zero_block) (\<lambda>r. Q (map_option fst r)) u"
  proof (rule wp_namex [OF f(1) steady_room [OF s(1) u(1)] _ s(3) u(2,3) path])
    show "tree_ok u I" using s(2) f(9) by simp
    fix r v assume v: "browsed u v" "coherent v"
      "arrived (icache u) (target u False ROOTINO (elems path)) False (elems path) r (icache v)"
    have t: "target u False ROOTINO (elems path) = walk s ROOTINO (elems path)"
      using steady_walk [OF u(1), of False ROOTINO "elems path"] by (simp add: target_def)
    show "Q (map_option fst r) v"
    proof (cases "walk s ROOTINO (elems path)")
      case None
      then show ?thesis
        using v(3) t none [OF _ steady_browsed [OF u(1) v(1)] v(2)] by (simp add: arrived_def)
    next
      case (Some i)
      then show ?thesis
        using v(3) t some [OF Some walk_tree [OF s(2,3) Some] steady_browsed [OF u(1) v(1)] v(2)]
        by (auto simp: arrived_def)
    qed
  qed
  then show ?thesis by (simp add: namei_def wp_simps)
qed

lemma wp_ilock_steady:
  fixes s u :: "'z filest_scheme"
  assumes s: "quiet s" "tree_ok s I" and u: "steady n s u" "coherent u" "in_use (icache u) ROOTDEV i ip" "i \<in> I"
    and post: "\<And>v y. steady n s v \<Longrightarrow> ftable v = ftable u \<Longrightarrow> icache v = (icache u)(ip := y) \<Longrightarrow>
      locked_as s (icache u ip) y \<Longrightarrow> Q () v"
  shows "wp (ilock ip) Q u"
proof -
  note f = steady_fields [OF u(1)]
  have ip: "ip < NINODE" "1 \<le> iref (icache u ip)" "inum (icache u ip) = i" using u(3) by (auto simp: in_use_def)
  have d: "place_ok s (IBLOCK i)" "di_type (disk_inode s i) \<noteq> 0" using s(2) u(4) by (auto simp: tree_ok_def)
  show ?thesis
  proof (rule wp_ilock_rest [OF f(1)])
    show "readable_now u (IBLOCK (inum (icache u ip)))"
      using d f(5) steady_room [OF s(1) u(1)] ip(3) by (simp add: readable_place)
    show "di_type (disk_inode u (inum (icache u ip))) \<noteq> 0" using d f ip by simp
    show "1 \<le> iref (icache u ip)" "at_rest u (icache u ip)" using ip u(2) by (simp_all add: coherent_def)
  next
    fix v y assume v: "browsed u v" "icache v = (icache u)(ip := y)" "locked_as u (icache u ip) y"
    show "Q () v" by (rule post [OF steady_browsed [OF u(1) v(1)] v(2)]) (use v(3) steady_locked(1) [OF u(1)] in simp)
  qed
qed

text \<open>The cache after the lock alone is given back: every reference is as it was.\<close>

lemma unlocked_coherent:
  assumes s: "steady n s u" "coherent u" "in_use (icache u) ROOTDEV i ip" and y: "locked_as s (icache u ip) y"
  shows "icache_ok ((icache u)(ip := unlocked y))"
    "\<forall>k < NINODE. 0 < iref (((icache u)(ip := unlocked y)) k) \<longrightarrow> at_rest s (((icache u)(ip := unlocked y)) k)"
    "in_use ((icache u)(ip := unlocked y)) ROOTDEV i ip"
    "same_refs (dropped (icache u) ip) (dropped ((icache u)(ip := unlocked y)) ip)"
proof -
  have ip: "ip < NINODE" "1 \<le> iref (icache u ip)" "inum (icache u ip) = i" using s(3) by (auto simp: in_use_def)
  have y': "iref y = iref (icache u ip)" "inum y = inum (icache u ip)" "idev y = ROOTDEV" using y by (simp_all add: locked_as_def)
  have y'': "locked_as u (icache u ip) y" using y steady_locked(1) [OF s(1)] by simp
  have "idev (icache u ip) = ROOTDEV" using s(2) ip by (simp add: coherent_def at_rest_def)
  then show "icache_ok ((icache u)(ip := unlocked y))"
    using s(2) ip y' by (intro icache_ok_upd) (auto simp: coherent_def)
  have "at_rest s ((unlocked y)\<lparr>iref := iref y\<rparr>)" using unlocked_rest [OF y''] steady_locked(2) [OF s(1)] by simp
  then show "\<forall>k < NINODE. 0 < iref (((icache u)(ip := unlocked y)) k) \<longrightarrow> at_rest s (((icache u)(ip := unlocked y)) k)"
    using s(2) steady_locked(2) [OF s(1)] by (simp add: coherent_def)
  show "in_use ((icache u)(ip := unlocked y)) ROOTDEV i ip" using ip y' by (simp add: in_use_def)
  show "same_refs (dropped (icache u) ip) (dropped ((icache u)(ip := unlocked y)) ip)"
    using y' by (simp add: same_refs_def dropped_def)
qed

text \<open>The entry of inode \<open>i\<close>, read in.\<close>

definition loaded :: "'z fsst_scheme \<Rightarrow> u32 \<Rightarrow> nat \<Rightarrow> bool" where
  "loaded u i ip \<longleftrightarrow> in_use (icache u) ROOTDEV i ip \<and> bit (iflags (icache u ip)) 1"

lemma wp_iunlock_steady:
  fixes s u v :: "'z filest_scheme"
  assumes u: "steady n s u" "coherent u" "in_use (icache u) ROOTDEV i ip"
    and v: "steady n s v" "icache v = (icache u)(ip := y)" "locked_as s (icache u ip) y"
    and post: "\<And>w. steady n s w \<Longrightarrow> coherent w \<Longrightarrow> ftable w = ftable v \<Longrightarrow> loaded w i ip \<Longrightarrow>
      same_refs (dropped (icache u) ip) (dropped (icache w) ip) \<Longrightarrow> Q () w"
  shows "wp (iunlock ip) Q v"
proof -
  have y: "1 \<le> iref y" "bit (iflags y) 0" "bit (iflags y) 1" using u(3) v(3) by (auto simp: locked_as_def in_use_def)
  then have l: "loaded (v\<lparr>icache := (icache u)(ip := unlocked y)\<rparr>) i ip"
    using unlocked_coherent(3) [OF u v(3)] by (simp add: loaded_def bit_and_iff bit_minus_2_iff)
  note c = unlocked_coherent [OF u v(3)]
  have "coherent (v\<lparr>icache := (icache u)(ip := unlocked y)\<rparr>)"
    by (rule steady_coherent [where n = n and s = s]) (use c v(1) in simp_all)
  then have "Q () (v\<lparr>icache := (icache u)(ip := unlocked y)\<rparr>)"
    by (intro post) (use c v(1) l in simp_all)
  then show ?thesis by (subst wp_iunlock) (use y v(2) in simp_all)
qed

lemma wp_iunlockput_steady:
  fixes s u v :: "'z filest_scheme"
  assumes s: "tree_ok s I" and u: "steady n s u" "coherent u" "in_use (icache u) ROOTDEV i ip" "i \<in> I"
    and v: "steady n s v" "icache v = (icache u)(ip := y)" "locked_as s (icache u ip) y"
    and post: "\<And>w. steady n s w \<Longrightarrow> coherent w \<Longrightarrow> ftable w = ftable v \<Longrightarrow>
      same_refs (dropped (icache u) ip) (icache w) \<Longrightarrow> Q () w"
  shows "wp (iunlockput ip) Q v"
proof -
  have ip: "ip < NINODE" "1 \<le> iref (icache u ip)" "inum (icache u ip) = i" using u(3) by (auto simp: in_use_def)
  have y: "1 \<le> iref y" "bit (iflags y) 0" "inlink y \<noteq> 0"
    using ip u(4) v(3) s by (auto simp: locked_as_def same_fields_def tree_ok_def)
  have "locked_as u (icache u ip) y" using v(3) steady_locked(1) [OF u(1)] by simp
  note c = released_coherent [OF u(2) ip(1,2) this]
  have "coherent (v\<lparr>icache := released ((icache u)(ip := y)) ip\<rparr>)"
    by (rule steady_coherent [where n = n and s = s]) (use c(1,2) v(1) steady_locked(2) [OF u(1)] in simp_all)
  then have "Q () (v\<lparr>icache := released ((icache u)(ip := y)) ip\<rparr>)"
    by (intro post) (use c v(1) in simp_all)
  then show ?thesis by (subst wp_iunlockput_linked) (use y v(2) in simp_all)
qed

text \<open>The inode \<open>sys_open\<close> opens: the one at the end of the path, but a directory only for reading. The
  handle is the first free one.\<close>

definition openable :: "'z bcache_scheme \<Rightarrow> u32 \<Rightarrow> byte list list \<Rightarrow> u32 option" where
  "openable s omode es = (case walk s ROOTINO es of
     None \<Rightarrow> None
   | Some i \<Rightarrow> if itype (node s i) = T_DIR \<and> omode \<noteq> O_RDONLY then None else Some i)"

definition free_file :: "(nat \<Rightarrow> ofile) \<Rightarrow> nat option" where
  "free_file F = find (\<lambda>f. fref (F f) = 0) [0..<NFILE]"

definition handle :: "u32 \<Rightarrow> nat \<Rightarrow> ofile" where
  "handle omode ip = \<lparr>ftype = FD_INODE, fref = 1, readable = (omode AND O_WRONLY = 0),
     writable = (omode AND O_WRONLY \<noteq> 0 \<or> omode AND O_RDWR \<noteq> 0), fip = ip, foff = 0\<rparr>"

text \<open>The result of opening, beside what was open before: nothing, and every reference given back; or a new
  handle that holds one reference to the inode.\<close>

definition opened :: "u32 \<Rightarrow> u32 option \<Rightarrow> 'z filest_scheme \<Rightarrow> nat option \<Rightarrow> 'z filest_scheme \<Rightarrow> bool" where
  "opened omode goal s r u \<longleftrightarrow>
     (case r of
        None \<Rightarrow> (goal = None \<or> free_file (ftable s) = None) \<and> same_refs (icache s) (icache u) \<and> ftable u = ftable s
      | Some f \<Rightarrow> \<exists>i ip. goal = Some i \<and> free_file (ftable s) = Some f \<and> loaded u i ip
          \<and> same_refs (icache s) (dropped (icache u) ip) \<and> ftable u = (ftable s)(f := handle omode ip))"

lemma free_file_Some: "free_file F = Some f \<Longrightarrow> f < NFILE \<and> fref (F f) = 0"
  using find_Some_in by (fastforce simp: free_file_def find_Some_iff)

lemma wp_filealloc: "wp filealloc Q s = (case free_file (ftable s) of
     None \<Rightarrow> Q None s
   | Some f \<Rightarrow> Q (Some f) (s\<lparr>ftable := (ftable s)(f := (ftable s f)\<lparr>fref := 1\<rparr>)\<rparr>))"
  by (simp add: filealloc_def free_file_def wp_simps split: option.split)

lemma wp_reads:
  "wp (get_inode ip) Q = (\<lambda>s. Q (icache s ip) s)" "wp (get_file f) R = (\<lambda>s. R (ftable s f) s)"
  "wp (upd_file f g) S = (\<lambda>s. S () (s\<lparr>ftable := (ftable s)(f := g (ftable s f))\<rparr>))"
  by (intro ext; simp add: get_inode_def get_file_def wp_simps)+

lemma handle_updates: "x\<lparr>fref := 1, ftype := FD_INODE, fip := ip, foff := 0, readable := (omode AND O_WRONLY = 0),
    writable := (omode AND O_WRONLY \<noteq> 0 \<or> omode AND O_RDWR \<noteq> 0)\<rparr> = handle omode ip"
  by (cases x) (simp add: handle_def)

text \<open>The second half of \<open>sys_open\<close>: the inode is locked, a handle is looked for.\<close>

definition open_rest :: "u32 \<Rightarrow> nat option \<Rightarrow> ('z filest_scheme, nat option) xm" where
  "open_rest omode = (\<lambda>r. case r of
     None \<Rightarrow> andthen end_op (return None)
   | Some ip \<Rightarrow>
       bind filealloc (\<lambda>r. case r of
         None \<Rightarrow> andthen (iunlockput ip) (andthen end_op (return None))
       | Some f \<Rightarrow> andthen (iunlock ip) (andthen end_op (
           andthen (upd_file f (\<lambda>x. x\<lparr>ftype := FD_INODE, fip := ip, foff := 0, readable := (omode AND O_WRONLY = 0),
             writable := (omode AND O_WRONLY \<noteq> 0 \<or> omode AND O_RDWR \<noteq> 0)\<rparr>)) (return (Some f))))))"

lemma wp_open_rest:
  fixes s u v :: "'z filest_scheme"
  assumes s: "quiet s" "tree_ok s I" and u: "steady 1 s u" "coherent u" "in_use (icache u) ROOTDEV i ip" "i \<in> I"
    and refs: "same_refs (icache s) (dropped (icache u) ip)" "ftable u = ftable s"
    and v: "steady 1 s v" "icache v = (icache u)(ip := y)" "locked_as s (icache u ip) y" "ftable v = ftable s"
    and post: "\<And>r w. steady 0 s w \<Longrightarrow> coherent w \<Longrightarrow> opened omode (Some i) s r w \<Longrightarrow> Q r w"
  shows "wp (open_rest omode (Some ip)) Q v"
proof (cases "free_file (ftable s)")
  case None
  have "wp (iunlockput ip) (\<lambda>_. wp end_op (\<lambda>_. Q None)) v"
  proof (rule wp_iunlockput_steady [OF s(2) u v(1-3)])
    fix w assume w: "steady 1 s w" "coherent w" "ftable w = ftable v" "same_refs (dropped (icache u) ip) (icache w)"
    show "wp end_op (\<lambda>_. Q None) w"
      by (rule wp_end_steady [OF s(1) w(1)], rule post [OF steady_outstanding [OF w(1)]])
         (use w None v(4) same_refs_trans [OF refs(1) w(4)] in \<open>simp_all add: opened_def\<close>)
  qed
  then show ?thesis using None v(4) by (simp add: open_rest_def wp_simps wp_filealloc)
next
  case (Some f)
  let ?v = "v\<lparr>ftable := (ftable s)(f := (ftable s f)\<lparr>fref := 1\<rparr>)\<rparr>"
  let ?g = "\<lambda>x. x\<lparr>ftype := FD_INODE, fip := ip, foff := 0, readable := (omode AND O_WRONLY = 0),
    writable := (omode AND O_WRONLY \<noteq> 0 \<or> omode AND O_RDWR \<noteq> 0)\<rparr>"
  have "wp (iunlock ip) (\<lambda>_. wp end_op (\<lambda>_ w. Q (Some f) (w\<lparr>ftable := (ftable w)(f := ?g (ftable w f))\<rparr>))) ?v"
  proof (rule wp_iunlock_steady [OF u(1-3) _ _ v(3)])
    show "steady 1 s ?v" "icache ?v = (icache u)(ip := y)" using v by simp_all
    fix w assume w: "steady 1 s w" "coherent w" "ftable w = ftable ?v" "loaded w i ip"
      "same_refs (dropped (icache u) ip) (dropped (icache w) ip)"
    let ?w = "w\<lparr>thelog := (thelog w)\<lparr>outstanding := 0\<rparr>, ftable := (ftable s)(f := handle omode ip)\<rparr>"
    have "opened omode (Some i) s (Some f) ?w"
      using w(4) Some same_refs_trans [OF refs(1) w(5)] by (auto simp: opened_def loaded_def)
    then have "Q (Some f) ?w" by (intro post) (use w steady_outstanding [OF w(1)] in simp_all)
    then show "wp end_op (\<lambda>_ w. Q (Some f) (w\<lparr>ftable := (ftable w)(f := ?g (ftable w f))\<rparr>)) w"
      by (intro wp_end_steady [OF s(1) w(1)]) (use w(3) handle_updates [where x = "ftable s f"] in simp)
  qed
  then show ?thesis using Some v(4) by (simp add: open_rest_def wp_simps wp_filealloc wp_reads)
qed

text \<open>\<open>sys_open\<close> of a file that exists.\<close>

lemma wp_sys_open:
  fixes s :: "'z filest_scheme"
  assumes s: "quiet s" "tree_ok s I" "ROOTINO \<in> I" "coherent s" "two_free (icache s)"
    and path: "0 \<notin> set path" "deref path = SLASH" and omode: "omode AND O_CREATE = 0"
    and post: "\<And>r u. steady 0 s u \<Longrightarrow> coherent u \<Longrightarrow> opened omode (openable s omode (elems path)) s r u \<Longrightarrow> Q r u"
  shows "wp (sys_open path omode) Q s"
proof -
  have "wp (namei path) (\<lambda>r. wp (case r of
      None \<Rightarrow> return None
    | Some ip \<Rightarrow> andthen (ilock ip) (bind (get_inode ip) (\<lambda>x.
        if itype x = T_DIR \<and> omode \<noteq> O_RDONLY then andthen (iunlockput ip) (return None) else return (Some ip))))
      (\<lambda>r. wp (open_rest omode r) Q)) (s\<lparr>thelog := (thelog s)\<lparr>outstanding := 1\<rparr>\<rparr>)" (is "wp _ ?Q ?s")
  proof (rule wp_namei_steady [OF s(1-3) steady_outstanding [OF steady_refl [OF s(1)]] _ _ path])
    show "coherent ?s" "two_free (icache ?s)" using s(4,5) by simp_all
  next
    fix v assume v: "walk s ROOTINO (elems path) = None" "steady 1 s v" "ftable v = ftable ?s" "coherent v"
      "same_refs (icache ?s) (icache v)"
    have "wp end_op (\<lambda>_. Q None) v"
      by (rule wp_end_steady [OF s(1) v(2)], rule post [OF steady_outstanding [OF v(2)]])
         (use v in \<open>simp_all add: opened_def openable_def\<close>)
    then show "?Q None v" by (simp add: wp_simps open_rest_def)
  next
    fix v i ip assume v: "walk s ROOTINO (elems path) = Some i" "i \<in> I" "steady 1 s v" "ftable v = ftable ?s"
      "coherent v" "in_use (icache v) ROOTDEV i ip" "same_refs (icache ?s) (dropped (icache v) ip)"
    have "wp (ilock ip) (\<lambda>_ w. wp (if itype (icache w ip) = T_DIR \<and> omode \<noteq> O_RDONLY
        then andthen (iunlockput ip) (return None) else return (Some ip)) (\<lambda>r. wp (open_rest omode r) Q) w) v"
    proof (rule wp_ilock_steady [OF s(1,2) v(3,5,6,2)])
      fix w y assume w: "steady 1 s w" "ftable w = ftable v" "icache w = (icache v)(ip := y)" "locked_as s (icache v ip) y"
      have y: "itype (icache w ip) = itype (node s i)"
        using w(3,4) v(6) by (simp add: locked_as_def same_fields_def node_fields in_use_def)
      show "wp (if itype (icache w ip) = T_DIR \<and> omode \<noteq> O_RDONLY
        then andthen (iunlockput ip) (return None) else return (Some ip)) (\<lambda>r. wp (open_rest omode r) Q) w"
      proof (cases "itype (node s i) = T_DIR \<and> omode \<noteq> O_RDONLY")
        case True
        have "wp (iunlockput ip) (\<lambda>_. wp end_op (\<lambda>_. Q None)) w"
        proof (rule wp_iunlockput_steady [OF s(2) v(3,5,6,2) w(1,3,4)])
          fix x assume x: "steady 1 s x" "coherent x" "ftable x = ftable w" "same_refs (dropped (icache v) ip) (icache x)"
          show "wp end_op (\<lambda>_. Q None) x"
            by (rule wp_end_steady [OF s(1) x(1)], rule post [OF steady_outstanding [OF x(1)]])
               (use x w(2) v(1,4,7) True same_refs_trans [OF _ x(4)] in \<open>simp_all add: opened_def openable_def\<close>)
        qed
        with True y show ?thesis by (simp add: wp_simps open_rest_def)
      next
        case False
        then have "openable s omode (elems path) = Some i" using v(1) by (simp add: openable_def)
        then have "wp (open_rest omode (Some ip)) Q w"
          using post v(4,7) w by (intro wp_open_rest [OF s(1,2) v(3,5,6,2)]) simp_all
        with False y show ?thesis by (auto simp: wp_simps)
      qed
    qed
    then show "?Q (Some ip) v" by (simp add: wp_simps wp_reads)
  qed
  then have "wp begin_op (\<lambda>_. wp (namei path) ?Q) s"
    by (rule wp_begin_steady [OF s(1) steady_refl [OF s(1)]])
  moreover have "(sys_open path omode :: ('z filest_scheme, nat option) xm) = andthen begin_op (bind (bind (namei path) (\<lambda>r. case r of
      None \<Rightarrow> return None
    | Some ip \<Rightarrow> andthen (ilock ip) (bind (get_inode ip) (\<lambda>x.
        if itype x = T_DIR \<and> omode \<noteq> O_RDONLY then andthen (iunlockput ip) (return None) else return (Some ip)))))
      (open_rest omode))"
    using omode by (simp add: sys_open_def open_rest_def)
  ultimately show ?thesis by (simp add: wp_andthen wp_bind)
qed

section \<open>Attributes\<close>

definition stat_of :: "'z bcache_scheme \<Rightarrow> u32 \<Rightarrow> stat" where
  "stat_of s i = (let d = disk_inode s i in
     \<lparr>st_type = di_type d, st_dev = ROOTDEV, st_ino = i, st_nlink = di_nlink d, st_size = di_size d,
      st_atime = di_atime d, st_mtime = di_mtime d, st_ctime = di_ctime d\<rparr>)"

text \<open>Handles are as before, where one is in use.\<close>

definition same_files :: "(nat \<Rightarrow> ofile) \<Rightarrow> (nat \<Rightarrow> ofile) \<Rightarrow> bool" where
  "same_files F G \<longleftrightarrow> (\<forall>f. fref (G f) = fref (F f) \<and> (fref (F f) \<noteq> 0 \<longrightarrow> G f = F f))"

lemma locked_stat:
  assumes "locked_as s x y" "icache w ip = y"
  shows "wp (stati ip) Q w = Q (stat_of s (inum x)) w"
  using assms by (simp add: stati_def wp_simps Let_def stat_of_def locked_as_def same_fields_def)

lemma wp_filestat:
  fixes s u :: "'z filest_scheme"
  assumes s: "quiet s" "tree_ok s I" and u: "steady n s u" "coherent u" "in_use (icache u) ROOTDEV i ip" "i \<in> I"
    and f: "ftype (ftable u f) = FD_INODE" "fip (ftable u f) = ip"
    and post: "\<And>w. steady n s w \<Longrightarrow> coherent w \<Longrightarrow> ftable w = ftable u \<Longrightarrow> loaded w i ip \<Longrightarrow>
      same_refs (dropped (icache u) ip) (dropped (icache w) ip) \<Longrightarrow> Q (0, stat_of s i) w"
  shows "wp (filestat f st) Q u"
proof -
  have i: "inum (icache u ip) = i" using u(3) by (simp add: in_use_def)
  have "wp (ilock ip) (\<lambda>_. wp (stati ip) (\<lambda>st. wp (iunlock ip) (\<lambda>_. Q (0, st)))) u"
  proof (rule wp_ilock_steady [OF s u])
    fix v y assume v: "steady n s v" "ftable v = ftable u" "icache v = (icache u)(ip := y)" "locked_as s (icache u ip) y"
    have "wp (iunlock ip) (\<lambda>_. Q (0, stat_of s i)) v"
      by (rule wp_iunlock_steady [OF u(1-3) v(1,3,4)]) (use post v(2) in simp)
    then show "wp (stati ip) (\<lambda>st. wp (iunlock ip) (\<lambda>_. Q (0, st))) v"
      using v(3) by (subst locked_stat [OF v(4)]) (simp_all add: i)
  qed
  then show ?thesis using f by (simp add: filestat_def wp_simps)
qed

lemma dropped_coherent:
  assumes "coherent u" "in_use (icache u) ROOTDEV i ip"
  shows "coherent (u\<lparr>icache := dropped (icache u) ip\<rparr>)"
proof -
  have "icache_ok (dropped (icache u) ip)"
    unfolding dropped_def using assms by (intro icache_ok_upd) (auto simp: coherent_def in_use_def)
  then show ?thesis using assms by (auto simp: coherent_def dropped_def in_use_def at_rest_def disk_inode_def same_fields_def)
qed

text \<open>Closing the last handle of an inode that is linked gives its reference back.\<close>

lemma wp_fileclose_last:
  fixes s u :: "'z filest_scheme"
  assumes s: "quiet s" "tree_ok s I" and u: "steady 0 s u" "coherent u" "in_use (icache u) ROOTDEV i ip" "i \<in> I"
    and f: "ftype (ftable u f) = FD_INODE" "fip (ftable u f) = ip" "fref (ftable u f) = 1"
    and post: "\<And>w. steady 0 s w \<Longrightarrow> coherent w \<Longrightarrow> ftable w = (ftable u)(f := (ftable u f)\<lparr>fref := 0, ftype := FD_NONE\<rparr>) \<Longrightarrow>
      icache w = dropped (icache u) ip \<Longrightarrow> Q () w"
  shows "wp (fileclose f) Q u"
proof -
  let ?u = "u\<lparr>ftable := (ftable u)(f := (ftable u f)\<lparr>fref := 0, ftype := FD_NONE\<rparr>)\<rparr>"
  let ?v = "?u\<lparr>thelog := (thelog ?u)\<lparr>outstanding := 1\<rparr>\<rparr>"
  let ?w = "?v\<lparr>icache := dropped (icache u) ip\<rparr>"
  have ip: "ip < NINODE" "1 \<le> iref (icache u ip)" "inum (icache u ip) = i" using u(3) by (auto simp: in_use_def)
  then have r: "at_rest s (icache u ip)" using u(2) steady_locked(2) [OF u(1)] by (simp add: coherent_def)
  have link: "inlink (icache u ip) \<noteq> 0" if "bit (iflags (icache u ip)) 1"
    using r that ip(3) s(2) u(4) by (auto simp: at_rest_def same_fields_def tree_ok_def)
  have v: "steady 0 s ?u" using u(1) by simp
  then have w: "steady 1 s ?w" using steady_outstanding [OF v, of 1] by simp
  have "wp end_op Q ?w"
    by (rule wp_end_steady [OF s(1) w], rule post)
       (use steady_outstanding [OF w, of 0] dropped_coherent [OF u(2,3)] in
         \<open>simp_all add: coherent_def at_rest_def disk_inode_def\<close>)
  moreover have "wp (iput ip) R ?v = R () ?w" for R
    by (subst wp_iput_linked) (use link in auto)
  ultimately have "wp begin_op (\<lambda>_. wp (iput ip) (\<lambda>_. wp end_op Q)) ?u"
    by (intro wp_begin_steady [OF s(1) v]) simp
  then show ?thesis using f by (simp add: fileclose_def wp_simps)
qed

text \<open>\<open>sys_fstat\<close>: the attributes on the disk, and every handle and reference as before.\<close>

lemma wp_sys_fstat:
  fixes s :: "'z filest_scheme"
  assumes s: "quiet s" "tree_ok s I" "ROOTINO \<in> I" "coherent s" "two_free (icache s)"
    and path: "0 \<notin> set path" "deref path = SLASH"
    and post: "\<And>u. steady 0 s u \<Longrightarrow> coherent u \<Longrightarrow> same_refs (icache s) (icache u) \<Longrightarrow> same_files (ftable s) (ftable u) \<Longrightarrow>
      Q (case walk s ROOTINO (elems path) of
           None \<Rightarrow> (- 1, st)
         | Some i \<Rightarrow> if free_file (ftable s) = None then (- 1, st) else (0, stat_of s i)) u"
  shows "wp (sys_fstat path st) Q s"
proof -
  let ?rest = "\<lambda>r. case r of None \<Rightarrow> return (- 1, st)
     | Some f \<Rightarrow> bind (filestat f st) (\<lambda>res. andthen (fileclose f) (return res))"
  have "wp (sys_open path O_RDONLY) (\<lambda>r. wp (?rest r) Q) s"
  proof (rule wp_sys_open [OF s path])
    show "O_RDONLY AND O_CREATE = 0" by (simp add: O_RDONLY_def)
    fix r u assume u: "steady 0 s u" "coherent u" "opened O_RDONLY (openable s O_RDONLY (elems path)) s r u"
    have g: "openable s O_RDONLY (elems path) = walk s ROOTINO (elems path)"
      by (simp add: openable_def split: option.split)
    show "wp (?rest r) Q u"
    proof (cases r)
      case None
      then have "Q (- 1, st) u"
        using u(3) g post [OF u(1,2)] by (auto simp: opened_def same_files_def split: option.splits)
      then show ?thesis using None by (simp add: wp_simps)
    next
      case (Some f)
      then obtain i ip where i: "walk s ROOTINO (elems path) = Some i" "free_file (ftable s) = Some f"
          "loaded u i ip" "same_refs (icache s) (dropped (icache u) ip)"
          "ftable u = (ftable s)(f := handle O_RDONLY ip)"
        using u(3) g by (auto simp: opened_def)
      have I: "i \<in> I" by (rule walk_tree [OF s(2,3) i(1)])
      have "wp (filestat f st) (\<lambda>res. wp (fileclose f) (\<lambda>_. Q res)) u"
      proof (rule wp_filestat [OF s(1,2) u(1,2) _ I])
        show "in_use (icache u) ROOTDEV i ip" using i(3) by (simp add: loaded_def)
        show "ftype (ftable u f) = FD_INODE" "fip (ftable u f) = ip" by (simp_all add: i(5) handle_def)
        fix w assume w: "steady 0 s w" "coherent w" "ftable w = ftable u" "loaded w i ip"
          "same_refs (dropped (icache u) ip) (dropped (icache w) ip)"
        show "wp (fileclose f) (\<lambda>_. Q (0, stat_of s i)) w"
        proof (rule wp_fileclose_last [OF s(1,2) w(1,2) _ I])
          show "in_use (icache w) ROOTDEV i ip" using w(4) by (simp add: loaded_def)
          show "ftype (ftable w f) = FD_INODE" "fip (ftable w f) = ip" "fref (ftable w f) = 1"
            by (simp_all add: w(3) i(5) handle_def)
          fix x assume x: "steady 0 s x" "coherent x" "icache x = dropped (icache w) ip"
            "ftable x = (ftable w)(f := (ftable w f)\<lparr>fref := 0, ftype := FD_NONE\<rparr>)"
          have "same_files (ftable s) (ftable x)"
            using free_file_Some [OF i(2)] by (simp add: same_files_def x(4) w(3) i(5))
          then show "Q (0, stat_of s i) x"
            using post [OF x(1,2)] same_refs_trans [OF i(4) w(5)] i(1,2) x(3) by simp
        qed
      qed
      then show ?thesis using Some by (simp add: wp_simps)
    qed
  qed
  then show ?thesis by (simp add: sys_fstat_def wp_simps)
qed

section \<open>Properties\<close>

text \<open>C14. Opening a file that exists: \<open>sys_open\<close> without \<open>O_CREATE\<close> returns the first free handle, set up for the inode
  at the end of the path with the access \<open>omode\<close> asks for, and that handle holds one reference to the inode. It fails exactly if the
  path does not lead to an inode, if it leads to a directory and \<open>omode\<close> is not \<open>O_RDONLY\<close>, or if no handle is free; then every handle
  and every reference is as before. In each case the call is over, no lock is held, and no block has changed.\<close>

theorem sys_open_opens:
  fixes s :: "'z filest_scheme"
  assumes "quiet s" "tree_ok s I" "ROOTINO \<in> I" "coherent s" "two_free (icache s)"
    and "0 \<notin> set path" "deref path = SLASH" "omode AND O_CREATE = 0"
  shows "\<exists>r u. sys_open path omode s = Ok r u \<and> opened omode (openable s omode (elems path)) s r u
    \<and> quiet u \<and> coherent u \<and> blk u = blk s \<and> img u = img s \<and> hist u = hist s"
proof -
  have "wp (sys_open path omode) (\<lambda>r u. opened omode (openable s omode (elems path)) s r u
    \<and> quiet u \<and> coherent u \<and> blk u = blk s \<and> img u = img s \<and> hist u = hist s) s"
    by (rule wp_sys_open [OF assms]) (use steady_quiet [OF assms(1)] in \<open>simp add: steady_fields\<close>)
  then show ?thesis by (auto dest!: wp_Ok)
qed

text \<open>What depends only on the disk, the buffers and the place of the log.\<close>

lemma same_medium:
  assumes "bufs t = bufs s" "img t = img s" "imglen t = imglen s"
  shows "blk t = blk s" "dirty_at t = dirty_at s" "busy_at t = busy_at s" "in_image t = in_image s" "binv t = binv s"
    "disk_inode t = disk_inode s" "node t = node s" "place_ok t = place_ok s" "file_block t = file_block s"
    "dir_entry t = dir_entry s" "stat_of t = stat_of s" "lookup t = lookup s" "at_rest t = at_rest s"
proof -
  show b: "blk t = blk s" "dirty_at t = dirty_at s" "busy_at t = busy_at s" and i: "in_image t = in_image s"
    using assms by (simp_all add: blk_def [abs_def] dirty_at_def busy_at_def in_image_def [abs_def] cong: option.case_cong)
  then show "binv t = binv s" using assms by (simp add: binv_def buf_ok_def)
  show d: "disk_inode t = disk_inode s" by (intro ext) (simp add: disk_inode_def b)
  then show n: "node t = node s" and "stat_of t = stat_of s" and "at_rest t = at_rest s"
    by (intro ext; simp add: node_def stat_of_def at_rest_def)+
  show "place_ok t = place_ok s" by (intro ext) (simp add: place_ok_def b i)
  show f: "file_block t = file_block s" by (intro ext) (simp add: file_block_def b cong: if_cong)
  then show e: "dir_entry t = dir_entry s" by (intro ext) (simp add: dir_entry_def fbyte_def b)
  show "lookup t = lookup s" by (intro ext) (simp add: lookup_def entry_named_def [abs_def] Let_def n e)
qed

lemma same_medium_walk:
  assumes "bufs t = bufs s" "img t = img s" "imglen t = imglen s"
  shows "walk t i es = walk s i es"
  by (induction es arbitrary: i) (simp_all add: same_medium [OF assms] split: option.split)

lemma same_medium_tree:
  assumes "bufs t = bufs s" "img t = img s" "imglen t = imglen s"
  shows "icache t = icache s \<Longrightarrow> coherent t = coherent s" "log_geometry (thelog t) = log_geometry (thelog s) \<Longrightarrow> tree_ok t I = tree_ok s I"
    "thelog t = thelog s \<Longrightarrow> quiet t = quiet s"
proof -
  note m = same_medium [OF assms]
  show "icache t = icache s \<Longrightarrow> coherent t = coherent s" by (simp add: coherent_def m)
  show "tree_ok t I = tree_ok s I" if "log_geometry (thelog t) = log_geometry (thelog s)"
    using geometry_place(3) [OF that] by (simp add: tree_ok_def dir_wf_def file_wf_def mapped_def m)
  show "thelog t = thelog s \<Longrightarrow> quiet t = quiet s"
    by (simp add: quiet_def txn_inv_def log_wf_def head_wf_def log_empty_def Let_def m assms)
qed

text \<open>C13. What the host kernel is told about a path: \<open>fuse_getattr\<close> answers with the attributes the disk has for the
  inode at the end of the path, converted to the host's file types, and with \<open>ENOENT\<close> if there is no such inode or no handle is free.
  It goes through \<open>sys_fstat\<close>, which opens the path, reads the attributes and closes it: afterwards every handle and every
  inode reference is as before, and no block has changed.\<close>

theorem fuse_getattr_tree:
  fixes s :: "'z fusest_scheme"
  assumes "quiet s" "tree_ok s I" "ROOTINO \<in> I" "coherent s" "two_free (icache s)"
    and "0 \<notin> set path" "deref path = SLASH" "path \<noteq> stats_path"
  shows "\<exists>u. fuse_getattr path s = Ok (case walk s ROOTINO (elems path) of
        None \<Rightarrow> (- 2, zero_kstat)
      | Some i \<Rightarrow> if free_file (ftable s) = None then (- 2, zero_kstat) else (0, kstat_of (stat_of s i))) u
    \<and> quiet u \<and> coherent u \<and> same_refs (icache s) (icache u) \<and> same_files (ftable s) (ftable u) \<and> blk u = blk s \<and> img u = img s"
proof -
  let ?r = "case walk s ROOTINO (elems path) of
        None \<Rightarrow> (- 2 :: int, zero_kstat)
      | Some i \<Rightarrow> if free_file (ftable s) = None then (- 2, zero_kstat) else (0, kstat_of (stat_of s i))"
  let ?s = "s\<lparr>fsstats := (fsstats s)\<lparr>ngetattr := ngetattr (fsstats s) + 1\<rparr>\<rparr>"
  have m: "bufs ?s = bufs s" "img ?s = img s" "imglen ?s = imglen s" by simp_all
  note eqs = same_medium [OF m] same_medium_walk [OF m] same_medium_tree [OF m, simplified]
  let ?Q = "\<lambda>p u. (if 0 \<le> fst p then (fst p, kstat_of (snd p)) else (- 2, zero_kstat)) = ?r \<and> quiet u \<and> coherent u
    \<and> same_refs (icache s) (icache u) \<and> same_files (ftable s) (ftable u) \<and> blk u = blk s \<and> img u = img s"
  have "wp (sys_fstat path zero_stat) ?Q ?s"
  proof (rule wp_sys_fstat [where I = I])
    fix u assume u: "steady 0 ?s u" "coherent u" "same_refs (icache ?s) (icache u)" "same_files (ftable ?s) (ftable u)"
    have "quiet u" "blk u = blk s" "img u = img s"
      using steady_quiet [OF _ u(1)] steady_fields(2,10) [OF u(1)] assms(1) by (simp_all add: eqs)
    with u(2-4) show "?Q (case walk ?s ROOTINO (elems path) of None \<Rightarrow> (- 1, zero_stat)
        | Some i \<Rightarrow> if free_file (ftable ?s) = None then (- 1, zero_stat) else (0, stat_of ?s i)) u"
      by (cases "free_file (ftable s)") (simp_all add: eqs split: option.split)
  qed (use assms in \<open>simp_all add: eqs\<close>)
  then have "wp (fuse_getattr path) (\<lambda>r u. r = ?r \<and> quiet u \<and> coherent u
    \<and> same_refs (icache s) (icache u) \<and> same_files (ftable s) (ftable u) \<and> blk u = blk s \<and> img u = img s) s"
    using assms(8) unfolding fuse_getattr_def count_def wp_def
    by (auto simp: bind_def andthen_def modify_def return_def split: result.splits if_splits)
  then show ?thesis by (auto dest!: wp_Ok)
qed

text \<open>The small file system between system calls, with no file open.\<close>

definition quiet_fs :: fusest where
  "quiet_fs = filest.extend (with_files ((small_inodes dir_disk)\<lparr>thelog := small_log\<lparr>outstanding := 0\<rparr>\<rparr>)
     (\<lambda>_. handle O_RDONLY 0\<lparr>ftype := FD_NONE, fref := 0\<rparr>)) (fusest.fields [])"

lemma quiet_fs_fields:
  "bufs quiet_fs = bufs (small_inodes dir_disk)" "img quiet_fs = img (small_inodes dir_disk)"
  "imglen quiet_fs = imglen (small_inodes dir_disk)" "thelog quiet_fs = small_log\<lparr>outstanding := 0\<rparr>"
  "icache quiet_fs = icache (small_inodes dir_disk)" "ftable quiet_fs = (\<lambda>_. handle O_RDONLY 0\<lparr>ftype := FD_NONE, fref := 0\<rparr>)"
  by (simp_all add: quiet_fs_def filest.extend_def fusest.fields_def with_files_def fsst.extend_def filest.fields_def)

lemma small_quiet:
  assumes "e 14 = zero_block"
  shows "quiet ((small_inodes e)\<lparr>thelog := small_log\<lparr>outstanding := 0\<rparr>\<rparr>)" (is "quiet ?s")
proof -
  have i: "txn_inv ?s" "busy_at ?s = {}" "blk ?s = small_disk (e(2 := inode_block))"
    using txn_inv_counters(2) [where s = "small_inodes e" and n = 0] small_inodes_ok(1-5) [where e = e] by simp_all
  then have "img ?s (log_head (thelog ?s)) = zero_block"
    using txn_clean [of ?s 14] assms by (simp add: sectors_def log_head_def small_log_def small_disk_def)
  then have "log_empty ?s" by (simp add: log_empty_def zero_block_def get32_def)
  then show ?thesis using i by (simp add: quiet_def small_log_def)
qed

lemma quiet_fs_ok:
  "quiet quiet_fs" "tree_ok quiet_fs {1, 2}" "coherent quiet_fs" "two_free (icache quiet_fs)"
  "walk quiet_fs ROOTINO [[97]] = Some 2" "free_file (ftable quiet_fs) = Some 0"
proof -
  let ?s = "small_inodes dir_disk"
  note m = same_medium [OF quiet_fs_fields(1-3)] and mt = same_medium_tree [OF quiet_fs_fields(1-3)]
  have g: "log_geometry (thelog quiet_fs) = log_geometry (thelog ?s)" by (simp add: quiet_fs_fields small_inodes_ok log_geometry_def)
  show "tree_ok quiet_fs {1, 2}" "coherent quiet_fs" "two_free (icache quiet_fs)"
    using mt small_tree quiet_fs_fields(5) g by simp_all
  show "walk quiet_fs ROOTINO [[97]] = Some 2" using m(12) small_lookup by (simp add: ROOTINO_def)
  show "free_file (ftable quiet_fs) = Some 0"
    by (simp add: free_file_def quiet_fs_fields NFILE_def upt_rec [of 0])
  show "quiet quiet_fs"
    using same_medium_tree(3) [of quiet_fs "?s\<lparr>thelog := small_log\<lparr>outstanding := 0\<rparr>\<rparr>"]
      small_quiet [where e = dir_disk] by (simp add: quiet_fs_fields dir_disk_def)
qed

theorem sys_open_opens_witness:
  "\<exists>u ip. sys_open [47, 97] O_RDONLY quiet_fs = Ok (Some 0) u \<and> ftable u 0 = handle O_RDONLY ip
    \<and> in_use (icache u) ROOTDEV 2 ip \<and> same_refs (icache quiet_fs) (dropped (icache u) ip) \<and> blk u = blk quiet_fs"
proof -
  have e: "elems [47, 97] = [[97]]" by (simp add: elems_def SLASH_def)
  have o: "openable quiet_fs O_RDONLY (elems [47, 97]) = Some 2" using quiet_fs_ok(5) by (simp add: openable_def e)
  obtain r u where u: "sys_open [47, 97] O_RDONLY quiet_fs = Ok r u" "opened O_RDONLY (Some 2) quiet_fs r u" "blk u = blk quiet_fs"
    using sys_open_opens [OF quiet_fs_ok(1,2) _ quiet_fs_ok(3,4), where path = "[47, 97]" and omode = O_RDONLY] o
    by (auto simp: deref_def SLASH_def ROOTINO_def O_RDONLY_def)
  then obtain ip where "r = Some 0" "in_use (icache u) ROOTDEV 2 ip" "same_refs (icache quiet_fs) (dropped (icache u) ip)"
      "ftable u 0 = handle O_RDONLY ip"
    using quiet_fs_ok(6) by (auto simp: opened_def loaded_def split: option.splits)
  with u show ?thesis by blast
qed

theorem fuse_getattr_tree_witness:
  "\<exists>u. fuse_getattr [47, 97] quiet_fs = Ok (0, kstat_of (stat_of quiet_fs 2)) u
    \<and> same_refs (icache quiet_fs) (icache u) \<and> same_files (ftable quiet_fs) (ftable u) \<and> blk u = blk quiet_fs"
proof -
  have "elems [47, 97] = [[97]]" by (simp add: elems_def SLASH_def)
  then show ?thesis
    using fuse_getattr_tree [OF quiet_fs_ok(1,2) _ quiet_fs_ok(3,4), where path = "[47, 97]"] quiet_fs_ok(5,6)
    by (auto simp: deref_def SLASH_def ROOTINO_def stats_path_def)
qed

end
