(* ===== verification/Xv6_Readdir.thy ===== *)
theory Xv6_Readdir
  imports Xv6_Open
begin

text \<open>
  Listing a directory: one call of \<open>sys_readdirent\<close>, the loop of \<open>fuse_readdir\<close> over the entries, and the whole
  handler from opening the path to closing the handle.
\<close>

section \<open>Listing a directory\<close>

















end
