(* ===== verification/Xv6_Trunc.thy ===== *)
theory Xv6_Trunc
  imports Xv6_Content
begin

text \<open>
  Freeing a file. \<open>itrunc\<close> gives every block of a file back to the allocator: the directly addressed ones, those in
  its indirect block, which is held during that loop, and the indirect block. \<open>iput\<close> of the last reference of an inode
  without names truncates it and frees the inode. A list of freed blocks is described by the relation \<open>freed\<close>, which
  composes, and by \<open>can_free\<close>, what the rest of the list still needs of the state.
\<close>

section \<open>A list of blocks to free\<close>

text \<open>The bitmap block of a block, its bit cleared, the effect of freeing a list of blocks (on everything but the inode
  cache), and the conditions for it: the blocks are distinct, in use and inside the image, nobody holds their bitmap
  blocks, and the cache and the log have room for these and for the blocks \<open>X\<close>.\<close>

definition bit_block :: "'z bcache_scheme \<Rightarrow> u32 \<Rightarrow> u32" where
  "bit_block s b = bitmap_at s (unat b)"

definition clear_bit :: "'z bcache_scheme \<Rightarrow> u32 \<Rightarrow> (u32 \<Rightarrow> block) \<Rightarrow> u32 \<Rightarrow> block" where
  "clear_bit s b m = m(bit_block s b := mark_free (m (bit_block s b)) (unat b mod BPB))"

definition freed :: "'z fsst_scheme \<Rightarrow> u32 list \<Rightarrow> 'z fsst_scheme \<Rightarrow> bool" where
  "freed s F t \<longleftrightarrow> logged s (fold (clear_bit s) F (blk s)) (map (bit_block s) F) (t\<lparr>icache := icache s\<rparr>)"

definition can_free :: "'z fsst_scheme \<Rightarrow> u32 set \<Rightarrow> u32 list \<Rightarrow> bool" where
  "can_free s X F \<longleftrightarrow> txn_inv s \<and> in_image s 1 \<and> 1 \<notin> busy_at s \<and> 1 \<le> outstanding (thelog s) \<and> distinct F
     \<and> (\<forall>b \<in> set F. unat b < unat (sb_size (sb_of s)) \<and> \<not> is_free s (unat b) \<and> bit_block s b \<noteq> 1 \<and> in_image s (bit_block s b)
         \<and> bit_block s b \<notin> busy_at s \<and> \<not> in_log (thelog s) (bit_block s b))
     \<and> card (dirty_at s \<union> busy_at s \<union> bit_block s ` set F \<union> X) < NBUF
     \<and> int (card (dirty_at s \<union> bit_block s ` set F \<union> X)) < lsize (thelog s) - 1"

lemma logged_set_icache:
  assumes "logged s m bs t"
  shows "logged (s\<lparr>icache := C\<rparr>) m bs (t\<lparr>icache := C\<rparr>)"
proof -
  have "lframe s t" using assms by (rule loggedD)
  then have "lframe (s\<lparr>icache := C\<rparr>) (t\<lparr>icache := C\<rparr>)" by (cases s; cases t) (simp add: lframe_def)
  then show ?thesis using assms by (simp add: logged_def)
qed

lemma log_length:
  assumes "txn_inv s"
  shows "lh_n (thelog s) = int (card (dirty_at s))"
  using assms distinct_card [of "sectors (thelog s)"] by (simp add: txn_inv_def head_wf_def Let_def sectors_def)

lemma logged_same_log_all: "logged s m bs t \<Longrightarrow> same_log (thelog s) (thelog t)"
proof -
  have "same_log L (fold (\<lambda>b L. log_add L b) bs L)" for L
    by (induction bs arbitrary: L) (auto intro: same_log_trans same_log_add)
  then show "logged s m bs t \<Longrightarrow> same_log (thelog s) (thelog t)" using loggedD(9) by metis
qed

lemma same_log_in_log: "same_log L M \<Longrightarrow> in_log M = in_log L" "same_log L M \<Longrightarrow> lsize M = lsize L"
  "same_log L M \<Longrightarrow> outstanding M = outstanding L"
  by (simp_all add: same_log_def log_geometry_def in_log_def fun_eq_iff)

lemma logged_space_all:
  assumes t: "logged s m bs t" and s: "txn_inv s" "space s (length bs + n)"
  shows "space t n"
proof -
  have l: "lh_n (thelog s) = int (card (dirty_at s))" "lh_n (thelog t) = int (card (dirty_at t))"
    using log_length s(1) loggedD(1) [OF t] by (auto simp: )
  have d: "dirty_at t = set bs \<union> dirty_at s" "busy_at t = busy_at s" by (rule loggedD [OF t])+
  have "card (set bs \<union> X) \<le> length bs + card X" for X :: "u32 set"
    using card_Un_le [of "set bs" X] card_length [of bs] by linarith
  note c = this [of "dirty_at s"] this [of "dirty_at s \<union> busy_at s"]
  have "same_log (thelog s) (thelog t)" by (rule logged_same_log_all [OF t])
  note same_log_in_log(2,3) [OF this]
  then show ?thesis using c s(2) l by (simp add: space_def log_room_def d Un_assoc)
qed

lemma card_sub: "A \<subseteq> B \<Longrightarrow> card B < n \<Longrightarrow> card (A :: u32 set) < n"
  using card_mono [of B A] by simp

lemma free_room:
  assumes "can_free s X F"
  shows "card (dirty_at s \<union> busy_at s) < NBUF" "log_room (thelog s) 1"
proof -
  show "card (dirty_at s \<union> busy_at s) < NBUF" by (rule card_sub [of _ "dirty_at s \<union> busy_at s \<union> bit_block s ` set F \<union> X"]) (use assms in \<open>auto simp: can_free_def\<close>)
  have "card (dirty_at s) \<le> card (dirty_at s \<union> bit_block s ` set F \<union> X)" by (rule card_mono) auto
  then show "log_room (thelog s) 1" using assms log_length [of s] by (simp add: can_free_def log_room_def)
qed

lemma clear_bits:
  "bit_free (fold (clear_bit s) F m c) j \<longleftrightarrow> bit_free (m c) j \<or> (\<exists>b \<in> set F. bit_block s b = c \<and> unat b mod BPB = j)"
  by (induction F arbitrary: m) (auto simp: clear_bit_def bit_free_mark_free)

lemma clear_bits_other: "c \<notin> bit_block s ` set F \<Longrightarrow> fold (clear_bit s) F m c = m c"
  by (induction F arbitrary: m) (auto simp: clear_bit_def)

lemma bit_place_inject:
  assumes "bit_block s a = bit_block s b" "unat a mod BPB = unat b mod BPB"
  shows "a = b"
proof -
  have "unat a < 2 ^ 32" "unat b < 2 ^ 32" using unsigned_less [of a, where 'a = nat] unsigned_less [of b, where 'a = nat] by simp_all
  then have "unat a div BPB = unat b div BPB"
    using assms(1) by (intro bitmap_group_inject [of s]) (simp_all add: bit_block_def)
  then show ?thesis using assms(2) by (metis div_mult_mod_eq word_unat_eq_iff)
qed

lemma freed_bits:
  assumes "can_free s X F" "blk t = fold (clear_bit s) F (blk s)"
  shows "sb_of t = sb_of s" "bitmap_at t = bitmap_at s" "bit_block t = bit_block s" "is_free t (unat c) \<longleftrightarrow> c \<in> set F \<or> is_free s (unat c)"
proof -
  have "blk t 1 = blk s 1" using assms by (auto simp: can_free_def intro!: clear_bits_other)
  then show sb: "sb_of t = sb_of s" by (simp add: sb_of_def)
  then show bm: "bitmap_at t = bitmap_at s" by (simp add: bitmap_at_def fun_eq_iff)
  then show bb: "bit_block t = bit_block s" by (simp add: bit_block_def fun_eq_iff)
  show "is_free t (unat c) \<longleftrightarrow> c \<in> set F \<or> is_free s (unat c)"
    using bit_place_inject [of s] unfolding is_free_def bm assms(2) clear_bits by (fold bit_block_def) blast
qed

lemma wp_free_first:
  assumes r: "can_free s X (b # F)"
  shows "wp (bfree ROOTDEV b) (\<lambda>_ t. freed s [b] t \<and> icache t = icache s) s"
proof (rule wp_bfree)
  show "free_ready s (unat b)" "\<not> is_free s (unat b)"
    using r free_room [OF r] by (auto simp: can_free_def free_ready_def readable_now_def bit_block_def)
  fix t assume t: "logged s ((blk s)(bitmap_at s (unat b) := mark_free (blk s (bitmap_at s (unat b))) (unat b mod BPB)))
      [bitmap_at s (unat b)] t"
  show "freed s [b] t \<and> icache t = icache s"
    unfolding freed_def icache_self [OF logged_icache [OF t]]
    using t logged_icache [OF t] by (simp add: clear_bit_def bit_block_def)
qed

lemma freed_facts:
  assumes "freed s F t"
  shows "txn_inv t" "blk t = fold (clear_bit s) F (blk s)" "dirty_at t = bit_block s ` set F \<union> dirty_at s" "busy_at t = busy_at s"
    "in_image t = in_image s" "same_log (thelog s) (thelog t)" "img t = img s" "hist t = hist s"
  using loggedD [OF assms [unfolded freed_def]] logged_same_log_all [OF assms [unfolded freed_def]] by simp_all

lemma can_free_sub:
  assumes r: "can_free s X F" and G: "distinct G" "set G \<subseteq> set F"
  shows "can_free s X G"
proof -
  let ?A = "\<lambda>F. dirty_at s \<union> busy_at s \<union> bit_block s ` set F \<union> X" and ?B = "\<lambda>F. dirty_at s \<union> bit_block s ` set F \<union> X"
  have "card (?A G) \<le> card (?A F)" "card (?B G) \<le> card (?B F)" by (rule card_mono; use G in auto)+
  with r have "card (?A G) < NBUF" "int (card (?B G)) < lsize (thelog s) - 1" unfolding can_free_def by linarith+
  then show ?thesis using r G unfolding can_free_def by blast
qed

lemma can_free_rest:
  assumes r: "can_free s X (F @ G)" and f: "freed s F t"
  shows "can_free t X G"
proof -
  note t = freed_facts [OF f]
  have rF: "can_free s X F" by (rule can_free_sub [OF r]) (use r in \<open>auto simp: can_free_def\<close>)
  note b = freed_bits [OF rF t(2)]
  show ?thesis
    using r unfolding can_free_def t(3,4,5) b same_log_in_log [OF t(6)] by (auto simp: t(1) Un_ac image_Un)
qed

lemma freed_trans:
  assumes "can_free s X F" "freed s F t" "freed t G u"
  shows "freed s (F @ G) u"
proof -
  note b = freed_bits [OF assms(1) freed_facts(2) [OF assms(2)]]
  have c: "clear_bit t = clear_bit s" by (simp add: clear_bit_def b fun_eq_iff)
  have "logged (t\<lparr>icache := icache s\<rparr>) (fold (clear_bit s) G (blk t)) (map (bit_block s) G) (u\<lparr>icache := icache s\<rparr>)"
    using logged_set_icache [OF assms(3) [unfolded freed_def], of "icache s"] by (simp add: b c)
  from logged_trans [OF assms(2) [unfolded freed_def] this] show ?thesis
    by (simp add: freed_def freed_facts(2) [OF assms(2)])
qed

lemma freed_nil: "txn_inv s \<Longrightarrow> freed s [] s"
  by (simp add: freed_def logged_def)

section \<open>Work done while a block is held\<close>

lemma wp_while_held:
  assumes inv: "txn_inv s" and r: "readable_now s b"
    and body: "\<And>t. txn_inv t \<Longrightarrow> lframe s t \<Longrightarrow> thelog t = thelog s \<Longrightarrow> view t = a_bread b (view s) \<Longrightarrow>
      wp (k (blk s b)) (\<lambda>_ u. \<exists>m bs. logged t m bs u \<and> m b = blk s b \<and> (\<forall>v. logged s m bs v \<longrightarrow> Q () v)) t"
  shows "wp (bind (bread ROOTDEV b) (\<lambda>i. bind (get_data i) (\<lambda>d. andthen (k d) (brelse i)))) Q s"
  unfolding wp_bind wp_andthen
proof (rule bc.rd)
  show "binv s" using inv by (simp add: txn_inv_def)
  fix i t assume t: "binv t" "cframe s t" "view t = a_bread b (view s)" "holds t i b" and old: "\<And>j c. holds s j c \<Longrightarrow> holds t j c"
  have vt: "blk t = blk s" "dirty_at t = dirty_at s" "img t = img s" using t(3) by (simp_all add: view_def a_bread_def)
  have L: "thelog t = thelog s" by (rule cframe_thelog [OF t(2)])
  have it: "txn_inv t" using inv t(1) cframe_wf [OF t(2)] by (simp add: txn_inv_def L vt)
  show "wp (get_data i) (\<lambda>d. wp (k d) (\<lambda>_. wp (brelse i) Q)) t"
    unfolding bc.ld [OF t(1,4)]
  proof -
    have "v_blk (view t) b = blk s b" using vt(1) by (simp add: view_def)
    then show "wp (k (v_blk (view t) b)) (\<lambda>_. wp (brelse i) Q) t"
    proof (elim ssubst, intro wp_mono [OF body [OF it cframe_lframe [OF t(2)] L t(3)]], elim exE conjE)
      fix u m bs assume u: "logged t m bs u" "m b = blk s b" and Q: "\<forall>v. logged s m bs v \<longrightarrow> Q () v"
      note l = loggedD [OF u(1)]
      show "wp (brelse i) Q u"
      proof (rule bc.rel)
        show "binv u" "holds u i b" using l(1) l(10) [OF t(4)] by (simp_all add: txn_inv_def)
        show "b \<in> v_dirty (view u) \<or> v_blk (view u) b = v_img (view u) b"
          using bc.clean [of s b] inv r u(2) vt l(3,4,6) by (auto simp: view_def txn_inv_def readable_now_def)
        fix v assume v: "binv v" "cframe u v" "view v = a_brelse b (view u)"
          and keep: "\<And>j c. holds u j c \<Longrightarrow> c \<noteq> b \<Longrightarrow> holds v j c"
        have vv: "blk v = m" "dirty_at v = set bs \<union> dirty_at s" "busy_at v = busy_at s" "img v = img s" "hist v = hist s"
          using v(3) l(3-7) t(3) r by (auto simp: view_def a_bread_def a_brelse_def readable_now_def)
        have "txn_inv v" using l(1,4) v(1) cframe_wf [OF v(2)] cframe_thelog [OF v(2)] vt vv(2) by (simp add: txn_inv_def)
        moreover have "lframe s v" by (rule lframe_trans [OF lframe_trans [OF cframe_lframe [OF t(2)] l(2)] cframe_lframe [OF v(2)]])
        moreover have "holds v j c" if "holds s j c" for j c
          using keep [OF l(10) [OF old [OF that]]] holds_busy_at [OF that] r by (auto simp: readable_now_def)
        ultimately have "logged s m bs v"
          using cframe_thelog [OF v(2)] l(9) L vv by (simp add: logged_def view_def)
        then show "Q () v" using Q by blast
      qed
    qed
  qed
qed (use r in \<open>auto simp: readable_now_def view_def\<close>)

section \<open>The loops of itrunc\<close>

text \<open>The addresses among the first \<open>n\<close> that are in use, and an inode without its first \<open>n\<close> addresses.\<close>

definition used_addrs :: "(nat \<Rightarrow> u32) \<Rightarrow> nat \<Rightarrow> u32 list" where
  "used_addrs f n = filter (\<lambda>a. a \<noteq> 0) (map f [0..<n])"

definition drop_addrs :: "inode \<Rightarrow> nat \<Rightarrow> inode" where
  "drop_addrs x n = x\<lparr>iaddrs := (\<lambda>i. if i < n then 0 else iaddrs x i)\<rparr>"

lemma used_addrs_Suc: "used_addrs f (Suc k) = used_addrs f k @ (if f k = 0 then [] else [f k])"
  by (simp add: used_addrs_def)

lemma used_addrs_mono: "k \<le> n \<Longrightarrow> set (used_addrs f k) \<subseteq> set (used_addrs f n)"
  by (auto simp: used_addrs_def)

lemma used_addrs_take:
  assumes "k \<le> n" "distinct (used_addrs f n)"
  shows "distinct (used_addrs f k)"
  using assms by (induction n) (auto simp: le_Suc_eq used_addrs_Suc split: if_splits)

lemma can_free_take: "can_free s X (used_addrs f n) \<Longrightarrow> k \<le> n \<Longrightarrow> can_free s X (used_addrs f k)"
  by (rule can_free_sub) (auto simp: can_free_def intro: used_addrs_take dest: used_addrs_mono)

lemma wp_free_step:
  assumes r: "can_free s X (used_addrs f n)" "k < n" and t: "freed s (used_addrs f k) t" "f k \<noteq> 0"
  shows "wp (bfree ROOTDEV (f k)) (\<lambda>_ u. freed s (used_addrs f (Suc k)) u \<and> icache u = icache t) t"
proof -
  have rk: "can_free s X (used_addrs f k)" "can_free s X (used_addrs f k @ [f k])"
    using can_free_take [OF r(1), of k] can_free_take [OF r(1), of "Suc k"] r(2) t(2) by (simp_all add: used_addrs_Suc)
  show ?thesis
    by (rule wp_mono [OF wp_free_first [OF can_free_rest [OF rk(2) t(1)]]])
       (use freed_trans [OF rk(1) t(1)] t(2) in \<open>auto simp: used_addrs_Suc\<close>)
qed

lemma freed_icache: "freed s F (t\<lparr>icache := C\<rparr>) = freed s F t"
  by (simp add: freed_def)

lemma wp_free_direct:
  assumes r: "can_free s X (used_addrs (iaddrs (icache s ip)) NDIRECT)"
  shows "wp (mfor [0..<NDIRECT] (\<lambda>i. bind (get_addr ip i) (\<lambda>a. unless (a = 0) (andthen (bfree ROOTDEV a) (set_addr ip i 0)))))
    (\<lambda>_ t. freed s (used_addrs (iaddrs (icache s ip)) NDIRECT) t \<and> icache t = (icache s)(ip := drop_addrs (icache s ip) NDIRECT)) s"
proof (rule wp_mfor [where I = "\<lambda>k t. freed s (used_addrs (iaddrs (icache s ip)) k) t \<and> icache t = (icache s)(ip := drop_addrs (icache s ip) k)"])
  let ?x = "icache s ip"
  show "freed s (used_addrs (iaddrs ?x) 0) s \<and> icache s = (icache s)(ip := drop_addrs ?x 0)"
    using r freed_nil [of s] by (simp add: used_addrs_def drop_addrs_def can_free_def)
  fix k t assume k: "k < length [0..<NDIRECT]" and t: "freed s (used_addrs (iaddrs ?x) k) t \<and> icache t = (icache s)(ip := drop_addrs ?x k)"
  have a: "iaddrs (icache t ip) k = iaddrs ?x k" using t by (simp add: drop_addrs_def)
  have z: "(drop_addrs ?x k)\<lparr>iaddrs := (iaddrs (drop_addrs ?x k))(k := 0)\<rparr> = drop_addrs ?x (Suc k)"
    by (auto simp: drop_addrs_def fun_eq_iff less_Suc_eq)
  have z0: "drop_addrs ?x (Suc k) = drop_addrs ?x k" if "iaddrs ?x k = 0"
    using that by (intro inode.equality) (auto simp: drop_addrs_def less_Suc_eq)
  show "wp (bind (get_addr ip ([0..<NDIRECT] ! k)) (\<lambda>a. unless (a = 0) (andthen (bfree ROOTDEV a) (set_addr ip ([0..<NDIRECT] ! k) 0))))
    (\<lambda>_ t. freed s (used_addrs (iaddrs ?x) (Suc k)) t \<and> icache t = (icache s)(ip := drop_addrs ?x (Suc k))) t"
  proof (cases "iaddrs ?x k = 0")
    case True
    then show ?thesis using t k a z0 by (simp add: get_addr_def wp_simps used_addrs_Suc)
  next
    case False
    have "wp (bfree ROOTDEV (iaddrs ?x k)) (\<lambda>_. wp (set_addr ip k 0) (\<lambda>_ t. freed s (used_addrs (iaddrs ?x) (Suc k)) t \<and> icache t = (icache s)(ip := drop_addrs ?x (Suc k)))) t"
      by (rule wp_mono [OF wp_free_step [OF r _ conjunct1 [OF t] False]])
         (use k t z in \<open>auto simp: set_addr_def wp_simps freed_icache\<close>)
    with False show ?thesis using k a by (simp add: get_addr_def wp_simps)
  qed
qed simp

lemma wp_free_entries:
  assumes r: "can_free s X (used_addrs f NINDIRECT)"
  shows "wp (mfor [0..<NINDIRECT] (\<lambda>j. unless (f j = 0) (bfree ROOTDEV (f j))))
    (\<lambda>_ t. freed s (used_addrs f NINDIRECT) t \<and> icache t = icache s) s"
proof (rule wp_mfor [where I = "\<lambda>k t. freed s (used_addrs f k) t \<and> icache t = icache s"])
  show "freed s (used_addrs f 0) s \<and> icache s = icache s"
    using r freed_nil [of s] by (simp add: used_addrs_def can_free_def)
  fix k t assume k: "k < length [0..<NINDIRECT]" and t: "freed s (used_addrs f k) t \<and> icache t = icache s"
  show "wp (unless (f ([0..<NINDIRECT] ! k) = 0) (bfree ROOTDEV (f ([0..<NINDIRECT] ! k)))) (\<lambda>_ t. freed s (used_addrs f (Suc k)) t \<and> icache t = icache s) t"
    using t k wp_free_step [OF r _ conjunct1 [OF t]] by (simp add: wp_simps used_addrs_Suc)
qed simp


section \<open>The whole of itrunc\<close>

text \<open>The blocks of a file, in the order in which they are freed.\<close>

definition all_blocks :: "'z bcache_scheme \<Rightarrow> inode \<Rightarrow> u32 list" where
  "all_blocks s x = used_addrs (iaddrs x) NDIRECT @ (if iaddrs x NDIRECT = 0 then []
     else used_addrs (\<lambda>j. get32 (blk s (iaddrs x NDIRECT)) (4 * j)) NINDIRECT @ [iaddrs x NDIRECT])"

text \<open>The blocks beside the bitmap that truncation uses, and what it needs: its blocks can be freed, its inode block and its indirect block are not in the bitmap and not held.\<close>

definition trunc_room :: "inode \<Rightarrow> u32 set" where
  "trunc_room x = insert (IBLOCK (inum x)) ({iaddrs x NDIRECT} - {0})"

lemma trunc_room_simps [simp]: "IBLOCK (inum x) \<in> trunc_room x" "iaddrs x NDIRECT \<noteq> 0 \<Longrightarrow> iaddrs x NDIRECT \<in> trunc_room x"
    "trunc_room (x\<lparr>iflags := f\<rparr>) = trunc_room x"
  by (simp_all add: trunc_room_def)

definition trunc_ready :: "'z fsst_scheme \<Rightarrow> nat \<Rightarrow> bool" where
  "trunc_ready s ip \<longleftrightarrow> (let x = icache s ip; i = IBLOCK (inum x); a = iaddrs x NDIRECT; F = all_blocks s x in
     can_free s (trunc_room x) F \<and> idev x = ROOTDEV \<and> place_ok s i \<and> \<not> in_log (thelog s) i \<and> i \<notin> bit_block s ` set F
     \<and> (a \<noteq> 0 \<longrightarrow> a \<noteq> 1 \<and> place_ok s a \<and> a \<notin> bit_block s ` set F))"

definition truncated :: "inode \<Rightarrow> inode" where
  "truncated x = (drop_addrs x (NDIRECT + 1))\<lparr>isize := 0\<rparr>"

lemma can_free_held:
  assumes r: "can_free s X F" "a \<in> X" "a \<notin> bit_block s ` set F" "a \<noteq> 1"
    and t: "txn_inv t" "lframe s t" "thelog t = thelog s" "view t = a_bread a (view s)"
  shows "can_free t X F" "bit_block t = bit_block s" "blk t = blk s"
proof -
  have v: "blk t = blk s" "dirty_at t = dirty_at s" "busy_at t = insert a (busy_at s)" using t(4) by (simp_all add: view_def a_bread_def)
  then show b: "blk t = blk s" by simp
  then have sb: "sb_of t = sb_of s" by (simp add: sb_of_def)
  then have bm: "bitmap_at t = bitmap_at s" by (simp add: bitmap_at_def fun_eq_iff)
  then show bb: "bit_block t = bit_block s" by (simp add: bit_block_def fun_eq_iff)
  have "dirty_at s \<union> insert a (busy_at s) \<union> bit_block s ` set F \<union> X = dirty_at s \<union> busy_at s \<union> bit_block s ` set F \<union> X"
    using r(2) by auto
  moreover have "is_free t = is_free s" by (simp add: is_free_def bm b fun_eq_iff)
  ultimately show "can_free t X F"
    using r t(1) lframe_in_image [OF t(2)] unfolding can_free_def v t(3) sb bb by auto
qed

lemma wp_free_indirect:
  fixes s :: "'z fsst_scheme"
  assumes r: "can_free s X (used_addrs (\<lambda>j. get32 (blk s a) (4 * j)) NINDIRECT @ [a])" and a: "a \<in> X" "place_ok s a" "a \<noteq> 0"
    and na: "a \<notin> bit_block s ` set (used_addrs (\<lambda>j. get32 (blk s a) (4 * j)) NINDIRECT @ [a])" "a \<noteq> 1"
    and n: "iaddrs (icache s ip) NDIRECT = a"
  shows "wp (bind (bread ROOTDEV a) (\<lambda>bp. bind (get_data bp) (\<lambda>d.
         andthen (mfor [0..<NINDIRECT] (\<lambda>j. unless (get32 d (4 * j) = 0) (bfree ROOTDEV (get32 d (4 * j))))) (
         andthen (brelse bp) (andthen (bfree ROOTDEV a) (set_addr ip NDIRECT 0))))))
     (\<lambda>_ t. freed s (used_addrs (\<lambda>j. get32 (blk s a) (4 * j)) NINDIRECT @ [a]) t
       \<and> icache t = (icache s)(ip := (icache s ip)\<lparr>iaddrs := (iaddrs (icache s ip))(NDIRECT := 0)\<rparr>)) s"
proof -
  let ?F = "used_addrs (\<lambda>j. get32 (blk s a) (4 * j)) NINDIRECT"
  let ?Q = "\<lambda>_ t. freed s (?F @ [a]) t \<and> icache t = (icache s)(ip := (icache s ip)\<lparr>iaddrs := (iaddrs (icache s ip))(NDIRECT := 0)\<rparr>)"
  have rF: "can_free s X ?F" by (rule can_free_sub [OF r]) (use r in \<open>auto simp: can_free_def\<close>)
  have "wp (bind (bread ROOTDEV a) (\<lambda>bp. bind (get_data bp) (\<lambda>d.
         andthen (mfor [0..<NINDIRECT] (\<lambda>j. unless (get32 d (4 * j) = 0) (bfree ROOTDEV (get32 d (4 * j))))) (brelse bp))))
     (\<lambda>_. wp (andthen (bfree ROOTDEV a) (set_addr ip NDIRECT 0)) ?Q) s"
  proof (rule wp_while_held)
    show "txn_inv s" "readable_now s a" using r a free_room [OF r] by (simp_all add: can_free_def readable_place)
    fix t assume t: "txn_inv t" "lframe s t" "thelog t = thelog s" "view t = a_bread a (view s)"
    have nF: "a \<notin> bit_block s ` set ?F" using na by simp
    note h = can_free_held [OF rF a(1) nF na(2) t]
    have c: "clear_bit t = clear_bit s" by (simp add: clear_bit_def h fun_eq_iff)
    show "wp (mfor [0..<NINDIRECT] (\<lambda>j. unless (get32 (blk s a) (4 * j) = 0) (bfree ROOTDEV (get32 (blk s a) (4 * j)))))
      (\<lambda>_ u. \<exists>m bs. logged t m bs u \<and> m a = blk s a \<and> (\<forall>v. logged s m bs v \<longrightarrow> wp (andthen (bfree ROOTDEV a) (set_addr ip NDIRECT 0)) ?Q v)) t"
    proof (rule wp_mono [OF wp_free_entries [OF h(1)]], elim conjE)
      fix u assume u: "freed t ?F u" "icache u = icache t"
      let ?m = "fold (clear_bit s) ?F (blk s)" and ?bs = "map (bit_block s) ?F"
      have "logged t ?m ?bs u" using u icache_self [OF u(2)] unfolding freed_def h c by (simp only:)
      moreover have "?m a = blk s a" using nF by (rule clear_bits_other)
      moreover have "wp (andthen (bfree ROOTDEV a) (set_addr ip NDIRECT 0)) ?Q v" if v: "logged s ?m ?bs v" for v
      proof -
        have f: "freed s ?F v" using v icache_self [OF logged_icache [OF v]] by (simp only: freed_def)
        show ?thesis
          unfolding wp_andthen
          by (rule wp_mono [OF wp_free_first [OF can_free_rest [OF r f]]])
             (use freed_trans [OF rF f] logged_icache [OF v] n in \<open>auto simp: set_addr_def wp_simps freed_icache\<close>)
      qed
      ultimately show "\<exists>m bs. logged t m bs u \<and> m a = blk s a \<and> (\<forall>v. logged s m bs v \<longrightarrow> wp (andthen (bfree ROOTDEV a) (set_addr ip NDIRECT 0)) ?Q v)"
        by blast
    qed
  qed
  then show ?thesis by (simp add: wp_bind wp_andthen)
qed


lemma drop_addrs_Suc: "(drop_addrs x n)\<lparr>iaddrs := (iaddrs (drop_addrs x n))(n := 0)\<rparr> = drop_addrs x (Suc n)"
  by (auto simp: drop_addrs_def fun_eq_iff less_Suc_eq)

lemma drop_addrs_zero: "iaddrs x n = 0 \<Longrightarrow> drop_addrs x (Suc n) = drop_addrs x n"
  by (intro inode.equality) (auto simp: drop_addrs_def less_Suc_eq)

lemma wp_free_blocks:
  fixes s :: "'z fsst_scheme"
  assumes r: "trunc_ready s ip"
  shows "wp (andthen (mfor [0..<NDIRECT] (\<lambda>i. bind (get_addr ip i) (\<lambda>a. unless (a = 0) (andthen (bfree ROOTDEV a) (set_addr ip i 0)))))
      (bind (get_addr ip NDIRECT) (\<lambda>a. unless (a = 0) (bind (bread ROOTDEV a) (\<lambda>bp. bind (get_data bp) (\<lambda>d.
         andthen (mfor [0..<NINDIRECT] (\<lambda>j. unless (get32 d (4 * j) = 0) (bfree ROOTDEV (get32 d (4 * j))))) (
         andthen (brelse bp) (andthen (bfree ROOTDEV a) (set_addr ip NDIRECT 0)))))))))
    (\<lambda>_ t. freed s (all_blocks s (icache s ip)) t \<and> icache t = (icache s)(ip := drop_addrs (icache s ip) (Suc NDIRECT))) s"
    (is "wp (andthen ?direct (bind (get_addr ip NDIRECT) (\<lambda>a. unless (a = 0) (?indirect a)))) ?Q s")
proof -
  let ?x = "icache s ip" and ?a = "iaddrs (icache s ip) NDIRECT"
  let ?D = "used_addrs (iaddrs ?x) NDIRECT" and ?E = "used_addrs (\<lambda>j. get32 (blk s ?a) (4 * j)) NINDIRECT @ [?a]"
  have r0: "can_free s (trunc_room ?x) (all_blocks s ?x)" using r by (simp add: trunc_ready_def Let_def)
  have rD: "can_free s (trunc_room ?x) ?D"
    by (rule can_free_sub [OF r0]) (use r0 in \<open>auto simp: can_free_def all_blocks_def\<close>)
  have "wp (bind (get_addr ip NDIRECT) (\<lambda>a. unless (a = 0) (?indirect a))) ?Q t"
    if t: "freed s ?D t" "icache t = (icache s)(ip := drop_addrs ?x NDIRECT)" for t
  proof (cases "?a = 0")
    case True
    then show ?thesis using t by (simp add: get_addr_def wp_simps drop_addrs_def [of _ NDIRECT] all_blocks_def drop_addrs_zero)
  next
    case False
    then have all: "all_blocks s ?x = ?D @ ?E" by (simp add: all_blocks_def)
    note f = freed_facts [OF t(1)] and fb = freed_bits [OF rD freed_facts(2) [OF t(1)]]
    have a: "?a \<noteq> 1" "place_ok s ?a" "?a \<notin> bit_block s ` set (?D @ ?E)" using r False all by (auto simp: trunc_ready_def Let_def)
    have ba: "blk t ?a = blk s ?a" unfolding f(2) by (rule clear_bits_other) (use a(3) in auto)
    have "wp (?indirect ?a) (\<lambda>_ u. freed t ?E u \<and> icache u = (icache t)(ip := (icache t ip)\<lparr>iaddrs := (iaddrs (icache t ip))(NDIRECT := 0)\<rparr>)) t"
    proof (rule wp_free_indirect [where s = t and a = ?a, unfolded ba])
      show "can_free t (trunc_room ?x) ?E" by (rule can_free_rest [OF r0 [unfolded all] t(1)])
      show "?a \<notin> bit_block t ` set ?E" using a(3) fb(3) by auto
      show "place_ok t ?a" using a(2) f by (simp add: place_ok_def)
      show "iaddrs (icache t ip) NDIRECT = ?a" using t(2) by (simp add: drop_addrs_def)
    qed (use a False in auto)
    then have "wp (?indirect ?a) ?Q t"
    proof (rule wp_mono, elim conjE)
      fix u assume u: "freed t ?E u" "icache u = (icache t)(ip := (icache t ip)\<lparr>iaddrs := (iaddrs (icache t ip))(NDIRECT := 0)\<rparr>)"
      show "?Q () u" using freed_trans [OF rD t(1) u(1)] all u(2) t(2) by (simp add: drop_addrs_Suc)
    qed
    then show ?thesis using t(2) False by (simp add: get_addr_def wp_simps drop_addrs_def)
  qed
  then show ?thesis unfolding wp_andthen by (auto intro!: wp_mono [OF wp_free_direct [OF rD]])
qed

lemma free_room_after:
  assumes r: "can_free s X F" and t: "txn_inv t" "dirty_at t \<subseteq> dirty_at s \<union> bit_block s ` set F \<union> X" "busy_at t = busy_at s"
    "same_log (thelog s) (thelog t)"
  shows "card (dirty_at t \<union> busy_at t) < NBUF" "log_room (thelog t) 1"
proof -
  show "card (dirty_at t \<union> busy_at t) < NBUF"
    by (rule card_sub [of _ "dirty_at s \<union> busy_at s \<union> bit_block s ` set F \<union> X"]) (use r t in \<open>auto simp: can_free_def\<close>)
  have "card (dirty_at t) \<le> card (dirty_at s \<union> bit_block s ` set F \<union> X)" by (rule card_mono) (use t in auto)
  then show "log_room (thelog t) 1"
    using r log_length [OF t(1)] same_log_in_log [OF t(4)] by (simp add: can_free_def log_room_def)
qed

text \<open>The blocks after the file at \<open>ip\<close> is freed and its inode is stored as \<open>y\<close>.\<close>

definition trunc_blocks :: "'z fsst_scheme \<Rightarrow> inode \<Rightarrow> inode \<Rightarrow> u32 \<Rightarrow> block" where
  "trunc_blocks s x y = (fold (clear_bit s) (all_blocks s x) (blk s))(IBLOCK (inum x) :=
     store_inode (blk s (IBLOCK (inum x))) (unat (inum x) mod IPB) y)"

lemma wp_itrunc:
  fixes s :: "'z fsst_scheme"
  assumes r: "trunc_ready s ip"
    and post: "\<And>t C. logged s (trunc_blocks s (icache s ip) (truncated (icache s ip)))
        (map (bit_block s) (all_blocks s (icache s ip)) @ [IBLOCK (inum (icache s ip))]) t \<Longrightarrow>
      C = (icache s)(ip := truncated (icache s ip)) \<Longrightarrow> Q () (t\<lparr>icache := C\<rparr>)"
  shows "wp (itrunc ip) Q s"
proof -
  let ?x = "icache s ip" and ?F = "all_blocks s (icache s ip)" and ?i = "IBLOCK (inum (icache s ip))"
  let ?C = "(icache s)(ip := truncated ?x)"
  have r0: "can_free s (trunc_room ?x) ?F" and d: "idev ?x = ROOTDEV"
    and i: "place_ok s ?i" "\<not> in_log (thelog s) ?i" "?i \<notin> bit_block s ` set ?F"
    using r by (simp_all add: trunc_ready_def Let_def)
  have "wp (andthen (upd_inode ip (\<lambda>x. x\<lparr>isize := 0\<rparr>)) (iupdate ip)) Q t"
    if t: "freed s ?F t" "icache t = (icache s)(ip := drop_addrs ?x (Suc NDIRECT))" for t
  proof -
    note f = freed_facts [OF t(1)]
    have C: "(icache t)(ip := (icache t ip)\<lparr>isize := 0\<rparr>) = ?C" using t(2) by (simp add: truncated_def)
    have xi: "inum (truncated ?x) = inum ?x" "idev (truncated ?x) = ROOTDEV" using d by (simp_all add: truncated_def drop_addrs_def)
    note rm = free_room_after [OF r0 f(1) _ f(4,6)]
    have bi: "blk t ?i = blk s ?i" unfolding f(2) using i(3) by (rule clear_bits_other)
    have e: "icache (t\<lparr>icache := ?C\<rparr>) ip = truncated ?x" "thelog (t\<lparr>icache := ?C\<rparr>) = thelog t" by simp_all
    have "wp (iupdate ip) Q (t\<lparr>icache := ?C\<rparr>)"
    proof (rule wp_iupdate [where s = "t\<lparr>icache := ?C\<rparr>" and ip = ip, unfolded e xi cache_icache txn_icache])
      show "txn_inv t" by (rule f)
      show "readable_now t ?i" using rm(1) i(1) f by (auto simp: readable_place place_ok_def)
      show "\<not> in_log (thelog t) ?i" "log_room (thelog t) 1"
        using i(2) rm(2) same_log_in_log(1) [OF f(6)] f(3) by auto
      fix u assume u: "logged (t\<lparr>icache := ?C\<rparr>) ((blk t)(?i := store_inode (blk t ?i) (unat (inum ?x) mod IPB) (truncated ?x))) [?i] u"
      have "logged (t\<lparr>icache := icache s\<rparr>) ((blk t)(?i := store_inode (blk s ?i) (unat (inum ?x) mod IPB) (truncated ?x))) [?i] (u\<lparr>icache := icache s\<rparr>)"
        using logged_set_icache [OF u, of "icache s"] by (simp add: bi)
      from logged_trans [OF t(1) [unfolded freed_def] this]
      have "logged s (trunc_blocks s ?x (truncated ?x)) (map (bit_block s) ?F @ [?i]) (u\<lparr>icache := icache s\<rparr>)"
        unfolding trunc_blocks_def f(2) .
      from post [OF this refl] show "Q () u" using icache_self [OF logged_icache [OF u]] by simp
    qed simp
    then show ?thesis unfolding wp_andthen wp_upd_inode C .
  qed
  then have "wp (andthen (mfor [0..<NDIRECT] (\<lambda>i. bind (get_addr ip i) (\<lambda>a. unless (a = 0) (andthen (bfree ROOTDEV a) (set_addr ip i 0)))))
      (bind (get_addr ip NDIRECT) (\<lambda>a. unless (a = 0) (bind (bread ROOTDEV a) (\<lambda>bp. bind (get_data bp) (\<lambda>d.
         andthen (mfor [0..<NINDIRECT] (\<lambda>j. unless (get32 d (4 * j) = 0) (bfree ROOTDEV (get32 d (4 * j))))) (
         andthen (brelse bp) (andthen (bfree ROOTDEV a) (set_addr ip NDIRECT 0)))))))))
     (\<lambda>_. wp (andthen (upd_inode ip (\<lambda>x. x\<lparr>isize := 0\<rparr>)) (iupdate ip)) Q) s"
    by (intro wp_mono [OF wp_free_blocks [OF r]]) auto
  then show ?thesis unfolding itrunc_def wp_bind [of "get_inode ip"] wp_get_inode d by (simp only: wp_andthen)
qed


section \<open>Dropping the last reference of an unlinked inode\<close>

lemma can_free_icache [simp]: "can_free (s\<lparr>icache := C\<rparr>) X F = can_free s X F" "bit_block (s\<lparr>icache := C\<rparr>) = bit_block s"
    "all_blocks (s\<lparr>icache := C\<rparr>) x = all_blocks s x" "clear_bit (s\<lparr>icache := C\<rparr>) = clear_bit s" "place_ok (s\<lparr>icache := C\<rparr>) b = place_ok s b"
proof -
  have sb: "sb_of (s\<lparr>icache := C\<rparr>) = sb_of s" by (simp add: sb_of_def)
  then have bm: "bitmap_at (s\<lparr>icache := C\<rparr>) = bitmap_at s" by (simp add: bitmap_at_def fun_eq_iff)
  then show bb: "bit_block (s\<lparr>icache := C\<rparr>) = bit_block s" by (simp add: bit_block_def fun_eq_iff)
  then show "clear_bit (s\<lparr>icache := C\<rparr>) = clear_bit s" by (simp add: clear_bit_def fun_eq_iff)
  have "is_free (s\<lparr>icache := C\<rparr>) = is_free s" by (simp add: is_free_def bm fun_eq_iff)
  then show "can_free (s\<lparr>icache := C\<rparr>) X F = can_free s X F" by (simp add: can_free_def sb bb)
  show "all_blocks (s\<lparr>icache := C\<rparr>) x = all_blocks s x" "place_ok (s\<lparr>icache := C\<rparr>) b = place_ok s b"
    by (simp_all add: all_blocks_def place_ok_def)
qed

text \<open>The case of \<open>iput\<close> that frees the inode, and the inode it leaves.\<close>

definition unlinked_last :: "inode \<Rightarrow> bool" where
  "unlinked_last x \<longleftrightarrow> iref x = 1 \<and> iflags x AND I_VALID \<noteq> 0 \<and> iflags x AND I_BUSY = 0 \<and> inlink x = 0"

definition dead_inode :: "inode \<Rightarrow> inode" where
  "dead_inode x = (truncated x)\<lparr>itype := 0\<rparr>"

lemma truncated_flags: "truncated (x\<lparr>iflags := f\<rparr>) = (truncated x)\<lparr>iflags := f\<rparr>"
  by (simp add: truncated_def drop_addrs_def cong: if_cong)

lemma flags_type: "x\<lparr>iflags := f, itype := ty\<rparr> = x\<lparr>itype := ty, iflags := f\<rparr>"
  by (cases x) simp

lemma truncated_fields [simp]: "inum (truncated x) = inum x" "idev (truncated x) = idev x" "iref (truncated x) = iref x"
    "inum (dead_inode x) = inum x" "idev (dead_inode x) = idev x" "iref (dead_inode x) = iref x"
  by (simp_all add: truncated_def dead_inode_def drop_addrs_def)

lemma store_inode_flags [simp]: "store_inode d k (x\<lparr>iflags := f\<rparr>) = store_inode d k x"
  by (simp add: store_inode_def)

lemma all_blocks_flags [simp]: "all_blocks s (x\<lparr>iflags := f\<rparr>) = all_blocks s x"
  by (simp add: all_blocks_def)

lemma trunc_ready_flags:
  "trunc_ready s ip \<Longrightarrow> trunc_ready (s\<lparr>icache := (icache s)(ip := (icache s ip)\<lparr>iflags := f\<rparr>)\<rparr>) ip"
  by (simp add: trunc_ready_def Let_def)

text \<open>The blocks after \<open>iput\<close>: those of the file are free, its inode is stored truncated and then without a type.\<close>

definition dead_blocks :: "'z fsst_scheme \<Rightarrow> inode \<Rightarrow> u32 \<Rightarrow> block" where
  "dead_blocks s x = (let m = trunc_blocks s x (truncated x); i = IBLOCK (inum x) in
     m(i := store_inode (m i) (unat (inum x) mod IPB) (dead_inode x)))"

lemma wp_iput_last:
  fixes s :: "'z fsst_scheme"
  assumes r: "trunc_ready s ip" and x: "unlinked_last (icache s ip)"
    and post: "\<And>t C. logged s (dead_blocks s (icache s ip)) (map (bit_block s) (all_blocks s (icache s ip)) @
        [IBLOCK (inum (icache s ip)), IBLOCK (inum (icache s ip))]) t \<Longrightarrow>
      C = (icache s)(ip := (dead_inode (icache s ip))\<lparr>iflags := 0, iref := 0\<rparr>) \<Longrightarrow> Q () (t\<lparr>icache := C\<rparr>)"
  shows "wp (iput ip) Q s"
proof -
  let ?x = "icache s ip" and ?F = "all_blocks s (icache s ip)" and ?i = "IBLOCK (inum (icache s ip))" and ?k = "unat (inum (icache s ip)) mod IPB"
  let ?f = "iflags ?x OR I_BUSY"
  let ?s = "s\<lparr>icache := (icache s)(ip := ?x\<lparr>iflags := ?f\<rparr>)\<rparr>" and ?y = "(dead_inode ?x)\<lparr>iflags := ?f\<rparr>"
  let ?m = "trunc_blocks s ?x (truncated ?x)"
  have r0: "can_free s (trunc_room ?x) ?F" and d: "idev ?x = ROOTDEV" and i: "place_ok s ?i" "\<not> in_log (thelog s) ?i"
    using r by (simp_all add: trunc_ready_def Let_def)
  have last: "wp (iupdate ip) (\<lambda>_. wp (upd_inode ip (\<lambda>x. x\<lparr>iflags := 0\<rparr>)) (\<lambda>_. wp (upd_inode ip (\<lambda>x. x\<lparr>iref := iref x - 1\<rparr>)) Q))
      (t\<lparr>icache := (icache s)(ip := ?y)\<rparr>)" (is "wp _ ?R (t\<lparr>icache := ?C\<rparr>)")
    if t: "logged s ?m (map (bit_block s) ?F @ [?i]) t" for t
  proof -
    note l = loggedD [OF t] and sl = logged_same_log_all [OF t]
    have e: "icache (t\<lparr>icache := ?C\<rparr>) ip = ?y" "thelog (t\<lparr>icache := ?C\<rparr>) = thelog t" "idev ?y = ROOTDEV" "inum ?y = inum ?x" using d by simp_all
    note rm = free_room_after [OF r0 l(1) _ l(5) sl]
    show ?thesis
    proof (rule wp_iupdate [where s = "t\<lparr>icache := ?C\<rparr>" and ip = ip, unfolded e cache_icache txn_icache store_inode_flags])
      show "txn_inv t" by (rule l)
      show "readable_now t ?i" using rm(1) i(1) l(4,5,8) by (auto simp: readable_place place_ok_def)
      show "\<not> in_log (thelog t) ?i" "log_room (thelog t) 1" using i(2) rm(2) same_log_in_log(1) [OF sl] l(4) by auto
      fix u assume u: "logged (t\<lparr>icache := ?C\<rparr>) ((blk t)(?i := store_inode (blk t ?i) ?k (dead_inode ?x))) [?i] u"
      have t': "t\<lparr>icache := icache s\<rparr> = t" by (rule icache_self) (rule logged_icache [OF t])
      have "logged t ((blk t)(?i := store_inode (blk t ?i) ?k (dead_inode ?x))) [?i] (u\<lparr>icache := icache s\<rparr>)"
        using logged_set_icache [OF u, of "icache s"] t' by simp
      from logged_trans [OF t this] have "logged s (dead_blocks s ?x) (map (bit_block s) ?F @ [?i, ?i]) (u\<lparr>icache := icache s\<rparr>)"
        by (simp add: dead_blocks_def Let_def l(3))
      from post [OF this refl] show "?R () u"
        using x logged_icache [OF u] by (simp add: wp_upd_inode unlinked_last_def)
    qed simp
  qed
  have "wp (itrunc ip) (\<lambda>_. wp (upd_inode ip (\<lambda>x. x\<lparr>itype := 0\<rparr>)) (\<lambda>_. wp (iupdate ip) (\<lambda>_. wp (upd_inode ip (\<lambda>x. x\<lparr>iflags := 0\<rparr>))
      (\<lambda>_. wp (upd_inode ip (\<lambda>x. x\<lparr>iref := iref x - 1\<rparr>)) Q)))) ?s"
  proof (intro wp_itrunc [OF trunc_ready_flags [OF r]])
    fix t C assume t: "logged ?s (trunc_blocks ?s (icache ?s ip) (truncated (icache ?s ip)))
        (map (bit_block ?s) (all_blocks ?s (icache ?s ip)) @ [IBLOCK (inum (icache ?s ip))]) t"
      and C: "C = (icache ?s)(ip := truncated (icache ?s ip))"
    have "logged s ?m (map (bit_block s) ?F @ [?i]) (t\<lparr>icache := icache s\<rparr>)"
      using logged_set_icache [OF t, of "icache s"] by (simp add: truncated_flags trunc_blocks_def)
    from last [OF this] show "wp (upd_inode ip (\<lambda>x. x\<lparr>itype := 0\<rparr>)) (\<lambda>_. wp (iupdate ip) (\<lambda>_. wp (upd_inode ip (\<lambda>x. x\<lparr>iflags := 0\<rparr>))
      (\<lambda>_. wp (upd_inode ip (\<lambda>x. x\<lparr>iref := iref x - 1\<rparr>)) Q))) (t\<lparr>icache := C\<rparr>)"
      by (simp add: wp_upd_inode C truncated_flags dead_inode_def flags_type)
  qed
  then show ?thesis
    using x unfolding iput_def by (simp add: wp_simps unlinked_last_def)
qed


section \<open>Properties\<close>

lemma freed_set:
  assumes r: "can_free s X F" and one: "blk t 1 = blk s 1"
    and b: "\<And>c. c < unat (sb_size (sb_of s)) \<Longrightarrow> blk t (bitmap_at s c) = fold (clear_bit s) F (blk s) (bitmap_at s c)"
  shows "free_blocks t = free_blocks s \<union> unat ` set F" "free_blocks s \<inter> unat ` set F = {}"
proof -
  have sb: "sb_of t = sb_of s" using one by (simp add: sb_of_def)
  then have bm: "bitmap_at t = bitmap_at s" by (simp add: bitmap_at_def fun_eq_iff)
  have small: "c = unat (of_nat c :: u32)" if "c < unat (sb_size (sb_of s))" for c
    using that unsigned_less [of "sb_size (sb_of s)", where 'a = nat] by (simp add: unat_of_nat take_bit_nat_eq_self)
  have "is_free t (unat w) \<longleftrightarrow> w \<in> set F \<or> is_free s (unat w)" if "unat w < unat (sb_size (sb_of s))" for w
    using bit_place_inject [of s] unfolding is_free_def bm b [OF that] clear_bits by (fold bit_block_def) blast
  then have w: "unat w \<in> free_blocks t \<longleftrightarrow> unat w \<in> free_blocks s \<or> w \<in> set F" for w :: u32
    using r by (auto simp: free_blocks_def sb can_free_def)
  have "c \<in> free_blocks t \<longleftrightarrow> c \<in> free_blocks s \<or> c \<in> unat ` set F" for c
  proof (cases "c < unat (sb_size (sb_of s))")
    case True
    have "unat (of_nat c :: u32) = c" using small [OF True] by simp
    moreover have "c \<in> unat ` set F \<longleftrightarrow> (of_nat c :: u32) \<in> set F" using calculation by force
    ultimately show ?thesis using w [of "of_nat c"] by simp
  next
    case False
    then show ?thesis using r by (auto simp: free_blocks_def sb can_free_def)
  qed
  then show "free_blocks t = free_blocks s \<union> unat ` set F" by blast
  show "free_blocks s \<inter> unat ` set F = {}" using r by (auto simp: free_blocks_def can_free_def)
qed

text \<open>The blocks \<open>iput\<close> leaves, read as inodes and as a bitmap.\<close>

lemma dead_facts:
  fixes s :: "'z fsst_scheme"
  assumes x: "icache s ip = x" and F: "all_blocks s x = F" and r: "trunc_ready s ip"
    and i: "IBLOCK (inum x) \<noteq> 1" "\<forall>b < unat (sb_size (sb_of s)). bitmap_at s b \<noteq> IBLOCK (inum x)"
    and t: "logged s (dead_blocks s x) bs t"
  shows "di_type (disk_inode t (inum x)) = 0" "di_size (disk_inode t (inum x)) = 0" "n \<le> NDIRECT \<Longrightarrow> di_addrs (disk_inode t (inum x)) n = 0"
    "j \<noteq> inum x \<Longrightarrow> IBLOCK j \<notin> bit_block s ` set F \<Longrightarrow> disk_inode t j = disk_inode s j"
    "c \<noteq> IBLOCK (inum x) \<Longrightarrow> c \<notin> bit_block s ` set F \<Longrightarrow> blk t c = blk s c"
    "free_blocks t = free_blocks s \<union> unat ` set F" "free_blocks s \<inter> unat ` set F = {}"
proof -
  let ?i = "IBLOCK (inum x)" and ?k = "unat (inum x) mod IPB"
  note l = loggedD [OF t]
  have r0: "can_free s (trunc_room x) F" using r x F by (simp add: trunc_ready_def Let_def)
  have b: "blk t c = fold (clear_bit s) F (blk s) c" if "c \<noteq> ?i" for c
    using that by (simp add: l(3) dead_blocks_def trunc_blocks_def Let_def F)
  then have other: "blk t c = blk s c" if "c \<noteq> ?i" "c \<notin> bit_block s ` set F" for c
    using that by (simp add: clear_bits_other)
  then show "c \<noteq> ?i \<Longrightarrow> c \<notin> bit_block s ` set F \<Longrightarrow> blk t c = blk s c" by simp
  have one: "blk t 1 = blk s 1" by (rule other) (use i(1) r0 in \<open>auto simp: can_free_def\<close>)
  have bi: "blk t ?i = store_inode (store_inode (blk s ?i) ?k (truncated x)) ?k (dead_inode x)"
    by (simp add: l(3) dead_blocks_def trunc_blocks_def Let_def)
  have "same_fields (dead_inode x) (disk_inode t (inum x))" by (simp add: disk_inode_def bi same_fields_store)
  then show "di_type (disk_inode t (inum x)) = 0" "di_size (disk_inode t (inum x)) = 0" "n \<le> NDIRECT \<Longrightarrow> di_addrs (disk_inode t (inum x)) n = 0"
    by (auto simp: same_fields_def dead_inode_def truncated_def drop_addrs_def)
  show "disk_inode t j = disk_inode s j" if j: "j \<noteq> inum x" "IBLOCK j \<notin> bit_block s ` set F"
  proof (cases "IBLOCK j = ?i")
    case True
    then have "?k \<noteq> unat j mod IPB" using inode_place_inject [of "inum x" j] j by auto
    with True show ?thesis by (simp add: disk_inode_def bi get_store_other)
  qed (simp add: disk_inode_def other j)
  show "free_blocks t = free_blocks s \<union> unat ` set F" "free_blocks s \<inter> unat ` set F = {}"
    using freed_set [OF r0 one b] i(2) by auto
qed

lemma tables_icache: "free_blocks (t\<lparr>icache := C\<rparr>) = free_blocks t" "disk_inode (t\<lparr>icache := C\<rparr>) = disk_inode t"
  by (simp_all add: free_blocks_def is_free_def bitmap_at_def sb_of_def disk_inode_def fun_eq_iff)

text \<open>C24. \<open>iput\<close> of the last reference of an inode without links returns its resources: exactly the blocks of the file,
  none of which was free, become free, also those in its indirect block and that block; the on-disk inode becomes a free one with no size and no
  addresses; the cache entry is unused and unlocked. No other inode, no other entry of the cache and no other block
  changes, and nothing is written to the disk before the transaction commits.\<close>

theorem iput_reclaims:
  fixes s :: "'z fsst_scheme"
  assumes x: "icache s ip = x" "unlinked_last x" and F: "all_blocks s x = F" and r: "trunc_ready s ip"
    and i: "IBLOCK (inum x) \<noteq> 1" "\<forall>b < unat (sb_size (sb_of s)). bitmap_at s b \<noteq> IBLOCK (inum x)"
  shows "\<exists>t. iput ip s = Ok () t \<and> txn_inv t \<and> img t = img s
    \<and> free_blocks t = free_blocks s \<union> unat ` set F \<and> free_blocks s \<inter> unat ` set F = {}
    \<and> di_type (disk_inode t (inum x)) = 0 \<and> di_size (disk_inode t (inum x)) = 0 \<and> (\<forall>n \<le> NDIRECT. di_addrs (disk_inode t (inum x)) n = 0)
    \<and> (\<forall>j. j \<noteq> inum x \<and> IBLOCK j \<notin> bit_block s ` set F \<longrightarrow> disk_inode t j = disk_inode s j)
    \<and> (\<forall>c. c \<noteq> IBLOCK (inum x) \<and> c \<notin> bit_block s ` set F \<longrightarrow> blk t c = blk s c)
    \<and> iref (icache t ip) = 0 \<and> iflags (icache t ip) = 0 \<and> (\<forall>j. j \<noteq> ip \<longrightarrow> icache t j = icache s j)" (is "\<exists>t. _ \<and> ?P t")
proof -
  have "wp (iput ip) (\<lambda>_. ?P) s"
  proof (rule wp_iput_last [OF r, unfolded x F, OF x(2)])
    fix t C assume t: "logged s (dead_blocks s x) (map (bit_block s) F @ [IBLOCK (inum x), IBLOCK (inum x)]) t"
      and C: "C = (icache s)(ip := (dead_inode x)\<lparr>iflags := 0, iref := 0\<rparr>)"
    note l = loggedD [OF t] and d = dead_facts [OF x(1) F r i t]
    show "?P (t\<lparr>icache := C\<rparr>)" using l(1,6) d(4,5) by (simp add: d(1-3,6,7) C tables_icache)
  qed
  then show ?thesis by (auto dest!: wp_Ok)
qed

text \<open>A file whose last name is gone.\<close>

definition doomed_fs :: fsst where
  "doomed_fs = (small_inodes (\<lambda>_. zero_block))\<lparr>icache := (\<lambda>_. free_inode)(0 := dir_inode, 3 := file_inode\<lparr>inlink := 0\<rparr>)\<rparr>"

lemma doomed_blocks: "all_blocks doomed_fs (file_inode\<lparr>inlink := 0\<rparr>) = [6, 7]"
  by (simp add: all_blocks_def used_addrs_def file_inode_def NDIRECT_def upt_rec)

lemma doomed_map: "sb_of doomed_fs = small_sb" "b < 20 \<Longrightarrow> bitmap_at doomed_fs b = 4" "b < 20 \<Longrightarrow> is_free doomed_fs b \<longleftrightarrow> 8 \<le> b"
proof -
  have bk: "blk doomed_fs = blk (small_fs ((\<lambda>_. zero_block)(2 := inode_block)))" by (simp add: doomed_fs_def small_inodes_ok small_fs_ok)
  then have sb: "sb_of doomed_fs = sb_of (small_fs ((\<lambda>_. zero_block)(2 := inode_block)))" by (simp add: sb_of_def)
  then have bm: "bitmap_at doomed_fs = bitmap_at (small_fs ((\<lambda>_. zero_block)(2 := inode_block)))" by (simp only: bitmap_at_def fun_eq_iff) simp
  show "sb_of doomed_fs = small_sb" "b < 20 \<Longrightarrow> bitmap_at doomed_fs b = 4" using sb bm small_group [of b] by auto
  show "b < 20 \<Longrightarrow> is_free doomed_fs b \<longleftrightarrow> 8 \<le> b"
    using small_free [of b "(\<lambda>_. zero_block)(2 := inode_block)"] by (simp add: is_free_def bm bk)
qed

lemma doomed_ready: "trunc_ready doomed_fs 3"
proof -
  have x: "icache doomed_fs 3 = file_inode\<lparr>inlink := 0\<rparr>" by (simp add: doomed_fs_def)
  have f: "txn_inv doomed_fs" "busy_at doomed_fs = {}" "dirty_at doomed_fs = {}" "thelog doomed_fs = small_log" "in_image doomed_fs b \<longleftrightarrow> unat b < 20" for b
    by (simp_all add: doomed_fs_def small_inodes_ok)
  have "bit_block doomed_fs 6 = 4" "bit_block doomed_fs 7 = 4" "\<not> is_free doomed_fs 6" "\<not> is_free doomed_fs 7"
    using doomed_map(2,3) by (simp_all add: bit_block_def)
  then show ?thesis
    unfolding trunc_ready_def Let_def x doomed_blocks can_free_def place_ok_def f
    by (simp add: f(1) doomed_map(1) trunc_room_def small_sb_def small_log_def in_log_def file_inode_def IBLOCK_2 NDIRECT_def NBUF_def ROOTDEV_def)
qed

theorem iput_reclaims_witness:
  "\<exists>t. iput 3 doomed_fs = Ok () t \<and> free_blocks t = free_blocks doomed_fs \<union> {6, 7} \<and> di_type (disk_inode t 2) = 0"
proof -
  let ?x = "file_inode\<lparr>inlink := 0\<rparr>"
  have x: "icache doomed_fs 3 = ?x" by (simp add: doomed_fs_def)
  have ul: "unlinked_last ?x" by (simp add: unlinked_last_def file_inode_def I_VALID_def I_BUSY_def)
  have i: "IBLOCK (inum ?x) \<noteq> 1" "\<forall>b < unat (sb_size (sb_of doomed_fs)). bitmap_at doomed_fs b \<noteq> IBLOCK (inum ?x)"
    "inum ?x = 2" using doomed_map(1,2) by (simp_all add: file_inode_def IBLOCK_2 small_sb_def)
  from iput_reclaims [OF x ul doomed_blocks doomed_ready i(1,2)] show ?thesis unfolding i(3) by force
qed

end
