(* ===== verification/Xv6_Unlink.thy ===== *)
theory Xv6_Unlink
  imports Xv6_Trunc Xv6_Open
begin

text \<open>
  Removing a file: \<open>sys_unlink\<close> of \<open>sysfile.c\<close> from the call to the medium. The call finds the parent directory and the
  file, locks both, clears the entry, takes a link away and gives the references back; the last reference of a file without
  links frees it (\<open>Xv6_Trunc\<close>). \<open>within\<close> is what all steps of a call between \<open>begin_op\<close> and \<open>end_op\<close> keep, and the commit makes the
  call atomic under crashes. \<open>isdirempty\<close> is shown to decide whether a directory has entries behind the first two.
\<close>

section \<open>An entry is cleared\<close>

lemma wp_writei_inside:
  fixes s :: "'z fsst_scheme"
  assumes s: "txn_inv s" "icache s ip = x" "idev x = ROOTDEV" "itype x \<noteq> T_DEV" "file_wf s x N"
    and o: "unat off + unat n \<le> unat (isize x)" "unat off + unat n \<le> N * BSIZE" "unat n < 2 ^ 31"
    and sp: "space s (length (chunks (unat off) 0 (unat n)) + r)"
    and post: "\<And>t. content_written s x N (unat off) (unat off + unat n) src t \<Longrightarrow> space t r \<Longrightarrow> Q (int (unat n)) t"
  shows "wp (writei ip src off n) Q s"
proof -
  have lt: "unat off + unat n < 2 ^ 32" using o(1) unsigned_less [of "isize x", where 'a = nat] by simp
  then have e: "unat (off + n) = unat off + unat n" using unat_add_lem [of off n] by simp
  have big: "\<not> MAXFILE * BSIZE < unat (off + n)" using e lt by (simp add: layout_consts)
  have w: "\<not> off + n < off" "\<not> isize x < off" "\<not> isize x < off + n" using e o(1) by (simp_all add: word_less_nat_alt)
  have sn: "sint n = int (unat n)" by (rule sint_unat_small [OF o(3)])
  have "wp (mfor (chunks (unat off) 0 (unat n)) (\<lambda>(tot, m). write_chunk ip ROOTDEV (off + of_nat tot)
      (\<lambda>d. copy_mem d ((unat off + tot) mod BSIZE) src tot m))) (\<lambda>_. Q (sint n)) s"
    by (rule wp_write_chunks [OF s(1,2,3) sp s(5) o(2) lt]) (use post sn in simp)
  then show ?thesis
    using s(2-4) w big by (simp add: writei_def wp_bind wp_get_inode wp_andthen wp_return) (auto elim!: wp_mono simp: wp_unless)
qed

lemma cleared_entry:
  assumes t: "content_written s x N (64 * k) (64 * k + 64) zero_block t"
    and k: "64 * k + 64 \<le> N * BSIZE" and j: "64 * j + 64 \<le> N * BSIZE"
  shows "dir_entry t x j = (if j = k then get_dirent zero_block else dir_entry s x j)"
proof -
  have "fbyte t x (64 * j + i) = (if j = k then zero_block i else fbyte s x (64 * j + i))" if "i < 64" for i
  proof -
    have "64 * k \<le> 64 * j + i \<and> 64 * j + i < 64 * k + 64 \<longleftrightarrow> j = k" using that by presburger
    then show ?thesis using t entry_block [OF j that] by (auto simp: content_written_def zero_block_def)
  qed
  then have "fill zero_block 0 64 (\<lambda>i. fbyte t x (64 * j + i)) = (if j = k then zero_block else fill zero_block 0 64 (\<lambda>i. fbyte s x (64 * j + i)))"
    by (auto simp: fill_def fun_eq_iff)
  then show ?thesis by (simp add: dir_entry_def)
qed

lemma empty_dirent: "de_inum (get_dirent zero_block) = 0"
  by (simp add: get_dirent_def get16_def zero_block_def)

section \<open>Is a directory empty\<close>

lemma wp_isdirempty:
  assumes s: "binv s" "card (dirty_at s \<union> busy_at s) < NBUF" "icache s dp = x" "dir_wf s x N"
    and post: "\<And>t. like s t \<Longrightarrow> Q (\<forall>k. 2 \<le> k \<and> k < dir_count x \<longrightarrow> de_inum (dir_entry s x k) = 0) t"
  shows "wp (isdirempty dp) Q s"
proof -
  have d: "64 dvd unat (isize x)" using s(4) by (simp add: dir_wf_def)
  have dr: "drop 2 (dir_offsets (isize x)) = map (\<lambda>k. k * 64) [2..<dir_count x]"
    unfolding dir_offsets_eq [OF d] drop_map drop_upt by (simp add: numeral_2_eq_2)
  show ?thesis
    unfolding isdirempty_def wp_bind [of "get_inode dp"] wp_get_inode s(3) dr wp_bind [of "mloop _ _"]
  proof (rule wp_scan [OF s, where P = "\<lambda>e. de_inum e \<noteq> 0" and g = "\<lambda>_. ()"])
    fix t assume "\<forall>k. 2 \<le> k \<and> k < dir_count x \<longrightarrow> \<not> de_inum (dir_entry s x k) \<noteq> 0" "like s t"
    then show "wp (return (None = None)) Q t" using post [of t] by (simp add: wp_return)
  next
    fix k t assume k: "2 \<le> k" "k < dir_count x" "de_inum (dir_entry s x k) \<noteq> 0" and t: "like s t"
    then have e: "(\<forall>k. 2 \<le> k \<and> k < dir_count x \<longrightarrow> de_inum (dir_entry s x k) = 0) = False" by auto
    from post [OF t, unfolded e] show "wp (return (Some () = None)) Q t" by (simp add: wp_return)
  qed
qed

section \<open>Room for freeing a file later\<close>

definition freeable :: "'z logst_scheme \<Rightarrow> u32 list \<Rightarrow> bool" where
  "freeable s F \<longleftrightarrow> place_ok s 1 \<and> distinct F \<and> (\<forall>b \<in> set F. unat b < unat (sb_size (sb_of s)) \<and> \<not> is_free s (unat b)
     \<and> bit_block s b \<noteq> 1 \<and> place_ok s (bit_block s b) \<and> \<not> in_log (thelog s) (bit_block s b))"

lemma freeable_can_free:
  assumes "txn_inv s" "freeable s F" "space s (Suc (card (bit_block s ` set F \<union> X)))"
  shows "can_free s X F"
proof -
  have c: "card (dirty_at s \<union> busy_at s \<union> (bit_block s ` set F \<union> X)) \<le> card (dirty_at s \<union> busy_at s) + card (bit_block s ` set F \<union> X)"
    "card (dirty_at s \<union> (bit_block s ` set F \<union> X)) \<le> card (dirty_at s) + card (bit_block s ` set F \<union> X)" by (rule card_Un_le)+
  then have "card (dirty_at s \<union> busy_at s \<union> bit_block s ` set F \<union> X) < NBUF"
    "int (card (dirty_at s \<union> bit_block s ` set F \<union> X)) < lsize (thelog s) - 1"
    using assms(3) log_length [OF assms(1)] by (simp_all add: space_def log_room_def Un_assoc)
  then show ?thesis
    using assms by (auto simp: can_free_def freeable_def place_ok_def space_def log_room_def)
qed

lemma freeable_frame:
  assumes F: "freeable s F" and t: "blk t 1 = blk s 1" "\<And>b. b \<in> set F \<Longrightarrow> blk t (bit_block s b) = blk s (bit_block s b)"
    "in_image t = in_image s" "busy_at t = busy_at s" "in_log (thelog t) = in_log (thelog s)"
  shows "freeable t F" "bit_block t = bit_block s" "sb_of t = sb_of s"
proof -
  show sb: "sb_of t = sb_of s" using t(1) by (simp add: sb_of_def)
  then have bm: "bitmap_at t = bitmap_at s" by (simp add: bitmap_at_def fun_eq_iff)
  then show bb: "bit_block t = bit_block s" by (simp add: bit_block_def fun_eq_iff)
  have "is_free t (unat b) = is_free s (unat b)" if "b \<in> set F" for b using t(2) [OF that] by (simp add: is_free_def bm bit_block_def)
  moreover have "place_ok t = place_ok s" using t by (simp add: place_ok_def fun_eq_iff)
  ultimately show "freeable t F" using F t(5) by (simp add: freeable_def sb bb)
qed


section \<open>Within a transaction\<close>

text \<open>What every step of a system call between \<open>begin_op\<close> and \<open>end_op\<close> keeps.\<close>

definition within :: "'z logst_scheme \<Rightarrow> 'z logst_scheme \<Rightarrow> bool" where
  "within s t \<longleftrightarrow> txn_inv t \<and> busy_at t = busy_at s \<and> same_log (thelog s) (thelog t) \<and> imglen t = imglen s \<and> img t = img s \<and> hist t = hist s"

lemma within_trans: "within s t \<Longrightarrow> within t u \<Longrightarrow> within s u"
  by (auto simp: within_def intro: same_log_trans)

lemma within_fields:
  assumes "within s t"
  shows "txn_inv t" "busy_at t = busy_at s" "in_image t = in_image s" "place_ok t = place_ok s" "in_log (thelog t) = in_log (thelog s)" "img t = img s"
  using assms same_log_in_log(1) by (auto simp: within_def in_image_def place_ok_def fun_eq_iff)

lemma within_icache [simp]: "within s (t\<lparr>icache := C\<rparr>) = within s t" "within (s\<lparr>icache := C\<rparr>) t = within s t"
  by (simp_all add: within_def)

lemma within_logged: "logged s m bs t \<Longrightarrow> within s t"
  using loggedD(1,2,5,6,7) [of s m bs t] logged_same_log_all [of s m bs t] by (simp add: within_def lframe_def)

lemma within_content: "content_written s x N a b g t \<Longrightarrow> within s t"
  by (simp add: within_def content_written_def lframe_def)

lemma within_browsed:
  assumes "browsed s t" "txn_inv s"
  shows "within s t"
proof -
  have l: "like s (t\<lparr>icache := icache s\<rparr>)" using assms(1) by (simp add: browsed_def)
  show ?thesis
    using like_txn [OF assms(2) l] like_fields(3,6,7) [OF l] l by (simp add: within_def lframe_def like_def view_def)
qed

section \<open>Removing a file\<close>

text \<open>\<open>sys_dounlink\<close> after the entry is found and both inodes are locked, for a file.\<close>

definition unlink_rest :: "nat \<Rightarrow> nat \<Rightarrow> u32 \<Rightarrow> ('z fsst_scheme, int) xm" where
  "unlink_rest dp ip off =
     bind (writei dp zero_block off 64) (\<lambda>w.
       if w \<noteq> 64 then panic ''unlink: writei''
       else
         andthen (iunlockput dp) (
         andthen (upd_inode ip (\<lambda>x. x\<lparr>inlink := inlink x - 1\<rparr>)) (
         andthen (iupdate ip) (
         andthen (iunlockput ip)
           (return 0)))))"

abbreviation fewer :: "inode \<Rightarrow> inode" where
  "fewer z \<equiv> z\<lparr>inlink := inlink z - 1\<rparr>"

text \<open>What is known when the entry is about to be cleared.\<close>

definition unlinking :: "'z fsst_scheme \<Rightarrow> nat \<Rightarrow> nat \<Rightarrow> nat \<Rightarrow> nat \<Rightarrow> nat \<Rightarrow> bool" where
  "unlinking s dp ip N k r \<longleftrightarrow> (let y = icache s dp; z = icache s ip in
     txn_inv s \<and> dp \<noteq> ip \<and> dir_wf s y N \<and> k < dir_count y \<and> 1 \<le> iref y \<and> bit (iflags y) 0 \<and> inlink y \<noteq> 0
     \<and> idev z = ROOTDEV \<and> 1 \<le> iref z \<and> bit (iflags z) 0 \<and> bit (iflags z) 1 \<and> place_ok s (IBLOCK (inum z))
     \<and> \<not> in_log (thelog s) (IBLOCK (inum z)) \<and> IBLOCK (inum z) \<notin> file_block s y ` {..<N} \<and> space s (2 + r))"

text \<open>The state before the last reference is given back.\<close>

definition unlinked_once :: "'z fsst_scheme \<Rightarrow> nat \<Rightarrow> nat \<Rightarrow> nat \<Rightarrow> nat \<Rightarrow> 'z fsst_scheme \<Rightarrow> bool" where
  "unlinked_once s dp ip N k t \<longleftrightarrow> (let y = icache s dp; z = icache s ip; i = inum z in
     within s t \<and> icache t = (dropped ((icache s)(dp := unlocked y)) dp)(ip := unlocked (fewer z))
     \<and> (\<forall>n < dir_count y. dir_entry t y n = (if n = k then get_dirent zero_block else dir_entry s y n))
     \<and> blk t (IBLOCK i) = store_inode (blk s (IBLOCK i)) (unat i mod IPB) (fewer z)
     \<and> (\<forall>c. c \<notin> file_block s y ` {..<N} \<and> c \<noteq> IBLOCK i \<longrightarrow> blk t c = blk s c))"

lemma wp_unlink_rest:
  fixes s :: "'z fsst_scheme"
  assumes s: "unlinking s dp ip N k r" and apart: "NDIRECT < N \<longrightarrow> IBLOCK (inum (icache s ip)) \<noteq> iaddrs (icache s dp) NDIRECT"
    and post: "\<And>t. unlinked_once s dp ip N k t \<Longrightarrow> space t r \<Longrightarrow> wp (andthen (iput ip) (return 0)) Q t"
  shows "wp (unlink_rest dp ip (of_nat (k * 64))) Q s"
proof -
  let ?y = "icache s dp" and ?z = "icache s ip" and ?i = "IBLOCK (inum (icache s ip))"
  have a: "txn_inv s" "dp \<noteq> ip" "dir_wf s ?y N" "k < dir_count ?y" "1 \<le> iref ?y" "bit (iflags ?y) 0" "inlink ?y \<noteq> 0"
    "idev ?z = ROOTDEV" "1 \<le> iref ?z" "bit (iflags ?z) 0" "place_ok s ?i" "\<not> in_log (thelog s) ?i" "?i \<notin> file_block s ?y ` {..<N}" "space s (2 + r)"
    using s by (simp_all add: unlinking_def Let_def)
  note rg = entry_range [OF a(3,4)]
  have d: "idev ?y = ROOTDEV" "itype ?y \<noteq> T_DEV" "file_wf s ?y N" "64 * k + 64 \<le> N * BSIZE"
    using a(3) rg(1) by (auto simp: dir_wf_def T_DIR_def T_DEV_def)
  have u64: "unat (64 :: u32) = 64" by simp
  have sp: "space s (length (chunks (unat (of_nat (k * 64) :: u32)) 0 (unat (64 :: u32))) + (1 + r))"
    unfolding rg(3) u64 by (rule space_mono [OF a(14)]) (use entry_chunk [of k] in simp)
  show ?thesis
    unfolding unlink_rest_def wp_bind
  proof (rule wp_writei_inside [OF a(1) refl d(1-3) _ _ _ sp, unfolded rg(3) u64])
    fix t assume t: "content_written s ?y N (64 * k) (64 * k + 64) zero_block t" and st: "space t (1 + r)"
    have ic: "icache t = icache s" by (rule content_written_wf [OF t d(3)])
    have ct: "txn_inv t" "lframe s t" "busy_at t = busy_at s" "img t = img s" "in_log (thelog t) = in_log (thelog s)"
      "\<And>c. c \<notin> file_block s ?y ` {..<N} \<Longrightarrow> blk t c = blk s c"
      using t by (auto simp: content_written_def)
    have im: "in_image t = in_image s" using lframe_in_image [OF ct(2)] by (simp add: fun_eq_iff)
    let ?C = "(dropped ((icache s)(dp := unlocked ?y)) dp)(ip := fewer ?z)"
    let ?t = "t\<lparr>icache := ?C\<rparr>"
    have e: "icache ?t ip = fewer ?z" "thelog ?t = thelog t" "idev (fewer ?z) = ROOTDEV" "inum (fewer ?z) = inum ?z" using a(8) by simp_all
    have "wp (iupdate ip) (\<lambda>_. wp (andthen (iunlockput ip) (return 0)) Q) ?t"
    proof (rule wp_iupdate [where s = ?t and ip = ip, unfolded e cache_icache txn_icache])
      show "txn_inv t" "\<not> in_log (thelog t) ?i" "log_room (thelog t) 1" using ct a(12) st by (simp_all add: space_def log_room_def)
      show "readable_now t ?i" using st a(11) im ct(3) by (simp add: space_def readable_place place_ok_def)
      fix u assume u: "logged ?t ((blk t)(?i := store_inode (blk t ?i) (unat (inum ?z) mod IPB) (fewer ?z))) [?i] u"
      note l = loggedD [OF u]
      have iu: "icache u = ?C" using logged_icache [OF u] by simp
      let ?u = "u\<lparr>icache := ?C(ip := unlocked (fewer ?z))\<rparr>"
      have sp: "space u r" by (rule logged_space [OF u]) (use ct(1) st in simp_all)
      have lg: "in_log (thelog u) = in_log (thelog t)" using same_log_in_log(1) [OF logged_same_log_all [OF u]] by simp
      have ent: "dir_entry u ?y n = (if n = k then get_dirent zero_block else dir_entry s ?y n)" if "n < dir_count ?y" for n
      proof -
        have n: "64 * n + 64 \<le> N * BSIZE" using entry_range(1) [OF a(3) that] a(3) by (simp add: dir_wf_def)
        have b: "blk u = (blk t)(?i := store_inode (blk t ?i) (unat (inum ?z) mod IPB) (fewer ?z))" by (rule l)
        have ni: "?i \<notin> file_block t ?y ` {..<N}" using a(13) content_written_wf(2) [OF t d(3)] by simp
        have "fbyte u ?y (64 * n + q) = fbyte t ?y (64 * n + q)" if "q < 64" for q
          by (rule file_other_block(1) [OF content_written_wf(1) [OF t d(3)] ni apart b])
             (use l(5,8) lg entry_block [OF n that] in simp_all)
        then have "dir_entry u ?y n = dir_entry t ?y n"
          unfolding dir_entry_def by (intro arg_cong [where f = get_dirent]) (auto simp: fill_def)
        then show ?thesis using cleared_entry [OF t d(4) n] by simp
      qed
      have "within s ?u" using within_trans [OF within_content [OF t]] within_logged [OF u] by simp
      then have "unlinked_once s dp ip N k ?u"
        using l(1,5,6,8) ct im lg ent a(13) iu
        by (simp add: unlinked_once_def Let_def l(3) ct(6) dir_entry_def fbyte_def cong: if_cong)
      then have "wp (andthen (iput ip) (return 0)) Q ?u" using sp by (intro post) simp_all
      then show "wp (andthen (iunlockput ip) (return 0)) Q u"
        using a(9,10) iu by (simp add: iunlockput_def wp_andthen wp_iunlock)
    qed simp
    then show "wp (if int 64 \<noteq> 64 then panic ''unlink: writei'' else andthen (iunlockput dp)
        (andthen (upd_inode ip (\<lambda>x. x\<lparr>inlink := inlink x - 1\<rparr>)) (andthen (iupdate ip) (andthen (iunlockput ip) (return 0))))) Q t"
      using a(2,5,6,7) ic by (simp add: wp_andthen wp_iunlockput_linked wp_upd_inode dropped_def)
  qed (use d rg in simp_all)
qed


section \<open>Finding the file\<close>

definition held_by :: "(nat \<Rightarrow> inode) \<Rightarrow> u32 \<Rightarrow> bool" where
  "held_by C i \<longleftrightarrow> (\<exists>k. in_use C ROOTDEV i k)"

text \<open>Both inodes are locked and loaded, and each has one reference more than in the cache \<open>C\<close>.\<close>

definition both_locked :: "'z fsst_scheme \<Rightarrow> u32 \<Rightarrow> nat \<Rightarrow> u32 \<Rightarrow> nat \<Rightarrow> 'z fsst_scheme \<Rightarrow> bool" where
  "both_locked s d dp j ip u \<longleftrightarrow> browsed s u \<and> dp \<noteq> ip \<and> dp < NINODE \<and> ip < NINODE \<and> 1 \<le> iref (icache u dp) \<and> 1 \<le> iref (icache u ip)
     \<and> inum (icache u dp) = d \<and> inum (icache u ip) = j \<and> idev (icache u dp) = ROOTDEV \<and> idev (icache u ip) = ROOTDEV
     \<and> bit (iflags (icache u dp)) 0 \<and> bit (iflags (icache u ip)) 0 \<and> bit (iflags (icache u ip)) 1
     \<and> same_fields (icache u dp) (disk_inode s d) \<and> same_fields (icache u ip) (disk_inode s j)
     \<and> same_refs (icache s) (dropped (dropped (icache u) dp) ip) \<and> (iref (icache u ip) = 1 \<longleftrightarrow> \<not> held_by (icache s) j)"

lemma got_refs:
  assumes C: "coherent t" "in_use (icache t) ROOTDEV d dp" "same_refs C0 (dropped (icache t) dp)" "\<forall>k < NINODE. 0 < iref (C0 k) \<longrightarrow> idev (C0 k) = ROOTDEV"
    and y: "inum y = d" "iref y = iref (icache t dp)" "idev y = ROOTDEV" and g: "got ((icache t)(dp := y)) j ip D" and ne: "d \<noteq> j"
    and z: "inum z = j" "iref z = iref (D ip)"
  shows "dp \<noteq> ip" "D dp = y" "same_refs C0 (dropped (dropped (D(ip := z)) dp) ip)" "iref (D ip) = 1 \<longleftrightarrow> \<not> held_by C0 j" "1 \<le> iref (D ip)"
proof -
  let ?C = "(icache t)(dp := y)"
  have dp: "dp < NINODE" "0 < iref (icache t dp)" "inum (icache t dp) = d" using C(2) by (simp_all add: in_use_def)
  have ip: "in_use D ROOTDEV j ip" by (rule got_in_use [OF g])
  show pn: "dp \<noteq> ip"
    using g dp y ne by (auto simp: got_def in_use_def)
  show Dd: "D dp = y" using g pn by (auto simp: got_def)
  show "1 \<le> iref (D ip)" using ip by (simp add: in_use_def)
  have o: "D k = icache t k" if "k \<noteq> ip" "k \<noteq> dp" for k using g that by (auto simp: got_def)
  have sr: "iref (icache t k) = iref (C0 k) \<and> (iref (C0 k) \<noteq> 0 \<longrightarrow> inum (icache t k) = inum (C0 k))" if "k < NINODE" "k \<noteq> dp" for k
    using C(3) that by (auto simp: same_refs_def dropped_def)
  have sd: "iref (icache t dp) - 1 = iref (C0 dp) \<and> (iref (C0 dp) \<noteq> 0 \<longrightarrow> inum (icache t dp) = inum (C0 dp))"
    using C(3) dp(1) by (auto simp: same_refs_def dropped_def)
  have ipn: "ip < NINODE" using g by (simp add: got_def)
  have cases: "held_by C0 j \<and> iref (D ip) = iref (C0 ip) + 1 \<and> 0 < iref (C0 ip) \<and> inum (C0 ip) = j \<or> \<not> held_by C0 j \<and> iref (D ip) = 1 \<and> iref (C0 ip) = 0"
  proof (cases "in_use ?C ROOTDEV j ip")
    case True
    then have u: "0 < iref (icache t ip)" "inum (icache t ip) = j" using pn by (simp_all add: in_use_def)
    then have c0: "0 < iref (C0 ip)" "inum (C0 ip) = j" using sr [OF ipn] pn by auto
    then have "held_by C0 j" using ipn C(4) by (auto simp: held_by_def in_use_def)
    moreover have "iref (D ip) = iref (C0 ip) + 1" using g u sr [OF ipn] pn by (auto simp: got_def)
    ultimately show ?thesis using c0 by simp
  next
    case False
    then have D: "iref (icache t ip) = 0" "iref (D ip) = 1" "icache_ok D" using g pn by (auto simp: got_def)
    have c0: "iref (C0 ip) = 0" using sr [OF ipn] pn D(1) by auto
    have "\<not> in_use C0 ROOTDEV j q" for q
    proof
      assume q: "in_use C0 ROOTDEV j q"
      then have qi: "q \<noteq> ip" "q < NINODE" "0 < iref (C0 q)" "inum (C0 q) = j" using c0 by (auto simp: in_use_def)
      then have qd: "q \<noteq> dp" using sd dp(3) ne by auto
      then have t: "0 < iref (icache t q)" "inum (icache t q) = j" using sr [OF qi(2) qd] qi by auto
      then have "idev (icache t q) = ROOTDEV" using C(1) qi(2) by (auto simp: coherent_def at_rest_def)
      then have "in_use D ROOTDEV j q" using t qi(2) o [OF qi(1) qd] by (simp add: in_use_def)
      with D(3) ip qi(1) show False by (auto simp: icache_ok_def)
    qed
    then show ?thesis using D(2) c0 by (simp add: held_by_def)
  qed
  then show "iref (D ip) = 1 \<longleftrightarrow> \<not> held_by C0 j" by auto
  show "same_refs C0 (dropped (dropped (D(ip := z)) dp) ip)"
    unfolding same_refs_def
  proof (intro allI impI)
    fix k assume k: "k < NINODE"
    show "iref (dropped (dropped (D(ip := z)) dp) ip k) = iref (C0 k) \<and> (iref (C0 k) \<noteq> 0 \<longrightarrow> inum (dropped (dropped (D(ip := z)) dp) ip k) = inum (C0 k))"
      using cases o [of k] sr [OF k] sd pn Dd y z dp(3) by (auto simp: dropped_def)
  qed
qed


lemma locked_sound:
  assumes "locked_as s x y"
  shows "idev y = ROOTDEV" "inum y = inum x" "iref y = iref x" "bit (iflags y) 0" "bit (iflags y) 1" "same_fields y (disk_inode s (inum x))"
  using assms by (simp_all add: locked_as_def)

lemma cname_dots: "cname DOT = [46]" "cname DOTDOT = [46, 46]"
  by (simp_all add: cname_def DIRSIZ_def DOT_def DOTDOT_def cstr_def upt_rec [of 0] upt_rec [of "Suc 0"] upt_rec [of "Suc (Suc 0)"])

text \<open>\<open>sys_dounlink\<close> cut into steps.\<close>

definition unlink_body :: "nat \<Rightarrow> nat \<Rightarrow> u32 \<Rightarrow> inode \<Rightarrow> ('z fsst_scheme, int) xm" where
  "unlink_body dp ip off x =
     (if sint (inlink x) < 1 then panic ''unlink: nlink < 1''
      else
        bind (if itype x = T_DIR then isdirempty ip else return True) (\<lambda>e.
        if \<not> e then andthen (iunlockput ip) (andthen (iunlockput dp) (return (- 1)))
        else
          bind (writei dp zero_block off 64) (\<lambda>w.
          if w \<noteq> 64 then panic ''unlink: writei''
          else
            andthen (unless (itype x \<noteq> T_DIR) (andthen (upd_inode dp (\<lambda>x. x\<lparr>inlink := inlink x - 1\<rparr>)) (iupdate dp))) (
            andthen (iunlockput dp) (
            andthen (upd_inode ip (\<lambda>x. x\<lparr>inlink := inlink x - 1\<rparr>)) (
            andthen (iupdate ip) (
            andthen (iunlockput ip)
              (return 0))))))))"

definition unlink_found :: "nat \<Rightarrow> (nat \<times> u32) option \<Rightarrow> ('z fsst_scheme, int) xm" where
  "unlink_found dp r = (case r of
     None \<Rightarrow> andthen (iunlockput dp) (return ENOENT)
   | Some (ip, off) \<Rightarrow> andthen (ilock ip) (bind (get_inode ip) (unlink_body dp ip off)))"

lemma sys_dounlink_steps:
  "sys_dounlink path = bind (namex path True zero_block) (\<lambda>r. case r of
     None \<Rightarrow> return (- 1)
   | Some (dp, name) \<Rightarrow> andthen (ilock dp) (
       if namecmp name DOT = 0 \<or> namecmp name DOTDOT = 0 then andthen (iunlockput dp) (return (- 1))
       else bind (dirlookup dp name) (unlink_found dp)))"
  unfolding sys_dounlink_def nameiparent_def unlink_found_def [abs_def] unlink_body_def [abs_def] ..

lemma unlink_body_file: "itype x \<noteq> T_DIR \<Longrightarrow> \<not> sint (inlink x) < 1 \<Longrightarrow> unlink_body dp ip off x = unlink_rest dp ip off"
  by (simp add: unlink_body_def unlink_rest_def unless_def andthen_def cong: if_cong)

lemma target_parent:
  assumes "target s True i es = Some d" "tree_ok s I" "i \<in> I"
  shows "d \<in> I" "di_type (disk_inode s d) = T_DIR"
  using assms walk_tree [OF assms(2,3), of "butlast es"] by (auto simp: target_def node_fields split: if_splits option.splits)

text \<open>The parent directory is found and locked.\<close>

definition parent_locked :: "'z fsst_scheme \<Rightarrow> u32 \<Rightarrow> nat \<Rightarrow> 'z fsst_scheme \<Rightarrow> inode \<Rightarrow> 'z fsst_scheme \<Rightarrow> bool" where
  "parent_locked s d dp t y w \<longleftrightarrow> browsed s t \<and> coherent t \<and> in_use (icache t) ROOTDEV d dp \<and> same_refs (icache s) (dropped (icache t) dp)
     \<and> browsed s w \<and> icache w = (icache t)(dp := y) \<and> locked_as s (icache t dp) y"

lemma got_rest:
  assumes "coherent t" "got ((icache t)(dp := y)) j ip D" "dp \<noteq> ip"
  shows "at_rest t (D ip)"
  using assms rest_flags0 by (auto simp: got_def coherent_def in_use_def)

text \<open>What unlinking needs to find: the first entry \<open>k\<close> of directory \<open>d\<close> with the name is for the file \<open>j\<close>.\<close>

definition file_entry :: "'z fsst_scheme \<Rightarrow> u32 set \<Rightarrow> u32 \<Rightarrow> byte list \<Rightarrow> nat \<Rightarrow> u32 \<Rightarrow> bool" where
  "file_entry s I d e k j \<longleftrightarrow> d \<in> I \<and> di_type (disk_inode s d) = T_DIR
     \<and> find (entry_named s (node s d) e) [0..<dir_count (node s d)] = Some k \<and> ucast (de_inum (dir_entry s (node s d) k)) = j
     \<and> di_type (disk_inode s j) \<noteq> T_DIR \<and> 1 \<le> sint (di_nlink (disk_inode s j))"

lemma file_entryD:
  assumes "file_entry s I d e k j" "tree_ok s I"
  shows "k < dir_count (node s d)" "entry_named s (node s d) e k" "\<forall>i < k. \<not> entry_named s (node s d) e i" "j \<in> I" "d \<noteq> j" "\<exists>N. dir_wf s (node s d) N"
proof -
  show k: "k < dir_count (node s d)" "entry_named s (node s d) e k" "\<forall>i < k. \<not> entry_named s (node s d) e i"
    using assms(1) by (auto simp: file_entry_def find_Some_iff)
  show "j \<in> I" "d \<noteq> j" "\<exists>N. dir_wf s (node s d) N" using assms k by (auto simp: file_entry_def tree_ok_def entry_named_def)
qed

lemma wp_lock_file:
  fixes s :: "'z fsst_scheme"
  assumes s: "card (dirty_at s \<union> busy_at s) < NBUF" "tree_ok s I" "coherent s" and f: "file_entry s I d e k j"
    and p: "parent_locked s d dp t y w" and v: "like w v" and g: "got (icache v) j ip D"
    and post: "\<And>u z. both_locked s d dp j ip u \<Longrightarrow> icache u dp = y \<Longrightarrow> icache u ip = z \<Longrightarrow> same_fields z (disk_inode s j) \<Longrightarrow> Q () u"
  shows "wp (ilock ip) Q (v\<lparr>icache := D\<rparr>)"
proof -
  let ?v = "v\<lparr>icache := D\<rparr>"
  have t: "browsed s t" "coherent t" and dp: "in_use (icache t) ROOTDEV d dp" "same_refs (icache s) (dropped (icache t) dp)"
    and w: "browsed s w" "icache w = (icache t)(dp := y)" and y: "locked_as s (icache t dp) y"
    using p by (simp_all add: parent_locked_def)
  have din: "inum (icache t dp) = d" "dp < NINODE" using dp(1) by (simp_all add: in_use_def)
  note fd = file_entryD [OF f s(2)] and ly = locked_sound [OF y, unfolded din]
  have sv: "browsed s ?v" by (rule browsed_trans [OF w(1) browsed_like [OF v]])
  note bv = browsed_fields [OF sv]
  have gr: "got ((icache t)(dp := y)) j ip D" using g like_icache [OF v] w(2) by simp
  have ij: "in_use D ROOTDEV j ip" by (rule got_in_use [OF gr])
  then have ijn: "inum (icache ?v ip) = j" by (simp add: in_use_def)
  have dev: "\<forall>q < NINODE. 0 < iref (icache s q) \<longrightarrow> idev (icache s q) = ROOTDEV" using s(3) by (auto simp: coherent_def at_rest_def)
  note refs = got_refs [OF t(2) dp dev ly(2) ly(3) ly(1) gr fd(5)]
  have pn: "dp \<noteq> ip" by (rule refs(1) [where z = "D ip"]) (use ijn in simp_all)
  show ?thesis
  proof (rule wp_ilock_rest [OF bv(1)])
    show "readable_now ?v (IBLOCK (inum (icache ?v ip)))" "di_type (disk_inode ?v (inum (icache ?v ip))) \<noteq> 0" "1 \<le> iref (icache ?v ip)"
      using s(1,2) fd(4) ij bv by (auto simp: in_use_def tree_ok_def readable_place)
    have "at_rest t (D ip)" by (rule got_rest [OF t(2) gr pn])
    then show "at_rest ?v (icache ?v ip)" using bv(6) browsed_fields(6) [OF t(1)] by (simp add: at_rest_def)
    fix u z assume u: "browsed ?v u" "icache u = (icache ?v)(ip := z)" and z: "locked_as ?v (icache ?v ip) z"
    note lz = locked_sound [OF z, unfolded ijn bv(6)]
    have zi: "iref z = iref (D ip)" using lz(3) by simp
    note r = refs [OF lz(2) zi]
    have "both_locked s d dp j ip u"
      using browsed_trans [OF sv u(1)] r u(2) lz ly din dp(1) ij by (auto simp: both_locked_def in_use_def)
    then show "Q () u" by (rule post) (use u(2) pn r(2) lz(6) in simp_all)
  qed
qed

lemma wp_find_file:
  fixes s :: "'z fsst_scheme"
  assumes s: "card (dirty_at s \<union> busy_at s) < NBUF" "tree_ok s I" "coherent s" "two_free (icache s)"
    and f: "file_entry s I d e k j" and p: "parent_locked s d dp t y w" and nm: "cname name = take DIRSIZ e"
    and post: "\<And>u ip. both_locked s d dp j ip u \<Longrightarrow> wp (unlink_rest dp ip (of_nat (k * 64))) Q u"
  shows "wp (bind (dirlookup dp name) (unlink_found dp)) Q w"
proof -
  have t: "browsed s t" "coherent t" and dp: "in_use (icache t) ROOTDEV d dp" "same_refs (icache s) (dropped (icache t) dp)"
    and w: "browsed s w" "icache w = (icache t)(dp := y)" and y: "locked_as s (icache t dp) y"
    using p by (simp_all add: parent_locked_def)
  have din: "inum (icache t dp) = d" "dp < NINODE" "1 \<le> iref (icache t dp)" using dp(1) by (simp_all add: in_use_def)
  note fd = file_entryD [OF f s(2)] and ly = locked_sound [OF y, unfolded din]
  note bw = browsed_fields [OF w(1)] and sn = same_fields_node [OF ly(6)]
  obtain N where N: "dir_wf s (node s d) N" using fd(6) by blast
  have nw: "named w y name = entry_named s (node s d) e" using nm by (simp add: named_def entry_named_def bw(8) sn(3) fun_eq_iff)
  show ?thesis
    unfolding wp_bind [of "dirlookup _ _"]
  proof (rule wp_dirlookup [of w dp y N], unfold nw sn(2) bw(8) sn(3))
    show "binv w" "card (dirty_at w \<union> busy_at w) < NBUF" "icache w dp = y" using bw s(1) w(2) by simp_all
    show "dir_wf w y N" using sn(4) [OF ly(1)] N by (simp add: bw(12))
  next
    fix v assume "\<forall>i < dir_count (node s d). \<not> entry_named s (node s d) e i"
    with fd show "wp (unlink_found dp None) Q v" by blast
  next
    fix k' v assume k': "k' < dir_count (node s d)" "entry_named s (node s d) e k'" "\<forall>i < k'. \<not> entry_named s (node s d) e i" and v: "like w v"
    have kk: "k' = k" using fd k' by (meson linorder_neqE_nat)
    have kj: "ucast (de_inum (dir_entry s (node s d) k)) = j" using f by (simp add: file_entry_def)
    have iv: "icache v = (icache t)(dp := y)" using like_icache [OF v] w(2) by simp
    have yt: "locked_as t (icache t dp) y" using y browsed_fields(6) [OF t(1)] by (simp add: locked_as_def)
    show "wp (iget ROOTDEV (ucast (de_inum (dir_entry s (node s d) k')))) (\<lambda>ip. wp (unlink_found dp (Some (ip, of_nat (k' * 64)))) Q) v"
      unfolding kk kj unlink_found_def option.case prod.case wp_andthen
    proof (rule wp_iget_got)
      show "icache_ok (icache v)" unfolding iv by (rule locked_cache_ok [OF t(2) din(2,3) yt])
      show "\<exists>i < NINODE. iref (icache v i) = 0" using free_after_hold [OF dp(2) s(4)] by (auto simp: iv)
      fix ip D assume "got (icache v) j ip D"
      then show "wp (ilock ip) (\<lambda>_. wp (bind (get_inode ip) (unlink_body dp ip (of_nat (k * 64)))) Q) (v\<lparr>icache := D\<rparr>)"
        by (rule wp_lock_file [OF s(1-3) f p v])
           (use f post in \<open>simp add: wp_bind wp_get_inode file_entry_def same_fields_def unlink_body_file\<close>)
    qed
  qed
qed

lemma wp_dounlink_found:
  fixes s :: "'z fsst_scheme"
  assumes s: "binv s" "card (dirty_at s \<union> busy_at s) < NBUF" "tree_ok s I" "ROOTINO \<in> I" "coherent s" "two_free (icache s)"
    and path: "0 \<notin> set path" "deref path = SLASH" "target s True ROOTINO (elems path) = Some d"
    and e: "take DIRSIZ (last (elems path)) \<notin> {[46], [46, 46]}" and f: "file_entry s I d (last (elems path)) k j"
    and post: "\<And>u dp ip. both_locked s d dp j ip u \<Longrightarrow> wp (unlink_rest dp ip (of_nat (k * 64))) Q u"
  shows "wp (sys_dounlink path) Q s"
  unfolding sys_dounlink_steps wp_bind [of "namex _ _ _"]
proof (rule wp_namex [OF s path(1,2)])
  fix r t assume t: "browsed s t" "coherent t" and arr: "arrived (icache s) (target s True ROOTINO (elems path)) True (elems path) r (icache t)"
  obtain dp name where r: "r = Some (dp, name)" and dp: "in_use (icache t) ROOTDEV d dp" "same_refs (icache s) (dropped (icache t) dp)"
    and nm: "cname name = take DIRSIZ (last (elems path))"
    using arr path(3) by (auto simp: arrived_def)
  note bt = browsed_fields [OF t(1)]
  have dots: "\<not> (namecmp name DOT = 0 \<or> namecmp name DOTDOT = 0)" using e nm by (simp add: namecmp_iff cname_dots)
  have d: "d \<in> I" using f by (simp add: file_entry_def)
  have din: "inum (icache t dp) = d" "1 \<le> iref (icache t dp)" "dp < NINODE" using dp(1) by (simp_all add: in_use_def)
  have "wp (ilock dp) (\<lambda>_. wp (bind (dirlookup dp name) (unlink_found dp)) Q) t"
  proof (rule wp_ilock_rest [OF bt(1)])
    show "readable_now t (IBLOCK (inum (icache t dp)))" "di_type (disk_inode t (inum (icache t dp))) \<noteq> 0" "1 \<le> iref (icache t dp)" "at_rest t (icache t dp)"
      using d s(2,3) din t(2) bt by (auto simp: coherent_def tree_ok_def readable_place)
    fix w y assume w: "browsed t w" "icache w = (icache t)(dp := y)" and y: "locked_as t (icache t dp) y"
    have "parent_locked s d dp t y w"
      using t dp w y browsed_trans [OF t(1) w(1)] bt(6) by (simp add: parent_locked_def locked_as_def)
    from wp_find_file [OF s(2,3,5,6) f this nm post] show "wp (bind (dirlookup dp name) (unlink_found dp)) Q w" .
  qed
  with dots show "wp (case r of None \<Rightarrow> return (- 1) | Some (dp, name) \<Rightarrow> andthen (ilock dp) (
         if namecmp name DOT = 0 \<or> namecmp name DOTDOT = 0 then andthen (iunlockput dp) (return (- 1))
         else bind (dirlookup dp name) (unlink_found dp))) Q t"
    by (simp add: r wp_andthen)
qed


section \<open>The effect of unlinking\<close>

text \<open>The blocks in the way of unlinking entry \<open>k\<close> of directory \<open>d\<close> for file \<open>j\<close>: the directory in \<open>N\<close> blocks, the two
  inode blocks, the bitmap and the indirect blocks are apart from each other where one of them is changed, the blocks of
  the file can be freed, and there is room.\<close>

definition unlinkable :: "'z fsst_scheme \<Rightarrow> u32 \<Rightarrow> u32 \<Rightarrow> nat \<Rightarrow> bool" where
  "unlinkable s d j N \<longleftrightarrow> (let y = node s d; z = node s j; a = iaddrs z NDIRECT; i = IBLOCK j; B = file_block s y ` {..<N} in
     dir_wf s y N \<and> inode_apart s y N \<and> (NDIRECT < N \<longrightarrow> \<not> in_log (thelog s) (iaddrs y NDIRECT)) \<and> place_ok s i \<and> \<not> in_log (thelog s) i \<and> i \<notin> B \<and> (NDIRECT < N \<longrightarrow> i \<noteq> iaddrs y NDIRECT)
     \<and> 1 \<notin> insert i B \<and> \<not> in_log (thelog s) 1 \<and> (\<forall>b < unat (sb_size (sb_of s)). bitmap_at s b \<notin> {i, IBLOCK d} \<union> B \<and> \<not> in_log (thelog s) (bitmap_at s b) \<and> (NDIRECT < N \<longrightarrow> bitmap_at s b \<noteq> iaddrs y NDIRECT))
     \<and> freeable s (all_blocks s z)
     \<and> (a \<noteq> 0 \<longrightarrow> a \<noteq> 1 \<and> place_ok s a \<and> a \<notin> insert i B \<and> (\<forall>b < unat (sb_size (sb_of s)). bitmap_at s b \<noteq> a)))"

text \<open>The number of blocks the call may log.\<close>

definition unlink_blocks :: "'z fsst_scheme \<Rightarrow> u32 \<Rightarrow> nat" where
  "unlink_blocks s j = 3 + card (bit_block s ` set (all_blocks s (node s j)) \<union> trunc_room (node s j))"

lemma all_blocks_cong:
  assumes "\<And>k. k < NDIRECT + 1 \<Longrightarrow> iaddrs x k = iaddrs y k" "iaddrs y NDIRECT \<noteq> 0 \<Longrightarrow> blk t (iaddrs y NDIRECT) = blk s (iaddrs y NDIRECT)"
  shows "all_blocks t x = all_blocks s y"
proof -
  have "used_addrs (iaddrs x) NDIRECT = used_addrs (iaddrs y) NDIRECT"
    using assms(1) by (auto simp: used_addrs_def intro!: arg_cong [where f = "filter _"])
  then show ?thesis using assms by (simp add: all_blocks_def)
qed

lemma same_fields_addrs: "same_fields x (disk_inode s i) \<Longrightarrow> k < NDIRECT + 1 \<Longrightarrow> iaddrs x k = iaddrs (node s i) k"
  by (simp add: same_fields_def node_fields)

lemma node_inum [simp]: "inum (node s i) = i"
  by (simp add: node_def load_inode_def)

lemma unlinking_start:
  fixes s u :: "'z fsst_scheme"
  assumes tx: "txn_inv s" "space s (unlink_blocks s j)"
    and r: "unlinkable s d j N" and b: "both_locked s d dp j ip u" and k: "k < dir_count (node s d)" and l: "di_nlink (disk_inode s d) \<noteq> 0"
  shows "unlinking u dp ip N k (Suc (card (bit_block s ` set (all_blocks s (node s j)) \<union> trunc_room (node s j))))"
    "NDIRECT < N \<longrightarrow> IBLOCK (inum (icache u ip)) \<noteq> iaddrs (icache u dp) NDIRECT"
    "file_block u (icache u dp) = file_block s (node s d)" "dir_entry u (icache u dp) = dir_entry s (node s d)" "dir_count (icache u dp) = dir_count (node s d)"
proof -
  have bu: "browsed s u" and y: "same_fields (icache u dp) (disk_inode s d)" "idev (icache u dp) = ROOTDEV" "inum (icache u ip) = j"
    using b by (simp_all add: both_locked_def)
  note bf = browsed_fields [OF bu] and sn = same_fields_node [OF y(1)]
  have "file_block u (icache u dp) = file_block s (icache u dp)" by (simp add: file_block_def bf fun_eq_iff)
  also have fb: "\<dots> = file_block s (node s d)" by (rule same_addrs_content) (rule same_fields_addrs [OF y(1)])
  finally show fu: "file_block u (icache u dp) = file_block s (node s d)" .
  show "dir_entry u (icache u dp) = dir_entry s (node s d)" "dir_count (icache u dp) = dir_count (node s d)" using sn by (simp_all add: bf)
  have tu: "txn_inv u" by (rule within_fields [OF within_browsed [OF bu tx(1)]])
  have "space u (3 + card (bit_block s ` set (all_blocks s (node s j)) \<union> trunc_room (node s j)))" using tx(2) bf by (simp add: unlink_blocks_def space_def)
  moreover have "inlink (icache u dp) \<noteq> 0" using y(1) l by (simp add: same_fields_def)
  moreover have "dir_wf u (icache u dp) N" using r sn(4) [OF y(2)] bf(12) by (simp add: unlinkable_def Let_def)
  ultimately show "unlinking u dp ip N k (Suc (card (bit_block s ` set (all_blocks s (node s j)) \<union> trunc_room (node s j))))"
    using r b k sn(2) bf tu fu by (simp add: unlinking_def both_locked_def unlinkable_def Let_def numeral_3_eq_3)
  show "NDIRECT < N \<longrightarrow> IBLOCK (inum (icache u ip)) \<noteq> iaddrs (icache u dp) NDIRECT"
    using r y same_fields_addrs [OF y(1), of NDIRECT] by (simp add: unlinkable_def Let_def)
qed

lemma once_facts:
  fixes s u t :: "'z fsst_scheme"
  assumes tx: "txn_inv s" "space s (unlink_blocks s j)"
    and r: "unlinkable s d j N" and b: "both_locked s d dp j ip u" and k: "k < dir_count (node s d)" and l: "di_nlink (disk_inode s d) \<noteq> 0"
    and t: "unlinked_once u dp ip N k t"
  defines "F \<equiv> all_blocks s (node s j)" and "B \<equiv> file_block s (node s d) ` {..<N}"
  shows "\<And>c. c \<notin> insert (IBLOCK j) B \<Longrightarrow> blk t c = blk s c" "same_fields ((node s j)\<lparr>inlink := inlink (node s j) - 1\<rparr>) (disk_inode t j)"
    "\<And>i. i \<noteq> j \<Longrightarrow> IBLOCK i \<notin> B \<Longrightarrow> disk_inode t i = disk_inode s i"
    "\<And>n. n < dir_count (node s d) \<Longrightarrow> dir_entry t (node s d) n = (if n = k then get_dirent zero_block else dir_entry s (node s d) n)"
    "freeable t F" "bit_block t = bit_block s" "sb_of t = sb_of s" "all_blocks t (icache t ip) = F" "free_blocks t = free_blocks s"
    "txn_inv t" "within s t" "inum (icache t ip) = j" "idev (icache t ip) = ROOTDEV" "place_ok t = place_ok s" "in_log (thelog t) = in_log (thelog s)"
    "bitmap_at t = bitmap_at s" "iaddrs (icache t ip) NDIRECT = iaddrs (node s j) NDIRECT"
proof -
  let ?y = "icache u dp" and ?z = "icache u ip"
  have bu: "browsed s u" and y: "same_fields ?y (disk_inode s d)" and z: "same_fields ?z (disk_inode s j)" "inum ?z = j" "idev ?z = ROOTDEV"
    using b by (simp_all add: both_locked_def)
  note bf = browsed_fields [OF bu] and st = unlinking_start(3-5) [OF tx r b k l]
  have ws: "within s t" using within_trans [OF within_browsed [OF bu tx(1)]] t by (simp add: unlinked_once_def Let_def)
  note o = within_fields [OF ws]
  have ob: "blk t (IBLOCK j) = store_inode (blk s (IBLOCK j)) (unat j mod IPB) (fewer ?z)" "icache t ip = unlocked (fewer ?z)"
    using t bf z by (simp_all add: unlinked_once_def Let_def)
  show c: "blk t c = blk s c" if "c \<notin> insert (IBLOCK j) B" for c
    using t that st(1) bf(2) z(2) by (simp add: unlinked_once_def Let_def B_def)
  show "txn_inv t" "in_log (thelog t) = in_log (thelog s)" "within s t" "inum (icache t ip) = j" "idev (icache t ip) = ROOTDEV" "place_ok t = place_ok s"
    using o ws z ob(2) by simp_all
  have "same_fields (fewer ?z) (disk_inode t j)" by (simp add: disk_inode_def ob(1) same_fields_store)
  then show "same_fields ((node s j)\<lparr>inlink := inlink (node s j) - 1\<rparr>) (disk_inode t j)"
    using z(1) by (simp add: same_fields_def node_def load_inode_def)
  show "disk_inode t i = disk_inode s i" if i: "i \<noteq> j" "IBLOCK i \<notin> B" for i
  proof (cases "IBLOCK i = IBLOCK j")
    case True
    then have "unat j mod IPB \<noteq> unat i mod IPB" using inode_place_inject [of i j] i by auto
    with True show ?thesis by (simp add: disk_inode_def ob(1) get_store_other)
  qed (use i c in \<open>simp add: disk_inode_def\<close>)
  have "dir_entry t ?y = dir_entry t (node s d)" by (rule same_addrs_content) (rule same_fields_addrs [OF y])
  then show "dir_entry t (node s d) n = (if n = k then get_dirent zero_block else dir_entry s (node s d) n)" if "n < dir_count (node s d)" for n
    using t that st by (simp add: unlinked_once_def Let_def)
  have rr: "1 \<notin> insert (IBLOCK j) B" "\<forall>b < unat (sb_size (sb_of s)). bitmap_at s b \<notin> insert (IBLOCK j) B" "freeable s F"
    "iaddrs (node s j) NDIRECT \<noteq> 0 \<Longrightarrow> iaddrs (node s j) NDIRECT \<notin> insert (IBLOCK j) B"
    using r by (simp_all add: unlinkable_def Let_def B_def F_def)
  have bits: "blk t (bit_block s b) = blk s (bit_block s b)" if "b \<in> set F" for b
    using that rr(2,3) by (intro c) (auto simp: freeable_def bit_block_def)
  show "freeable t F" "bit_block t = bit_block s" and sb: "sb_of t = sb_of s"
    using freeable_frame [OF rr(3) c [OF rr(1)] bits o(3,2,5)] by auto
  then show bm: "bitmap_at t = bitmap_at s" by (simp add: bitmap_at_def fun_eq_iff)
  show "free_blocks t = free_blocks s" using rr(2) c by (auto simp: free_blocks_def is_free_def sb bm)
  have ad: "iaddrs (icache t ip) n = iaddrs (node s j) n" if "n < NDIRECT + 1" for n
    using same_fields_addrs [OF z(1) that] by (simp add: ob(2))
  then show "iaddrs (icache t ip) NDIRECT = iaddrs (node s j) NDIRECT" by simp
  show "all_blocks t (icache t ip) = F"
    unfolding F_def by (rule all_blocks_cong) (use ad rr(4) c in auto)
qed

lemma once_refs:
  assumes "both_locked s d dp j ip u" "unlinked_once u dp ip N k t" "icache v = (icache t)(ip := w)" "iref w = iref (icache t ip) - 1" "inum w = inum (icache t ip)"
  shows "same_refs (icache s) (icache v)"
  using assms by (auto simp: both_locked_def unlinked_once_def Let_def same_refs_def dropped_def split: if_splits)


text \<open>The entries of a directory of \<open>N\<close> blocks only depend on these and on its indirect block.\<close>

lemma dir_entry_frame:
  assumes "\<And>m. m < N \<Longrightarrow> blk t (file_block s x m) = blk s (file_block s x m)" "NDIRECT < N \<Longrightarrow> blk t (iaddrs x NDIRECT) = blk s (iaddrs x NDIRECT)"
    and "64 * n + 64 \<le> N * BSIZE"
  shows "dir_entry t x n = dir_entry s x n"
proof -
  have "file_block t x m = file_block s x m" if "m < N" for m using assms(2) that by (simp add: file_block_def)
  then have "fbyte t x (64 * n + i) = fbyte s x (64 * n + i)" if "i < 64" for i
    using assms(1) entry_block [OF assms(3) that] by (simp add: fbyte_def)
  then show ?thesis unfolding dir_entry_def by (intro arg_cong [where f = get_dirent]) (auto simp: fill_def)
qed

text \<open>Directory \<open>d\<close> of \<open>N\<close> blocks without entry \<open>k\<close>; the superblock is as before.\<close>

definition name_removed :: "'z bcache_scheme \<Rightarrow> u32 \<Rightarrow> nat \<Rightarrow> nat \<Rightarrow> 'z bcache_scheme \<Rightarrow> bool" where
  "name_removed s d N k t \<longleftrightarrow> disk_inode t d = disk_inode s d \<and> blk t 1 = blk s 1 \<and> (NDIRECT < N \<longrightarrow> blk t (iaddrs (node s d) NDIRECT) = blk s (iaddrs (node s d) NDIRECT))
     \<and> (\<forall>n < dir_count (node s d). dir_entry t (node s d) n = (if n = k then get_dirent zero_block else dir_entry s (node s d) n))"

lemma once_trunc_ready:
  fixes s u t :: "'z fsst_scheme"
  assumes tx: "txn_inv s" "space s (unlink_blocks s j)"
    and r: "unlinkable s d j N" and b: "both_locked s d dp j ip u" and k: "k < dir_count (node s d)" and l: "di_nlink (disk_inode s d) \<noteq> 0"
    and t: "unlinked_once u dp ip N k t" and sp: "space t (Suc (card (bit_block s ` set (all_blocks s (node s j)) \<union> trunc_room (node s j))))"
  shows "trunc_ready t ip" "\<forall>b < unat (sb_size (sb_of t)). bitmap_at t b \<noteq> IBLOCK j"
proof -
  let ?F = "all_blocks s (node s j)" and ?a = "iaddrs (node s j) NDIRECT"
  note o = once_facts [OF tx r b k l t]
  have tm: "trunc_room (icache t ip) = trunc_room (node s j)" by (simp add: trunc_room_def o)
  have c: "can_free t (trunc_room (node s j)) ?F" by (intro freeable_can_free o) (use sp o(6) in simp)
  have rr: "place_ok s (IBLOCK j)" "\<not> in_log (thelog s) (IBLOCK j)" "\<forall>b < unat (sb_size (sb_of s)). bitmap_at s b \<noteq> IBLOCK j" "freeable s ?F"
    "?a \<noteq> 0 \<longrightarrow> ?a \<noteq> 1 \<and> place_ok s ?a \<and> (\<forall>b < unat (sb_size (sb_of s)). bitmap_at s b \<noteq> ?a)"
    using r by (simp_all add: unlinkable_def Let_def)
  then have "IBLOCK j \<notin> bit_block s ` set ?F" "?a \<noteq> 0 \<longrightarrow> ?a \<notin> bit_block s ` set ?F"
    by (auto simp: freeable_def bit_block_def)
  then show "trunc_ready t ip" using c rr o tm by (simp add: trunc_ready_def Let_def)
  show "\<forall>b < unat (sb_size (sb_of t)). bitmap_at t b \<noteq> IBLOCK j" using rr(3) o by simp
qed

lemma wp_put_gone:
  fixes s u t :: "'z fsst_scheme"
  assumes tx: "txn_inv s" "space s (unlink_blocks s j)"
    and r: "unlinkable s d j N" and b: "both_locked s d dp j ip u" and k: "k < dir_count (node s d)" and l: "di_nlink (disk_inode s d) \<noteq> 0" "d \<noteq> j"
    and t: "unlinked_once u dp ip N k t" and sp: "space t (Suc (card (bit_block s ` set (all_blocks s (node s j)) \<union> trunc_room (node s j))))"
    and g: "di_nlink (disk_inode s j) = 1" "\<not> held_by (icache s) j"
    and post: "\<And>v. within s v \<Longrightarrow> same_refs (icache s) (icache v) \<Longrightarrow> name_removed s d N k v \<Longrightarrow>
      di_type (disk_inode v j) = 0 \<Longrightarrow> free_blocks v = free_blocks s \<union> unat ` set (all_blocks s (node s j)) \<Longrightarrow> Q () v"
  shows "wp (iput ip) Q t"
proof -
  let ?F = "all_blocks s (node s j)" and ?x = "icache t ip" and ?y = "node s d"
  note o = once_facts [OF tx r b k l(1) t]
  note tr = once_trunc_ready [OF tx r b k l(1) t sp]
  have z: "icache t ip = unlocked (fewer (icache u ip))" "iref (icache u ip) = 1" "inlink (icache u ip) = 1" "bit (iflags (icache u ip)) 1"
    using t b g by (simp_all add: unlinked_once_def both_locked_def Let_def same_fields_def)
  have ul: "unlinked_last ?x"
    using z by (simp add: unlinked_last_def I_VALID_def I_BUSY_def flag_simps bit_and_iff bit_minus_2_iff)
  have i: "IBLOCK (inum ?x) \<noteq> 1" "\<forall>b < unat (sb_size (sb_of t)). bitmap_at t b \<noteq> IBLOCK (inum ?x)"
    using r tr(2) o(12) by (simp_all add: unlinkable_def Let_def)
  have far: "c \<notin> bit_block t ` set ?F" if "\<And>b. b < unat (sb_size (sb_of s)) \<Longrightarrow> bitmap_at s b \<noteq> c" for c
    using that o(5,6,7) by (auto simp: freeable_def bit_block_def)
  have rr: "dir_wf s ?y N" "inode_apart s ?y N" "\<forall>b < unat (sb_size (sb_of s)). bitmap_at s b \<notin> {IBLOCK j, IBLOCK d} \<union> file_block s ?y ` {..<N}"
    "NDIRECT < N \<longrightarrow> iaddrs ?y NDIRECT \<noteq> IBLOCK j \<and> (\<forall>b < unat (sb_size (sb_of s)). bitmap_at s b \<noteq> iaddrs ?y NDIRECT)" "IBLOCK j \<notin> file_block s ?y ` {..<N}"
    using r by (auto simp: unlinkable_def Let_def)
  have ind: "blk t (iaddrs ?y NDIRECT) = blk s (iaddrs ?y NDIRECT)" if "NDIRECT < N"
    using that rr(1,4) by (intro o(1)) (auto simp: dir_wf_def file_wf_def)
  then have fb: "file_block t ?y m = file_block s ?y m" if "m < N" for m
    using that by (simp add: file_block_def)
  show ?thesis
  proof (rule wp_iput_last [OF tr(1) ul])
    fix v C assume v: "logged t (dead_blocks t ?x) (map (bit_block t) (all_blocks t ?x) @ [IBLOCK (inum ?x), IBLOCK (inum ?x)]) v"
      and C: "C = (icache t)(ip := (dead_inode ?x)\<lparr>iflags := 0, iref := 0\<rparr>)"
    note dd = dead_facts [OF refl o(8) tr(1) i v]
    have nd: "IBLOCK d \<notin> file_block s ?y ` {..<N}" using rr(2) by (simp add: inode_apart_def)
    have "disk_inode v d = disk_inode s d"
      using dd(4) [of d] far [of "IBLOCK d"] rr(3) o(3) [OF l(2) nd] o(12) l(2) by simp
    moreover have one: "blk v 1 = blk s 1"
    proof -
      have "1 \<notin> bit_block t ` set ?F" using o(5) by (force simp: freeable_def)
      then have "blk v 1 = blk t 1" using i(1) by (intro dd(5)) simp_all
      also have "\<dots> = blk s 1" by (rule o(1)) (use r in \<open>simp add: unlinkable_def Let_def\<close>)
      finally show ?thesis .
    qed
    moreover have iv: "blk v (iaddrs ?y NDIRECT) = blk t (iaddrs ?y NDIRECT)" if "NDIRECT < N"
      using that rr(4) far [of "iaddrs ?y NDIRECT"] o(12) by (intro dd(5)) auto
    moreover have "dir_entry v ?y n = dir_entry t ?y n" if "n < dir_count ?y" for n
    proof (rule dir_entry_frame)
      show "64 * n + 64 \<le> N * BSIZE" using entry_range(1) [OF rr(1) that] rr(1) by (simp add: dir_wf_def)
      show "blk v (file_block t ?y m) = blk t (file_block t ?y m)" if "m < N" for m
      proof -
        have mB: "file_block s ?y m \<in> file_block s ?y ` {..<N}" using that by simp
        then have "file_block s ?y m \<notin> bit_block t ` set ?F" using rr(3) by (intro far) force
        moreover have "file_block s ?y m \<noteq> IBLOCK j" using mB rr(5) by force
        ultimately show ?thesis unfolding fb [OF that] by (intro dd(5)) (simp_all add: o(12))
      qed
    qed (rule iv)
    ultimately have nr: "name_removed s d N k (v\<lparr>icache := C\<rparr>)"
      using o(4) ind one by (simp add: name_removed_def tables_icache dir_entry_def fbyte_def)
    show "Q () (v\<lparr>icache := C\<rparr>)"
    proof (rule post [OF _ _ nr])
      show "same_refs (icache s) (icache (v\<lparr>icache := C\<rparr>))"
        by (rule once_refs [OF b t, where w = "(dead_inode ?x)\<lparr>iflags := 0, iref := 0\<rparr>"]) (use z C in simp_all)
    qed (use within_trans [OF o(11) within_logged [OF v]] o(9,12) dd(1,6) in \<open>simp_all add: tables_icache\<close>)
  qed
qed


lemma wp_put_linked:
  fixes s u t :: "'z fsst_scheme"
  assumes tx: "txn_inv s" "space s (unlink_blocks s j)"
    and r: "unlinkable s d j N" and b: "both_locked s d dp j ip u" and k: "k < dir_count (node s d)" and l: "di_nlink (disk_inode s d) \<noteq> 0" "d \<noteq> j"
    and t: "unlinked_once u dp ip N k t" and g: "di_nlink (disk_inode s j) \<noteq> 1 \<or> held_by (icache s) j"
    and post: "\<And>v. within s v \<Longrightarrow> same_refs (icache s) (icache v) \<Longrightarrow> name_removed s d N k v \<Longrightarrow>
      same_fields ((node s j)\<lparr>inlink := inlink (node s j) - 1\<rparr>) (disk_inode v j) \<Longrightarrow> free_blocks v = free_blocks s \<Longrightarrow> Q () v"
  shows "wp (iput ip) Q t"
proof -
  note o = once_facts [OF tx r b k l(1) t]
  have nd: "IBLOCK d \<notin> file_block s (node s d) ` {..<N}" using r by (simp add: unlinkable_def Let_def inode_apart_def)
  have ind: "blk t (iaddrs (node s d) NDIRECT) = blk s (iaddrs (node s d) NDIRECT)" if "NDIRECT < N"
    using that r by (intro o(1)) (auto simp: unlinkable_def Let_def dir_wf_def file_wf_def)
  have "inlink (icache t ip) \<noteq> 0 \<or> iref (icache t ip) \<noteq> 1"
    using t b g by (auto simp: unlinked_once_def both_locked_def Let_def same_fields_def)
  then have p: "wp (iput ip) Q t = Q () (t\<lparr>icache := dropped (icache t) ip\<rparr>)" by (intro wp_iput_linked) auto
  have nr: "name_removed s d N k (t\<lparr>icache := dropped (icache t) ip\<rparr>)"
    using o(3) [OF l(2) nd] o(4) ind o(1) [of 1] r by (simp add: name_removed_def tables_icache dir_entry_def fbyte_def unlinkable_def Let_def)
  show ?thesis
    unfolding p
  proof (rule post [OF _ _ nr])
    show "same_refs (icache s) (icache (t\<lparr>icache := dropped (icache t) ip\<rparr>))"
      by (rule once_refs [OF b t, where w = "(icache t ip)\<lparr>iref := iref (icache t ip) - 1\<rparr>"]) (simp_all add: dropped_def)
  qed (use o(2,9,11) in \<open>simp_all add: tables_icache\<close>)
qed

section \<open>Properties\<close>

text \<open>Looking up a name after its entry is cleared.\<close>

lemma removed_lookup:
  fixes s t :: "'z fsst_scheme"
  assumes n: "name_removed s d N k t" and k: "entry_named s (node s d) e k"
  shows "take DIRSIZ f \<noteq> take DIRSIZ e \<Longrightarrow> lookup t d f = lookup s d f"
    "(\<And>n. n < dir_count (node s d) \<Longrightarrow> entry_named s (node s d) e n \<Longrightarrow> n = k) \<Longrightarrow> lookup t d e = None"
proof -
  have nd: "node t d = node s d" using n by (simp add: name_removed_def node_def)
  have en: "entry_named t (node s d) f m \<longleftrightarrow> m \<noteq> k \<and> entry_named s (node s d) f m" if "m < dir_count (node s d)" for f m
    using n that by (simp add: name_removed_def entry_named_def empty_dirent)
  show "lookup t d f = lookup s d f" if f: "take DIRSIZ f \<noteq> take DIRSIZ e"
  proof -
    have nk: "\<not> entry_named s (node s d) f k" using k f by (simp add: entry_named_def)
    then have "find (entry_named t (node s d) f) [0..<dir_count (node s d)] = find (entry_named s (node s d) f) [0..<dir_count (node s d)]"
      using en by (intro find_cong) auto
    moreover have "dir_entry t (node s d) m = dir_entry s (node s d) m" if "find (entry_named s (node s d) f) [0..<dir_count (node s d)] = Some m" for m
      using that nk n by (auto simp: find_Some_iff name_removed_def)
    ultimately show ?thesis
      by (cases "find (entry_named s (node s d) f) [0..<dir_count (node s d)]") (simp_all add: lookup_def Let_def nd)
  qed
  show "lookup t d e = None" if "\<And>n. n < dir_count (node s d) \<Longrightarrow> entry_named s (node s d) e n \<Longrightarrow> n = k"
    using that en by (auto simp: lookup_def Let_def nd find_None_iff)
qed

text \<open>The effect of unlinking on the disk: the entry is cleared; the file loses a link, or all of it is free if it was
  the last one and nobody has the file open.\<close>

definition file_unlinked :: "'z fsst_scheme \<Rightarrow> u32 \<Rightarrow> nat \<Rightarrow> nat \<Rightarrow> u32 \<Rightarrow> 'z fsst_scheme \<Rightarrow> bool" where
  "file_unlinked s d N k j t \<longleftrightarrow> name_removed s d N k t \<and>
     (if di_nlink (disk_inode s j) = 1 \<and> \<not> held_by (icache s) j
      then di_type (disk_inode t j) = 0 \<and> free_blocks t = free_blocks s \<union> unat ` set (all_blocks s (node s j))
      else same_fields ((node s j)\<lparr>inlink := inlink (node s j) - 1\<rparr>) (disk_inode t j) \<and> free_blocks t = free_blocks s)"

lemma wp_sys_dounlink:
  fixes s :: "'z fsst_scheme"
  assumes tx: "txn_inv s" "space s (unlink_blocks s j)"
    and s: "tree_ok s I" "ROOTINO \<in> I" "coherent s" "two_free (icache s)"
    and path: "0 \<notin> set path" "deref path = SLASH" "target s True ROOTINO (elems path) = Some d"
    and e: "take DIRSIZ (last (elems path)) \<notin> {[46], [46, 46]}" and f: "file_entry s I d (last (elems path)) k j" and r: "unlinkable s d j N"
    and post: "\<And>t. within s t \<Longrightarrow> same_refs (icache s) (icache t) \<Longrightarrow> file_unlinked s d N k j t \<Longrightarrow> Q 0 t"
  shows "wp (sys_dounlink path) Q s"
proof -
  have b: "binv s" "card (dirty_at s \<union> busy_at s) < NBUF" using tx by (auto simp: txn_inv_def space_def unlink_blocks_def)
  note fd = file_entryD [OF f s(1)]
  have l: "di_nlink (disk_inode s d) \<noteq> 0" using s(1) f by (auto simp: tree_ok_def file_entry_def)
  have put: "wp (iput ip) (\<lambda>_. Q 0) t" if bl: "both_locked s d dp j ip u" and t: "unlinked_once u dp ip N k t"
      "space t (Suc (card (bit_block s ` set (all_blocks s (node s j)) \<union> trunc_room (node s j))))" for u dp ip t
  proof (cases "di_nlink (disk_inode s j) = 1 \<and> \<not> held_by (icache s) j")
    case True
    then show ?thesis by (intro wp_put_gone [OF tx r bl fd(1) l fd(5) t]) (auto intro!: post simp: file_unlinked_def)
  next
    case False
    then show ?thesis by (intro wp_put_linked [OF tx r bl fd(1) l fd(5) t(1)]) (auto intro!: post simp: file_unlinked_def)
  qed
  show ?thesis
  proof (rule wp_dounlink_found [OF b s path e f])
    fix u dp ip assume bl: "both_locked s d dp j ip u"
    note st = unlinking_start [OF tx r bl fd(1) l]
    show "wp (unlink_rest dp ip (of_nat (k * 64))) Q u"
      by (rule wp_unlink_rest [OF st(1,2)]) (use put [OF bl] in \<open>simp add: wp_andthen wp_return\<close>)
  qed
qed

text \<open>Counting a system call changes none of this.\<close>

lemma begun_medium:
  fixes s :: "'z fsst_scheme"
  defines "t \<equiv> s\<lparr>thelog := (thelog s)\<lparr>outstanding := 1\<rparr>\<rparr>"
  shows "bufs t = bufs s" "img t = img s" "imglen t = imglen s" "icache t = icache s" "in_log (thelog t) = in_log (thelog s)"
    "log_geometry (thelog t) = log_geometry (thelog s)"
  by (simp_all add: t_def in_log_def log_geometry_def fun_eq_iff)

lemma begun_unlink:
  fixes s :: "'z fsst_scheme"
  defines "t \<equiv> s\<lparr>thelog := (thelog s)\<lparr>outstanding := 1\<rparr>\<rparr>"
  shows "unlinkable t d j N = unlinkable s d j N" "file_entry t I d e k j = file_entry s I d e k j" "unlink_blocks t j = unlink_blocks s j"
    "target t True i es = target s True i es" "tree_ok t I = tree_ok s I" "coherent t = coherent s" "file_unlinked t d N k j u = file_unlinked s d N k j u"
proof -
  note b = begun_medium [of s, folded t_def] and m = same_medium [OF begun_medium(1-3) [of s], folded t_def]
  note w = same_medium_walk [OF b(1-3)] and mt = same_medium_tree [OF b(1-3)]
  have sb: "sb_of t = sb_of s" by (simp add: sb_of_def m)
  then have bm: "bitmap_at t = bitmap_at s" by (simp add: bitmap_at_def fun_eq_iff)
  have bb: "bit_block t = bit_block s" by (simp add: bit_block_def bm fun_eq_iff)
  have fr: "is_free t = is_free s" by (simp add: is_free_def bm m fun_eq_iff)
  have ab: "all_blocks t x = all_blocks s x" for x by (simp add: all_blocks_def m)
  have wf: "dir_wf t = dir_wf s" "inode_apart t = inode_apart s" "freeable t = freeable s"
    by (intro ext; simp add: dir_wf_def file_wf_def mapped_def inode_apart_def freeable_def m b sb bb fr)+
  show "unlinkable t d j N = unlinkable s d j N" by (simp add: unlinkable_def Let_def m b sb bm ab wf)
  show "unlink_blocks t j = unlink_blocks s j" by (simp add: unlink_blocks_def m bb ab)
  show "file_entry t I d e k j = file_entry s I d e k j" by (simp add: file_entry_def m entry_named_def [abs_def])
  show "target t True i es = target s True i es" by (simp add: target_def w m split: option.split)
  show "tree_ok t I = tree_ok s I" by (rule mt(2) [OF b(6)])
  show "coherent t = coherent s" by (rule mt(1) [OF b(4)])
  have "free_blocks t = free_blocks s" by (simp add: free_blocks_def sb fr)
  then show "file_unlinked t d N k j u = file_unlinked s d N k j u"
    by (simp add: file_unlinked_def name_removed_def m b ab)
qed

text \<open>The effect of unlinking is in blocks outside the log.\<close>

lemma file_unlinked_agree:
  fixes s t u :: "'z fsst_scheme"
  assumes r: "unlinkable s d j N" and t: "file_unlinked s d N k j t" and u: "\<And>b. \<not> in_log (thelog s) b \<Longrightarrow> blk u b = blk t b"
  shows "file_unlinked s d N k j u"
proof -
  let ?y = "node s d"
  have rr: "dir_wf s ?y N" "inode_apart s ?y N" "NDIRECT < N \<longrightarrow> \<not> in_log (thelog s) (iaddrs ?y NDIRECT)" "\<not> in_log (thelog s) (IBLOCK j)"
    "\<not> in_log (thelog s) 1" "\<forall>b < unat (sb_size (sb_of s)). \<not> in_log (thelog s) (bitmap_at s b)"
    using r by (auto simp: unlinkable_def Let_def)
  have tr: "disk_inode t d = disk_inode s d" "NDIRECT < N \<Longrightarrow> blk t (iaddrs ?y NDIRECT) = blk s (iaddrs ?y NDIRECT)"
    using t by (simp_all add: file_unlinked_def name_removed_def)
  have sb: "sb_of t = sb_of s" using t by (simp add: file_unlinked_def name_removed_def sb_of_def)
  have fb: "file_block t ?y m = file_block s ?y m" if "m < N" for m using that tr(2) by (simp add: file_block_def)
  have dj: "disk_inode u d = disk_inode t d" "disk_inode u j = disk_inode t j" using u rr(2,4) by (simp_all add: disk_inode_def inode_apart_def)
  have "dir_entry u ?y n = dir_entry t ?y n" if "n < dir_count ?y" for n
  proof (rule dir_entry_frame)
    show "64 * n + 64 \<le> N * BSIZE" using entry_range(1) [OF rr(1) that] rr(1) by (simp add: dir_wf_def)
    show "blk u (file_block t ?y m) = blk t (file_block t ?y m)" if "m < N" for m
      using rr(1) that by (intro u) (simp add: fb dir_wf_def file_wf_def)
  qed (use u rr(3) in simp)
  then have "name_removed s d N k u" using t u rr(3,5) dj(1) by (simp add: file_unlinked_def name_removed_def)
  moreover have sbu: "sb_of u = sb_of t" using u rr(5) by (simp add: sb_of_def)
  moreover have "free_blocks u = free_blocks t"
    using u rr(6) sb sbu by (auto simp: free_blocks_def is_free_def bitmap_at_def)
  ultimately show ?thesis using t dj(2) by (simp add: file_unlinked_def)
qed

text \<open>C4. \<open>sys_unlink\<close> of a file removes its name and is atomic. The call returns 0; in the directory no other name resolves
  differently, and the name resolves to nothing if it was there once. If it was the last link and the file is not open,
  the inode is free and exactly the blocks of the file are free in addition; otherwise the file only has one link less
  and no block is freed. All of it is on the disk when the call returns, every lock and reference is given back, and a
  crash at any point of its writes recovers to the disk before the call or after it.\<close>

theorem sys_unlink_atomic:
  fixes s :: "'z fsst_scheme"
  assumes s: "quiet s" "tree_ok s I" "ROOTINO \<in> I" "coherent s" "two_free (icache s)"
    and path: "0 \<notin> set path" "deref path = SLASH" "target s True ROOTINO (elems path) = Some d"
    and e: "take DIRSIZ (last (elems path)) \<notin> {[46], [46, 46]}" and f: "file_entry s I d (last (elems path)) k j" and r: "unlinkable s d j N"
    and room: "unlink_blocks s j \<le> NBUF" "int (unlink_blocks s j) < lsize (thelog s)"
  shows "\<exists>h u. sys_unlink path s = Ok 0 u \<and> committed s h u \<and> crash_states s h {s, u} \<and> same_refs (icache s) (icache u)
    \<and> (\<forall>f. take DIRSIZ f \<noteq> take DIRSIZ (last (elems path)) \<longrightarrow> lookup u d f = lookup s d f)
    \<and> ((\<forall>n < dir_count (node s d). entry_named s (node s d) (last (elems path)) n \<longrightarrow> n = k) \<longrightarrow> lookup u d (last (elems path)) = None)
    \<and> (if di_nlink (disk_inode s j) = 1 \<and> \<not> held_by (icache s) j
       then di_type (disk_inode u j) = 0 \<and> free_blocks u = free_blocks s \<union> unat ` set (all_blocks s (node s j))
       else same_fields ((node s j)\<lparr>inlink := inlink (node s j) - 1\<rparr>) (disk_inode u j) \<and> free_blocks u = free_blocks s)"
proof -
  let ?R = "\<lambda>v u. v = (0 :: int) \<and> (\<exists>h. committed s h u \<and> crash_states s h {s, u} \<and> same_refs (icache s) (icache u) \<and> file_unlinked s d N k j u)"
  let ?s = "s\<lparr>thelog := (thelog s)\<lparr>outstanding := 1\<rparr>\<rparr>"
  note b = begun_unlink [of s] and bm = begun_medium [of s] and m = same_medium [OF begun_medium(1-3) [of s]] and q = quietD [OF s(1)]
  have q': "lh_n (thelog s) = 0" "committing (thelog s) = 0" using s(1) by (simp_all add: quiet_def)
  have sp: "space ?s (unlink_blocks ?s j)" using room q q' by (simp add: space_def log_room_def m b(3))
  have "wp (sys_unlink path) ?R s"
    unfolding sys_unlink_def wp_andthen [of begin_op]
  proof (rule wp_begin_op_quiet [OF s(1)])
    show "wp (bind (sys_dounlink path) (\<lambda>r. andthen end_op (return r))) ?R ?s"
      unfolding wp_bind
    proof (rule wp_sys_dounlink [where s = ?s and N = N, OF _ sp, unfolded b bm(4), OF _ s(2-5) path e f r])
      show "txn_inv ?s" using q(1) by simp
      fix t assume t: "within ?s t" "same_refs (icache s) (icache t)" "file_unlinked s d N k j t"
      have ins: "inside s t" using t(1) q(2) q' m(3) by (simp add: within_def inside_def same_log_def log_geometry_def)
      show "wp (andthen end_op (return 0)) ?R t"
        unfolding wp_andthen
      proof (rule wp_end_op_inside [OF s(1) ins])
        fix u h assume u: "committed s h u" "crash_states s h {s, u}" "lframe t u" "\<And>b. \<not> in_log (thelog s) b \<Longrightarrow> blk u b = blk t b"
        have "file_unlinked s d N k j u" by (rule file_unlinked_agree [OF r t(3) u(4)])
        then show "wp (return 0) ?R u"
          using u(1,2) t(2) lframe_icache [OF u(3)] by (auto simp: wp_return)
      qed
    qed
  qed
  then obtain h u where u: "sys_unlink path s = Ok 0 u" "committed s h u" "crash_states s h {s, u}" "same_refs (icache s) (icache u)" "file_unlinked s d N k j u"
    by (auto dest!: wp_Ok)
  have nr: "name_removed s d N k u" using u(5) by (simp add: file_unlinked_def)
  note lk = removed_lookup [OF nr file_entryD(2) [OF f s(2)]]
  show ?thesis using u lk by (intro exI [of _ h] exI [of _ u]) (auto simp: file_unlinked_def)
qed

text \<open>The small file system with only the root directory in memory.\<close>

definition named_fs :: fsst where
  "named_fs = (small_inodes dir_disk)\<lparr>thelog := small_log\<lparr>outstanding := 0\<rparr>, icache := (\<lambda>_. free_inode)(0 := dir_inode)\<rparr>"

lemma named_medium:
  "bufs named_fs = bufs (small_inodes dir_disk)" "img named_fs = img (small_inodes dir_disk)" "imglen named_fs = imglen (small_inodes dir_disk)"
  "thelog named_fs = small_log\<lparr>outstanding := 0\<rparr>" "icache named_fs = (\<lambda>_. free_inode)(0 := dir_inode)"
  by (simp_all add: named_fs_def)

lemmas named_same = same_medium [OF named_medium(1-3)]

lemma named_tree: "quiet named_fs" "tree_ok named_fs {1, 2}" "coherent named_fs" "two_free (icache named_fs)" "\<not> held_by (icache named_fs) 2"
proof -
  show "quiet named_fs"
    using small_quiet [of dir_disk] same_medium_tree(3) [of named_fs "(small_inodes dir_disk)\<lparr>thelog := small_log\<lparr>outstanding := 0\<rparr>\<rparr>"]
    by (simp add: named_medium dir_disk_def)
  show "tree_ok named_fs {1, 2}"
    using same_medium_tree(2) [OF named_medium(1-3)] small_tree(1) by (simp add: named_medium small_inodes_ok log_geometry_def)
  have "0 < iref dir_inode" "0 < NINODE" by (simp_all add: dir_inode_def NINODE_def)
  then have "at_rest (small_inodes dir_disk) dir_inode"
    using small_tree(2) [of dir_disk] small_dir_cache(1) [of dir_disk] by (auto simp: coherent_def dest: spec [of _ 0])
  then show "coherent named_fs"
    by (auto simp: coherent_def named_medium named_same icache_ok_def in_use_def free_inode_def dir_inode_def split: if_splits)
  show "two_free (icache named_fs)"
    unfolding two_free_def by (rule exI [of _ 1], rule exI [of _ 2]) (simp add: named_medium free_inode_def NINODE_def)
  show "\<not> held_by (icache named_fs) 2" by (auto simp: held_by_def in_use_def named_medium free_inode_def dir_inode_def split: if_splits)
qed

lemma named_entry: "entry_named named_fs (node named_fs 1) [97] = named (small_inodes dir_disk) dir_inode name_a" "dir_count (node named_fs 1) = dir_count dir_inode"
  using same_fields_node(2,3) [OF small_disk_fields(1) [of dir_disk]]
  by (simp_all add: named_same named_def entry_named_def DIRSIZ_def fun_eq_iff cname_name_a)

lemma named_file: "file_entry named_fs {1, 2} 1 [97] 1 2" "all_blocks named_fs (node named_fs 2) = [6, 7]" "di_nlink (disk_inode named_fs 2) = 1"
    "iaddrs (node named_fs 2) NDIRECT = 0"
proof -
  let ?s = "small_inodes dir_disk"
  note f = small_disk_fields [of dir_disk]
  show l: "di_nlink (disk_inode named_fs 2) = 1" using f(2) by (simp add: named_same same_fields_def file_inode_def)
  have "entry_named ?s (node ?s 1) [97] = named ?s dir_inode name_a"
    using same_fields_node(3) [OF f(1)] by (simp add: named_def entry_named_def DIRSIZ_def fun_eq_iff cname_name_a)
  moreover have "find (named ?s dir_inode name_a) [0..<dir_count dir_inode] = Some 1"
    by (rule find_unique) (auto simp: small_dir_fields small_dir_named)
  moreover have "dir_count (node ?s 1) = dir_count dir_inode" "dir_entry ?s (node ?s 1) = dir_entry ?s dir_inode" using same_fields_node(2,3) [OF f(1)] by simp_all
  ultimately show "file_entry named_fs {1, 2} 1 [97] 1 2"
    using f l small_dir_entries(1)
    by (simp add: file_entry_def named_same entry_named_def [abs_def] same_fields_def dir_inode_def file_inode_def T_DIR_def T_FILE_def)
  have ad: "iaddrs (node named_fs 2) k = iaddrs file_inode k" if "k < NDIRECT + 1" for k
    using same_fields_addrs [OF f(2) that] by (simp add: named_same)
  then show "iaddrs (node named_fs 2) NDIRECT = 0" by (simp add: file_inode_def NDIRECT_def)
  have "all_blocks named_fs (node named_fs 2) = all_blocks named_fs file_inode"
    by (rule all_blocks_cong) (use ad in auto)
  then show "all_blocks named_fs (node named_fs 2) = [6, 7]"
    by (simp add: all_blocks_def used_addrs_def file_inode_def NDIRECT_def upt_rec)
qed

lemma named_bitmap: "sb_of named_fs = small_sb" "b < 20 \<Longrightarrow> bitmap_at named_fs b = 4" "b < 20 \<Longrightarrow> is_free named_fs b \<longleftrightarrow> 8 \<le> b"
proof -
  let ?f = "small_fs (dir_disk(2 := inode_block))"
  have bk: "blk named_fs = blk ?f" by (simp add: named_same small_inodes_ok small_fs_ok)
  then have sb: "sb_of named_fs = sb_of ?f" by (simp add: sb_of_def)
  then have bm: "bitmap_at named_fs = bitmap_at ?f" by (simp only: bitmap_at_def fun_eq_iff) simp
  show "sb_of named_fs = small_sb" "b < 20 \<Longrightarrow> bitmap_at named_fs b = 4" using sb bm small_group [of b] by auto
  show "b < 20 \<Longrightarrow> is_free named_fs b \<longleftrightarrow> 8 \<le> b"
    using small_free [of b "dir_disk(2 := inode_block)"] by (simp add: is_free_def bm bk)
qed

lemma named_unlinkable: "unlinkable named_fs 1 2 1"
proof -
  let ?s = "small_inodes dir_disk"
  note f = small_disk_fields [of dir_disk]
  have ad: "iaddrs dir_inode k = iaddrs (node ?s 1) k" if "k < NDIRECT + 1" for k by (rule same_fields_addrs [OF f(1) that])
  have fb: "file_block named_fs (node named_fs 1) ` {..<1} = {5}"
    using same_addrs_content(1) [of dir_inode "node ?s 1" ?s] ad small_dir_block [of ?s] by (simp add: named_same lessThan_Suc)
  have dw: "dir_wf named_fs (node named_fs 1) 1"
    using same_fields_node(4) [OF f(1), of 1] small_dir_wf(1) [of dir_disk] small_dir_fields(1)
    by (simp add: dir_wf_def file_wf_def mapped_def named_same named_medium small_inodes_ok in_log_def)
  have pl: "place_ok named_fs b \<longleftrightarrow> unat b < 20" for b by (simp add: named_same place_ok_def small_inodes_ok)
  have fr: "freeable named_fs [6, 7]"
    using named_bitmap by (simp add: freeable_def pl bit_block_def small_sb_def named_medium small_log_def in_log_def)
  have bb: "bit_block named_fs ` set [6, 7] = {4}" using named_bitmap(2) by (simp add: bit_block_def)
  have nz: "0 < NDIRECT" by (simp add: NDIRECT_def)
  show ?thesis
    using dw fr fb named_bitmap(1,2) named_file(2,4) nz
    by (simp add: unlinkable_def Let_def named_medium(4) pl IBLOCK_2 inode_apart_def small_log_def in_log_def small_sb_def)
qed

theorem sys_unlink_atomic_witness:
  "\<exists>h u. sys_unlink [47, 97] named_fs = Ok 0 u \<and> crash_states named_fs h {named_fs, u}
    \<and> lookup named_fs 1 [97] = Some 2 \<and> lookup u 1 [97] = None \<and> di_type (disk_inode u 2) = 0 \<and> free_blocks u = free_blocks named_fs \<union> {6, 7}"
proof -
  have e: "elems [47, 97] = [[97]]" by (simp add: elems_def SLASH_def)
  have f: "file_entry named_fs {1, 2} 1 (last (elems [47, 97])) 1 2" using named_file(1) by (simp add: e)
  have d: "itype (node named_fs 1) = T_DIR" using named_file(1) by (simp add: file_entry_def node_fields)
  then have tg: "target named_fs True ROOTINO (elems [47, 97]) = Some 1" by (simp add: e target_simps ROOTINO_def)
  have dots: "take DIRSIZ (last (elems [47, 97])) \<notin> {[46], [46, 46]}" by (simp add: e DIRSIZ_def)
  have only: "\<forall>n < dir_count (node named_fs 1). entry_named named_fs (node named_fs 1) [97] n \<longrightarrow> n = 1"
    using small_dir_named named_entry by (simp add: small_dir_fields)
  have "bit_block named_fs ` set [6, 7] = {4}" "trunc_room (node named_fs 2) = {2}"
    using named_bitmap(2) named_file(4) by (simp_all add: bit_block_def trunc_room_def IBLOCK_2)
  then have "unlink_blocks named_fs 2 = 5" using named_file(2) by (simp add: unlink_blocks_def)
  then have room: "unlink_blocks named_fs 2 \<le> NBUF" "int (unlink_blocks named_fs 2) < lsize (thelog named_fs)"
    by (simp_all add: NBUF_def named_medium small_log_def)
  have "\<exists>h u. sys_unlink [47, 97] named_fs = Ok 0 u \<and> crash_states named_fs h {named_fs, u} \<and> lookup u 1 [97] = None
      \<and> di_type (disk_inode u 2) = 0 \<and> free_blocks u = free_blocks named_fs \<union> {6, 7}"
    using sys_unlink_atomic [OF named_tree(1,2) _ named_tree(3,4) _ _ tg dots f named_unlinkable room] only named_tree(5) named_file(2,3)
    by (auto simp: ROOTINO_def deref_def SLASH_def e)
  then show ?thesis using small_lookup by (simp add: named_same)
qed

end
