(* ===== verification/Xv6_Create.thy ===== *)
theory Xv6_Create
  imports Xv6_Unlink
begin

text \<open>
  Creating a file: \<open>sys_open\<close> with \<open>O_CREATE\<close> from the call to the medium. \<open>create\<close> finds and locks the parent directory, looks for the
  name, allocates the first free inode, gives it its fields and writes it, and adds an entry to the directory. The theories
  before have the contracts of these steps; here they are composed, the commit makes them one atomic change, and the name is
  looked up again on the new disk.
\<close>

section \<open>A new inode\<close>

text \<open>The state after the first half of \<open>create_new\<close>: inode \<open>i\<close> is allocated and has its fields, in the cache at \<open>ip\<close> as \<open>z\<close>,
  locked, and on the disk.\<close>

definition fresh_inode :: "u16 \<Rightarrow> u16 \<Rightarrow> u16 \<Rightarrow> u32 \<Rightarrow> inode \<Rightarrow> bool" where
  "fresh_inode type major minor j z \<longleftrightarrow> idev z = ROOTDEV \<and> inum z = j \<and> iref z = 1 \<and> iflags z = 3 \<and> itype z = type \<and> imajor z = major
     \<and> iminor z = minor \<and> inlink z = 1 \<and> isize z = 0 \<and> (\<forall>m < NDIRECT + 1. iaddrs z m = 0)"

definition inode_made :: "'z fsst_scheme \<Rightarrow> u32 \<Rightarrow> nat \<Rightarrow> inode \<Rightarrow> 'z fsst_scheme \<Rightarrow> bool" where
  "inode_made s j ip z t \<longleftrightarrow> within s t \<and> fsst.more t = fsst.more s \<and> ip < NINODE \<and> iref (icache s ip) = 0 \<and> icache t = (icache s)(ip := z)
     \<and> same_fields z (disk_inode t j) \<and> (\<forall>b. b \<noteq> IBLOCK j \<longrightarrow> blk t b = blk s b) \<and> (\<forall>m. m \<noteq> j \<longrightarrow> disk_inode t m = disk_inode s m)"

definition make_inode :: "u16 \<Rightarrow> u16 \<Rightarrow> u16 \<Rightarrow> (nat \<Rightarrow> ('z fsst_scheme, 'a) xm) \<Rightarrow> ('z fsst_scheme, 'a) xm" where
  "make_inode type major minor K =
     bind (ialloc ROOTDEV type) (\<lambda>ip.
     andthen (ilock ip) (
     andthen (upd_inode ip (\<lambda>x. x\<lparr>imajor := major, iminor := minor, inlink := 1\<rparr>)) (
     bind unix_time (\<lambda>now.
     andthen (upd_inode ip (\<lambda>x. x\<lparr>iatime := now, imtime := now, ictime := now\<rparr>)) (
     andthen (iupdate ip)
       (K ip))))))"

lemma within_like: "like s t \<Longrightarrow> txn_inv s \<Longrightarrow> within s t"
  using like_txn [of s t] like_fields(3,6,7) [of s t] by (simp add: within_def lframe_def like_def view_def)

lemma within_ticks [simp]: "within s (t\<lparr>ticks := k\<rparr>) = within s t" "within (s\<lparr>ticks := k\<rparr>) t = within s t"
  by (simp_all add: within_def)

lemma like_more: "like s t \<Longrightarrow> fsst.more t = fsst.more s"
  by (rule lframe_more) (rule like_fields(7))

lemma more_icache [simp]: "fsst.more (s\<lparr>icache := C\<rparr>) = fsst.more s" "fsst.more (s\<lparr>ticks := k\<rparr>) = fsst.more s"
  by (cases s; simp)+

lemma wp_make_inode:
  fixes s :: "'z fsst_scheme"
  assumes r: "ialloc_ready s i" and h: "\<And>k. \<not> in_use (icache s) ROOTDEV (of_nat i) k" and sp: "space s (2 + n)" and ty: "type \<noteq> 0"
    and post: "\<And>t ip z. inode_made s (of_nat i) ip z t \<Longrightarrow> fresh_inode type major minor (of_nat i) z \<Longrightarrow> space t n \<Longrightarrow> wp (K ip) Q t"
  shows "wp (make_inode type major minor K) Q s"
  unfolding make_inode_def wp_bind [of "ialloc _ _"]
proof (rule wp_ialloc_iget [OF r])
  let ?j = "of_nat i :: u32"
  fix u assume u: "logged s (claimed s i type) [IBLOCK ?j] u"
  note lu = loggedD [OF u] and cl = claimed_inode [OF r loggedD(3) [OF u]]
  have rr: "txn_inv s" "icache_ok (icache s)" "\<exists>j < NINODE. iref (icache s j) = 0" "\<not> in_log (thelog s) (IBLOCK ?j)" "1 \<le> i" "readable_now s (IBLOCK ?j)"
    using r by (auto simp: ialloc_ready_def)
  have su: "space u (Suc n)" by (rule logged_space [OF u rr(1)]) (use sp in simp)
  have iu: "icache u = icache s" by (rule logged_icache [OF u])
  have wu: "within s u" by (rule within_logged [OF u])
  have ps: "place_ok s (IBLOCK ?j)" using rr(6) by (simp add: readable_place)
  have pl: "place_ok u (IBLOCK ?j)" using rr(6) within_fields(4) [OF wu] by (simp add: readable_place)
  show "wp (iget ROOTDEV ?j) (\<lambda>ip. wp (andthen (ilock ip) (
     andthen (upd_inode ip (\<lambda>x. x\<lparr>imajor := major, iminor := minor, inlink := 1\<rparr>)) (
     bind unix_time (\<lambda>now.
     andthen (upd_inode ip (\<lambda>x. x\<lparr>iatime := now, imtime := now, ictime := now\<rparr>)) (
     andthen (iupdate ip) (K ip)))))) Q) u"
    unfolding wp_andthen [of "ilock _"]
  proof (rule wp_iget_got)
    show "icache_ok (icache u)" "\<exists>i < NINODE. iref (icache u i) = 0" using rr(2,3) iu by simp_all
    fix ip D assume "got (icache u) ?j ip D"
    then have ip: "ip < NINODE" "iref (icache s ip) = 0" and D: "D = (icache s)(ip := (icache s ip)\<lparr>idev := ROOTDEV, inum := ?j, iref := 1, iflags := 0\<rparr>)"
      using h iu by (auto simp: got_def)
    let ?u = "u\<lparr>icache := D\<rparr>"
    show "wp (ilock ip) (\<lambda>_. wp (andthen (upd_inode ip (\<lambda>x. x\<lparr>imajor := major, iminor := minor, inlink := 1\<rparr>)) (
     bind unix_time (\<lambda>now. andthen (upd_inode ip (\<lambda>x. x\<lparr>iatime := now, imtime := now, ictime := now\<rparr>)) (
     andthen (iupdate ip) (K ip))))) Q) ?u"
    proof (rule wp_ilock_load)
      show "1 \<le> iref (icache ?u ip)" "\<not> bit (iflags (icache ?u ip)) 0" "\<not> bit (iflags (icache ?u ip)) 1" "idev (icache ?u ip) = ROOTDEV"
        by (simp_all add: D)
      show "binv ?u" "readable_now ?u (IBLOCK (inum (icache ?u ip)))" "di_type (disk_inode ?u (inum (icache ?u ip))) \<noteq> 0"
        using lu(1) su pl cl(1) ty by (simp_all add: D txn_inv_def space_readable new_dinode_def disk_inode_def)
      fix v C assume v: "like ?u v" and C: "C = (icache ?u)(ip := (load_inode (disk_inode ?u (inum (icache ?u ip))) (icache ?u ip))
        \<lparr>iflags := iflags (icache ?u ip) OR 1 OR 2\<rparr>)"
      note lv = like_fields [OF v]
      let ?now = "clock v (ticks v)"
      let ?z = "(C ip)\<lparr>imajor := major, iminor := minor, inlink := 1, iatime := ?now, imtime := ?now, ictime := ?now\<rparr>"
      let ?v = "v\<lparr>ticks := Suc (ticks v), icache := (icache s)(ip := ?z)\<rparr>"
      have fz: "fresh_inode type major minor ?j ?z"
        using cl(1) by (simp add: C D fresh_inode_def load_inode_def new_dinode_def disk_inode_def)
      then have z: "inum ?z = ?j" "idev ?z = ROOTDEV" by (simp_all add: fresh_inode_def)
      have wv: "within s ?v" using within_trans [OF wu] within_like [OF v] lu(1) by simp
      note fv = within_fields [OF wv]
      have sv: "space ?v (Suc n)" using su lv by (simp add: space_def)
      have "wp (iupdate ip) (\<lambda>_. wp (K ip) Q) ?v"
      proof (rule wp_iupdate)
        show "txn_inv ?v" "idev (icache ?v ip) = ROOTDEV" using fv(1) z by simp_all
        show "\<not> in_log (thelog ?v) (IBLOCK (inum (icache ?v ip)))" "log_room (thelog ?v) 1"
          using fv(5) rr(4) z sv by (simp_all add: space_def log_room_def)
        show "readable_now ?v (IBLOCK (inum (icache ?v ip)))" unfolding space_readable [OF sv] using fv(4) ps z by simp
        fix t assume t: "logged ?v ((blk ?v)(IBLOCK (inum (icache ?v ip)) :=
            store_inode (blk ?v (IBLOCK (inum (icache ?v ip)))) (unat (inum (icache ?v ip)) mod IPB) (icache ?v ip))) [IBLOCK (inum (icache ?v ip))] t"
        have bt: "blk t = (blk v)(IBLOCK ?j := store_inode (blk v (IBLOCK ?j)) (unat ?j mod IPB) ?z)" using loggedD(3) [OF t] z by simp
        have "inode_made s ?j ip ?z t"
          unfolding inode_made_def
        proof (intro conjI)
          show "within s t" using within_trans [OF wv] within_logged [OF t] by simp
          show "fsst.more t = fsst.more s"
            using lframe_more [OF loggedD(2) [OF t]] like_more [OF v] lframe_more [OF lu(2)] by simp
          show "icache t = (icache s)(ip := ?z)" using logged_icache [OF t] by simp
          show "same_fields ?z (disk_inode t ?j)" by (simp add: disk_inode_def bt same_fields_store)
          show "\<forall>b. b \<noteq> IBLOCK ?j \<longrightarrow> blk t b = blk s b" using bt lv(1) lu(3) by simp
          show "\<forall>m. m \<noteq> ?j \<longrightarrow> disk_inode t m = disk_inode s m" using stored_inode(2) [OF bt] cl(2) lv(1) by (simp add: disk_inode_def)
        qed (use ip in simp_all)
        then show "wp (K ip) Q t" using fz by (rule post) (rule logged_space [OF t fv(1) sv])
      qed
      then show "wp (andthen (upd_inode ip (\<lambda>x. x\<lparr>imajor := major, iminor := minor, inlink := 1\<rparr>)) (
     bind unix_time (\<lambda>now. andthen (upd_inode ip (\<lambda>x. x\<lparr>iatime := now, imtime := now, ictime := now\<rparr>)) (
     andthen (iupdate ip) (K ip))))) Q (v\<lparr>icache := C\<rparr>)"
        by (simp add: wp_simps C D)
    qed
  qed
qed

section \<open>Its name\<close>

text \<open>The second half of \<open>create_new\<close>, for an inode that is not a directory.\<close>

definition link_inode :: "nat \<Rightarrow> mem \<Rightarrow> nat \<Rightarrow> ('z fsst_scheme, nat) xm" where
  "link_inode dp name ip =
     bind (get_inode ip) (\<lambda>x.
     bind (dirlink dp name (inum x)) (\<lambda>r.
     if r < 0 then panic ''create: dirlink''
     else andthen (iunlockput dp) (return ip)))"

lemma andthen_skip: "andthen (unless True g) f = f"
  by (simp add: unless_def andthen_def return_def bind_def fun_eq_iff)

lemma wp_create_new:
  assumes "type \<noteq> T_DIR" "idev (icache s dp) = ROOTDEV"
  shows "wp (create_new dp name type major minor) Q s = wp (make_inode type major minor (link_inode dp name)) Q s"
  using assms by (simp add: create_new_def make_inode_def link_inode_def [abs_def] andthen_skip wp_bind [of "get_inode dp"] wp_get_inode)

text \<open>The directory as the new entry needs it.\<close>

definition link_ready :: "'z fsst_scheme \<Rightarrow> nat \<Rightarrow> nat \<Rightarrow> mem \<Rightarrow> u32 \<Rightarrow> bool" where
  "link_ready s dp N name j \<longleftrightarrow> (let y = icache s dp; B = file_block s y ` {..<N} in
     dir_wf s y N \<and> inode_apart s y N \<and> 64 * free_slot s y + 64 \<le> N * BSIZE \<and> (\<forall>m < dir_count y. \<not> named s y name m)
     \<and> 1 \<le> iref y \<and> bit (iflags y) 0 \<and> inlink y \<noteq> 0 \<and> same_fields y (disk_inode s (inum y)) \<and> inum y \<noteq> j
     \<and> IBLOCK j \<notin> B \<and> (NDIRECT < N \<longrightarrow> IBLOCK j \<noteq> iaddrs y NDIRECT))"

text \<open>The state after \<open>create_new\<close>: the new inode is locked and has a name, the directory is unlocked and its reference given
  back.\<close>

definition made :: "'z fsst_scheme \<Rightarrow> nat \<Rightarrow> nat \<Rightarrow> mem \<Rightarrow> u32 \<Rightarrow> nat \<Rightarrow> inode \<Rightarrow> 'z fsst_scheme \<Rightarrow> bool" where
  "made s dp N name j ip z u \<longleftrightarrow> (let y = icache s dp; x = icache u dp; k = free_slot s y; B = file_block s y ` {..<N} in
     within s u \<and> fsst.more u = fsst.more s \<and> ip \<noteq> dp \<and> ip < NINODE \<and> iref (icache s ip) = 0 \<and> icache u ip = z
     \<and> (\<forall>m. m \<noteq> dp \<and> m \<noteq> ip \<longrightarrow> icache u m = icache s m) \<and> iref x = iref y - 1 \<and> inum x = inum y \<and> iaddrs x = iaddrs y
     \<and> same_fields z (disk_inode u j) \<and> same_fields x (disk_inode u (inum y)) \<and> dir_wf u x N \<and> inode_apart u x N
     \<and> dir_entry u x k = \<lparr>de_inum = ucast j, de_name = strncpy name DIRSIZ\<rparr>
     \<and> (\<forall>m. 64 * m + 64 \<le> N * BSIZE \<and> m \<noteq> k \<longrightarrow> dir_entry u x m = dir_entry s y m) \<and> dir_count x = max (dir_count y) (Suc k)
     \<and> (\<forall>b. b \<notin> B \<and> b \<noteq> IBLOCK (inum y) \<and> b \<noteq> IBLOCK j \<longrightarrow> blk u b = blk s b)
     \<and> (\<forall>m. m \<noteq> inum y \<and> m \<noteq> j \<and> IBLOCK m \<notin> B \<longrightarrow> disk_inode u m = disk_inode s m))"

text \<open>A new inode does not touch the directory.\<close>

lemma inode_made_dir:
  fixes s :: "'z fsst_scheme"
  assumes m: "inode_made s j ip z t" and l: "link_ready s dp N name j"
  shows "ip \<noteq> dp" "icache t dp = icache s dp" "dir_wf t (icache s dp) N" "inode_apart t (icache s dp) N"
    "\<And>n. 64 * n + 64 \<le> N * BSIZE \<Longrightarrow> dir_entry t (icache s dp) n = dir_entry s (icache s dp) n"
    "free_slot t (icache s dp) = free_slot s (icache s dp)" "\<And>n. n < dir_count (icache s dp) \<Longrightarrow> named t (icache s dp) name n = named s (icache s dp) name n"
    "file_block t (icache s dp) ` {..<N} = file_block s (icache s dp) ` {..<N}"
    "same_fields (icache s dp) (disk_inode t (inum (icache s dp)))"
proof -
  let ?y = "icache s dp"
  have lr: "dir_wf s ?y N" "inode_apart s ?y N" "1 \<le> iref ?y" "same_fields ?y (disk_inode s (inum ?y))" "inum ?y \<noteq> j"
    "IBLOCK j \<notin> file_block s ?y ` {..<N}" "NDIRECT < N \<longrightarrow> IBLOCK j \<noteq> iaddrs ?y NDIRECT"
    using l by (simp_all add: link_ready_def Let_def)
  have w: "within s t" and ip: "iref (icache s ip) = 0" and ic: "icache t = (icache s)(ip := z)"
    and bk: "\<And>b. b \<noteq> IBLOCK j \<Longrightarrow> blk t b = blk s b" and di: "\<And>m. m \<noteq> j \<Longrightarrow> disk_inode t m = disk_inode s m"
    using m by (simp_all add: inode_made_def)
  show n: "ip \<noteq> dp" using ip lr(3) by auto
  then show "icache t dp = icache s dp" using ic by simp
  note wf = within_fields [OF w]
  have b: "blk t = (blk s)(IBLOCK j := blk t (IBLOCK j))" using bk by (simp add: fun_eq_iff)
  have fw: "file_wf s ?y N" using lr(1) by (simp add: dir_wf_def)
  note fo = file_other_block [OF fw lr(6,7) b wf(3,2,5)]
  show "dir_wf t ?y N" using lr(1) fo(2) by (simp add: dir_wf_def)
  show fb: "file_block t ?y ` {..<N} = file_block s ?y ` {..<N}" using fo(3) by (intro image_cong) auto
  show "inode_apart t ?y N" using lr(2) fb wf(4,5) by (simp add: inode_apart_def)
  show e: "dir_entry t ?y n = dir_entry s ?y n" if "64 * n + 64 \<le> N * BSIZE" for n
    using fo(1) entry_block [OF that] unfolding dir_entry_def by (intro arg_cong [where f = get_dirent]) (auto simp: fill_def)
  have le: "64 * n + 64 \<le> N * BSIZE" if "n < dir_count ?y" for n
    using entry_range(1) [OF lr(1) that] lr(1) by (simp add: dir_wf_def)
  have "find (\<lambda>k. de_inum (dir_entry t ?y k) = 0) [0..<dir_count ?y] = find (\<lambda>k. de_inum (dir_entry s ?y k) = 0) [0..<dir_count ?y]"
    by (rule find_cong) (auto simp: e le)
  then show "free_slot t ?y = free_slot s ?y" by (simp add: free_slot_def)
  show "named t ?y name n = named s ?y name n" if "n < dir_count ?y" for n using e [OF le [OF that]] by (simp add: named_def)
  show "same_fields ?y (disk_inode t (inum ?y))" using lr(4,5) di by simp
qed

lemma synced_iff: "synced s x \<longleftrightarrow> same_fields x (disk_inode s (inum x))"
proof
  assume "synced s x"
  then show "same_fields x (disk_inode s (inum x))" using same_fields_load [of "disk_inode s (inum x)" x] by (simp add: synced_def)
next
  assume "same_fields x (disk_inode s (inum x))"
  then show "synced s x" by (cases x) (auto simp: synced_def same_fields_def load_inode_def fun_eq_iff)
qed

text \<open>What \<open>dirlink\<close> leaves of the state besides its effect on the directory.\<close>

lemma written_frame:
  fixes s t u :: "'z fsst_scheme"
  assumes t: "like s t" and u: "written t dp N a n g u" and x: "txn_inv s" "same_fields (icache s dp) (disk_inode s (inum (icache s dp)))"
  shows "within s u" "fsst.more u = fsst.more s" "same_fields (icache u dp) (disk_inode u (inum (icache s dp)))"
    "\<And>m. m \<noteq> inum (icache s dp) \<Longrightarrow> IBLOCK m \<notin> file_block s (icache s dp) ` {..<N} \<Longrightarrow> disk_inode u m = disk_inode s m"
    "\<exists>now. icache u dp = (icache s dp)\<lparr>isize := max (isize (icache s dp)) (of_nat (a + n)), imtime := now\<rparr>" "in_image u = in_image s"
proof -
  let ?y = "icache s dp"
  have ic: "icache t = icache s" by (rule like_icache [OF t])
  note l = like_fields [OF t]
  have "within t u" using u by (simp add: written_def within_def)
  then show "within s u" using within_trans [OF within_like [OF t x(1)]] by blast
  show "fsst.more u = fsst.more s" "in_image u = in_image s" using u like_more [OF t] l(4) by (simp_all add: written_def)
  show now: "\<exists>now. icache u dp = ?y\<lparr>isize := max (isize ?y) (of_nat (a + n)), imtime := now\<rparr>" using u ic by (auto simp: written_def)
  have "disk_inode t = disk_inode s" by (simp add: disk_inode_def l(1) fun_eq_iff)
  then have d: "same_fields ?y (disk_inode t (inum ?y))" using x(2) by simp
  then have "synced u (icache u dp)" using u ic by (simp add: written_def synced_iff)
  then show "same_fields (icache u dp) (disk_inode u (inum ?y))" using now by (auto simp: synced_iff)
  show "disk_inode u m = disk_inode s m" if "m \<noteq> inum ?y" "IBLOCK m \<notin> file_block s ?y ` {..<N}" for m
  proof -
    have "file_block t ?y ` {..<N} = file_block s ?y ` {..<N}" by (simp add: like_content(1) [OF t])
    then show ?thesis using u that ic \<open>disk_inode t = disk_inode s\<close> by (simp add: written_def)
  qed
qed

lemma handle_fields:
  "file_block s (x\<lparr>iflags := f, iref := n\<rparr>) = file_block s x" "dir_entry s (x\<lparr>iflags := f, iref := n\<rparr>) = dir_entry s x"
  "dir_wf s (x\<lparr>iflags := f, iref := n\<rparr>) N = dir_wf s x N" "dir_count (x\<lparr>iflags := f, iref := n\<rparr>) = dir_count x"
  "same_fields (x\<lparr>iflags := f, iref := n\<rparr>) di = same_fields x di" "inode_apart s (x\<lparr>iflags := f, iref := n\<rparr>) N = inode_apart s x N"
proof -
  let ?x = "x\<lparr>iflags := f, iref := n\<rparr>"
  have a: "\<And>k. k < NDIRECT + 1 \<Longrightarrow> iaddrs ?x k = iaddrs x k" by simp
  note c = same_addrs_content [OF a]
  show fb: "file_block s ?x = file_block s x" and "dir_entry s ?x = dir_entry s x" by (rule c; simp)+
  have "file_wf s ?x N = file_wf s x N" by (rule c) simp
  then show "dir_wf s ?x N = dir_wf s x N" by (simp add: dir_wf_def)
  show "inode_apart s ?x N = inode_apart s x N" by (simp add: inode_apart_def fb)
qed (simp_all add: dir_count_def same_fields_def)

lemma cache_content:
  fixes s :: "'z fsst_scheme"
  shows "dir_entry (s\<lparr>icache := C\<rparr>) = dir_entry s" "dir_wf (s\<lparr>icache := C\<rparr>) = dir_wf s" "inode_apart (s\<lparr>icache := C\<rparr>) = inode_apart s"
    "disk_inode (s\<lparr>icache := C\<rparr>) = disk_inode s"
  by (intro ext; simp add: dir_entry_def fbyte_def dir_wf_def file_wf_def mapped_def inode_apart_def disk_inode_def)+

lemma wp_link_inode:
  fixes s t :: "'z fsst_scheme"
  assumes m: "inode_made s j ip z t" and l: "link_ready s dp N name j" and z: "inum z = j" and sp: "space t 2"
    and post: "\<And>u. made s dp N name j ip z u \<Longrightarrow> Q ip u"
  shows "wp (link_inode dp name ip) Q t"
proof -
  let ?y = "icache s dp" and ?k = "free_slot s (icache s dp)" and ?B = "file_block s (icache s dp) ` {..<N}"
  note d = inode_made_dir [OF m l]
  have w: "within s t" "fsst.more t = fsst.more s" and ip: "ip < NINODE" "iref (icache s ip) = 0" and ic: "icache t = (icache s)(ip := z)"
    and zj: "same_fields z (disk_inode t j)" and bk: "\<And>b. b \<noteq> IBLOCK j \<Longrightarrow> blk t b = blk s b" and di: "\<And>m. m \<noteq> j \<Longrightarrow> disk_inode t m = disk_inode s m"
    using m by (simp_all add: inode_made_def)
  have lr: "64 * ?k + 64 \<le> N * BSIZE" "\<forall>m < dir_count ?y. \<not> named s ?y name m" "1 \<le> iref ?y" "bit (iflags ?y) 0" "inlink ?y \<noteq> 0" "inum ?y \<noteq> j"
    "IBLOCK j \<notin> ?B"
    using l by (simp_all add: link_ready_def Let_def)
  have it: "inum (icache t ip) = j" using z ic by simp
  have tx: "txn_inv t" by (rule within_fields [OF w(1)])
  have "wp (dirlink dp name j) (\<lambda>r. wp (if r < 0 then panic ''create: dirlink'' else andthen (iunlockput dp) (return ip)) Q) t"
  proof (rule wp_dirlink [where r = 0])
    show "txn_inv t" "icache t dp = ?y" "dir_wf t ?y N" "inode_apart t ?y N" "space t (2 + 0)" "free_slot t ?y = ?k" "64 * ?k + 64 \<le> N * BSIZE"
      "\<forall>m < dir_count ?y. \<not> named t ?y name m"
      using tx d lr sp by simp_all
    fix g h assume g: "like t g" and h: "written g dp N (64 * ?k) 64 (put_dirent \<lparr>de_inum = ucast j, de_name = strncpy name DIRSIZ\<rparr>) h"
    note f = written_frame [OF g h tx, unfolded d(2), OF d(9)]
    have li: "linked_in t dp N name j h" by (rule linked_inI [OF g _ d(2,3)]) (use h d(6) lr(1) in simp_all)
    obtain now where now: "icache h dp = ?y\<lparr>isize := max (isize ?y) (of_nat (64 * ?k + 64)), imtime := now\<rparr>" using f(5) by blast
    let ?x = "(unlocked (icache h dp))\<lparr>iref := iref (icache h dp) - 1\<rparr>"
    let ?u = "h\<lparr>icache := (icache h)(dp := ?x)\<rparr>"
    have ld: "dir_wf h (icache h dp) N" "dir_entry h (icache h dp) ?k = \<lparr>de_inum = ucast j, de_name = strncpy name DIRSIZ\<rparr>"
      "\<And>m. 64 * m + 64 \<le> N * BSIZE \<Longrightarrow> m \<noteq> ?k \<Longrightarrow> dir_entry h (icache h dp) m = dir_entry t ?y m" "dir_count (icache h dp) = max (dir_count ?y) (Suc ?k)"
      "\<And>m. m \<noteq> dp \<Longrightarrow> icache h m = icache t m" "\<And>c. c \<notin> ?B \<Longrightarrow> c \<noteq> IBLOCK (inum ?y) \<Longrightarrow> blk h c = blk t c"
      using li d(6,8) by (auto simp: linked_in_def Let_def d(2))
    have xu: "icache ?u dp = (icache h dp)\<lparr>iflags := iflags (icache h dp) AND - 2, iref := iref (icache h dp) - 1\<rparr>" by simp
    note x = handle_fields [where x = "icache h dp" and f = "iflags (icache h dp) AND - 2" and n = "iref (icache h dp) - 1"]
    have "blk h (iaddrs ?y NDIRECT) = blk t (iaddrs ?y NDIRECT)" if "NDIRECT < N"
      using that l by (intro ld(6)) (auto simp: link_ready_def Let_def dir_wf_def file_wf_def inode_apart_def)
    then have "file_block h (icache h dp) m = file_block t ?y m" if "m < N" for m using that now by (simp add: file_block_def)
    then have fb: "file_block h (icache h dp) ` {..<N} = ?B" unfolding d(8) [symmetric] by (intro image_cong) auto
    have ap: "inode_apart h (icache h dp) N"
      using d(4,8) fb now within_fields(4,5) [OF f(1)] by (simp add: inode_apart_def)
    have "made s dp N name j ip z ?u"
      unfolding made_def Let_def xu x cache_content
    proof (intro conjI)
      show "within s ?u" using within_trans [OF w(1) f(1)] by simp
      show "fsst.more ?u = fsst.more s" using f(2) w(2) by simp
      show "icache ?u ip = z" using ld(5) d(1) ic by simp
      show "\<forall>m. m \<noteq> dp \<and> m \<noteq> ip \<longrightarrow> icache ?u m = icache s m" using ld(5) ic by simp
      show "same_fields z (disk_inode h j)" using f(4) [of j] zj lr(6,7) d(8) by simp
      show "\<forall>m. 64 * m + 64 \<le> N * BSIZE \<and> m \<noteq> ?k \<longrightarrow> dir_entry h (icache h dp) m = dir_entry s ?y m" using ld(3) d(5) by simp
      show "\<forall>b. b \<notin> ?B \<and> b \<noteq> IBLOCK (inum ?y) \<and> b \<noteq> IBLOCK j \<longrightarrow> blk ?u b = blk s b" using ld(6) bk by simp
      show "\<forall>m. m \<noteq> inum ?y \<and> m \<noteq> j \<and> IBLOCK m \<notin> ?B \<longrightarrow> disk_inode h m = disk_inode s m" using f(4) di d(8) by simp
    qed (use d(1) ip now f(3) ld ap in simp_all)
    then have "wp (return ip) Q ?u" by (simp add: wp_return post)
    then show "wp (if (0 :: int) < 0 then panic ''create: dirlink'' else andthen (iunlockput dp) (return ip)) Q h"
      using lr(3-5) now by (simp add: wp_andthen wp_iunlockput_linked dropped_def)
  qed
  then show ?thesis by (simp add: link_inode_def wp_bind wp_get_inode it)
qed

section \<open>Creating a file\<close>

text \<open>What creating a file in directory \<open>d\<close> of \<open>N\<close> blocks needs: room for one more entry in the blocks the directory has, and \<open>i\<close> as
  the first free inode; the blocks that are changed are apart from each other and outside the log.\<close>

definition creatable :: "'z logst_scheme \<Rightarrow> u32 \<Rightarrow> nat \<Rightarrow> nat \<Rightarrow> bool" where
  "creatable s d N i \<longleftrightarrow> (let y = node s d; j = of_nat i in
     dir_wf s y N \<and> inode_apart s y N \<and> 64 * free_slot s y + 64 \<le> N * BSIZE
     \<and> IBLOCK j \<notin> file_block s y ` {..<N} \<and> (NDIRECT < N \<longrightarrow> IBLOCK j \<noteq> iaddrs y NDIRECT \<and> \<not> in_log (thelog s) (iaddrs y NDIRECT))
     \<and> place_ok s 1 \<and> 1 \<le> i \<and> i < unat (sb_ninodes (sb_of s)) \<and> i < 2 ^ 16 \<and> di_type (disk_inode s j) = 0
     \<and> (\<forall>m. 1 \<le> m \<and> m < i \<longrightarrow> di_type (disk_inode s (of_nat m)) \<noteq> 0) \<and> (\<forall>m. 1 \<le> m \<and> m \<le> i \<longrightarrow> place_ok s (IBLOCK (of_nat m)))
     \<and> \<not> in_log (thelog s) (IBLOCK j))"

text \<open>The effect on the disk: a new inode, and an entry for it in the directory; no other inode and no other block is changed.\<close>

definition file_created :: "'z logst_scheme \<Rightarrow> u32 \<Rightarrow> nat \<Rightarrow> byte list \<Rightarrow> u16 \<Rightarrow> u32 \<Rightarrow> 'z logst_scheme \<Rightarrow> bool" where
  "file_created s d N e type j t \<longleftrightarrow> (let y = node s d; x = node t d; k = free_slot s y; B = file_block s y ` {..<N}; z = disk_inode t j in
     di_type z = type \<and> di_nlink z = 1 \<and> di_size z = 0 \<and> (\<forall>m < NDIRECT + 1. di_addrs z m = 0)
     \<and> dir_wf t x N \<and> inode_apart t x N \<and> dir_count x = max (dir_count y) (Suc k) \<and> (\<forall>m < NDIRECT + 1. iaddrs x m = iaddrs y m)
     \<and> de_inum (dir_entry t x k) = ucast j \<and> cname (de_name (dir_entry t x k)) = take DIRSIZ e
     \<and> (\<forall>m. 64 * m + 64 \<le> N * BSIZE \<and> m \<noteq> k \<longrightarrow> dir_entry t x m = dir_entry s y m)
     \<and> (\<forall>b. b \<notin> B \<and> b \<noteq> IBLOCK d \<and> b \<noteq> IBLOCK j \<longrightarrow> blk t b = blk s b)
     \<and> (\<forall>m. m \<noteq> d \<and> m \<noteq> j \<and> IBLOCK m \<notin> B \<longrightarrow> disk_inode t m = disk_inode s m))"

text \<open>The new inode is locked, and its reference is the only one more than before.\<close>

definition new_locked :: "'z fsst_scheme \<Rightarrow> u32 \<Rightarrow> nat \<Rightarrow> 'z fsst_scheme \<Rightarrow> bool" where
  "new_locked s j ip u \<longleftrightarrow> within s u \<and> fsst.more u = fsst.more s \<and> ip < NINODE \<and> same_refs (icache s) (dropped (icache u) ip)
     \<and> inum (icache u ip) = j \<and> idev (icache u ip) = ROOTDEV \<and> iref (icache u ip) = 1 \<and> iflags (icache u ip) = 3 \<and> same_fields (icache u ip) (disk_inode u j)"

lemma not_held:
  assumes "\<not> held_by C0 j" "same_refs C0 (dropped C dp)" "\<forall>k < NINODE. 0 < iref (C0 k) \<longrightarrow> idev (C0 k) = ROOTDEV" "inum (C dp) = d" "inum y = d" "d \<noteq> j"
  shows "\<not> in_use (C(dp := y)) ROOTDEV j k"
proof
  assume k: "in_use (C(dp := y)) ROOTDEV j k"
  then have kd: "k \<noteq> dp" using assms(5,6) by (auto simp: in_use_def)
  then have "in_use C0 ROOTDEV j k" using k assms(2,3) by (auto simp: in_use_def same_refs_def dropped_def split: if_splits)
  with assms(1) show False by (auto simp: held_by_def)
qed

lemma creatable_start:
  fixes s v :: "'z fsst_scheme"
  assumes tx: "txn_inv s" "space s 4" and c: "creatable s d N i" "di_type (disk_inode s d) = T_DIR" "di_nlink (disk_inode s d) \<noteq> 0"
    and s: "coherent s" "two_free (icache s)" "\<not> held_by (icache s) (of_nat i)"
    and p: "parent_locked s d dp t y w" and v: "like w v" and nm: "cname name = take DIRSIZ e" "lookup s d e = None"
  shows "ialloc_ready v i" "\<And>k. \<not> in_use (icache v) ROOTDEV (of_nat i) k" "space v (2 + 2)" "link_ready v dp N name (of_nat i)" "within s v"
    "browsed s v" "icache v = (icache t)(dp := y)" "fsst.more v = fsst.more s"
proof -
  have t: "browsed s t" "coherent t" and dp: "in_use (icache t) ROOTDEV d dp" "same_refs (icache s) (dropped (icache t) dp)"
    and w: "browsed s w" "icache w = (icache t)(dp := y)" and y: "locked_as s (icache t dp) y"
    using p by (simp_all add: parent_locked_def)
  have din: "inum (icache t dp) = d" "dp < NINODE" "1 \<le> iref (icache t dp)" using dp(1) by (simp_all add: in_use_def)
  note ly = locked_sound [OF y, unfolded din]
  show iv: "icache v = (icache t)(dp := y)" using like_icache [OF v] w(2) by simp
  show bv: "browsed s v" using browsed_trans [OF w(1) browsed_like [OF v, of "icache v"]] by simp
  note bf = browsed_fields [OF bv]
  show wv: "within s v" by (rule within_browsed [OF bv tx(1)])
  show sp: "space v (2 + 2)" using tx(2) bf by (simp add: space_def)
  have "like s (v\<lparr>icache := icache s\<rparr>)" using bv by (simp add: browsed_def)
  from like_more [OF this] show "fsst.more v = fsst.more s" by simp
  have dj: "d \<noteq> of_nat i" using c(1,2) by (auto simp: creatable_def Let_def T_DIR_def)
  have dev: "\<forall>q < NINODE. 0 < iref (icache s q) \<longrightarrow> idev (icache s q) = ROOTDEV" using s(1) by (auto simp: coherent_def at_rest_def)
  show "\<not> in_use (icache v) ROOTDEV (of_nat i) k" for k unfolding iv by (rule not_held [OF s(3) dp(2) dev din(1) ly(2) dj])
  have yt: "locked_as t (icache t dp) y" using y browsed_fields(6) [OF t(1)] by (simp add: locked_as_def)
  have ok: "icache_ok (icache v)" unfolding iv by (rule locked_cache_ok [OF t(2) din(2,3) yt])
  have fr: "\<exists>i < NINODE. iref (icache v i) = 0" using free_after_hold [OF dp(2) s(2)] by (auto simp: iv)
  have sb: "sb_of v = sb_of s" by (simp add: sb_of_def bf)
  have rd: "readable_now v b \<longleftrightarrow> place_ok s b" for b using sp bf by (simp add: space_def readable_place)
  show "ialloc_ready v i"
    using c(1) within_fields(1,5) [OF wv] ok fr sp bf by (simp add: ialloc_ready_def creatable_def Let_def rd sb space_def log_room_def)
  note sn = same_fields_node [OF ly(6)]
  have ad: "iaddrs y m = iaddrs (node s d) m" if "m < NDIRECT + 1" for m by (rule same_fields_addrs [OF ly(6) that])
  have fb: "file_block v y = file_block s (node s d)"
  proof -
    have "file_block v y = file_block s y" by (simp add: file_block_def bf fun_eq_iff)
    also have "\<dots> = file_block s (node s d)" by (rule same_addrs_content) (rule ad)
    finally show ?thesis .
  qed
  have fs: "free_slot v y = free_slot s (node s d)" unfolding free_slot_def bf sn(2,3) ..
  have "named v y name = entry_named s (node s d) e" using nm(1) by (simp add: named_def entry_named_def bf sn fun_eq_iff)
  then have ab: "\<forall>m < dir_count y. \<not> named v y name m"
    using nm(2) c(2) sn(2) by (auto simp: lookup_def Let_def node_fields find_None_iff)
  have "inode_apart v y N" using c(1) fb ly(2) ad [of NDIRECT] bf by (simp add: inode_apart_def creatable_def Let_def)
  moreover have "dir_wf v y N" using c(1) sn(4) [OF ly(1)] bf by (simp add: creatable_def Let_def)
  moreover have "inlink y \<noteq> 0" using c(3) ly(6) by (simp add: same_fields_def)
  ultimately show "link_ready v dp N name (of_nat i)"
    unfolding link_ready_def Let_def using c(1) ab fs fb ad [of NDIRECT] ly din dj bf by (simp add: iv creatable_def Let_def)
qed

lemma new_facts:
  fixes s v u :: "'z fsst_scheme"
  assumes p: "parent_locked s d dp t y w" and iv: "browsed s v" "icache v = (icache t)(dp := y)" "fsst.more v = fsst.more s" "within s v"
    and m: "made v dp N name j ip z u" and z: "fresh_inode type major minor j z" and nm: "cname name = take DIRSIZ e"
  shows "new_locked s j ip u" "file_created s d N e type j u"
proof -
  have dp: "in_use (icache t) ROOTDEV d dp" "same_refs (icache s) (dropped (icache t) dp)" and y: "locked_as s (icache t dp) y"
    using p by (simp_all add: parent_locked_def)
  have din: "inum (icache t dp) = d" using dp(1) by (simp_all add: in_use_def)
  note ly = locked_sound [OF y, unfolded din] and bf = browsed_fields [OF iv(1)]
  note sn = same_fields_node [OF ly(6)]
  have yv: "icache v dp = y" "inum y = d" using iv(2) ly(2) by simp_all
  have ad: "iaddrs y n = iaddrs (node s d) n" if "n < NDIRECT + 1" for n by (rule same_fields_addrs [OF ly(6) that])
  have "file_block v y = file_block s y" by (simp add: file_block_def bf fun_eq_iff)
  also have "\<dots> = file_block s (node s d)" by (rule same_addrs_content) (rule ad)
  finally have fb: "file_block v y = file_block s (node s d)" .
  have fs: "free_slot v y = free_slot s (node s d)" unfolding free_slot_def bf sn(2,3) ..
  let ?x = "icache u dp" and ?k = "free_slot s (node s d)"
  have u: "within v u" "fsst.more u = fsst.more v" "ip \<noteq> dp" "ip < NINODE" "iref (icache v ip) = 0" "icache u ip = z"
    "\<And>m. m \<noteq> dp \<Longrightarrow> m \<noteq> ip \<Longrightarrow> icache u m = icache v m" "iref ?x = iref y - 1" "inum ?x = d" "same_fields z (disk_inode u j)" "same_fields ?x (disk_inode u d)"
    "dir_wf u ?x N" "inode_apart u ?x N" "dir_entry u ?x ?k = \<lparr>de_inum = ucast j, de_name = strncpy name DIRSIZ\<rparr>"
    "\<And>m. 64 * m + 64 \<le> N * BSIZE \<Longrightarrow> m \<noteq> ?k \<Longrightarrow> dir_entry u ?x m = dir_entry s (node s d) m" "dir_count ?x = max (dir_count (node s d)) (Suc ?k)"
    "\<And>b. b \<notin> file_block s (node s d) ` {..<N} \<Longrightarrow> b \<noteq> IBLOCK d \<Longrightarrow> b \<noteq> IBLOCK j \<Longrightarrow> blk u b = blk s b"
    "\<And>m. m \<noteq> d \<Longrightarrow> m \<noteq> j \<Longrightarrow> IBLOCK m \<notin> file_block s (node s d) ` {..<N} \<Longrightarrow> disk_inode u m = disk_inode s m" "iaddrs ?x = iaddrs y"
    using m unfolding made_def Let_def yv fb fs bf sn(2,3) by auto
  have fz: "inum z = j" "idev z = ROOTDEV" "iref z = 1" "iflags z = 3" "itype z = type" "inlink z = 1" "isize z = 0" "\<And>n. n < NDIRECT + 1 \<Longrightarrow> iaddrs z n = 0"
    using z by (simp_all add: fresh_inode_def)
  have "same_refs (icache s) (dropped (icache u) ip)"
    unfolding same_refs_def
  proof (intro allI impI)
    fix n assume n: "n < NINODE"
    have "iref (dropped (icache t) dp n) = iref (icache s n) \<and> (iref (icache s n) \<noteq> 0 \<longrightarrow> inum (dropped (icache t) dp n) = inum (icache s n))"
      using dp(2) n by (simp add: same_refs_def)
    then show "iref (dropped (icache u) ip n) = iref (icache s n) \<and> (iref (icache s n) \<noteq> 0 \<longrightarrow> inum (dropped (icache u) ip n) = inum (icache s n))"
      using u(3,5,6,7,8,9) fz(3) iv(2) ly(3) din by (cases "n = dp"; cases "n = ip") (auto simp: dropped_def)
  qed
  then show "new_locked s j ip u"
    using within_trans [OF iv(4) u(1)] u(2,4,6,10) iv(3) fz by (simp add: new_locked_def)
  note su = same_fields_node [OF u(11)]
  have idx: "idev ?x = ROOTDEV" using u(12) by (simp add: dir_wf_def)
  have fbu: "file_block u ?x = file_block u (node u d)" by (rule same_addrs_content) (rule same_fields_addrs [OF u(11)])
  have ax: "iaddrs (node u d) n = iaddrs (node s d) n" if "n < NDIRECT + 1" for n using same_fields_addrs [OF u(11) that] ad [OF that] u(19) by simp
  have "inode_apart u (node u d) N" using u(9,13) fbu same_fields_addrs [OF u(11), of NDIRECT] by (simp add: inode_apart_def)
  moreover have "dir_wf u (node u d) N" using u(12) su(4) [OF idx] by simp
  moreover have "di_type (disk_inode u j) = type" "di_nlink (disk_inode u j) = 1" "di_size (disk_inode u j) = 0" "\<forall>m < NDIRECT + 1. di_addrs (disk_inode u j) m = 0"
    using u(10) fz by (simp_all add: same_fields_def)
  ultimately show "file_created s d N e type j u"
    unfolding file_created_def Let_def su(3) [symmetric] su(2) [symmetric]
    using u(14-18) ax nm cname_strncpy [of name] by simp
qed

section \<open>Looking the name up again\<close>

lemma entry_number:
  assumes "i < 2 ^ 16" "1 \<le> i"
  shows "ucast (ucast (of_nat i :: u32) :: u16) = (of_nat i :: u32)" "ucast (of_nat i :: u32) \<noteq> (0 :: u16)"
proof -
  have u: "unat (of_nat i :: u32) = i" using assms(1) by (simp add: unat_of_nat take_bit_nat_eq_self)
  have n: "unat (ucast (of_nat i :: u32) :: u16) = i" using assms(1) u by (simp add: take_bit_nat_eq_self unsigned_ucast_eq)
  show "ucast (of_nat i :: u32) \<noteq> (0 :: u16)"
  proof
    assume "ucast (of_nat i :: u32) = (0 :: u16)"
    with n show False using assms(2) by simp
  qed
  have "unat (ucast (ucast (of_nat i :: u32) :: u16) :: u32) = i" using n assms(1) by (simp add: take_bit_nat_eq_self unsigned_ucast_eq unsigned_take_bit_eq)
  then show "ucast (ucast (of_nat i :: u32) :: u16) = (of_nat i :: u32)" using u by (simp only: word_unat_eq_iff)
qed

lemma find_snoc: "find P (xs @ [x]) = (case find P xs of None \<Rightarrow> if P x then Some x else None | Some y \<Rightarrow> Some y)"
  by (induction xs) simp_all

lemma find_none_but: "(\<And>m. m < n \<Longrightarrow> P m \<longleftrightarrow> m = k) \<Longrightarrow> k < n \<Longrightarrow> find P [0..<n] = Some k"
  by (rule find_unique) auto

text \<open>The entry \<open>dirlink\<close> takes was free, or it is one more.\<close>

lemma slot_entry:
  assumes "free_slot s y = k"
  shows "k \<le> dir_count y" "k < dir_count y \<Longrightarrow> de_inum (dir_entry s y k) = 0"
  using free_slot_le [of s y] assms by (auto simp: free_slot_def find_Some_iff split: option.splits)

lemma find_with_slot:
  assumes "k \<le> n" "\<not> P k" "\<And>m. m < max n (Suc k) \<Longrightarrow> m \<noteq> k \<Longrightarrow> P' m = P m" "\<not> P' k"
  shows "find P' [0..<max n (Suc k)] = find P [0..<n]"
proof (cases "k = n")
  case True
  have "find P' [0..<n] = find P [0..<n]" using assms(3) True by (intro find_cong) auto
  then show ?thesis using True assms(4) by (simp add: find_snoc split: option.split)
next
  case False
  then have n: "max n (Suc k) = n" using assms(1) by simp
  show ?thesis unfolding n
  proof (rule find_cong)
    fix m assume "m \<in> set [0..<n]"
    then show "P' m = P m" using assms(2,3,4) n by (cases "m = k") auto
  qed simp
qed

text \<open>What a state with the blocks of \<open>t\<close> outside the log sees of the new file.\<close>

lemma created_seen:
  fixes s t u :: "'z fsst_scheme"
  assumes c: "creatable s d N i" and f: "file_created s d N e type (of_nat i) t" and l: "in_log (thelog t) = in_log (thelog s)"
    and u: "\<And>b. \<not> in_log (thelog s) b \<Longrightarrow> blk u b = blk t b" and n: "lookup s d e = None" "di_type (disk_inode s d) = T_DIR"
  shows "lookup u d e = Some (of_nat i)" "take DIRSIZ f \<noteq> take DIRSIZ e \<Longrightarrow> lookup u d f = lookup s d f"
    "disk_inode u (of_nat i) = disk_inode t (of_nat i)"
    "\<lbrakk>m \<noteq> d; m \<noteq> of_nat i; IBLOCK m \<notin> file_block s (node s d) ` {..<N}; \<not> in_log (thelog s) (IBLOCK m)\<rbrakk> \<Longrightarrow> disk_inode u m = disk_inode s m"
proof -
  let ?y = "node s d" and ?x = "node t d" and ?k = "free_slot s (node s d)" and ?j = "of_nat i :: u32"
  have cc: "dir_wf s ?y N" "inode_apart s ?y N" "i < 2 ^ 16" "1 \<le> i" "\<not> in_log (thelog s) (IBLOCK ?j)" "NDIRECT < N \<longrightarrow> \<not> in_log (thelog s) (iaddrs ?y NDIRECT)"
    "64 * ?k + 64 \<le> N * BSIZE"
    using c by (auto simp: creatable_def Let_def)
  have fc: "dir_wf t ?x N" "dir_count ?x = max (dir_count ?y) (Suc ?k)" "\<And>m. m < NDIRECT + 1 \<Longrightarrow> iaddrs ?x m = iaddrs ?y m"
    "de_inum (dir_entry t ?x ?k) = ucast ?j" "cname (de_name (dir_entry t ?x ?k)) = take DIRSIZ e"
    "\<And>m. 64 * m + 64 \<le> N * BSIZE \<Longrightarrow> m \<noteq> ?k \<Longrightarrow> dir_entry t ?x m = dir_entry s ?y m"
    "\<And>m. m \<noteq> d \<Longrightarrow> m \<noteq> ?j \<Longrightarrow> IBLOCK m \<notin> file_block s ?y ` {..<N} \<Longrightarrow> disk_inode t m = disk_inode s m"
    using f by (simp_all add: file_created_def Let_def)
  note en = entry_number [OF cc(3,4)]
  show "disk_inode u ?j = disk_inode t ?j" using u cc(5) by (simp add: disk_inode_def)
  show "disk_inode u m = disk_inode s m" if "m \<noteq> d" "m \<noteq> ?j" "IBLOCK m \<notin> file_block s ?y ` {..<N}" "\<not> in_log (thelog s) (IBLOCK m)"
    using fc(7) [OF that(1-3)] u [OF that(4)] by (simp add: disk_inode_def)
  have "\<not> in_log (thelog s) (IBLOCK d)" using cc(2) by (simp add: inode_apart_def)
  then have nd: "node u d = ?x" using u by (simp add: node_def disk_inode_def)
  have le: "64 * m + 64 \<le> N * BSIZE" if "m < dir_count ?x" for m
    using entry_range(1) [OF fc(1) that] fc(1) by (simp add: dir_wf_def)
  have ent: "dir_entry u ?x m = (if m = ?k then dir_entry t ?x ?k else dir_entry s ?y m)" if "m < dir_count ?x" for m
  proof -
    have "dir_entry u ?x m = dir_entry t ?x m"
    proof (rule dir_entry_frame [OF _ _ le [OF that]])
      show "blk u (file_block t ?x n) = blk t (file_block t ?x n)" if "n < N" for n
        using fc(1) that l by (intro u) (simp add: dir_wf_def file_wf_def)
      show "blk u (iaddrs ?x NDIRECT) = blk t (iaddrs ?x NDIRECT)" if "NDIRECT < N" using cc(6) that fc(3) [of NDIRECT] by (intro u) simp
    qed
    then show ?thesis using fc(6) [OF le [OF that]] by simp
  qed
  have kx: "?k < dir_count ?x" using fc(2) by simp
  have ek: "entry_named u ?x f ?k \<longleftrightarrow> take DIRSIZ f = take DIRSIZ e" for f using ent [OF kx] fc(4,5) en(2) by (auto simp: entry_named_def)
  have em: "entry_named u ?x f m = entry_named s ?y f m" if "m < dir_count ?x" "m \<noteq> ?k" for f m using ent [OF that(1)] that(2) by (simp add: entry_named_def)
  note sl = slot_entry [of s ?y, OF refl]
  have td: "itype ?x = T_DIR" "itype ?y = T_DIR" using fc(1) cc(1) by (simp_all add: dir_wf_def)
  show "lookup u d e = Some ?j"
  proof -
    have none: "\<not> entry_named s ?y e m" if "m < dir_count ?y" for m using n that td by (auto simp: lookup_def Let_def find_None_iff)
    have "find (entry_named u ?x e) [0..<dir_count ?x] = Some ?k"
    proof (rule find_none_but [OF _ kx])
      fix m assume m: "m < dir_count ?x"
      show "entry_named u ?x e m \<longleftrightarrow> m = ?k"
        using ek em [OF m] none [of m] m fc(2) sl(1) by (cases "m = ?k") (auto simp: max_def split: if_splits)
    qed
    then show ?thesis using ent [OF kx] fc(4) en(1) td by (simp add: lookup_def Let_def nd)
  qed
  show "lookup u d f = lookup s d f" if f: "take DIRSIZ f \<noteq> take DIRSIZ e"
  proof -
    have fd: "find (entry_named u ?x f) [0..<dir_count ?x] = find (\<lambda>m. m < dir_count ?y \<and> entry_named s ?y f m) [0..<dir_count ?y]"
      unfolding fc(2)
    proof (rule find_with_slot [OF sl(1)])
      show "\<not> (?k < dir_count ?y \<and> entry_named s ?y f ?k)" using sl(2) by (auto simp: entry_named_def)
      show "entry_named u ?x f m = (m < dir_count ?y \<and> entry_named s ?y f m)" if "m < max (dir_count ?y) (Suc ?k)" "m \<noteq> ?k" for m
        using em [of m] that fc(2) sl(1) by (auto simp: max_def split: if_splits)
      show "\<not> entry_named u ?x f ?k" using ek f by simp
    qed
    also have "\<dots> = find (entry_named s ?y f) [0..<dir_count ?y]" by (rule find_cong) auto
    finally have fd: "find (entry_named u ?x f) [0..<dir_count ?x] = find (entry_named s ?y f) [0..<dir_count ?y]" .
    moreover have "dir_entry u ?x m = dir_entry s ?y m" if "find (entry_named s ?y f) [0..<dir_count ?y] = Some m" for m
    proof -
      have m: "m < dir_count ?y" "entry_named s ?y f m" using that by (auto simp: find_Some_iff)
      then have "m \<noteq> ?k" using sl(2) by (auto simp: entry_named_def)
      then show ?thesis using ent [of m] m(1) fc(2) by simp
    qed
    ultimately show ?thesis
      using td by (cases "find (entry_named s ?y f) [0..<dir_count ?y]") (simp_all add: lookup_def Let_def nd)
  qed
qed

section \<open>The system call\<close>

lemma wp_create_absent:
  fixes s :: "'z fsst_scheme"
  assumes tx: "txn_inv s" "space s 4" and s: "tree_ok s I" "ROOTINO \<in> I" "coherent s" "two_free (icache s)"
    and path: "0 \<notin> set path" "deref path = SLASH" "target s True ROOTINO (elems path) = Some d" and n: "lookup s d (last (elems path)) = None"
    and c: "creatable s d N i" "\<not> held_by (icache s) (of_nat i)" and ty: "type \<noteq> T_DIR" "type \<noteq> 0"
    and post: "\<And>u ip. new_locked s (of_nat i) ip u \<Longrightarrow> file_created s d N (last (elems path)) type (of_nat i) u \<Longrightarrow> Q (Some ip) u"
  shows "wp (create path type major minor) Q s"
  unfolding create_def nameiparent_def wp_bind [of "namex _ _ _"]
proof (rule wp_namex [OF _ _ s path(1,2)])
  show b: "binv s" "card (dirty_at s \<union> busy_at s) < NBUF" using tx by (auto simp: txn_inv_def space_def)
  note d = target_parent [OF path(3) s(1,2)]
  have l: "di_nlink (disk_inode s d) \<noteq> 0" "place_ok s (IBLOCK d)" using s(1) d(1) by (auto simp: tree_ok_def)
  fix r t assume t: "browsed s t" "coherent t" and arr: "arrived (icache s) (target s True ROOTINO (elems path)) True (elems path) r (icache t)"
  obtain dp name where r: "r = Some (dp, name)" and dp: "in_use (icache t) ROOTDEV d dp" "same_refs (icache s) (dropped (icache t) dp)"
    and nm: "cname name = take DIRSIZ (last (elems path))"
    using arr path(3) by (auto simp: arrived_def)
  note bt = browsed_fields [OF t(1)]
  have din: "inum (icache t dp) = d" "1 \<le> iref (icache t dp)" "dp < NINODE" using dp(1) by (simp_all add: in_use_def)
  let ?K = "\<lambda>r. case r of
           Some (ip, off) \<Rightarrow> andthen (iunlockput dp) (andthen (ilock ip) (bind (get_inode ip) (\<lambda>x.
             if type = T_FILE \<and> itype x = T_FILE then return (Some ip) else andthen (iunlockput ip) (return None))))
         | None \<Rightarrow> bind (create_new dp name type major minor) (\<lambda>ip. return (Some ip))"
  have "wp (ilock dp) (\<lambda>_. wp (bind (dirlookup dp name) ?K) Q) t"
  proof (rule wp_ilock_rest [OF bt(1)])
    show "readable_now t (IBLOCK (inum (icache t dp)))" "di_type (disk_inode t (inum (icache t dp))) \<noteq> 0" "1 \<le> iref (icache t dp)" "at_rest t (icache t dp)"
      using l d b(2) din t(2) bt by (auto simp: coherent_def readable_place T_DIR_def)
    fix w y assume w: "browsed t w" "icache w = (icache t)(dp := y)" and y: "locked_as t (icache t dp) y"
    have p: "parent_locked s d dp t y w"
      using t dp w y browsed_trans [OF t(1) w(1)] bt(6) by (simp add: parent_locked_def locked_as_def)
    have ys: "locked_as s (icache t dp) y" using p by (simp add: parent_locked_def)
    note ly = locked_sound [OF ys, unfolded din] and bw = browsed_fields [OF browsed_trans [OF t(1) w(1)]]
    note sn = same_fields_node [OF ly(6)]
    have nw: "named w y name = entry_named s (node s d) (last (elems path))" using nm by (simp add: named_def entry_named_def bw(8) sn(3) fun_eq_iff)
    have none: "\<not> entry_named s (node s d) (last (elems path)) m" if "m < dir_count (node s d)" for m
      using n d(2) that by (auto simp: lookup_def Let_def node_fields find_None_iff)
    show "wp (bind (dirlookup dp name) ?K) Q w"
      unfolding wp_bind [of "dirlookup _ _"]
    proof (rule wp_dirlookup [of w dp y N], unfold nw sn(2) bw(8) sn(3))
      show "binv w" "card (dirty_at w \<union> busy_at w) < NBUF" "icache w dp = y" using bw b(2) w(2) by simp_all
      show "dir_wf w y N" using sn(4) [OF ly(1)] c(1) by (simp add: bw(12) creatable_def Let_def)
    next
      fix v assume v: "like w v"
      note st = creatable_start [OF tx c(1) d(2) l(1) s(3,4) c(2) p v nm n]
      have idv: "idev (icache v dp) = ROOTDEV" using st(7) ly(1) by simp
      have "wp (create_new dp name type major minor) (\<lambda>ip. Q (Some ip)) v"
        unfolding wp_create_new [OF ty(1) idv]
      proof (rule wp_make_inode [OF st(1,2,3) ty(2)])
        fix g ip z assume g: "inode_made v (of_nat i) ip z g" and z: "fresh_inode type major minor (of_nat i) z" and sp: "space g 2"
        show "wp (link_inode dp name ip) (\<lambda>ip. Q (Some ip)) g"
        proof (rule wp_link_inode [OF g st(4) _ sp])
          show "inum z = of_nat i" using z by (simp add: fresh_inode_def)
          fix u assume "made v dp N name (of_nat i) ip z u"
          from new_facts [OF p st(6,7,8,5) this z nm] show "Q (Some ip) u" by (rule post)
        qed
      qed
      then show "wp (?K None) Q v" by (simp add: wp_bind wp_return)
    next
      fix m v assume "m < dir_count (node s d)" "entry_named s (node s d) (last (elems path)) m"
      with none show "wp (iget ROOTDEV (ucast (de_inum (dir_entry s (node s d) m)))) (\<lambda>ip. wp (?K (Some (ip, of_nat (m * 64)))) Q) v" by blast
    qed
  qed
  then show "wp (case r of None \<Rightarrow> return None | Some (dp, name) \<Rightarrow> andthen (ilock dp) (bind (dirlookup dp name) (\<lambda>r. case r of
           Some (ip, off) \<Rightarrow> andthen (iunlockput dp) (andthen (ilock ip) (bind (get_inode ip) (\<lambda>x.
             if type = T_FILE \<and> itype x = T_FILE then return (Some ip) else andthen (iunlockput ip) (return None))))
         | None \<Rightarrow> bind (create_new dp name type major minor) (\<lambda>ip. return (Some ip))))) Q t"
    by (simp add: r wp_andthen)
qed

text \<open>Counting a system call changes none of this.\<close>

lemma begun_create:
  fixes s :: "'z fsst_scheme"
  defines "t \<equiv> s\<lparr>thelog := (thelog s)\<lparr>outstanding := 1\<rparr>\<rparr>"
  shows "creatable t d N i = creatable s d N i" "file_created t d N e type j u = file_created s d N e type j u" "lookup t = lookup s"
    "target t True k es = target s True k es" "tree_ok t I = tree_ok s I" "coherent t = coherent s" "icache t = icache s" "fsst.more t = fsst.more s"
    "disk_inode t = disk_inode s"
proof -
  note b = begun_medium [of s, folded t_def] and m = same_medium [OF begun_medium(1-3) [of s], folded t_def]
  have sb: "sb_of t = sb_of s" by (simp add: sb_of_def m)
  have wf: "dir_wf t = dir_wf s" "inode_apart t = inode_apart s" "free_slot t = free_slot s"
    by (intro ext; simp add: dir_wf_def file_wf_def mapped_def inode_apart_def free_slot_def m b)+
  show "creatable t d N i = creatable s d N i" by (simp add: creatable_def Let_def m b sb wf)
  show "file_created t d N e type j u = file_created s d N e type j u" by (simp add: file_created_def Let_def m wf)
  show "lookup t = lookup s" "disk_inode t = disk_inode s" by (rule m)+
  show "target t True k es = target s True k es" "tree_ok t I = tree_ok s I" "coherent t = coherent s"
    using begun_unlink(4-6) [of s] by (simp_all add: t_def)
  show "icache t = icache s" by (rule b)
  show "fsst.more t = fsst.more s" by (cases s) (simp add: t_def)
qed

section \<open>Properties\<close>

lemma more_ftable: "fsst.more t = fsst.more s \<Longrightarrow> ftable t = ftable s"
  by (cases s; cases t) simp

lemma within_ftable [simp]: "within s (t\<lparr>ftable := F\<rparr>) = within s t"
  by (simp add: within_def)

lemma committed_ftable: "committed s h (u\<lparr>ftable := F\<rparr>) = committed s h u" "crash_states s h {s, u\<lparr>ftable := F\<rparr>} = crash_states s h {s, u}"
  by (simp_all add: committed_def crash_states_def)

text \<open>C5. \<open>sys_open\<close> of a path that does not exist, with \<open>O_CREATE\<close>, makes an empty file and is atomic. The call returns a handle for the
  new file: the first free inode, which is on the disk a file of length 0 with one link and no blocks. In the directory the
  name resolves to it and every other name resolves as before, and besides this inode and the directory nothing is
  changed. All of it is on the disk when the call returns; the handle has the only new reference to an inode, and a crash at
  any point of the writes recovers to the disk before the call or after it.\<close>

theorem sys_create_atomic:
  fixes s :: "'z filest_scheme"
  assumes s: "quiet s" "tree_ok s I" "ROOTINO \<in> I" "coherent s" "two_free (icache s)"
    and path: "0 \<notin> set path" "deref path = SLASH" "target s True ROOTINO (elems path) = Some d" "lookup s d (last (elems path)) = None"
    and c: "creatable s d N i" "\<not> held_by (icache s) (of_nat i)" "4 < lsize (thelog s)"
    and f: "omode AND O_CREATE \<noteq> 0" "free_file (ftable s) = Some f"
  shows "\<exists>h u ip. sys_open path omode s = Ok (Some f) u \<and> committed s h u \<and> crash_states s h {s, u}
    \<and> lookup u d (last (elems path)) = Some (of_nat i)
    \<and> (\<forall>g. take DIRSIZ g \<noteq> take DIRSIZ (last (elems path)) \<longrightarrow> lookup u d g = lookup s d g)
    \<and> di_type (disk_inode u (of_nat i)) = T_FILE \<and> di_nlink (disk_inode u (of_nat i)) = 1 \<and> di_size (disk_inode u (of_nat i)) = 0
    \<and> (\<forall>m < NDIRECT + 1. di_addrs (disk_inode u (of_nat i)) m = 0)
    \<and> (\<forall>m. m \<noteq> d \<and> m \<noteq> of_nat i \<and> IBLOCK m \<notin> file_block s (node s d) ` {..<N} \<and> \<not> in_log (thelog s) (IBLOCK m) \<longrightarrow> disk_inode u m = disk_inode s m)
    \<and> (\<forall>b. b \<notin> file_block s (node s d) ` {..<N} \<and> b \<noteq> IBLOCK d \<and> b \<noteq> IBLOCK (of_nat i) \<and> \<not> in_log (thelog s) b \<longrightarrow> blk u b = blk s b)
    \<and> ftable u = (ftable s)(f := handle omode ip) \<and> in_use (icache u) ROOTDEV (of_nat i) ip \<and> same_refs (icache s) (dropped (icache u) ip)"
proof -
  let ?j = "of_nat i :: u32" and ?e = "last (elems path)"
  let ?R = "\<lambda>v u. v = Some f \<and> (\<exists>h ip t. committed s h u \<and> crash_states s h {s, u} \<and> file_created s d N ?e T_FILE ?j t \<and> in_log (thelog t) = in_log (thelog s)
    \<and> (\<forall>b. \<not> in_log (thelog s) b \<longrightarrow> blk u b = blk t b) \<and> ftable u = (ftable s)(f := handle omode ip) \<and> in_use (icache u) ROOTDEV ?j ip
    \<and> same_refs (icache s) (dropped (icache u) ip))"
  let ?s = "s\<lparr>thelog := (thelog s)\<lparr>outstanding := 1\<rparr>\<rparr>"
  note b = begun_create [of s] and q = quietD [OF s(1)]
  have q': "lh_n (thelog s) = 0" "committing (thelog s) = 0" using s(1) by (simp_all add: quiet_def)
  note m = same_medium [OF begun_medium(1-3) [of s]]
  have sp: "space ?s 4" using c(3) q q' by (simp add: space_def log_room_def m NBUF_def)
  have rest: "wp (open_rest omode (Some ip)) ?R t" if nl: "new_locked ?s ?j ip t" and fc: "file_created s d N ?e T_FILE ?j t" for ip t
  proof -
    have t: "within ?s t" "fsst.more t = fsst.more s" "ip < NINODE" "same_refs (icache s) (dropped (icache t) ip)"
      and z: "inum (icache t ip) = ?j" "idev (icache t ip) = ROOTDEV" "iref (icache t ip) = 1" "iflags (icache t ip) = 3"
      using nl b(7,8) by (simp_all add: new_locked_def)
    have ft: "ftable t = ftable s" by (rule more_ftable [OF t(2)])
    have lt: "in_log (thelog t) = in_log (thelog s)" using within_fields(5) [OF t(1)] begun_medium(5) [of s] by simp
    let ?t = "t\<lparr>ftable := (ftable s)(f := (ftable s f)\<lparr>fref := 1\<rparr>), icache := (icache t)(ip := unlocked (icache t ip))\<rparr>"
    let ?g = "\<lambda>x. x\<lparr>ftype := FD_INODE, fip := ip, foff := 0, readable := (omode AND O_WRONLY = 0),
      writable := (omode AND O_WRONLY \<noteq> 0 \<or> omode AND O_RDWR \<noteq> 0)\<rparr>"
    have ins: "inside s ?t" using t(1) q(2) q' m(3) by (simp add: within_def inside_def same_log_def log_geometry_def)
    have "wp end_op (\<lambda>_ w. ?R (Some f) (w\<lparr>ftable := (ftable w)(f := ?g (ftable w f))\<rparr>)) ?t"
    proof (rule wp_end_op_inside [OF s(1) ins])
      fix u h assume u: "committed s h u" "crash_states s h {s, u}" "lframe ?t u" "\<And>b. \<not> in_log (thelog s) b \<Longrightarrow> blk u b = blk ?t b"
      have iu: "icache u = icache ?t" "ftable u = ftable ?t" using lframe_icache [OF u(3)] lframe_ftable [OF u(3)] by auto
      have "same_refs (icache s) (dropped (icache u) ip)" using t(4) iu(1) by (auto simp: same_refs_def dropped_def)
      moreover have "in_use (icache u) ROOTDEV ?j ip" using iu(1) z t(3) by (simp add: in_use_def)
      moreover have "(ftable u)(f := ?g (ftable u f)) = (ftable s)(f := handle omode ip)" using iu(2) handle_updates [where x = "ftable s f"] by simp
      ultimately show "?R (Some f) (u\<lparr>ftable := (ftable u)(f := ?g (ftable u f))\<rparr>)"
        using u(1,2,4) fc lt by (intro conjI refl exI [of _ h] exI [of _ ip] exI [of _ t]) (simp_all add: committed_ftable)
    qed
    then have "wp (iunlock ip) (\<lambda>_. wp end_op (\<lambda>_ w. ?R (Some f) (w\<lparr>ftable := (ftable w)(f := ?g (ftable w f))\<rparr>)))
        (t\<lparr>ftable := (ftable s)(f := (ftable s f)\<lparr>fref := 1\<rparr>)\<rparr>)"
      using z by (subst wp_iunlock) simp_all
    then show ?thesis using f(2) ft by (simp add: open_rest_def wp_simps wp_filealloc wp_reads)
  qed
  have "wp (sys_open path omode) ?R s"
  proof -
    have "wp (create path T_FILE 0 0) (\<lambda>r. wp (open_rest omode r) ?R) ?s"
      by (rule wp_create_absent [where N = N, OF _ sp, unfolded b, OF _ s(2-5) path c(1,2)])
         (use q(1) rest in \<open>simp_all add: T_DIR_def T_FILE_def\<close>)
    then have "wp begin_op (\<lambda>_. wp (create path T_FILE 0 0) (\<lambda>r. wp (open_rest omode r) ?R)) s" by (rule wp_begin_op_quiet [OF s(1)])
    moreover have "(sys_open path omode :: ('z filest_scheme, nat option) xm) = andthen begin_op (bind (create path T_FILE 0 0) (open_rest omode))"
      using f(1) by (simp add: sys_open_def open_rest_def)
    ultimately show ?thesis by (simp add: wp_andthen wp_bind)
  qed
  then obtain u h ip t where u: "sys_open path omode s = Ok (Some f) u" "committed s h u" "crash_states s h {s, u}" "file_created s d N ?e T_FILE ?j t"
    "in_log (thelog t) = in_log (thelog s)" "\<And>b. \<not> in_log (thelog s) b \<Longrightarrow> blk u b = blk t b" "ftable u = (ftable s)(f := handle omode ip)"
    "in_use (icache u) ROOTDEV ?j ip" "same_refs (icache s) (dropped (icache u) ip)"
    by (auto dest!: wp_Ok)
  have d: "di_type (disk_inode s d) = T_DIR" by (rule target_parent [OF path(3) s(2,3)])
  note cs = created_seen [OF c(1) u(4,5,6) path(4) d]
  show ?thesis
    using u cs by (intro exI [of _ h] exI [of _ u] exI [of _ ip]) (simp add: file_created_def Let_def)
qed

text \<open>The small file system has room for a second file.\<close>

lemma quiet_creatable: "creatable quiet_fs 1 1 3" "lookup quiet_fs 1 [98] = None" "\<not> held_by (icache quiet_fs) 3"
proof -
  let ?s = "small_inodes dir_disk"
  note m = same_medium [OF quiet_fs_fields(1-3)] and f = small_disk_fields [of dir_disk]
  note sn = same_fields_node [OF f(1)]
  have nd: "node quiet_fs = node ?s" by (rule m)
  have fb: "file_block quiet_fs (node quiet_fs 1) ` {..<1} = {5}"
    using same_addrs_content(1) [of dir_inode "node ?s 1" ?s] same_fields_addrs [OF f(1)] small_dir_block [of ?s] by (simp add: m lessThan_Suc)
  have pl: "place_ok quiet_fs b \<longleftrightarrow> unat b < 20" for b by (simp add: m place_ok_def small_inodes_ok)
  have lg: "in_log (thelog quiet_fs) = in_log small_log" by (simp add: quiet_fs_fields in_log_def fun_eq_iff)
  have "dir_wf ?s (node ?s 1) 1" using sn(4) [of 1] small_dir_wf(1) [of dir_disk] small_dir_fields(1) by (simp only:)
  then have dw: "dir_wf quiet_fs (node quiet_fs 1) 1" using geometry_place(3) [of "thelog quiet_fs" "thelog ?s"]
    by (simp add: dir_wf_def file_wf_def mapped_def m lg small_inodes_ok)
  have ap: "inode_apart quiet_fs (node quiet_fs 1) 1"
    unfolding inode_apart_def fb by (simp add: pl lg IBLOCK_2 in_log_def small_log_def NDIRECT_def)
  have "free_slot quiet_fs (node quiet_fs 1) = free_slot ?s dir_inode" unfolding free_slot_def m sn(2,3) ..
  then have sl: "free_slot quiet_fs (node quiet_fs 1) = 0" using small_dir_slot by simp
  have sb: "sb_ninodes (sb_of quiet_fs) = 64" by (simp add: sb_of_def m small_inodes_ok small_disk_def get_put_sb small_sb_def)
  have ty: "di_type (disk_inode quiet_fs 1) = T_DIR" "di_type (disk_inode quiet_fs 2) = T_FILE" "di_type (disk_inode quiet_fs 3) = 0"
    unfolding m small_inode_types stored_type
    by (simp_all add: dir_inode_def file_inode_def get_dinode_def get16_def zero_block_def Let_def)
  have j: "Suc 0 \<le> j \<and> j < 3 \<longleftrightarrow> j = 1 \<or> j = 2" "Suc 0 \<le> j \<and> j \<le> 3 \<longleftrightarrow> j = 1 \<or> j = 2 \<or> j = 3" for j :: nat by auto
  have ib: "IBLOCK 3 = 2" by (simp add: IBLOCK_def IPB_def)
  show "creatable quiet_fs 1 1 3"
    unfolding creatable_def Let_def fb sl
    using dw ap ty by (simp add: j pl sb lg ib IBLOCK_2 in_log_def small_log_def NDIRECT_def BSIZE_def T_DIR_def T_FILE_def)
  have "take DIRSIZ [98 :: byte] = [98]" by (simp add: DIRSIZ_def)
  then have "\<not> entry_named ?s dir_inode [98] k" if "k < 2" for k
    using that small_dir_entries by (auto simp: entry_named_def cname_strncpy cname_name_a less_Suc_eq numeral_2_eq_2)
  then have "find (entry_named ?s dir_inode [98]) [0..<dir_count dir_inode] = None" by (simp add: find_None_iff small_dir_fields)
  then show "lookup quiet_fs 1 [98] = None" using lookup_find [OF f(1)] by (simp add: m small_dir_fields)
  show "\<not> held_by (icache quiet_fs) 3"
    by (auto simp: held_by_def in_use_def quiet_fs_fields small_inodes_ok free_inode_def dir_inode_def file_inode_def split: if_splits)
qed

theorem sys_create_atomic_witness:
  "\<exists>h u ip. sys_open [47, 98] O_CREATE quiet_fs = Ok (Some 0) u \<and> crash_states quiet_fs h {quiet_fs, u} \<and> lookup u 1 [98] = Some 3
    \<and> lookup u 1 [97] = Some 2 \<and> di_type (disk_inode u 3) = T_FILE \<and> di_size (disk_inode u 3) = 0 \<and> in_use (icache u) ROOTDEV 3 ip"
proof -
  have e: "elems [47, 98] = [[98]]" by (simp add: elems_def SLASH_def)
  have d: "itype (node quiet_fs 1) = T_DIR" using quiet_creatable(1) by (simp add: creatable_def Let_def dir_wf_def)
  then have tg: "target quiet_fs True ROOTINO (elems [47, 98]) = Some 1" by (simp add: e target_simps ROOTINO_def)
  have lk: "lookup quiet_fs 1 (last (elems [47, 98])) = None" using quiet_creatable(2) by (simp add: e)
  have h3: "\<not> held_by (icache quiet_fs) (of_nat 3)" and ls: "4 < lsize (thelog quiet_fs)"
    using quiet_creatable(3) by (simp_all add: quiet_fs_fields small_log_def)
  have a: "lookup quiet_fs 1 [97] = Some 2" using quiet_fs_ok(5) by (simp add: ROOTINO_def split: option.splits)
  have t: "take DIRSIZ [97 :: byte] \<noteq> take DIRSIZ [98]" by (simp add: DIRSIZ_def)
  show ?thesis
    using sys_create_atomic [OF quiet_fs_ok(1,2) _ quiet_fs_ok(3,4) _ _ tg lk quiet_creatable(1) h3 ls _ quiet_fs_ok(6), of O_CREATE] a t
    by (force simp: ROOTINO_def deref_def SLASH_def e O_CREATE_def)
qed

end
