(* ===== verification/Xv6_Append.thy ===== *)
theory Xv6_Append
  imports Xv6_Unlink
begin

text \<open>
  Writing behind the blocks a file has: \<open>sys_write\<close> from the call to the medium when the data end in the block after the
  last one. \<open>writei\<close> overwrites the old blocks, \<open>bmap\<close> takes the first free block of the bitmap and enters it into the
  inode, the rest of the data goes there, and \<open>iupdate\<close> writes the inode back, all in one transaction. A crash leaves the
  file as it was, with the block free, or the longer file that has the block.
\<close>

section \<open>A new block\<close>

text \<open>The inode with block \<open>b\<close> as its direct block \<open>N\<close>.\<close>

definition extended :: "inode \<Rightarrow> nat \<Rightarrow> nat \<Rightarrow> inode" where
  "extended x N b = x\<lparr>iaddrs := (iaddrs x)(N := of_nat b)\<rparr>"

lemma extended_fields [simp]:
  "idev (extended x N b) = idev x" "inum (extended x N b) = inum x" "isize (extended x N b) = isize x" "itype (extended x N b) = itype x"
  "iref (extended x N b) = iref x" "iflags (extended x N b) = iflags x" "iaddrs (extended x N b) = (iaddrs x)(N := of_nat b)"
  by (simp_all add: extended_def)








section \<open>\<open>writei\<close> into the new block\<close>







section \<open>The system call\<close>


lemma in_call_tables [simp]:
  "sb_of (in_call s ip) = sb_of s" "bitmap_at (in_call s ip) = bitmap_at s" "is_free (in_call s ip) = is_free s" "place_ok (in_call s ip) = place_ok s"
  "free_blocks (in_call s ip) = free_blocks s"
  by (simp_all add: sb_of_def bitmap_at_def is_free_def place_ok_def free_blocks_def fun_eq_iff)












end
