(* ===== verification/Bench_Posix.thy ===== *)
theory Bench_Posix
  imports C_Loop
begin

text \<open>
  What the benchmark programs under \<open>src/bench\<close> see of the host: they only make calls and look at the results. The state of a
  program is the list of the calls it has made, and the host is a parameter that answers each call, depending on all calls before. So a
  theorem for every host holds whatever the file system, the clock and the random numbers do, and documented behaviour of a call is a
  condition on the answers.
\<close>

section \<open>Calls\<close>

datatype open_flag = RDONLY | WRONLY | RDWR | CREAT | TRUNC | EXCL | DIRECTORY

text \<open>Files are named by paths and by the descriptors \<open>open\<close> returns; \<open>Write_to\<close> has the bytes that are written, \<open>Pwrite\<close> also their offset, \<open>Read_from\<close> the number of bytes
  asked for. \<open>Print\<close> is the format and the integers of an output.\<close>

datatype oscall =
    Open string "open_flag list"
  | Close int
  | Read_from int int
  | Write_to int "byte list"
  | Pwrite int "byte list" int
  | Stat string
  | Lseek int int
  | Fsync int
  | Fdatasync int
  | Unlink string
  | Rename string string
  | Mkdir string
  | Umask nat
  | Gettimeofday
  | Random
  | Srandom int
  | Getpid
  | Malloc int
  | Run string
  | Print string "int list"

text \<open>The host: the integer results, the clock in seconds and microseconds, and the bytes \<open>read\<close> stores.\<close>

record posix =
  answer :: "oscall list \<Rightarrow> oscall \<Rightarrow> int"
  clock :: "oscall list \<Rightarrow> int \<times> int"
  input :: "oscall list \<Rightarrow> byte list"

type_synonym 'a prog = "(oscall list, 'a) xm"

definition sys :: "posix \<Rightarrow> oscall \<Rightarrow> int prog" where
  "sys P c = (\<lambda>h. Ok (answer P h c) (h @ [c]))"

definition now :: "posix \<Rightarrow> (int \<times> int) prog" where
  "now P = (\<lambda>h. Ok (clock P h) (h @ [Gettimeofday]))"

text \<open>The result of \<open>read\<close> and the bytes it stored.\<close>

definition sys_input :: "posix \<Rightarrow> int \<Rightarrow> int \<Rightarrow> (int \<times> byte list) prog" where
  "sys_input P fd n = (\<lambda>h. Ok (answer P h (Read_from fd n), input P h) (h @ [Read_from fd n]))"

text \<open>The difference of two times in microseconds, and the conversion of an \<open>u_long\<close> to the \<open>int\<close> a function returns.\<close>

definition elapsed :: "int \<times> int \<Rightarrow> int \<times> int \<Rightarrow> int" where
  "elapsed before end = (fst end - fst before) * 1000000 + (snd end - snd before)"

definition to_int :: "int \<Rightarrow> int" where
  "to_int x = sint (word_of_int x :: u32)"

text \<open>The sum and the product of two \<open>int\<close> values.\<close>

definition int_range :: "int \<Rightarrow> bool" where
  "int_range x \<longleftrightarrow> - (2 ^ 31) \<le> x \<and> x < 2 ^ 31"

definition checked :: "int \<Rightarrow> int prog" where
  "checked x = (if int_range x then return x else fail (Undef ''int overflow''))"

lemma wp_sys [wp_simps]: "wp (sys P c) Q h = Q (answer P h c) (h @ [c])"
  by (simp add: wp_def sys_def)

lemma wp_now [wp_simps]: "wp (now P) Q h = Q (clock P h) (h @ [Gettimeofday])"
  by (simp add: wp_def now_def)

lemma wp_sys_input [wp_simps]: "wp (sys_input P fd n) Q h = Q (answer P h (Read_from fd n), input P h) (h @ [Read_from fd n])"
  by (simp add: wp_def sys_input_def)

lemma wp_checked [wp_simps]: "wp (checked x) Q h = (int_range x \<and> Q x h)"
  by (simp add: checked_def wp_simps)

section \<open>The statistics of the file system (stats.c)\<close>

text \<open>A \<open>char\<close> array of \<open>n\<close> elements, all zero, into which \<open>read\<close> has stored \<open>r\<close> bytes. To print it as a string it
  must have a terminating zero.\<close>

definition filled :: "int \<Rightarrow> byte list \<Rightarrow> int \<Rightarrow> byte list" where
  "filled n bs r = take (nat r) bs @ replicate (nat n - min (nat r) (length bs)) 0"

definition put_string :: "byte list \<Rightarrow> unit prog" where
  "put_string buf = (if 0 \<in> set buf then return () else fail (Undef ''string without end''))"

text \<open>\<open>sprintf\<close> of a path into an array of \<open>n\<close> elements.\<close>

definition store_path :: "int \<Rightarrow> string \<Rightarrow> string prog" where
  "store_path n path = (if int (length path) < n then return path else fail (Undef ''name overflows''))"

text \<open>The function is written several times, with buffers of different sizes; only that of \<open>stats.c\<close> reports a failing
  \<open>open\<close>. It returns the content of the buffer, which other functions use too; \<open>old\<close> is its content before.\<close>

definition stats_of :: "posix \<Rightarrow> int \<Rightarrow> int \<Rightarrow> bool \<Rightarrow> string \<Rightarrow> bool \<Rightarrow> byte list \<Rightarrow> byte list prog" where
  "stats_of P namesize bufsize complain dir reset old =
     bind (store_path namesize (dir @ ''/stats'')) (\<lambda>name.
     bind (sys P (Open name [RDONLY])) (\<lambda>fd.
     if fd < 0 then andthen (if complain then andthen (sys P (Print ''open stats'' [])) (return ()) else return ()) (return old)
     else
       bind (sys_input P fd bufsize) (\<lambda>(r, bs).
       if r < 0 then fail (Exit ''read'')
       else
         let buf = filled bufsize bs r in
         andthen (if reset then return () else
           andthen (put_string buf) (andthen (sys P (Print ''=== FS Stats ==='' [])) (return ()))) (
         bind (sys P (Close fd)) (\<lambda>r.
         andthen (if r < 0 then andthen (sys P (Print ''close'' [])) (return ()) else return ())
           (return buf))))))"

definition BUFSIZE :: int where
  "BUFSIZE = 1024"

definition printstats :: "posix \<Rightarrow> string \<Rightarrow> bool \<Rightarrow> unit prog" where
  "printstats P fs reset = andthen (stats_of P BUFSIZE BUFSIZE True fs reset (replicate (nat BUFSIZE) 0)) (return ())"

section \<open>What the calls do to a file\<close>

text \<open>The offset and the content of the file behind a descriptor after the calls, if every call transferred what it was asked for: this
  is the behaviour POSIX documents for \<open>lseek\<close>, \<open>write\<close> and \<open>read\<close>. A byte that was not written is \<open>None\<close>.\<close>

fun effect :: "int \<Rightarrow> oscall \<Rightarrow> nat \<times> (nat \<Rightarrow> byte option) \<Rightarrow> nat \<times> (nat \<Rightarrow> byte option)" where
  "effect fd (Lseek f off) (p, m) = (if f = fd then (nat off, m) else (p, m))"
| "effect fd (Write_to f bs) (p, m) = (if f = fd
     then (p + length bs, \<lambda>k. if p \<le> k \<and> k < p + length bs then Some (bs ! (k - p)) else m k) else (p, m))"
| "effect fd (Pwrite f bs off) (p, m) = (if f = fd
     then (p, \<lambda>k. if nat off \<le> k \<and> k < nat off + length bs then Some (bs ! (k - nat off)) else m k) else (p, m))"
| "effect fd (Read_from f n) (p, m) = (if f = fd then (p + nat n, m) else (p, m))"
| "effect fd _ pm = pm"

definition file_after :: "int \<Rightarrow> oscall list \<Rightarrow> nat \<times> (nat \<Rightarrow> byte option)" where
  "file_after fd h = fold (effect fd) h (0, \<lambda>_. None)"

lemma file_after_snoc [simp]: "file_after fd (h @ [c]) = effect fd c (file_after fd h)"
  by (simp add: file_after_def)

text \<open>A host on which memory is never short and every transfer is complete.\<close>

definition complete :: "posix \<Rightarrow> bool" where
  "complete P \<longleftrightarrow> (\<forall>h fd bs n off. answer P h (Write_to fd bs) = int (length bs) \<and> answer P h (Read_from fd n) = n
     \<and> (0 \<le> off \<longrightarrow> answer P h (Lseek fd off) = off) \<and> answer P h (Malloc n) \<noteq> 0)"

end
