(* ===== verification/Bench_Large.thy ===== *)
theory Bench_Large
  imports Bench_Posix "HOL-Library.Multiset"
begin

text \<open>
  The benchmark \<open>bench/LFStest/largefile.c\<close>: sequential and random transfers of a large file. The order of the random transfers is
  computed by picking unused elements of an array; the lemmas show that it is a permutation of the pieces of the file, and that the
  transfers cover the file if the size of a piece divides its size.
\<close>

section \<open>Transfers\<close>

definition ONE_KB :: int where
  "ONE_KB = 1024"

definition ONE_MB :: int where
  "ONE_MB = 1024 * ONE_KB"

definition FILE_SIZE :: int where
  "FILE_SIZE = 100 * ONE_MB"

definition IO_SIZE :: int where
  "IO_SIZE = 256 * ONE_KB"

text \<open>The buffer after \<open>buffer[i] = (char) i\<close>, and the number of bytes of the next transfer.\<close>

definition fill_buffer :: "int \<Rightarrow> byte list" where
  "fill_buffer ioSize = map of_nat [0..<nat ioSize]"

definition amount :: "int \<Rightarrow> int \<Rightarrow> int \<Rightarrow> int" where
  "amount fileSize ioSize ioCount = (if ioSize \<le> fileSize - ioCount then ioSize else fileSize - ioCount)"

text \<open>\<open>seq_write\<close> and \<open>seq_read\<close>; \<open>overhead\<close> is the global variable \<open>timer_overhead\<close>. The loops carry \<open>ioCount\<close>.\<close>

definition seq_write_step :: "posix \<Rightarrow> int \<Rightarrow> int \<Rightarrow> int \<Rightarrow> int \<Rightarrow> int prog" where
  "seq_write_step P fd fileSize ioSize ioCount =
     (let amt = amount fileSize ioSize ioCount in
     bind (sys P (Write_to fd (take (nat amt) (fill_buffer ioSize)))) (\<lambda>rval.
     if rval = - 1 then fail (Exit ''write() failed'')
     else
       andthen (if rval \<noteq> amt then andthen (sys P (Print ''Short write in seq_write().  %d bytes'' [rval])) (return ()) else return ())
         (checked (ioCount + rval))))"

definition seq_write :: "posix \<Rightarrow> int \<Rightarrow> int \<Rightarrow> int \<Rightarrow> int \<Rightarrow> int prog" where
  "seq_write P overhead fd fileSize ioSize =
     bind (sys P (Malloc ioSize)) (\<lambda>buffer.
     if buffer = 0 then fail (Exit ''malloc() failed'')
     else
       bind (sys P (Lseek fd 0)) (\<lambda>rval.
       if rval = - 1 then fail (Exit ''lseek() failed'')
       else
         bind (now P) (\<lambda>before.
         andthen (cwhile (\<lambda>ioCount. ioCount < fileSize) (seq_write_step P fd fileSize ioSize) 0) (
         andthen (sys P (Fsync fd)) (
         bind (now P) (\<lambda>end. return (to_int (elapsed before end - overhead))))))))"

definition seq_read_step :: "posix \<Rightarrow> int \<Rightarrow> int \<Rightarrow> int \<Rightarrow> int \<Rightarrow> int prog" where
  "seq_read_step P fd fileSize ioSize ioCount =
     (let amt = amount fileSize ioSize ioCount in
     bind (sys P (Read_from fd amt)) (\<lambda>rval.
     if rval = - 1 then fail (Exit ''read() failed'')
     else
       andthen (if rval \<noteq> amt then andthen (sys P (Print ''Short read in seq_read().  %d bytes'' [rval])) (return ()) else return ())
         (checked (ioCount + rval))))"

definition seq_read :: "posix \<Rightarrow> int \<Rightarrow> int \<Rightarrow> int \<Rightarrow> int \<Rightarrow> int prog" where
  "seq_read P overhead fd fileSize ioSize =
     bind (sys P (Malloc ioSize)) (\<lambda>buffer.
     if buffer = 0 then fail (Exit ''malloc() failed'')
     else
       bind (sys P (Lseek fd 0)) (\<lambda>rval.
       if rval = - 1 then fail (Exit ''lseek() failed'')
       else
         bind (now P) (\<lambda>before.
         andthen (cwhile (\<lambda>ioCount. ioCount < fileSize) (seq_read_step P fd fileSize ioSize) 0) (
         bind (now P) (\<lambda>end. return (to_int (elapsed before end - overhead)))))))"

section \<open>The order of the random transfers\<close>

text \<open>The inner loop: the first unused element of \<open>seekArray\<close> after \<open>seekLocation\<close> unused ones; \<open>None\<close> is an access behind
  the array.\<close>

function find_slot :: "bool list \<Rightarrow> nat \<Rightarrow> nat \<Rightarrow> nat option" where
  "find_slot seekArray seekLocation j =
     (if length seekArray \<le> j then None
      else if seekArray ! j \<or> 0 < seekLocation then
        find_slot seekArray (if seekArray ! j then seekLocation else seekLocation - 1) (Suc j)
      else Some j)"
  by auto
termination
  by (relation "measure (\<lambda>(used, _, j). length used - j)") auto

declare find_slot.simps [simp del]

text \<open>The outer loop, for \<open>i\<close> from \<open>nLocs\<close> down to 1: the elements it appends to \<open>seekOrder\<close>. \<open>random() % i\<close> of a negative
  number is not positive and is treated like 0 by the inner loop.\<close>

fun seek_order :: "posix \<Rightarrow> nat \<Rightarrow> bool list \<Rightarrow> nat list prog" where
  "seek_order P 0 seekArray = return []"
| "seek_order P (Suc i) seekArray =
     bind (sys P Random) (\<lambda>r.
     case find_slot seekArray (if r < 0 then 0 else nat (r mod int (Suc i))) 0 of
       None \<Rightarrow> fail (Undef ''seekArray'')
     | Some j \<Rightarrow>
         bind (seek_order P i (seekArray[j := True])) (\<lambda>order.
         return (j # order)))"

text \<open>The allocation of the two arrays is not checked: a null pointer is dereferenced unless they are empty.\<close>

definition make_order :: "posix \<Rightarrow> int \<Rightarrow> int \<Rightarrow> nat list prog" where
  "make_order P fileSize ioSize =
     (let nLocs = nat (fileSize div ioSize) in
     bind (sys P (Malloc (int nLocs))) (\<lambda>seekArray.
     bind (sys P (Malloc (int nLocs * 4))) (\<lambda>seekOrder.
     if 0 < nLocs \<and> (seekArray = 0 \<or> seekOrder = 0) then fail (Undef ''null pointer'')
     else seek_order P nLocs (replicate nLocs False))))"

section \<open>Random transfers\<close>

text \<open>The loops carry \<open>ioCount\<close> and \<open>seekLocation\<close>.\<close>

definition rand_seek :: "posix \<Rightarrow> int \<Rightarrow> int \<Rightarrow> nat list \<Rightarrow> nat \<Rightarrow> unit prog" where
  "rand_seek P fd ioSize seekOrder seekLocation =
     (if length seekOrder \<le> seekLocation then fail (Undef ''seekOrder'')
      else
        bind (checked (int (seekOrder ! seekLocation) * ioSize)) (\<lambda>off.
        bind (sys P (Lseek fd off)) (\<lambda>rval.
        if rval = - 1 then fail (Exit ''lseek() failed'') else return ())))"

definition rand_write_step :: "posix \<Rightarrow> int \<Rightarrow> int \<Rightarrow> int \<Rightarrow> nat list \<Rightarrow> int \<times> nat \<Rightarrow> (int \<times> nat) prog" where
  "rand_write_step P fd fileSize ioSize seekOrder = (\<lambda>(ioCount, seekLocation).
     andthen (rand_seek P fd ioSize seekOrder seekLocation) (
     let amt = amount fileSize ioSize ioCount in
     bind (sys P (Write_to fd (take (nat amt) (fill_buffer ioSize)))) (\<lambda>rval.
     if rval = - 1 then fail (Exit ''write() failed'')
     else
       andthen (if rval \<noteq> amt then andthen (sys P (Print ''Short write in rand_write().  %d bytes'' [rval])) (return ()) else return ()) (
       bind (checked (ioCount + rval)) (\<lambda>ioCount.
       andthen (sys P (Fdatasync fd))
         (return (ioCount, Suc seekLocation)))))))"

definition rand_write :: "posix \<Rightarrow> int \<Rightarrow> int \<Rightarrow> int \<Rightarrow> int \<Rightarrow> int prog" where
  "rand_write P overhead fd fileSize ioSize =
     bind (sys P (Malloc ioSize)) (\<lambda>buffer.
     if buffer = 0 then fail (Exit ''malloc() failed'')
     else
       bind (make_order P fileSize ioSize) (\<lambda>seekOrder.
       bind (now P) (\<lambda>before.
       andthen (mfor [0..<64] (\<lambda>iter.
         andthen (cwhile (\<lambda>(ioCount, _). ioCount < fileSize) (rand_write_step P fd fileSize ioSize seekOrder) (0, 0)) (return ()))) (
       andthen (sys P (Fsync fd)) (
       bind (now P) (\<lambda>end. return (to_int (elapsed before end - overhead))))))))"

definition rand_read_step :: "posix \<Rightarrow> int \<Rightarrow> int \<Rightarrow> int \<Rightarrow> nat list \<Rightarrow> int \<times> nat \<Rightarrow> (int \<times> nat) prog" where
  "rand_read_step P fd fileSize ioSize seekOrder = (\<lambda>(ioCount, seekLocation).
     let amt = amount fileSize ioSize ioCount in
     andthen (rand_seek P fd ioSize seekOrder seekLocation) (
     bind (sys P (Read_from fd amt)) (\<lambda>rval.
     if rval = - 1 then fail (Exit ''read() failed'')
     else
       andthen (if rval \<noteq> amt then andthen (sys P (Print ''Short read in seq_read().  %d bytes'' [rval])) (return ()) else return ()) (
       bind (checked (ioCount + rval)) (\<lambda>ioCount.
         return (ioCount, Suc seekLocation))))))"

definition rand_read :: "posix \<Rightarrow> int \<Rightarrow> int \<Rightarrow> int \<Rightarrow> int \<Rightarrow> int prog" where
  "rand_read P overhead fd fileSize ioSize =
     bind (sys P (Malloc ioSize)) (\<lambda>buffer.
     if buffer = 0 then fail (Exit ''malloc() failed'')
     else
       bind (make_order P fileSize ioSize) (\<lambda>seekOrder.
       bind (now P) (\<lambda>before.
       andthen (cwhile (\<lambda>(ioCount, _). ioCount < fileSize) (rand_read_step P fd fileSize ioSize seekOrder) (0, 0)) (
       bind (now P) (\<lambda>end. return (to_int (elapsed before end - overhead)))))))"

section \<open>The program\<close>

text \<open>\<open>getopt\<close> and \<open>atoi\<close> are library code: the options are given as their characters with the numbers of their arguments. \<open>fileSize\<close>
  is a \<open>long\<close>, but it is computed as an \<open>int\<close>.\<close>

fun options :: "posix \<Rightarrow> (char \<times> int) list \<Rightarrow> int \<times> int \<times> int \<Rightarrow> (int \<times> int \<times> int) prog" where
  "options P [] r = return r"
| "options P ((ch, n) # os) (fileSize, ioSize, seed) =
     (if ch = CHR ''f'' then bind (checked (n * ONE_MB)) (\<lambda>v. options P os (v, ioSize, seed))
      else if ch = CHR ''i'' then bind (checked (n * ONE_KB)) (\<lambda>v. options P os (fileSize, v, seed))
      else if ch = CHR ''s'' then options P os (fileSize, ioSize, n)
      else andthen (sys P (Print ''Usage:  largefile [-f file_size] [-i IO_size] test_directory'' [])) (fail (Exit ''usage'')))"

definition NTEST :: nat where
  "NTEST = 100000"

text \<open>The time of one call of the clock: the division of C rounds towards zero.\<close>

definition measure_overhead :: "posix \<Rightarrow> int prog" where
  "measure_overhead P =
     bind (now P) (\<lambda>before.
     andthen (mfor [0..<NTEST] (\<lambda>i. andthen (now P) (return ()))) (
     bind (now P) (\<lambda>end.
     let t = to_int (elapsed before end) in
     return (sgn t * (\<bar>t\<bar> div int NTEST)))))"

text \<open>A line of the table: the times and the throughput are computed in floating point from these numbers.\<close>

definition report :: "posix \<Rightarrow> string \<Rightarrow> int \<Rightarrow> int \<Rightarrow> unit prog" where
  "report P test usec fileSize = andthen (sys P (Print test [usec, fileSize])) (return ())"

definition largefile_tests :: "posix \<Rightarrow> int \<Rightarrow> string \<Rightarrow> int \<Rightarrow> int \<Rightarrow> int \<Rightarrow> unit prog" where
  "largefile_tests P overhead dir fd fileSize ioSize =
     bind (seq_write P overhead fd fileSize ioSize) (\<lambda>usec.
     andthen (report P ''seq_write'' usec fileSize) (
     andthen (printstats P dir False) (
     bind (seq_read P overhead fd fileSize ioSize) (\<lambda>usec.
     andthen (report P ''seq_read'' usec fileSize) (
     bind (rand_write P overhead fd fileSize ioSize) (\<lambda>usec.
     andthen (report P ''rand_write'' usec fileSize) (
     bind (rand_read P overhead fd fileSize ioSize) (\<lambda>usec.
     andthen (report P ''rand_read'' usec fileSize) (
     bind (seq_read P overhead fd fileSize ioSize) (\<lambda>usec.
       report P ''re-read'' usec fileSize))))))))))"

definition largefile_main :: "posix \<Rightarrow> (char \<times> int) list \<Rightarrow> string \<Rightarrow> unit prog" where
  "largefile_main P opts dir =
     bind (sys P Getpid) (\<lambda>seed.
     bind (options P opts (FILE_SIZE, IO_SIZE, seed)) (\<lambda>(fileSize, ioSize, seed).
     if fileSize \<le> 0 then fail (Exit ''Illegal file size!'')
     else if ioSize \<le> 0 then fail (Exit ''Illegal I/O size'')
     else
       andthen (sys P (Srandom seed)) (
       bind (sys P (Malloc (int (length dir) + 15))) (\<lambda>p.
       if p = 0 then fail (Exit ''malloc() failed'')
       else
         let fileName = dir @ ''/LargeTestFile'' in
         bind (sys P (Open fileName [CREAT, TRUNC, RDWR])) (\<lambda>fd.
         if fd = - 1 then fail (Exit ''open() failed'')
         else
           andthen (sys P (Unlink fileName)) (
           bind (measure_overhead P) (\<lambda>overhead.
           andthen (printstats P dir True) (
           andthen (sys P (Run ''date'')) (
           andthen (sys P (Print ''Running largefile test'' [fileSize, ioSize])) (
           andthen (largefile_tests P overhead dir fd fileSize ioSize) (
           andthen (sys P (Close fd))
             (return ()))))))))))))"

section \<open>The order is a permutation\<close>

definition unused :: "bool list \<Rightarrow> nat \<Rightarrow> nat list" where
  "unused used j = filter (\<lambda>k. \<not> used ! k) [j..<length used]"

lemma unused_Cons: "j < length used \<Longrightarrow> unused used j = (if used ! j then [] else [j]) @ unused used (Suc j)"
  by (simp add: unused_def upt_conv_Cons)

lemma unused_bounds: "k \<in> set (unused used j) \<longleftrightarrow> j \<le> k \<and> k < length used \<and> \<not> used ! k"
  by (auto simp: unused_def)

text \<open>The inner loop finds the unused element with the number \<open>seekLocation\<close>.\<close>

lemma find_slot_nth: "loc < length (unused used j) \<Longrightarrow> find_slot used loc j = Some (unused used j ! loc)"
proof (induction used loc j rule: find_slot.induct)
  case (1 used loc j)
  have j: "j < length used" using 1(2) by (cases "j < length used") (simp_all add: unused_def)
  note u = unused_Cons [OF j]
  show ?case
  proof (cases "used ! j \<or> 0 < loc")
    case True
    let ?loc = "if used ! j then loc else loc - 1"
    have "?loc < length (unused used (Suc j))" using 1(2) True u by (auto split: if_splits)
    then have "find_slot used ?loc (Suc j) = Some (unused used (Suc j) ! ?loc)" using 1(1) j True by simp
    moreover have "find_slot used loc j = find_slot used ?loc (Suc j)" using j True by (subst find_slot.simps) simp
    moreover have "unused used j ! loc = unused used (Suc j) ! ?loc" using True u by (auto simp: nth_Cons')
    ultimately show ?thesis by simp
  next
    case False
    then have "find_slot used loc j = Some j" using j by (subst find_slot.simps) simp
    then show ?thesis using u False by simp
  qed
qed

lemma unused_update:
  assumes "k \<in> set (unused used 0)"
  shows "mset (unused (used[k := True]) 0) = mset (unused used 0) - {#k#}"
proof -
  have k: "k < length used" using assms by (simp add: unused_bounds)
  have "filter (\<lambda>i. \<not> used[k := True] ! i) [0..<length used] = filter (\<lambda>i. \<not> used ! i \<and> i \<noteq> k) [0..<length used]"
    using k by (intro filter_cong) (auto simp: nth_list_update)
  then have "unused (used[k := True]) 0 = filter (\<lambda>i. i \<noteq> k) (unused used 0)" by (simp add: unused_def)
  moreover have "filter (\<lambda>i. i \<noteq> k) xs = removeAll k xs" for xs by (induction xs) auto
  moreover have "distinct (unused used 0)" by (simp add: unused_def)
  ultimately show ?thesis by (simp add: mset_remove1 flip: distinct_remove1_removeAll)
qed

lemma wp_seek_order:
  assumes "length (unused used 0) = i"
    and "\<And>order. mset order = mset (unused used 0) \<Longrightarrow> Q order (h @ replicate i Random)"
  shows "wp (seek_order P i used) Q h"
  using assms
proof (induction i arbitrary: used h Q)
  case 0
  then show ?case by (simp add: wp_simps)
next
  case (Suc i)
  let ?r = "answer P h Random"
  let ?loc = "if ?r < 0 then 0 else nat (?r mod int (Suc i))"
  define k where "k = unused used 0 ! ?loc"
  have "?loc < Suc i" by (auto simp: nat_less_iff intro: pos_mod_bound)
  then have l: "?loc < length (unused used 0)" using Suc.prems(1) by simp
  then have k: "k \<in> set (unused used 0)" by (simp add: k_def)
  have slot: "find_slot used ?loc 0 = Some k" unfolding k_def by (rule find_slot_nth [OF l])
  have m: "mset (unused (used[k := True]) 0) = mset (unused used 0) - {#k#}" by (rule unused_update [OF k])
  have "wp (seek_order P i (used[k := True])) (\<lambda>order. Q (k # order)) (h @ [Random])"
  proof (rule Suc.IH)
    have "size (mset (unused (used[k := True]) 0)) = i" using k Suc.prems(1) by (simp add: m size_Diff_singleton)
    then show "length (unused (used[k := True]) 0) = i" by simp
    fix order assume "mset order = mset (unused (used[k := True]) 0)"
    then have "mset (k # order) = mset (unused used 0)" using k m by simp
    then show "Q (k # order) ((h @ [Random]) @ replicate i Random)" using Suc.prems(2) by simp
  qed
  then show ?case using slot by (simp add: wp_simps)
qed

lemma wp_make_order:
  assumes "complete P" "0 < ioSize" "0 \<le> fileSize"
    and "\<And>order t. mset order = mset [0..<nat (fileSize div ioSize)] \<Longrightarrow> file_after fd t = file_after fd h \<Longrightarrow> Q order t"
  shows "wp (make_order P fileSize ioSize) Q h"
proof -
  let ?n = "nat (fileSize div ioSize)"
  have rnd: "file_after fd (g @ replicate m Random) = file_after fd g" for g m
    by (induction m arbitrary: g) (simp_all add: replicate_append_same [symmetric] flip: append_assoc)
  have u: "unused (replicate ?n False) 0 = [0..<?n]" by (auto simp: unused_def intro!: filter_True)
  have "wp (seek_order P ?n (replicate ?n False)) Q (h @ [Malloc (int ?n), Malloc (int ?n * 4)])"
  proof (rule wp_seek_order)
    show "length (unused (replicate ?n False) 0) = ?n" by (simp add: u)
    fix order assume o: "mset order = mset (unused (replicate ?n False) 0)"
    have "file_after fd (h @ [Malloc (int ?n), Malloc (int ?n * 4)]) = file_after fd h" by (simp add: file_after_def)
    with o show "Q order ((h @ [Malloc (int ?n), Malloc (int ?n * 4)]) @ replicate ?n Random)"
      by (intro assms(4)) (simp_all only: u rnd)
  qed
  then show ?thesis using assms(1) by (auto simp: make_order_def Let_def wp_simps complete_def)
qed

section \<open>The random transfers\<close>

text \<open>The pieces \<open>order ! 0\<close> to \<open>order ! (l - 1)\<close> of \<open>w\<close> bytes each have been written.\<close>

definition transfers_done :: "int \<Rightarrow> nat \<Rightarrow> nat list \<Rightarrow> nat \<Rightarrow> oscall list \<Rightarrow> bool" where
  "transfers_done fd w order l h \<longleftrightarrow> (\<forall>i < l. \<forall>k < w. snd (file_after fd h) (order ! i * w + k) = Some (of_nat k))"

lemma same_piece: "a * w \<le> b * w + k \<Longrightarrow> b * w + k < a * w + w \<Longrightarrow> k < w \<Longrightarrow> a = (b :: nat)"
proof -
  assume a: "a * w \<le> b * w + k" "b * w + k < a * w + w" "k < w"
  have "b = (b * w + k) div w" using a(3) by simp
  moreover have "(b * w + k) div w = a" using a(1,2) by (intro div_nat_eqI) (simp_all add: mult.commute)
  ultimately show ?thesis by simp
qed

lemma transfers_done_step:
  assumes "transfers_done fd w order l h" "w = nat ioSize" "0 < ioSize"
  shows "transfers_done fd w order (Suc l) (h @ [Lseek fd (int (order ! l) * ioSize)] @ [Write_to fd (fill_buffer ioSize)] @ [Fdatasync fd])"
proof -
  obtain p m where pm: "file_after fd h = (p, m)" by (cases "file_after fd h")
  have off: "nat (int (order ! l) * ioSize) = order ! l * w" using assms(2,3) by (simp add: nat_mult_distrib)
  have len: "length (fill_buffer ioSize) = w" and nth: "k < w \<Longrightarrow> fill_buffer ioSize ! k = of_nat k" for k
    using assms(2) by (simp_all add: fill_buffer_def)
  let ?h = "h @ [Lseek fd (int (order ! l) * ioSize)] @ [Write_to fd (fill_buffer ioSize)] @ [Fdatasync fd]"
  have f: "snd (file_after fd ?h) q = (if order ! l * w \<le> q \<and> q < order ! l * w + w then Some (fill_buffer ioSize ! (q - order ! l * w)) else m q)" for q
    unfolding append_assoc [symmetric] file_after_snoc using off len pm by simp
  show ?thesis unfolding transfers_done_def
  proof (intro allI impI)
    fix i k assume i: "i < Suc l" and k: "k < w"
    let ?q = "order ! i * w + k"
    show "snd (file_after fd ?h) ?q = Some (of_nat k)"
    proof (cases "order ! l * w \<le> ?q \<and> ?q < order ! l * w + w")
      case True
      then have "order ! l = order ! i" using k by (intro same_piece) simp_all
      with True show ?thesis unfolding f by (simp add: nth k)
    next
      case False
      then have "i \<noteq> l" using k by auto
      then have "m ?q = Some (of_nat k)" using i k assms(1) pm by (simp add: transfers_done_def)
      then show ?thesis unfolding f if_not_P [OF False] .
    qed
  qed
qed

text \<open>The place of the loop: \<open>seekLocation\<close> pieces have been transferred.\<close>

lemma amount_whole:
  assumes "int n * ioSize \<le> fileSize" "l < n" "0 < ioSize"
  shows "amount fileSize ioSize (int l * ioSize) = ioSize"
proof -
  have "int l * ioSize + ioSize = (int l + 1) * ioSize" by (simp add: algebra_simps)
  also have "\<dots> \<le> int n * ioSize" using assms(2,3) by (intro mult_right_mono) simp_all
  finally show ?thesis using assms(1) by (simp add: amount_def)
qed

lemma piece_offset:
  assumes "int n * ioSize \<le> fileSize" "k < n" "0 < ioSize" "fileSize < 2 ^ 31"
  shows "int_range (int k * ioSize)" "int_range (int k * ioSize + ioSize)" "0 \<le> int k * ioSize"
proof -
  have "int k * ioSize + ioSize = (int k + 1) * ioSize" by (simp add: algebra_simps)
  also have "\<dots> \<le> int n * ioSize" using assms(2,3) by (intro mult_right_mono) simp_all
  finally have le: "int k * ioSize + ioSize \<le> fileSize" using assms(1) by simp
  show "0 \<le> int k * ioSize" using assms(3) by simp
  with le show "int_range (int k * ioSize)" "int_range (int k * ioSize + ioSize)"
    unfolding int_range_def using assms(3,4) by linarith+
qed

definition rand_inv :: "int \<Rightarrow> int \<Rightarrow> nat list \<Rightarrow> int \<times> nat \<Rightarrow> oscall list \<Rightarrow> bool" where
  "rand_inv fd ioSize order = (\<lambda>(c, l) h. c = int l * ioSize \<and> l \<le> length order \<and> transfers_done fd (nat ioSize) order l h)"

lemma wp_rand_write_step:
  assumes P: "complete P" and n: "0 < ioSize" "fileSize < 2 ^ 31" "int (length order) * ioSize = fileSize" "\<forall>k \<in> set order. k < length order"
    and I: "rand_inv fd ioSize order (c, l) h" "c < fileSize"
  shows "wp (rand_write_step P fd fileSize ioSize order (c, l))
    (\<lambda>b t. rand_inv fd ioSize order b t \<and> length order - snd b < length order - l) h"
proof -
  let ?w = "nat ioSize" and ?off = "int (order ! l) * ioSize"
  have i: "c = int l * ioSize" "l \<le> length order" "transfers_done fd ?w order l h" using I(1) by (simp_all add: rand_inv_def)
  have l: "l < length order" using I(2) i(1,2) n(3) by (cases "l = length order") auto
  have k: "order ! l < length order" using n(4) l by simp
  note o = piece_offset [OF eq_refl [OF n(3)] k n(1,2)] and a = amount_whole [OF eq_refl [OF n(3)] l n(1)]
    and e = piece_offset(2) [OF eq_refl [OF n(3)] l n(1,2)]
  have len: "length (fill_buffer ioSize) = ?w" by (simp add: fill_buffer_def)
  have neg: "?off \<noteq> - 1" "length order - Suc l < length order - l" using o(3) l by linarith+
  have ans: "answer P g (Lseek fd ?off) = ?off" "answer P g (Write_to fd (fill_buffer ioSize)) = ioSize" for g
    using P o(3) len n(1) by (simp_all add: complete_def)
  have "transfers_done fd ?w order (Suc l) (h @ [Lseek fd ?off] @ [Write_to fd (fill_buffer ioSize)] @ [Fdatasync fd])"
    by (rule transfers_done_step [OF i(3) refl n(1)])
  then have "rand_inv fd ioSize order (c + ioSize, Suc l) (h @ [Lseek fd ?off, Write_to fd (fill_buffer ioSize), Fdatasync fd])"
    using l i(1) by (simp add: rand_inv_def algebra_simps)
  then show ?thesis
    using l k o(1,3) e a ans len n(1) i(1) neg by (simp add: rand_write_step_def rand_seek_def wp_simps Let_def)
qed

lemma wp_rand_write_loop:
  assumes P: "complete P" and n: "0 < ioSize" "fileSize < 2 ^ 31" "int (length order) * ioSize = fileSize" "\<forall>k \<in> set order. k < length order"
    and post: "\<And>b t. transfers_done fd (nat ioSize) order (length order) t \<Longrightarrow> Q b t"
  shows "wp (cwhile (\<lambda>(ioCount, _). ioCount < fileSize) (rand_write_step P fd fileSize ioSize order) (0, 0)) Q h"
proof (rule wp_cwhile [where I = "rand_inv fd ioSize order" and m = "\<lambda>b t. length order - snd b"])
  show "rand_inv fd ioSize order (0, 0) h" by (simp add: rand_inv_def transfers_done_def)
next
  fix a s assume a: "rand_inv fd ioSize order a s" "case a of (ioCount, _) \<Rightarrow> ioCount < fileSize"
  show "wp (rand_write_step P fd fileSize ioSize order a) (\<lambda>b t. rand_inv fd ioSize order b t \<and> length order - snd b < length order - snd a) s"
    using wp_rand_write_step [OF P n, of fd "fst a" "snd a" s] a by (cases a) simp
next
  fix a s assume a: "rand_inv fd ioSize order a s" "\<not> (case a of (ioCount, _) \<Rightarrow> ioCount < fileSize)"
  obtain c l where cl: "a = (c, l)" by (cases a)
  have "int (length order) * ioSize \<le> int l * ioSize" "l \<le> length order" using a cl n(3) by (simp_all add: rand_inv_def)
  then have "l = length order" using n(1) by simp
  then show "Q a s" using a(1) cl by (intro post) (simp add: rand_inv_def)
qed

section \<open>Properties\<close>

text \<open>C36. \<open>rand_write\<close> writes the whole file. Whatever numbers \<open>random\<close> returns, the order of the pieces is computed without an access
  behind the array and is a permutation of the pieces; on a host that completes every transfer, and if the size of the transfers divides
  the size of the file, the function returns, and afterwards every byte of the file was written, with the byte of the buffer that
  belongs there.\<close>

theorem rand_write_fills:
  assumes "complete P" "0 < ioSize" "ioSize dvd fileSize" "0 \<le> fileSize" "fileSize < 2 ^ 31"
  shows "\<exists>usec t. rand_write P overhead fd fileSize ioSize h = Ok usec t
    \<and> (\<forall>k < nat fileSize. snd (file_after fd t) k = Some (of_nat (k mod nat ioSize)))"
proof -
  let ?n = "nat (fileSize div ioSize)" and ?w = "nat ioSize"
  let ?full = "\<lambda>t. \<forall>k < nat fileSize. snd (file_after fd t) k = Some (of_nat (k mod ?w))"
  have size: "int ?n * ioSize = fileSize" using assms(2-4) by (simp add: pos_imp_zdiv_nonneg_iff)
  have "wp (make_order P fileSize ioSize) (\<lambda>order. wp (now P) (\<lambda>before.
      wp (mfor [0..<64] (\<lambda>iter. andthen (cwhile (\<lambda>(ioCount, _). ioCount < fileSize) (rand_write_step P fd fileSize ioSize order) (0, 0)) (return ())))
      (\<lambda>_. wp (sys P (Fsync fd)) (\<lambda>_. wp (now P) (\<lambda>end t. ?full t))))) (h @ [Malloc ioSize])"
  proof (rule wp_make_order [OF assms(1,2,4)])
    fix order t assume o: "mset order = mset [0..<?n]"
    have len: "length order = ?n" using o by (metis length_upt minus_nat.diff_0 size_mset)
    have set: "set order = {0..<?n}" using o by (metis atLeast_upt mset_eq_setD set_upt)
    have full: "?full u" if "transfers_done fd ?w order (length order) u" for u
    proof (intro allI impI)
      fix k assume k: "k < nat fileSize"
      have "nat fileSize = ?n * ?w" using size assms(2) by (metis int_nat_eq nat_int nat_mult_distrib of_nat_0_le_iff order_less_imp_le)
      then have "k div ?w < ?n" using k by (simp add: less_mult_imp_div_less)
      then obtain i where i: "i < length order" "order ! i = k div ?w" using set by (metis atLeastLessThan_iff in_set_conv_nth zero_le)
      have "k mod ?w < ?w" using assms(2) by simp
      then show "snd (file_after fd u) k = Some (of_nat (k mod ?w))"
        using that i unfolding transfers_done_def by (metis div_mult_mod_eq)
    qed
    show "wp (now P) (\<lambda>before. wp (mfor [0..<64] (\<lambda>iter. andthen (cwhile (\<lambda>(ioCount, _). ioCount < fileSize) (rand_write_step P fd fileSize ioSize order) (0, 0)) (return ())))
      (\<lambda>_. wp (sys P (Fsync fd)) (\<lambda>_. wp (now P) (\<lambda>end t. ?full t)))) t"
      unfolding wp_now
    proof (rule wp_mfor [where I = "\<lambda>j u. 0 < j \<longrightarrow> ?full u"])
      show "wp (andthen (cwhile (\<lambda>(ioCount, _). ioCount < fileSize) (rand_write_step P fd fileSize ioSize order) (0, 0)) (return ()))
          (\<lambda>_ u. 0 < Suc j \<longrightarrow> ?full u) u" for j u
        using len set size full by (simp add: wp_simps, intro wp_rand_write_loop [OF assms(1,2,5)]) auto
    qed (simp_all add: wp_simps)
  qed
  then have "wp (rand_write P overhead fd fileSize ioSize) (\<lambda>_. ?full) h"
    using assms(1) by (simp add: rand_write_def wp_simps complete_def)
  then show ?thesis by (auto dest!: wp_Ok)
qed

text \<open>A host on which every call succeeds.\<close>

definition ideal :: posix where
  "ideal = \<lparr>answer = (\<lambda>h c. case c of Write_to fd bs \<Rightarrow> int (length bs) | Read_from fd n \<Rightarrow> n | Lseek fd off \<Rightarrow> off | Malloc n \<Rightarrow> 1 | _ \<Rightarrow> 0),
     clock = (\<lambda>h. (0, int (length h))), input = (\<lambda>h. [])\<rparr>"

lemma ideal_complete: "complete ideal"
  by (simp add: complete_def ideal_def)

theorem rand_write_fills_witness:
  "\<exists>usec t. rand_write ideal 0 3 6 2 [] = Ok usec t \<and> snd (file_after 3 t) 5 = Some 1"
  using rand_write_fills [OF ideal_complete, of 2 6 0 3 "[]"] by auto

lemma rand_read_step_ok:
  assumes P: "complete P" and n: "0 < ioSize" "fileSize < 2 ^ 31" "int (length order) * ioSize \<le> fileSize" "l < length order" "\<forall>k \<in> set order. k < length order"
  shows "wp (rand_read_step P fd fileSize ioSize order (int l * ioSize, l)) (\<lambda>b t. b = (int (Suc l) * ioSize, Suc l)) h"
proof -
  have k: "order ! l < length order" using n(4,5) by simp
  note o = piece_offset [OF n(3) k n(1,2)] and a = amount_whole [OF n(3,4,1)] and e = piece_offset(2) [OF n(3,4,1,2)]
  have ans: "answer P g (Lseek fd (int (order ! l) * ioSize)) = int (order ! l) * ioSize" "answer P g (Read_from fd ioSize) = ioSize" for g
    using P o(3) by (simp_all add: complete_def)
  have neg: "int (order ! l) * ioSize \<noteq> - 1" using o(3) by linarith
  show ?thesis
    using k o(1) e a ans neg n(1,4) by (simp add: rand_read_step_def rand_seek_def wp_simps Let_def algebra_simps)
qed

text \<open>The benchmark reads behind its array when the size of the transfers does not divide the size of the file: the last,
  short transfer has no entry in \<open>seekOrder\<close>, and \<open>rand_read\<close> uses the element behind the end as an offset.\<close>

theorem rand_read_overruns:
  assumes P: "complete P" and n: "0 < ioSize" "0 < fileSize" "fileSize < 2 ^ 31" "\<not> ioSize dvd fileSize"
  shows "\<exists>t. rand_read P overhead fd fileSize ioSize h = Fail (Undef ''seekOrder'') t"
proof -
  let ?n = "nat (fileSize div ioSize)"
  have size: "int ?n * ioSize < fileSize"
  proof -
    have "int ?n * ioSize = fileSize - fileSize mod ioSize" using n(1,2) by (simp add: pos_imp_zdiv_nonneg_iff minus_mod_eq_div_mult)
    moreover have "fileSize mod ioSize \<noteq> 0" "0 \<le> fileSize mod ioSize" using n(1,4) by (simp_all add: dvd_eq_mod_eq_0)
    ultimately show ?thesis by linarith
  qed
  have "wp (make_order P fileSize ioSize) (\<lambda>order g. \<exists>t. cwhile (\<lambda>(ioCount, _). ioCount < fileSize)
      (rand_read_step P fd fileSize ioSize order) (0, 0) (g @ [Gettimeofday]) = Fail (Undef ''seekOrder'') t) (h @ [Malloc ioSize])"
  proof (rule wp_make_order [OF P n(1)])
    fix order g assume o: "mset order = mset [0..<?n]"
    have len: "length order = ?n" using o by (metis length_upt minus_nat.diff_0 size_mset)
    have set: "\<forall>k \<in> set order. k < ?n" using o by (metis atLeastLessThan_iff atLeast_upt mset_eq_setD set_upt)
    show "\<exists>t. cwhile (\<lambda>(ioCount, _). ioCount < fileSize) (rand_read_step P fd fileSize ioSize order) (0, 0) (g @ [Gettimeofday])
        = Fail (Undef ''seekOrder'') t"
    proof (rule cwhile_fails [where I = "\<lambda>a _. fst a = int (snd a) * ioSize \<and> snd a \<le> ?n" and m = "\<lambda>b. ?n - snd b"])
      fix a s assume a: "fst a = int (snd a) * ioSize \<and> snd a \<le> ?n"
      have "int (snd a) * ioSize \<le> int ?n * ioSize" using a n(1) by (intro mult_right_mono of_nat_mono) auto
      then have "fst a \<le> int ?n * ioSize" using a by simp
      then have c: "case a of (ioCount, _) \<Rightarrow> ioCount < fileSize" using size by (simp add: case_prod_unfold)
      have "wp (rand_read_step P fd fileSize ioSize order a)
          (\<lambda>b t. (fst b = int (snd b) * ioSize \<and> snd b \<le> ?n) \<and> ?n - snd b < ?n - snd a) s" if "snd a < ?n"
        using rand_read_step_ok [OF P n(1,3), where order = order and l = "snd a" and fd = fd and h = s] that a size len set
        by (cases a) (auto elim!: wp_mono)
      moreover have "rand_read_step P fd fileSize ioSize order a s = Fail (Undef ''seekOrder'') s" if "snd a = ?n"
        using that len by (cases a) (simp add: rand_read_step_def rand_seek_def andthen_def bind_def fail_def Let_def)
      ultimately show "(case a of (ioCount, _) \<Rightarrow> ioCount < fileSize) \<and>
        ((\<exists>b t. rand_read_step P fd fileSize ioSize order a s = Ok b t \<and> (fst b = int (snd b) * ioSize \<and> snd b \<le> ?n) \<and> ?n - snd b < ?n - snd a)
         \<or> (\<exists>t. rand_read_step P fd fileSize ioSize order a s = Fail (Undef ''seekOrder'') t))"
        using a c by (cases "snd a = ?n") (auto dest!: wp_Ok)
    qed simp
  qed (use n(2) in simp)
  then obtain order g t where o: "make_order P fileSize ioSize (h @ [Malloc ioSize]) = Ok order g"
      "cwhile (\<lambda>(ioCount, _). ioCount < fileSize) (rand_read_step P fd fileSize ioSize order) (0, 0) (g @ [Gettimeofday]) = Fail (Undef ''seekOrder'') t"
    by (auto dest!: wp_Ok)
  have "answer P h (Malloc ioSize) \<noteq> 0" using P by (simp add: complete_def)
  with o show ?thesis by (simp add: rand_read_def bind_def andthen_def sys_def now_def)
qed

theorem rand_read_overruns_witness: "\<exists>t. rand_read ideal 0 3 5 2 [] = Fail (Undef ''seekOrder'') t"
  by (rule rand_read_overruns [OF ideal_complete]) simp_all

text \<open>The sequential transfers end if every call transfers something, also if transfers are short: the bytes transferred add up to
  the size of the file. They never end at the end of a shorter file, where \<open>read\<close> returns 0.\<close>

lemma amount_bounds: "0 < ioSize \<Longrightarrow> c < fileSize \<Longrightarrow> 0 < amount fileSize ioSize c \<and> amount fileSize ioSize c \<le> fileSize - c
    \<and> amount fileSize ioSize c \<le> ioSize"
  by (simp add: amount_def)

lemma seq_write_ends:
  assumes "\<And>h bs. bs \<noteq> [] \<Longrightarrow> 1 \<le> answer P h (Write_to fd bs) \<and> answer P h (Write_to fd bs) \<le> int (length bs)"
    and "\<And>h. answer P h (Malloc ioSize) \<noteq> 0" "\<And>h. answer P h (Lseek fd 0) = 0" "0 < ioSize" "0 \<le> fileSize" "fileSize < 2 ^ 31"
  shows "\<exists>usec t. seq_write P overhead fd fileSize ioSize h = Ok usec t"
proof -
  have loop: "wp (cwhile (\<lambda>ioCount. ioCount < fileSize) (seq_write_step P fd fileSize ioSize) 0) (\<lambda>c _. c = fileSize) g" for g
  proof (rule wp_cwhile [where I = "\<lambda>c _. 0 \<le> c \<and> c \<le> fileSize" and m = "\<lambda>c _. nat (fileSize - c)"])
    fix c s assume c: "0 \<le> c \<and> c \<le> fileSize" "c < fileSize"
    let ?amt = "amount fileSize ioSize c" and ?bs = "take (nat (amount fileSize ioSize c)) (fill_buffer ioSize)"
    note a = amount_bounds [OF assms(4) c(2)]
    have len: "length ?bs = nat ?amt" using a by (auto simp: fill_buffer_def min_def)
    then have "?bs \<noteq> []" using a by auto
    note r = assms(1) [OF this, of s]
    have "c + answer P s (Write_to fd ?bs) \<le> fileSize" "0 \<le> c + answer P s (Write_to fd ?bs)" using r len a c by simp_all
    then have "int_range (c + answer P s (Write_to fd ?bs))" using assms(6) by (simp add: int_range_def)
    then show "wp (seq_write_step P fd fileSize ioSize c)
        (\<lambda>b t. (0 \<le> b \<and> b \<le> fileSize) \<and> nat (fileSize - b) < nat (fileSize - c)) s"
      using r len a c by (auto simp: seq_write_step_def Let_def wp_simps)
  qed (use assms(5) in auto)
  have "wp (cwhile (\<lambda>ioCount. ioCount < fileSize) (seq_write_step P fd fileSize ioSize) 0)
      (\<lambda>_. wp (sys P (Fsync fd)) (\<lambda>_. wp (now P) (\<lambda>_ _. True))) g" for g
    by (rule wp_mono [OF loop]) (simp add: wp_simps)
  then have "wp (seq_write P overhead fd fileSize ioSize) (\<lambda>_ _. True) h"
    using assms(2,3) by (simp add: seq_write_def wp_simps)
  then show ?thesis by (auto dest!: wp_Ok)
qed

lemma seq_read_forever:
  assumes "\<And>h n. answer P h (Read_from fd n) = 0" "\<And>h. answer P h (Malloc ioSize) \<noteq> 0" "\<And>h. answer P h (Lseek fd 0) = 0"
    and "0 < ioSize" "0 < fileSize"
  shows "\<exists>t. seq_read P overhead fd fileSize ioSize h = Fail Hang t"
proof -
  have "run_loop (\<lambda>c _. c < fileSize) (seq_read_step P fd fileSize ioSize) 0 g = None" for g
    by (rule run_loop_forever [where I = "\<lambda>c _. c = 0"])
       (use assms amount_bounds [OF assms(4,5)] in \<open>auto simp: seq_read_step_def Let_def bind_def andthen_def sys_def return_def checked_def int_range_def\<close>)
  then show ?thesis
    using assms(2,3) by (simp add: seq_read_def bind_def andthen_def sys_def now_def cwhile_def)
qed

end
