(* ===== verification/Bench_Small.thy ===== *)
theory Bench_Small
  imports Bench_Large Xv6_Open
begin

text \<open>
  The benchmarks with small files and the file system's own benchmarks: \<open>bench/LFStest/smallfile.c\<close>, \<open>bench/largefile.c\<close>,
  \<open>bench/smallfile.c\<close>, \<open>bench/smallsync.c\<close> and \<open>bench/atomic-create.c\<close>. The lemmas are about the calls the programs make, and about
  the text of the statistics file that \<open>xv6/fuse.c\<close> gives to them.
\<close>

section \<open>Many small files (LFStest/smallfile.c)\<close>

definition NDIR :: nat where
  "NDIR = 100"

definition dir_name :: "string \<Rightarrow> nat \<Rightarrow> string" where
  "dir_name topdir i = topdir @ ''/d'' @ dec (int i)"

definition file_name :: "string \<Rightarrow> nat \<Rightarrow> nat \<Rightarrow> string" where
  "file_name topdir j i = dir_name topdir j @ ''/g'' @ dec (int i)"

text \<open>A message of a call that failed; the program goes on.\<close>

definition complain :: "posix \<Rightarrow> bool \<Rightarrow> string \<Rightarrow> int \<Rightarrow> unit prog" where
  "complain P failed msg r = (if failed then andthen (sys P (Print msg [r])) (return ()) else return ())"

definition creat_dir :: "posix \<Rightarrow> string \<Rightarrow> unit prog" where
  "creat_dir P topdir =
     andthen (sys P (Umask 0)) (
     mfor [0..<NDIR] (\<lambda>i.
       bind (store_path 100 (dir_name topdir i)) (\<lambda>dir.
       bind (sys P (Mkdir dir)) (\<lambda>r.
         complain P (r \<noteq> 0) ''mkdir failed'' r))))"

text \<open>\<open>write(fd, buf, sz)\<close> from the array \<open>char buf[40960]\<close>, which is never filled.\<close>

definition write_buf :: "posix \<Rightarrow> int \<Rightarrow> int \<Rightarrow> int prog" where
  "write_buf P fd sz = (if 0 \<le> sz \<and> sz \<le> 40960 then sys P (Write_to fd (replicate (nat sz) 0)) else fail (Undef ''buf''))"

definition next_dir :: "nat \<Rightarrow> nat \<Rightarrow> nat" where
  "next_dir i j = (if (i + 1) mod 100 = 0 then j + 1 else j)"

text \<open>The loops carry the number \<open>j\<close> of the directory.\<close>

definition creat_one :: "posix \<Rightarrow> string \<Rightarrow> int \<Rightarrow> nat \<Rightarrow> nat \<Rightarrow> nat prog" where
  "creat_one P topdir sz i j =
     bind (store_path 100 (file_name topdir j i)) (\<lambda>name.
     bind (sys P (Open name [RDWR, CREAT, TRUNC])) (\<lambda>fd.
     if fd < 0 then fail (Exit ''create failed'')
     else
       bind (write_buf P fd sz) (\<lambda>r.
       if r < 0 then fail (Exit ''write failed'')
       else
         bind (sys P (Close fd)) (\<lambda>r.
         andthen (complain P (r < 0) ''close failed'' r)
           (return (next_dir i j))))))"

definition creat_test :: "posix \<Rightarrow> string \<Rightarrow> int \<Rightarrow> int \<Rightarrow> unit prog" where
  "creat_test P topdir n sz =
     bind (now P) (\<lambda>before.
     andthen (mfold [0..<nat n] (creat_one P topdir sz) 0) (
     bind (now P) (\<lambda>end.
     andthen (sys P (Print ''creat took %ld usec'' [elapsed before end]))
       (return ()))))"

definition write_test :: "posix \<Rightarrow> string \<Rightarrow> int \<Rightarrow> int \<Rightarrow> unit prog" where
  "write_test P name n sz =
     bind (sys P (Open name [RDWR, CREAT, TRUNC])) (\<lambda>fd.
     if fd < 0 then fail (Exit ''create failed'')
     else
       andthen (mfor [0..<nat n] (\<lambda>i.
         bind (write_buf P fd sz) (\<lambda>r.
         if r < 0 then fail (Exit ''write failed'') else return ()))) (
       bind (sys P (Close fd)) (\<lambda>r.
         complain P (r < 0) ''close failed'' r)))"

definition flush_cache :: "posix \<Rightarrow> unit prog" where
  "flush_cache P = write_test P ''t'' 20000 4096"

text \<open>\<open>read(fd, buf, sz)\<close>: the kernel stores up to \<open>sz\<close> bytes.\<close>

definition read_one :: "posix \<Rightarrow> string \<Rightarrow> int \<Rightarrow> nat \<Rightarrow> nat \<Rightarrow> nat prog" where
  "read_one P topdir sz i j =
     bind (store_path 100 (file_name topdir j i)) (\<lambda>name.
     bind (sys P (Open name [RDONLY])) (\<lambda>fd.
     if fd < 0 then fail (Exit ''open failed'')
     else
       bind (sys P (Read_from fd sz)) (\<lambda>r.
       if r < 0 then fail (Exit ''read failed'')
       else if 40960 < r then fail (Undef ''buf'')
       else
         bind (sys P (Close fd)) (\<lambda>r.
         andthen (complain P (r < 0) ''close failed'' r)
           (return (next_dir i j))))))"

definition read_test :: "posix \<Rightarrow> string \<Rightarrow> int \<Rightarrow> int \<Rightarrow> unit prog" where
  "read_test P topdir n sz =
     bind (now P) (\<lambda>before.
     andthen (mfold [0..<nat n] (read_one P topdir sz) 0) (
     bind (now P) (\<lambda>end.
     andthen (sys P (Print ''read took %ld usec'' [elapsed before end]))
       (return ()))))"

definition delete_one :: "posix \<Rightarrow> string \<Rightarrow> nat \<Rightarrow> nat \<Rightarrow> nat prog" where
  "delete_one P topdir i j =
     bind (store_path 100 (file_name topdir j i)) (\<lambda>name.
     bind (sys P (Unlink name)) (\<lambda>r.
     if r < 0 then fail (Exit ''unlink failed'')
     else return (next_dir i j)))"

definition delete_test :: "posix \<Rightarrow> string \<Rightarrow> int \<Rightarrow> unit prog" where
  "delete_test P topdir n =
     bind (now P) (\<lambda>before.
     andthen (mfold [0..<nat n] (delete_one P topdir) 0) (
     bind (now P) (\<lambda>end.
     andthen (sys P (Print ''unlink took %ld usec'' [elapsed before end]))
       (return ()))))"

text \<open>The arguments are the numbers \<open>atoi\<close> gives for the first two, or \<open>None\<close> for a wrong number of arguments.\<close>

definition smallfile_main :: "posix \<Rightarrow> (int \<times> int \<times> string) option \<Rightarrow> unit prog" where
  "smallfile_main P args =
     (case args of
        None \<Rightarrow> fail (Exit ''num sz dir'')
      | Some (n, sz, topdir) \<Rightarrow>
          andthen (sys P (Print ''%s %d %d %s'' [n, sz])) (
          andthen (creat_dir P topdir) (
          andthen (printstats P topdir True) (
          andthen (creat_test P topdir n sz) (
          andthen (printstats P topdir False) (
          andthen (read_test P topdir n sz) (
          andthen (delete_test P topdir n) (
          andthen (sys P (Unlink ''t''))
            (return ())))))))))"

section \<open>The large file of the file system's own benchmarks (bench/largefile.c)\<close>

definition WSIZE :: int where
  "WSIZE = 16 * 4096"

definition FILESIZE :: int where
  "FILESIZE = 50 * 1024 * 1024"

definition NAMESIZE :: int where
  "NAMESIZE = 100"

definition large_printstats :: "posix \<Rightarrow> string \<Rightarrow> bool \<Rightarrow> byte list \<Rightarrow> byte list prog" where
  "large_printstats P dir reset buf = stats_of P NAMESIZE WSIZE False dir reset buf"

text \<open>The buffer: \<open>sprintf(buf, "%s/stats", dir)\<close> over what was there.\<close>

definition stats_buf :: "string \<Rightarrow> byte list \<Rightarrow> byte list" where
  "stats_buf dir old = (let p = map of_char (dir @ ''/stats'') @ [0] in p @ drop (length p) old)"

definition write_all :: "posix \<Rightarrow> int \<Rightarrow> byte list \<Rightarrow> unit prog" where
  "write_all P fd buf =
     bind (sys P (Write_to fd buf)) (\<lambda>r.
     if r \<noteq> int (length buf) then fail (Exit ''write failed'') else return ())"

definition sync_file :: "posix \<Rightarrow> int \<Rightarrow> unit prog" where
  "sync_file P fd =
     bind (sys P (Fsync fd)) (\<lambda>r.
     if r < 0 then fail (Exit ''fsync failed'') else return ())"

text \<open>\<open>old\<close> is the content of \<open>buf\<close> before, of \<open>WSIZE\<close> bytes. The arguments of \<open>lseek(fd, SEEK_SET, 0)\<close> are in the wrong order, but both
  are 0.\<close>

definition makefile :: "posix \<Rightarrow> string \<Rightarrow> byte list \<Rightarrow> byte list prog" where
  "makefile P dir old =
     (let n = nat (FILESIZE div WSIZE) in
     bind (store_path NAMESIZE (dir @ ''/d/f'')) (\<lambda>name.
     bind (sys P (Open name [RDWR, CREAT, TRUNC])) (\<lambda>fd.
     if fd < 0 then fail (Exit ''create failed'')
     else
       let buf = stats_buf dir old in
       andthen (mfor [0..<n] (\<lambda>i. write_all P fd buf)) (
       andthen (sync_file P fd) (
       andthen (sys P (Lseek fd 0)) (
       andthen (sys P (Write_to fd buf)) (
       andthen (sys P (Close fd)) (
       bind (sys P (Open ''.'' [DIRECTORY, RDONLY])) (\<lambda>fd.
       if fd < 0 then fail (Exit ''open dir'')
       else andthen (sync_file P fd) (return buf))))))))))"

definition writefile_step :: "posix \<Rightarrow> int \<Rightarrow> byte list \<Rightarrow> nat \<Rightarrow> unit prog" where
  "writefile_step P fd buf i =
     andthen (write_all P fd buf)
       (if (int i + 1) * WSIZE mod (10 * 1024 * 1024) = 0 then sync_file P fd else return ())"

definition writefile :: "posix \<Rightarrow> string \<Rightarrow> byte list \<Rightarrow> byte list prog" where
  "writefile P dir old =
     (let n = nat (FILESIZE div WSIZE) in
     bind (store_path NAMESIZE (dir @ ''/d/f'')) (\<lambda>name.
     bind (sys P (Open name [RDWR])) (\<lambda>fd.
     if fd < 0 then fail (Exit ''open failed'')
     else
       let buf = stats_buf dir old in
       andthen (mfor [0..<n] (writefile_step P fd buf)) (
       andthen (if int n * WSIZE mod (10 * 1024 * 1024) \<noteq> 0 then sync_file P fd else return ()) (
       andthen (sys P (Close fd))
         (return buf))))))"

text \<open>A line of the result, from which time and throughput are computed in floating point.\<close>

definition large_report :: "posix \<Rightarrow> string \<Rightarrow> int \<times> int \<Rightarrow> int \<times> int \<Rightarrow> unit prog" where
  "large_report P test before end = andthen (sys P (Print test [FILESIZE div (1024 * 1024), elapsed before end])) (return ())"

definition large_main :: "posix \<Rightarrow> string option \<Rightarrow> unit prog" where
  "large_main P arg =
     (case arg of
        None \<Rightarrow> fail (Exit ''basedir'')
      | Some dir \<Rightarrow>
          bind (store_path NAMESIZE (dir @ ''/d'')) (\<lambda>name.
          bind (sys P (Mkdir name)) (\<lambda>r.
          if r < 0 then fail (Exit ''create failed'')
          else
            bind (large_printstats P dir True (replicate (nat WSIZE) 0)) (\<lambda>buf.
            bind (now P) (\<lambda>before.
            bind (makefile P dir buf) (\<lambda>buf.
            bind (now P) (\<lambda>end.
            andthen (large_report P ''makefile'' before end) (
            bind (large_printstats P dir False buf) (\<lambda>buf.
            bind (now P) (\<lambda>before.
            bind (writefile P dir buf) (\<lambda>buf.
            bind (now P) (\<lambda>end.
            andthen (large_report P ''writefile'' before end) (
            andthen (large_printstats P dir False buf)
              (return ()))))))))))))))"

section \<open>Files per second (bench/smallfile.c, bench/smallsync.c)\<close>

text \<open>The two programs differ in the name of the file: a new one each time, or always the same. Both buffers have 100 bytes.\<close>

definition small_printstats :: "posix \<Rightarrow> string \<Rightarrow> bool \<Rightarrow> byte list \<Rightarrow> byte list prog" where
  "small_printstats P dir reset buf = stats_of P NAMESIZE 100 False dir reset buf"

definition usec_now :: "posix \<Rightarrow> 64 word prog" where
  "usec_now P = bind (now P) (\<lambda>(sec, usec). return (word_of_int sec * 1000000 + word_of_int usec))"

text \<open>One iteration of the endless loop; the loop carries \<open>i\<close>, the last time and whether it was left.\<close>

definition small_step :: "posix \<Rightarrow> (nat \<Rightarrow> string) \<Rightarrow> byte list \<Rightarrow> 64 word \<Rightarrow> nat \<times> 64 word \<times> bool \<Rightarrow> (nat \<times> 64 word \<times> bool) prog" where
  "small_step P name buf start = (\<lambda>(i, _, _).
     bind (store_path NAMESIZE (name i)) (\<lambda>name.
     bind (sys P (Open name [RDWR, CREAT, TRUNC])) (\<lambda>fd.
     if fd < 0 then fail (Exit ''create failed'')
     else
       andthen (write_all P fd buf) (
       andthen (sync_file P fd) (
       andthen (sys P (Close fd)) (
       bind (usec_now P) (\<lambda>end.
       if 1000000 < end - start then return (i, end, True)
       else bind (checked (int i + 1)) (\<lambda>_. return (Suc i, end, False)))))))))"

definition small_main :: "posix \<Rightarrow> (string \<Rightarrow> nat \<Rightarrow> string) \<Rightarrow> string option \<Rightarrow> unit prog" where
  "small_main P name arg =
     (case arg of
        None \<Rightarrow> fail (Exit ''basedir'')
      | Some dir \<Rightarrow>
          bind (store_path 100 (dir @ ''/d'')) (\<lambda>path.
          bind (sys P (Mkdir path)) (\<lambda>r.
          if r < 0 then fail (Exit ''create failed'')
          else
            let buf = map of_char path @ replicate (100 - length path) 0 in
            bind (small_printstats P dir True buf) (\<lambda>buf.
            bind (usec_now P) (\<lambda>start.
            bind (cwhile (\<lambda>(_, _, left). \<not> left) (small_step P (name dir) buf start) (0, 0, False)) (\<lambda>(i, end, _).
            andthen (sys P (Print ''%d files per %ld usec'' [int i, uint (end - start)])) (
            andthen (small_printstats P dir False buf)
              (return ()))))))))"

definition smallfile_name :: "string \<Rightarrow> nat \<Rightarrow> string" where
  "smallfile_name dir i = dir @ ''/d/f'' @ dec (int i)"

definition smallsync_name :: "string \<Rightarrow> nat \<Rightarrow> string" where
  "smallsync_name dir i = dir @ ''/d/f'' @ dec 0"

definition smallsync_main :: "posix \<Rightarrow> string option \<Rightarrow> unit prog" where
  "smallsync_main P arg = small_main P smallsync_name arg"

section \<open>Atomic replacement of a file (atomic-create.c)\<close>

definition hello :: "byte list" where
  "hello = map of_char ''hello'' @ [10]"

definition atomic_create :: "posix \<Rightarrow> unit prog" where
  "atomic_create P =
     bind (sys P (Open ''temp'' [CREAT, RDWR])) (\<lambda>fd.
     if fd < 0 then fail (Exit ''open temp'')
     else
       bind (sys P (Write_to fd hello)) (\<lambda>r.
       if r \<noteq> int (length hello) then fail (Exit ''write'')
       else
         bind (sys P (Fdatasync fd)) (\<lambda>r.
         if r < 0 then fail (Exit ''fdatasync'')
         else
           andthen (sys P (Close fd)) (
           bind (sys P (Rename ''temp'' ''dst'')) (\<lambda>r.
           if r < 0 then fail (Exit ''rename'')
           else
             bind (sys P (Open ''.'' [DIRECTORY, RDONLY])) (\<lambda>fd.
             if fd < 0 then fail (Exit ''open dir'')
             else
               bind (sys P (Fsync fd)) (\<lambda>r.
               if r < 0 then fail (Exit ''fsync'') else return ())))))))"

section \<open>The statistics file\<close>

lemma print_stats_long: "100 \<le> length (print_stats st)"
proof -
  have "0 < length (dec_digits n)" for n by (simp add: dec_digits.simps)
  then have "1 \<le> length (dec v)" for v by (simp add: dec_def Suc_le_eq)
  then have l: "length label + 3 \<le> length (stat_line label v)" for label v by (simp add: stat_line_def)
  show ?thesis unfolding print_stats_def length_concat
    using l [of "''nread''" "nread st"] l [of "''nwrite''" "nwrite st"] l [of "''nflush''" "nflush st"] l [of "''ngetattr''" "ngetattr st"]
      l [of "''nopen''" "nopen st"] l [of "''nrelease''" "nrelease st"] l [of "''nreadir''" "nreaddir st"] l [of "''nfuse_read''" "nfuse_read st"]
      l [of "''nfuse_write''" "nfuse_write st"] l [of "''ncreate''" "ncreate st"]
    by simp
qed

lemma dec_digits_nonzero: "c \<in> set (dec_digits n) \<Longrightarrow> of_char c \<noteq> (0 :: byte)"
proof (induction n rule: dec_digits.induct)
  case (1 n)
  have d: "of_char (char_of (48 + k) :: char) \<noteq> (0 :: byte)" if "k < 10" for k :: nat
  proof -
    have "(of_char (char_of (48 + k) :: char) :: byte) = of_nat (48 + k)" 
      using that by (subst of_nat_of_char [symmetric]) simp
    moreover have "\<not> 2 ^ 8 dvd 48 + k" using that by (auto dest: dvd_imp_le)
    ultimately show ?thesis by (simp add: word_of_nat_eq_0_iff del: of_nat_add)
  qed
  show ?case using 1 d [of n] d [of "n mod 10"] by (auto simp: dec_digits.simps [of n] split: if_splits)
qed

lemma print_stats_nonzero: "c \<in> set (print_stats st) \<Longrightarrow> of_char c \<noteq> (0 :: byte)"
proof -
  have d: "c \<in> set (dec v) \<Longrightarrow> of_char c \<noteq> (0 :: byte)" for c v
    by (auto simp: dec_def dec_digits_nonzero split: if_splits)
  have "of_char (char_of (10 :: nat) :: char) \<noteq> (0 :: byte)" by (subst of_nat_of_char [symmetric]) simp
  then have l: "list_all (\<lambda>c. of_char c \<noteq> (0 :: byte)) label \<Longrightarrow> list_all (\<lambda>c. of_char c \<noteq> (0 :: byte)) (stat_line label v)" for label v
    using d by (auto simp: stat_line_def list_all_iff)
  have "list_all (\<lambda>c. of_char c \<noteq> (0 :: byte)) (print_stats st)"
    by (simp add: print_stats_def l)
  then show "c \<in> set (print_stats st) \<Longrightarrow> ?thesis" by (simp add: list_all_iff)
qed

text \<open>What the kernel gets from \<open>fuse_read\<close> of the statistics file, and the string in the array of the benchmark.\<close>

lemma stats_bytes:
  assumes "fuse_read stats_path m n 0 fh s = Ok (r, m') s'"
  shows "r = int (min n (length (statsbuf s)))" "\<forall>i < nat r. m' i = of_char (statsbuf s ! i)"
proof -
  have r: "r = int (min n (length (statsbuf s)))"
    and m: "m' = (if 0 < length (statsbuf s) then copy_mem m 0 (string_mem (statsbuf s)) 0 (min n (length (statsbuf s))) else m)"
    using assms by (auto simp: fuse_read_def bind_def gets_def andthen_def count_def modify_def return_def Let_def min_def)
  show "r = int (min n (length (statsbuf s)))" by (rule r)
  show "\<forall>i < nat r. m' i = of_char (statsbuf s ! i)" unfolding m r by (auto simp: copy_mem_def string_mem_def)
qed

definition served :: "posix \<Rightarrow> string \<Rightarrow> int \<Rightarrow> int \<Rightarrow> mem \<Rightarrow> bool" where
  "served P dir n r m \<longleftrightarrow> (\<forall>h. 0 \<le> answer P h (Open (dir @ ''/stats'') [RDONLY]) \<and> input P h = map m [0..<nat r]
     \<and> (\<forall>fd. answer P h (Read_from fd n) = r))"

text \<open>The text \<open>fuse_read\<close> returns for \<open>/stats\<close> fits the array of \<open>LFStest/stats.c\<close> with its end, because \<open>statsbuf\<close> of the
  file system never holds more than 1023 characters.\<close>

lemma lfs_stats_safe:
  assumes "length (statsbuf s) < 1024" "length dir < 1000"
    and "fuse_read stats_path m 1024 0 fh s = Ok (r, m') s'" "served P dir 1024 r m'"
  shows "\<exists>t. printstats P dir False h = Ok () t"
proof -
  have r: "r = int (length (statsbuf s))" using stats_bytes(1) [OF assms(3)] assms(1) by simp
  have "0 \<in> set (filled 1024 (map m' [0..<nat r]) r)" using assms(1) by (simp add: filled_def r)
  then have "wp (printstats P dir False) (\<lambda>_ _. True) h"
    using assms(2,4) r by (simp add: printstats_def stats_of_def served_def BUFSIZE_def store_path_def put_string_def Let_def wp_simps)
  then show ?thesis by (auto dest!: wp_Ok)
qed

text \<open>C37. The benchmark program of the file system does not print its statistics safely: the text \<open>fuse_read\<close> returns for
  \<open>/stats\<close> always has more than 100 characters, and none of them is zero, so that \<open>printstats\<close> of \<open>bench/smallfile.c\<close> and
  \<open>bench/smallsync.c\<close>, with an array of 100 bytes, prints a string without an end.\<close>

theorem small_stats_overread:
  assumes "statsbuf s = print_stats st" "length dir < 90"
    and "fuse_read stats_path m 100 0 fh s = Ok (r, m') s'" "served P dir 100 r m'"
  shows "\<exists>t. small_printstats P dir False buf h = Fail (Undef ''string without end'') t"
proof -
  have r: "r = 100" using stats_bytes(1) [OF assms(3)] assms(1) print_stats_long by simp
  have "m' i \<noteq> 0" if "i < 100" for i
  proof -
    have "m' i = of_char (print_stats st ! i)" using stats_bytes(2) [OF assms(3)] assms(1) r that by simp
    moreover have "print_stats st ! i \<in> set (print_stats st)" using that print_stats_long [of st] by (intro nth_mem) simp
    ultimately show ?thesis using print_stats_nonzero by simp
  qed
  then have "0 \<notin> set (filled 100 (map m' [0..<nat r]) r)" by (auto simp: filled_def r)
  then show ?thesis
    using assms(2,4) r by (simp add: small_printstats_def stats_of_def served_def NAMESIZE_def store_path_def put_string_def Let_def
      bind_def andthen_def sys_def sys_input_def return_def fail_def not_less)
qed

text \<open>The file system with its counters at zero, and a host on which it is mounted.\<close>

definition fresh_fs :: fusest where
  "fresh_fs = quiet_fs\<lparr>statsbuf := print_stats zero_stats\<rparr>"

definition mounted :: "mem \<Rightarrow> posix" where
  "mounted m = \<lparr>answer = (\<lambda>h c. case c of Read_from fd n \<Rightarrow> 100 | _ \<Rightarrow> 0), clock = (\<lambda>h. (0, 0)), input = (\<lambda>h. map m [0..<100])\<rparr>"

theorem small_stats_overread_witness:
  "\<exists>m s t. fuse_read stats_path zero_block 100 0 None fresh_fs = Ok (100, m) s
    \<and> small_printstats (mounted m) ''/mnt'' False [] [] = Fail (Undef ''string without end'') t"
proof -
  have b: "statsbuf fresh_fs = print_stats zero_stats" by (simp add: fresh_fs_def)
  obtain r m s where f: "fuse_read stats_path zero_block 100 0 None fresh_fs = Ok (r, m) s"
    by (auto simp: fuse_read_def bind_def gets_def andthen_def count_def modify_def return_def Let_def)
  have r: "r = 100" using stats_bytes(1) [OF f] print_stats_long [of zero_stats] by (simp add: b)
  have "served (mounted m) ''/mnt'' 100 r m" by (simp add: served_def mounted_def r)
  then show ?thesis using small_stats_overread [OF b _ f, where dir = "''/mnt''" and buf = "[]" and h = "[]"] f r by auto
qed

section \<open>The calls of the programs\<close>

text \<open>A host on which the calls succeed.\<close>

definition succeeds :: "posix \<Rightarrow> bool" where
  "succeeds P \<longleftrightarrow> (\<forall>h p q fl fd bs n. 0 \<le> answer P h (Open p fl) \<and> answer P h (Write_to fd bs) = int (length bs)
     \<and> (0 \<le> n \<longrightarrow> 0 \<le> answer P h (Read_from fd n) \<and> answer P h (Read_from fd n) \<le> n) \<and> 0 \<le> answer P h (Fsync fd)
     \<and> 0 \<le> answer P h (Unlink p) \<and> 0 \<le> answer P h (Fdatasync fd) \<and> 0 \<le> answer P h (Rename p q))"

lemma succeedsD:
  assumes "succeeds P"
  shows "\<not> answer P h (Open p fl) < 0" "answer P h (Write_to fd bs) = int (length bs)" "0 \<le> n \<Longrightarrow> \<not> answer P h (Read_from fd n) < 0"
    "\<not> answer P h (Fsync fd) < 0" "\<not> answer P h (Unlink p) < 0" "\<not> answer P h (Fdatasync fd) < 0" "\<not> answer P h (Rename p q) < 0"
    "0 \<le> n \<Longrightarrow> answer P h (Read_from fd n) \<le> n"
  using assms by (auto simp: succeeds_def not_less)

fun created :: "oscall list \<Rightarrow> string list" where
  "created (Open p fl # h) = (if CREAT \<in> set fl then p # created h else created h)"
| "created (_ # h) = created h"
| "created [] = []"

fun unlinked :: "oscall list \<Rightarrow> string list" where
  "unlinked (Unlink p # h) = p # unlinked h"
| "unlinked (_ # h) = unlinked h"
| "unlinked [] = []"

lemma created_append [simp]: "created (g @ h) = created g @ created h"
  by (induction g rule: created.induct) simp_all

lemma unlinked_append [simp]: "unlinked (g @ h) = unlinked g @ unlinked h"
  by (induction g rule: unlinked.induct) simp_all

definition small_files :: "string \<Rightarrow> nat \<Rightarrow> string list" where
  "small_files topdir n = map (\<lambda>i. file_name topdir (i div 100) i) [0..<n]"

lemma next_dir_div: "next_dir i (i div 100) = Suc i div 100"
  by (simp add: next_dir_def div_Suc)

text \<open>The files of the loops: file \<open>i\<close> is in directory \<open>i div 100\<close>, so the 100 directories hold 10000 files.\<close>

lemma small_file_dir: "i < 10000 \<Longrightarrow> i div 100 < NDIR"
  by (simp add: NDIR_def)

lemma wp_creat_test:
  assumes P: "succeeds P" and n: "\<forall>i < nat n. length (file_name topdir (i div 100) i) < 100" "0 \<le> sz" "sz \<le> 40960"
    and post: "\<And>t. created t = created h @ small_files topdir (nat n) \<Longrightarrow> unlinked t = unlinked h \<Longrightarrow> Q () t"
  shows "wp (creat_test P topdir n sz) Q h"
proof -
  have "wp (mfold [0..<nat n] (creat_one P topdir sz) 0) (\<lambda>_ t. \<forall>e. Q () (t @ [Gettimeofday, Print ''creat took %ld usec'' [e]])) (h @ [Gettimeofday])"
  proof (rule wp_mfold [where I = "\<lambda>k j t. j = k div 100 \<and> created t = created h @ small_files topdir k \<and> unlinked t = unlinked h"])
    fix k j t assume k: "k < length [0..<nat n]" and I: "j = k div 100 \<and> created t = created h @ small_files topdir k \<and> unlinked t = unlinked h"
    show "wp (creat_one P topdir sz ([0..<nat n] ! k) j) (\<lambda>j t. j = Suc k div 100 \<and> created t = created h @ small_files topdir (Suc k) \<and> unlinked t = unlinked h) t"
      using n k I next_dir_div [of k]
      by (simp add: creat_one_def wp_simps succeedsD [OF P] store_path_def write_buf_def complain_def small_files_def not_less)
  qed (use post in \<open>simp_all add: small_files_def\<close>)
  then show ?thesis by (simp add: creat_test_def wp_simps) (erule wp_mono, simp add: wp_simps)
qed

lemma wp_read_test:
  assumes P: "succeeds P" and n: "\<forall>i < nat n. length (file_name topdir (i div 100) i) < 100" "0 \<le> sz" "sz \<le> 40960"
    and post: "\<And>t. created t = created h \<Longrightarrow> unlinked t = unlinked h \<Longrightarrow> Q () t"
  shows "wp (read_test P topdir n sz) Q h"
proof -
  have r: "answer P g (Read_from fd sz) \<le> 40960" for g fd using succeedsD(8) [OF P n(2)] n(3) by (rule order_trans)
  have "wp (mfold [0..<nat n] (read_one P topdir sz) 0) (\<lambda>_ t. \<forall>e. Q () (t @ [Gettimeofday, Print ''read took %ld usec'' [e]])) (h @ [Gettimeofday])"
  proof (rule wp_mfold [where I = "\<lambda>k j t. j = k div 100 \<and> created t = created h \<and> unlinked t = unlinked h"])
    fix k j t assume k: "k < length [0..<nat n]" and I: "j = k div 100 \<and> created t = created h \<and> unlinked t = unlinked h"
    show "wp (read_one P topdir sz ([0..<nat n] ! k) j) (\<lambda>j t. j = Suc k div 100 \<and> created t = created h \<and> unlinked t = unlinked h) t"
      using n(1,2) k I next_dir_div [of k] r
      by (simp add: read_one_def wp_simps succeedsD [OF P] store_path_def complain_def not_less)
  qed (use post in simp_all)
  then show ?thesis by (simp add: read_test_def wp_simps) (erule wp_mono, simp add: wp_simps)
qed

lemma wp_delete_test:
  assumes P: "succeeds P" and n: "\<forall>i < nat n. length (file_name topdir (i div 100) i) < 100"
    and post: "\<And>t. created t = created h \<Longrightarrow> unlinked t = unlinked h @ small_files topdir (nat n) \<Longrightarrow> Q () t"
  shows "wp (delete_test P topdir n) Q h"
proof -
  have "wp (mfold [0..<nat n] (delete_one P topdir) 0) (\<lambda>_ t. \<forall>e. Q () (t @ [Gettimeofday, Print ''unlink took %ld usec'' [e]])) (h @ [Gettimeofday])"
  proof (rule wp_mfold [where I = "\<lambda>k j t. j = k div 100 \<and> created t = created h \<and> unlinked t = unlinked h @ small_files topdir k"])
    fix k j t assume k: "k < length [0..<nat n]" and I: "j = k div 100 \<and> created t = created h \<and> unlinked t = unlinked h @ small_files topdir k"
    show "wp (delete_one P topdir ([0..<nat n] ! k) j) (\<lambda>j t. j = Suc k div 100 \<and> created t = created h \<and> unlinked t = unlinked h @ small_files topdir (Suc k)) t"
      using n k I next_dir_div [of k]
      by (simp add: delete_one_def wp_simps succeedsD [OF P] store_path_def small_files_def)
  qed (use post in \<open>simp_all add: small_files_def\<close>)
  then show ?thesis by (simp add: delete_test_def wp_simps) (erule wp_mono, simp add: wp_simps)
qed

lemma wp_creat_dir:
  assumes "length topdir < 90" and post: "\<And>t. created t = created h \<Longrightarrow> unlinked t = unlinked h \<Longrightarrow> Q () t"
  shows "wp (creat_dir P topdir) Q h"
proof -
  have d: "length (dec_digits i) \<le> 2" if "i < 100" for i
  proof -
    have "i div 10 < 10" using that by linarith
    then show ?thesis by (simp add: dec_digits.simps)
  qed
  have l: "length (dir_name topdir i) < 100" if "i < NDIR" for i
    using d [of i] that assms(1) by (auto simp: dir_name_def NDIR_def dec_def)
  have "wp (mfor [0..<NDIR] (\<lambda>i. bind (store_path 100 (dir_name topdir i)) (\<lambda>dir.
       bind (sys P (Mkdir dir)) (\<lambda>r. complain P (r \<noteq> 0) ''mkdir failed'' r)))) Q (h @ [Umask 0])"
    by (rule wp_mfor [where I = "\<lambda>k t. created t = created h \<and> unlinked t = unlinked h"])
       (use l post in \<open>simp_all add: wp_simps store_path_def complain_def\<close>)
  then show ?thesis by (simp add: creat_dir_def wp_simps)
qed

lemma wp_printstats:
  assumes "succeeds P" "length dir < 1000" "\<forall>h. length (input P h) < 1024"
    and post: "\<And>t. created t = created h \<Longrightarrow> unlinked t = unlinked h \<Longrightarrow> Q () t"
  shows "wp (printstats P dir reset) Q h"
proof -
  have "0 \<in> set (filled 1024 (input P g) r)" for g r
    using assms(3) [rule_format, of g] by (simp add: filled_def min_less_iff_disj)
  then show ?thesis
    using assms(2) post by (auto simp: printstats_def stats_of_def BUFSIZE_def store_path_def put_string_def Let_def wp_simps
      succeedsD [OF assms(1)])
qed

text \<open>The small file benchmark removes the files it makes: on a host on which the calls succeed, the files it unlinks are the
  files it has created, in the same order, and then \<open>t\<close>, which only the unused function \<open>flush_cache\<close> makes. File number
  \<open>i\<close> is in directory \<open>i div 100\<close>.\<close>

theorem smallfile_removes:
  assumes "succeeds P" "\<forall>h. length (input P h) < 1024" "length topdir < 90" "0 \<le> sz" "sz \<le> 40960"
    and "\<forall>i < nat n. length (file_name topdir (i div 100) i) < 100"
  shows "\<exists>t. smallfile_main P (Some (n, sz, topdir)) [] = Ok () t
    \<and> created t = small_files topdir (nat n) \<and> unlinked t = created t @ [''t'']"
proof -
  have "wp (smallfile_main P (Some (n, sz, topdir)))
      (\<lambda>_ t. created t = small_files topdir (nat n) \<and> unlinked t = created t @ [''t'']) []"
    unfolding smallfile_main_def option.case prod.case wp_andthen wp_sys
    by (intro wp_creat_dir wp_printstats wp_creat_test wp_read_test wp_delete_test assms)
       (use assms in \<open>simp_all add: wp_simps\<close>)
  then show ?thesis by (auto dest!: wp_Ok)
qed

theorem smallfile_removes_witness:
  "\<exists>t. smallfile_main ideal (Some (2, 5, ''/m'')) [] = Ok () t \<and> created t = [''/m/d0/g0'', ''/m/d0/g1''] \<and> unlinked t = created t @ [''t'']"
proof -
  have i: "succeeds ideal" "\<forall>h. length (input ideal h) < 1024" by (simp_all add: succeeds_def ideal_def)
  have d: "char_of (48 :: nat) = CHR ''0''" "char_of (49 :: nat) = CHR ''1''" by code_simp+
  have f: "small_files ''/m'' (nat 2) = [''/m/d0/g0'', ''/m/d0/g1'']"
    by (simp add: small_files_def file_name_def dir_name_def dec_def dec_digits.simps d upt_rec [of 0] upt_rec [of "Suc 0"] numeral_2_eq_2)
  have "\<forall>k < nat 2. length (file_name ''/m'' (k div 100) k) < 100"
    by (auto simp: file_name_def dir_name_def dec_def dec_digits.simps)
  then show ?thesis using smallfile_removes [OF i, of "''/m''" 5 2] f by auto
qed

section \<open>Durability of the writes of the own benchmarks\<close>

text \<open>\<open>writefile\<close> syncs every 160 writes and at the end if needed: nothing is left unsynced when it closes the file. The number of
  writes to a descriptor since the last \<open>fsync\<close> of it.\<close>

fun unsynced :: "int \<Rightarrow> oscall \<Rightarrow> nat \<Rightarrow> nat" where
  "unsynced fd (Write_to f bs) k = (if f = fd then Suc k else k)"
| "unsynced fd (Fsync f) k = (if f = fd then 0 else k)"
| "unsynced fd _ k = k"

abbreviation unsynced_after :: "int \<Rightarrow> oscall list \<Rightarrow> nat" where
  "unsynced_after fd h \<equiv> fold (unsynced fd) h 0"

lemma sync_period: "(int i + 1) * WSIZE mod (10 * 1024 * 1024) = 0 \<longleftrightarrow> Suc i mod 160 = 0"
proof -
  have "(int i + 1) * WSIZE = 65536 * int (Suc i)" by (simp add: WSIZE_def)
  moreover have "(10 * 1024 * 1024 :: int) = 65536 * 160" by simp
  ultimately have "(int i + 1) * WSIZE mod (10 * 1024 * 1024) = 65536 * (int (Suc i) mod 160)" by (simp only: mod_mult_mult1)
  moreover have "int (Suc i) mod 160 = int (Suc i mod 160)" by (simp add: zmod_int)
  ultimately show ?thesis by simp
qed

lemma writefile_synced:
  assumes "succeeds P" "length dir < 90"
  shows "\<exists>buf t fd. writefile P dir old h = Ok buf (t @ [Close fd]) \<and> unsynced_after fd t = 0"
proof -
  let ?buf = "stats_buf dir old"
  have n: "nat (FILESIZE div WSIZE) = 800" by (simp add: FILESIZE_def WSIZE_def)
  define fd where "fd = answer P h (Open (dir @ ''/d/f'') [RDWR])"
  have "wp (mfor [0..<800] (writefile_step P fd ?buf)) (\<lambda>_ t. unsynced_after fd t = 0) (h @ [Open (dir @ ''/d/f'') [RDWR]])"
  proof (rule wp_mfor [where I = "\<lambda>k t. 0 < k \<longrightarrow> (if k mod 160 = 0 then unsynced_after fd t = 0 else True)"])
    fix k t assume k: "k < length [0..<800]" "0 < k \<longrightarrow> (if k mod 160 = 0 then unsynced_after fd t = 0 else True)"
    show "wp (writefile_step P fd ?buf ([0..<800] ! k)) (\<lambda>_ t. 0 < Suc k \<longrightarrow> (if Suc k mod 160 = 0 then unsynced_after fd t = 0 else True)) t"
      using k sync_period [of k] by (simp add: writefile_step_def write_all_def sync_file_def wp_simps succeedsD [OF assms(1)])
  qed simp_all
  moreover have "\<not> fd < 0" "800 * WSIZE mod 10485760 = 0" by (simp_all add: fd_def succeedsD [OF assms(1)] WSIZE_def)
  ultimately have "wp (writefile P dir old) (\<lambda>buf t. \<exists>u. t = u @ [Close fd] \<and> unsynced_after fd u = 0) h"
    using assms(2) unfolding writefile_def Let_def n
    by (simp add: wp_simps store_path_def NAMESIZE_def flip: fd_def)
  then show ?thesis by (auto dest!: wp_Ok)
qed

text \<open>\<open>atomic-create.c\<close>: the data is durable before the name appears, and the name before the program ends.\<close>

lemma atomic_create_order:
  assumes "succeeds P"
  shows "\<exists>fd dfd. atomic_create P [] = Ok () [Open ''temp'' [CREAT, RDWR], Write_to fd hello, Fdatasync fd, Close fd,
    Rename ''temp'' ''dst'', Open ''.'' [DIRECTORY, RDONLY], Fsync dfd]"
  by (simp add: atomic_create_def bind_def andthen_def sys_def return_def succeedsD [OF assms])

end
