(* ===== verification/Bench_Calls.thy ===== *)
theory Bench_Calls
  imports Bench_Small
begin

text \<open>
  The programs that repeat a few calls: \<open>bench/single-syscall\<close>, \<open>bench/mini-mini.c\<close>, \<open>bench/mini-mailbench.c\<close>,
  \<open>bench/testsync.c\<close> and \<open>bench/LFStest/write1.c\<close>. The lemmas count the calls for every host, and show that the mail benchmark and
  \<open>testsync\<close> never give a name to data that is not durable. A parameter \<open>buf\<close> stands for the bytes of a local array that the program
  does not initialise.
\<close>

section \<open>Single calls (bench/single-syscall)\<close>

text \<open>\<open>av[1]\<close> is a null pointer when the program has no argument, which \<open>open\<close> and \<open>sprintf\<close> may not be given.\<close>

definition av1 :: "string option \<Rightarrow> string prog" where
  "av1 arg = (case arg of None \<Rightarrow> fail (Undef ''av[1]'') | Some fn \<Rightarrow> return fn)"

definition perror :: "posix \<Rightarrow> string \<Rightarrow> unit prog" where
  "perror P msg = andthen (sys P (Print msg [])) (return ())"

definition open_new :: "posix \<Rightarrow> string \<Rightarrow> int prog" where
  "open_new P fn =
     bind (sys P (Open fn [CREAT, RDWR, EXCL])) (\<lambda>fd.
     andthen (unless (0 \<le> fd) (perror P ''open''))
       (return fd))"

definition create_step :: "posix \<Rightarrow> string \<Rightarrow> unit prog" where
  "create_step P fn =
     bind (open_new P fn) (\<lambda>fd.
     andthen (sys P (Close fd)) (
     andthen (sys P (Unlink fn))
       (return ())))"

definition multicreate :: "posix \<Rightarrow> string option \<Rightarrow> unit prog" where
  "multicreate P arg = bind (av1 arg) (\<lambda>fn. mfor [0..<10000] (\<lambda>i. create_step P fn))"

definition txt_name :: "string \<Rightarrow> nat \<Rightarrow> string" where
  "txt_name base i = base @ ''/f'' @ dec (int i) @ ''.txt''"

definition createmany_step :: "posix \<Rightarrow> string \<Rightarrow> nat \<Rightarrow> unit prog" where
  "createmany_step P base i =
     bind (store_path 256 (txt_name base i)) (\<lambda>fn.
     bind (open_new P fn) (\<lambda>fd.
     andthen (sys P (Close fd))
       (return ())))"

definition multicreatemany :: "posix \<Rightarrow> string option \<Rightarrow> unit prog" where
  "multicreatemany P arg = bind (av1 arg) (\<lambda>base. mfor [0..<1000] (createmany_step P base))"

definition createwrite_step :: "posix \<Rightarrow> string \<Rightarrow> byte list \<Rightarrow> unit prog" where
  "createwrite_step P fn buf =
     bind (open_new P fn) (\<lambda>fd.
     andthen (sys P (Write_to fd (take 128 buf))) (
     andthen (sys P (Close fd)) (
     andthen (sys P (Unlink fn))
       (return ()))))"

definition multicreatewrite :: "posix \<Rightarrow> string option \<Rightarrow> byte list \<Rightarrow> unit prog" where
  "multicreatewrite P arg buf = bind (av1 arg) (\<lambda>fn. mfor [0..<1000] (\<lambda>i. createwrite_step P fn buf))"

definition pwrite_step :: "posix \<Rightarrow> bool \<Rightarrow> int \<Rightarrow> byte list \<Rightarrow> unit prog" where
  "pwrite_step P sync fd buf =
     andthen (sys P (Pwrite fd (take 4096 buf) 0))
       (if sync then andthen (sys P (Fsync fd)) (return ()) else return ())"

text \<open>\<open>multiwrite\<close> and \<open>multifsync\<close> differ in the \<open>fsync\<close>.\<close>

definition multipwrite :: "bool \<Rightarrow> posix \<Rightarrow> string option \<Rightarrow> byte list \<Rightarrow> unit prog" where
  "multipwrite sync P arg buf =
     bind (av1 arg) (\<lambda>fn.
     bind (sys P (Open fn [RDWR, CREAT])) (\<lambda>fd.
     andthen (unless (0 \<le> fd) (perror P ''open''))
       (mfor [0..<100000] (\<lambda>i. pwrite_step P sync fd buf))))"

definition multiwrite :: "posix \<Rightarrow> string option \<Rightarrow> byte list \<Rightarrow> unit prog" where
  "multiwrite = multipwrite False"

definition multifsync :: "posix \<Rightarrow> string option \<Rightarrow> byte list \<Rightarrow> unit prog" where
  "multifsync = multipwrite True"

definition open_step :: "posix \<Rightarrow> string \<Rightarrow> unit prog" where
  "open_step P fn =
     bind (sys P (Open fn [RDONLY])) (\<lambda>fd.
     if 0 \<le> fd then andthen (sys P (Close fd)) (return ()) else return ())"

definition multiopen :: "posix \<Rightarrow> string option \<Rightarrow> unit prog" where
  "multiopen P arg = bind (av1 arg) (\<lambda>fn. mfor [0..<100000] (\<lambda>i. open_step P fn))"

definition read_step :: "posix \<Rightarrow> string \<Rightarrow> unit prog" where
  "read_step P fn =
     bind (sys P (Open fn [RDONLY])) (\<lambda>fd.
     andthen (if 0 \<le> fd then andthen (sys P (Read_from fd 4096)) (return ()) else return ())
       (if 0 \<le> fd then andthen (sys P (Close fd)) (return ()) else return ()))"

definition multiread :: "posix \<Rightarrow> string option \<Rightarrow> unit prog" where
  "multiread P arg = bind (av1 arg) (\<lambda>fn. mfor [0..<100000] (\<lambda>i. read_step P fn))"

definition stat_step :: "posix \<Rightarrow> string \<Rightarrow> unit prog" where
  "stat_step P fn = andthen (sys P (Stat fn)) (return ())"

definition multistat :: "posix \<Rightarrow> string option \<Rightarrow> unit prog" where
  "multistat P arg = bind (av1 arg) (\<lambda>fn. mfor [0..<1000000] (\<lambda>i. stat_step P fn))"

section \<open>Renames and mail delivery (mini-mini.c, mini-mailbench.c, testsync.c)\<close>

definition mini_step :: "posix \<Rightarrow> int \<Rightarrow> unit prog" where
  "mini_step P dfd =
     andthen (sys P (Rename ''test.one'' ''test.two'')) (
     andthen (sys P (Fsync dfd)) (
     andthen (sys P (Rename ''test.two'' ''test.one'')) (
     andthen (sys P (Fsync dfd))
       (return ()))))"

definition mini_main :: "posix \<Rightarrow> unit prog" where
  "mini_main P =
     bind (sys P (Open ''test.one'' [CREAT, EXCL, WRONLY])) (\<lambda>fd.
     andthen (sys P (Close fd)) (
     bind (sys P (Open ''.'' [RDONLY, DIRECTORY])) (\<lambda>dfd.
     andthen (mfor [0..<100] (\<lambda>i. mini_step P dfd)) (
     andthen (sys P (Unlink ''test.one''))
       (return ())))))"

text \<open>\<open>snprintf\<close> into an array of \<open>n\<close> characters keeps the first \<open>n - 1\<close>.\<close>

definition snprintf :: "nat \<Rightarrow> string \<Rightarrow> string" where
  "snprintf n s = take (n - 1) s"

text \<open>The message of the failed call, and the end of the program by \<open>exit\<close> or by \<open>return 1\<close> from \<open>main\<close>.\<close>

definition xerror :: "posix \<Rightarrow> string \<Rightarrow> 'a prog" where
  "xerror P msg = andthen (perror P msg) (fail (Exit msg))"

definition mail_msg :: "byte list" where
  "mail_msg = map of_char (snprintf 64 (''Hello world!'' @ [CHR 0x0A]))"

definition tmp_name :: "nat \<Rightarrow> nat \<Rightarrow> string" where
  "tmp_name i k = snprintf 64 (''tmp.'' @ dec (int i) @ ''.'' @ dec (int k))"

definition q_name :: "nat \<Rightarrow> nat \<Rightarrow> string" where
  "q_name i k = snprintf 64 (''q.'' @ dec (int i) @ ''.'' @ dec (int k))"

definition mail_spool :: "posix \<Rightarrow> string \<Rightarrow> string \<Rightarrow> unit prog" where
  "mail_spool P tmp msg =
     bind (sys P (Open tmp [CREAT, EXCL, WRONLY])) (\<lambda>fd.
     if fd < 0 then xerror P msg
     else
       andthen (sys P (Write_to fd mail_msg)) (
       andthen (sys P (Fdatasync fd)) (
       andthen (sys P (Close fd))
         (return ()))))"

definition mail_deliver :: "posix \<Rightarrow> string \<Rightarrow> string \<Rightarrow> string \<Rightarrow> string \<Rightarrow> unit prog" where
  "mail_deliver P tmp fn msg1 msg2 =
     bind (sys P (Rename tmp fn)) (\<lambda>r.
     if r < 0 then xerror P msg1
     else
       bind (sys P (Open ''.'' [RDONLY, DIRECTORY])) (\<lambda>dirfd.
       if dirfd < 0 then xerror P msg2
       else
         andthen (sys P (Fsync dirfd)) (
         andthen (sys P (Close dirfd))
           (return ()))))"

definition mail_step :: "posix \<Rightarrow> nat \<Rightarrow> unit prog" where
  "mail_step P i =
     andthen (mail_spool P (tmp_name i 1) ''open1'') (
     andthen (mail_spool P (tmp_name i 2) ''open2'') (
     andthen (mail_deliver P (tmp_name i 1) (q_name i 1) ''rename1'' ''opendir1'')
       (mail_deliver P (tmp_name i 2) (q_name i 2) ''rename2'' ''opendir2'')))"

definition mailbench_main :: "posix \<Rightarrow> unit prog" where
  "mailbench_main P = mfor [0..<300] (mail_step P)"

definition niter :: nat where
  "niter = 1000"

definition foo :: "byte list" where
  "foo = map of_char ''foo'' @ [10]"

definition testsync_step :: "posix \<Rightarrow> int \<Rightarrow> string \<Rightarrow> string \<Rightarrow> unit prog" where
  "testsync_step P dir_fd f1 f2 =
     bind (sys P (Open f1 [RDWR, CREAT, EXCL])) (\<lambda>fd.
     if fd < 0 then xerror P ''open f1''
     else
       bind (sys P (Write_to fd foo)) (\<lambda>r.
       andthen (unless (r = 4) (perror P ''write'')) (
       bind (sys P (Fsync fd)) (\<lambda>r.
       andthen (unless (0 \<le> r) (perror P ''fsync'')) (
       andthen (sys P (Close fd)) (
       bind (sys P (Rename f1 f2)) (\<lambda>r.
       andthen (unless (0 \<le> r) (perror P ''rename'')) (
       bind (sys P (Fsync dir_fd)) (\<lambda>r.
         unless (0 \<le> r) (perror P ''fsync''))))))))))"

definition testsync_main :: "posix \<Rightarrow> (string \<times> string \<times> string) option \<Rightarrow> unit prog" where
  "testsync_main P args =
     (case args of
        None \<Rightarrow> fail (Exit ''dir dir/f1 dir/f2'')
      | Some (dir, f1, f2) \<Rightarrow>
          bind (sys P (Open dir [RDONLY, DIRECTORY])) (\<lambda>dir_fd.
          if dir_fd < 0 then xerror P ''open''
          else mfor [0..<niter] (\<lambda>i. testsync_step P dir_fd f1 f2)))"

section \<open>One block per file (LFStest/write1.c)\<close>

definition NITER :: nat where
  "NITER = 100"

definition write1_step :: "posix \<Rightarrow> string \<Rightarrow> unit prog" where
  "write1_step P name =
     bind (sys P (Open name [CREAT, TRUNC, RDWR])) (\<lambda>fd.
     if fd < 0 then xerror P ''open''
     else
       bind (sys P (Write_to fd (replicate (nat BUFSIZE) (of_char CHR ''a'')))) (\<lambda>r.
       if r < 0 then xerror P ''write''
       else
         bind (sys P (Close fd)) (\<lambda>r.
         andthen (unless (0 \<le> r) (perror P ''close'')) (
         bind (sys P (Unlink name)) (\<lambda>r.
           unless (0 \<le> r) (perror P ''unlink''))))))"

definition write1_main :: "posix \<Rightarrow> string option \<Rightarrow> unit prog" where
  "write1_main P arg =
     bind (av1 arg) (\<lambda>dir.
     bind (store_path BUFSIZE (dir @ ''/write1'')) (\<lambda>name.
       mfor [0..<NITER] (\<lambda>iter. write1_step P name)))"

section \<open>The calls for every host\<close>

text \<open>None of these programs depends on what the host answers: the calls are the same even if all of them fail.\<close>

lemma wp_times:
  assumes "I 0 h" "\<And>k t. k < n \<Longrightarrow> I k t \<Longrightarrow> wp (body k) (\<lambda>_. I (Suc k)) t" "\<And>t. I n t \<Longrightarrow> Q () t"
  shows "wp (mfor [0..<n] body) Q h"
  by (rule wp_mfor [where I = I]) (use assms in simp_all)

lemmas step_defs = open_new_def perror_def create_step_def createwrite_step_def createmany_step_def open_step_def read_step_def

lemma create_times:
  assumes "\<And>i t. wp (body i) (\<lambda>_ u. created u = created t @ [fn] \<and> unlinked u = unlinked t @ [fn]) t"
  shows "wp (mfor [0..<n] body) (\<lambda>_ t. created t = replicate n fn \<and> unlinked t = replicate n fn) []"
proof (rule wp_times [where I = "\<lambda>k t. created t = replicate k fn \<and> unlinked t = replicate k fn"])
  fix k t assume "created t = replicate k fn \<and> unlinked t = replicate k fn"
  then show "wp (body k) (\<lambda>_ u. created u = replicate (Suc k) fn \<and> unlinked u = replicate (Suc k) fn) t"
    by (intro wp_mono [OF assms [of k t]]) (simp add: replicate_append_same)
qed simp_all

lemma multicreate_calls:
  "\<exists>t. multicreate P (Some fn) [] = Ok () t \<and> created t = replicate 10000 fn \<and> unlinked t = replicate 10000 fn"
proof -
  have "wp (multicreate P (Some fn)) (\<lambda>_ t. created t = replicate 10000 fn \<and> unlinked t = replicate 10000 fn) []"
    unfolding multicreate_def av1_def option.case wp_bind wp_return
    by (rule create_times) (simp add: step_defs wp_simps)
  then show ?thesis by (auto dest!: wp_Ok)
qed

lemma multicreatewrite_calls:
  "\<exists>t. multicreatewrite P (Some fn) buf [] = Ok () t \<and> created t = replicate 1000 fn \<and> unlinked t = replicate 1000 fn"
proof -
  have "wp (multicreatewrite P (Some fn) buf) (\<lambda>_ t. created t = replicate 1000 fn \<and> unlinked t = replicate 1000 fn) []"
    unfolding multicreatewrite_def av1_def option.case wp_bind wp_return
    by (rule create_times) (simp add: step_defs wp_simps)
  then show ?thesis by (auto dest!: wp_Ok)
qed

lemma dec_digits_short: "n < 10 ^ Suc k \<Longrightarrow> length (dec_digits n) \<le> Suc k"
proof (induction k arbitrary: n)
  case 0
  then show ?case by (simp add: dec_digits.simps)
next
  case (Suc k)
  then have "n div 10 < 10 ^ Suc k" by (simp add: less_mult_imp_div_less mult.commute)
  then show ?case using Suc.IH by (simp add: dec_digits.simps [of n])
qed

text \<open>The files of \<open>multicreatemany\<close> stay; a directory name of up to 246 characters fits the array.\<close>

lemma multicreatemany_calls:
  assumes "length base < 247"
  shows "\<exists>t. multicreatemany P (Some base) [] = Ok () t \<and> created t = map (txt_name base) [0..<1000] \<and> unlinked t = []"
proof -
  have s: "length (txt_name base k) < 256" if "k < 1000" for k
    using dec_digits_short [of k 2] assms that by (simp add: txt_name_def dec_def)
  have "wp (multicreatemany P (Some base)) (\<lambda>_ t. created t = map (txt_name base) [0..<1000] \<and> unlinked t = []) []"
    unfolding multicreatemany_def av1_def option.case wp_bind wp_return
    by (rule wp_times [where I = "\<lambda>k t. created t = map (txt_name base) [0..<k] \<and> unlinked t = []"])
       (simp_all add: step_defs store_path_def wp_simps s del: upt_conv_Cons upt_rec_numeral)
  then show ?thesis by (auto dest!: wp_Ok)
qed

section \<open>What is durable when a name appears\<close>

text \<open>The calls together with their answers, and what they leave: the open descriptors with the names of their files, the names of files with
  data that was not synced, the names that were given to such files, and the names whose directory was not synced since.\<close>

fun answered :: "posix \<Rightarrow> oscall list \<Rightarrow> oscall list \<Rightarrow> (oscall \<times> int) list" where
  "answered P g [] = []"
| "answered P g (c # h) = (c, answer P g c) # answered P (g @ [c]) h"

record durability =
  fds :: "(int \<times> string) list"
  unsaved :: "string list"
  hasty :: "string list"
  loose :: "string list"

definition made_durable :: "string \<Rightarrow> int \<Rightarrow> durability \<Rightarrow> durability" where
  "made_durable dir fd d = (case map_of (fds d) fd of
     None \<Rightarrow> d
   | Some p \<Rightarrow> d\<lparr>unsaved := removeAll p (unsaved d), loose := (if p = dir then [] else loose d)\<rparr>)"

fun track :: "string \<Rightarrow> oscall \<times> int \<Rightarrow> durability \<Rightarrow> durability" where
  "track dir (Open p fl, r) d = (if 0 \<le> r then d\<lparr>fds := (r, p) # fds d\<rparr> else d)"
| "track dir (Close fd, r) d = d\<lparr>fds := filter (\<lambda>(f, p). f \<noteq> fd) (fds d)\<rparr>"
| "track dir (Write_to fd bs, r) d = (case map_of (fds d) fd of None \<Rightarrow> d | Some p \<Rightarrow> d\<lparr>unsaved := p # unsaved d\<rparr>)"
| "track dir (Fsync fd, r) d = (if 0 \<le> r then made_durable dir fd d else d)"
| "track dir (Fdatasync fd, r) d = (if 0 \<le> r then made_durable dir fd d else d)"
| "track dir (Rename a b, r) d = (if 0 \<le> r then
     d\<lparr>fds := map (\<lambda>(f, p). (f, if p = a then b else p)) (fds d),
       unsaved := map (\<lambda>p. if p = a then b else p) (unsaved d),
       hasty := (if a \<in> set (unsaved d) then b # hasty d else hasty d),
       loose := b # loose d\<rparr> else d)"
| "track dir _ d = d"

definition tracked :: "string \<Rightarrow> posix \<Rightarrow> oscall list \<Rightarrow> durability" where
  "tracked dir P h = fold (track dir) (answered P [] h) \<lparr>fds = [], unsaved = [], hasty = [], loose = []\<rparr>"

lemma answered_append: "answered P g (h @ k) = answered P g h @ answered P (g @ h) k"
  by (induction h arbitrary: g) simp_all

lemma tracked_Nil [simp]: "tracked dir P [] = \<lparr>fds = [], unsaved = [], hasty = [], loose = []\<rparr>"
  by (simp add: tracked_def)

lemma tracked_append [simp]: "tracked dir P (h @ k) = fold (track dir) (answered P h k) (tracked dir P h)"
  by (simp add: tracked_def answered_append)

fun renamed :: "oscall list \<Rightarrow> (string \<times> string) list" where
  "renamed (Rename a b # h) = (a, b) # renamed h"
| "renamed (_ # h) = renamed h"
| "renamed [] = []"

lemma renamed_append [simp]: "renamed (g @ h) = renamed g @ renamed h"
  by (induction g rule: renamed.induct) simp_all

text \<open>The programs that open the same file again and again leave no descriptor open, whatever the host does.\<close>

lemma multiread_closes: "\<exists>t. multiread P (Some fn) [] = Ok () t \<and> fds (tracked dir P t) = []"
proof -
  have "wp (multiread P (Some fn)) (\<lambda>_ t. fds (tracked dir P t) = []) []"
    unfolding multiread_def av1_def option.case wp_bind wp_return
    by (rule wp_times [where I = "\<lambda>_ t. fds (tracked dir P t) = []"]) (simp_all add: step_defs wp_simps)
  then show ?thesis by (auto dest!: wp_Ok)
qed

lemma multiopen_closes: "\<exists>t. multiopen P (Some fn) [] = Ok () t \<and> fds (tracked dir P t) = []"
proof -
  have "wp (multiopen P (Some fn)) (\<lambda>_ t. fds (tracked dir P t) = []) []"
    unfolding multiopen_def av1_def option.case wp_bind wp_return
    by (rule wp_times [where I = "\<lambda>_ t. fds (tracked dir P t) = []"]) (simp_all add: step_defs wp_simps)
  then show ?thesis by (auto dest!: wp_Ok)
qed

definition tidy :: "durability \<Rightarrow> bool" where
  "tidy d \<longleftrightarrow> unsaved d = [] \<and> hasty d = [] \<and> loose d = []"

text \<open>The messages the mail benchmark delivers after \<open>n\<close> rounds.\<close>

definition mails :: "nat \<Rightarrow> (string \<times> string) list" where
  "mails n = concat (map (\<lambda>i. [(tmp_name i 1, q_name i 1), (tmp_name i 2, q_name i 2)]) [0..<n])"

lemma mails_Suc: "mails (Suc n) = mails n @ [(tmp_name n 1, q_name n 1), (tmp_name n 2, q_name n 2)]"
  by (simp add: mails_def)

text \<open>The mail benchmark delivers every message, none of them before its data is durable, and every delivery is durable before the
  next one.\<close>

lemma wp_mail_spool:
  assumes "succeeds P" "tidy (tracked ''.'' P h)" "\<And>t. tidy (tracked ''.'' P t) \<Longrightarrow> renamed t = renamed h \<Longrightarrow> Q () t"
  shows "wp (mail_spool P tmp msg) Q h"
  using assms(2) by (simp add: mail_spool_def wp_simps succeedsD [OF assms(1)] not_less [symmetric])
    (rule assms(3); simp add: tidy_def made_durable_def not_less [symmetric] succeedsD [OF assms(1)])

lemma wp_mail_deliver:
  assumes "succeeds P" "tidy (tracked ''.'' P h)"
    "\<And>t. tidy (tracked ''.'' P t) \<Longrightarrow> renamed t = renamed h @ [(tmp, fn)] \<Longrightarrow> Q () t"
  shows "wp (mail_deliver P tmp fn msg1 msg2) Q h"
  using assms(2) by (simp add: mail_deliver_def wp_simps succeedsD [OF assms(1)] not_less [symmetric])
    (rule assms(3); simp add: tidy_def made_durable_def not_less [symmetric] succeedsD [OF assms(1)])

lemma mail_durable:
  assumes "succeeds P"
  shows "\<exists>t. mailbench_main P [] = Ok () t \<and> renamed t = mails 300 \<and> tidy (tracked ''.'' P t)"
proof -
  have "wp (mailbench_main P) (\<lambda>_ t. renamed t = mails 300 \<and> tidy (tracked ''.'' P t)) []"
    unfolding mailbench_main_def
  proof (rule wp_times [where I = "\<lambda>k t. renamed t = mails k \<and> tidy (tracked ''.'' P t)"])
    show "renamed [] = mails 0 \<and> tidy (tracked ''.'' P [])" by (simp add: mails_def tidy_def)
  next
    fix k t assume "renamed t = mails k \<and> tidy (tracked ''.'' P t)"
    then show "wp (mail_step P k) (\<lambda>_ t. renamed t = mails (Suc k) \<and> tidy (tracked ''.'' P t)) t"
      unfolding mail_step_def wp_andthen
      by (intro wp_mail_spool wp_mail_deliver assms) (simp_all add: mails_Suc)
  qed
  then show ?thesis by (auto dest!: wp_Ok)
qed

text \<open>\<open>testsync\<close> keeps the directory open, so it relies on the host to give new descriptors.\<close>

definition fresh_fds :: "string \<Rightarrow> posix \<Rightarrow> bool" where
  "fresh_fds dir P \<longleftrightarrow> (\<forall>h p fl. answer P h (Open p fl) \<notin> fst ` set (fds (tracked dir P h)))"

lemma testsync_durable:
  assumes P: "succeeds P" "fresh_fds dir P" and "f1 \<noteq> dir"
  shows "\<exists>t. testsync_main P (Some (dir, f1, f2)) [] = Ok () t \<and> renamed t = replicate niter (f1, f2)
    \<and> tidy (tracked dir P t)"
proof -
  define dfd where "dfd = answer P [] (Open dir [RDONLY, DIRECTORY])"
  have d: "0 \<le> dfd" by (simp add: dfd_def not_less [symmetric] succeedsD [OF P(1)])
  let ?I = "\<lambda>k t. renamed t = replicate k (f1, f2) \<and> tidy (tracked dir P t) \<and> fds (tracked dir P t) = [(dfd, dir)]"
  have "wp (mfor [0..<niter] (\<lambda>i. testsync_step P dfd f1 f2)) (\<lambda>_ t. renamed t = replicate niter (f1, f2) \<and> tidy (tracked dir P t))
    [Open dir [RDONLY, DIRECTORY]]"
  proof (rule wp_times [where I = ?I])
    show "?I 0 [Open dir [RDONLY, DIRECTORY]]"
      using tracked_append [of dir P "[]" "[Open dir [RDONLY, DIRECTORY]]"] d
      by (simp add: tidy_def flip: dfd_def)
  next
    fix k t assume I: "?I k t"
    have "answer P t (Open f1 [RDWR, CREAT, EXCL]) \<notin> fst ` set (fds (tracked dir P t))" using P(2) by (simp add: fresh_fds_def)
    then have "answer P t (Open f1 [RDWR, CREAT, EXCL]) \<noteq> dfd" using I by simp
    then show "wp (testsync_step P dfd f1 f2) (\<lambda>_. ?I (Suc k)) t"
      using I assms(3) by (simp add: testsync_step_def wp_simps succeedsD [OF P(1)] not_less [symmetric] foo_def tidy_def made_durable_def replicate_append_same)
  qed simp
  then have "wp (testsync_main P (Some (dir, f1, f2))) (\<lambda>_ t. renamed t = replicate niter (f1, f2) \<and> tidy (tracked dir P t)) []"
    using d by (simp add: testsync_main_def wp_simps flip: dfd_def)
  then show ?thesis by (auto dest!: wp_Ok)
qed

text \<open>A host that numbers the descriptors, on which both theorems apply.\<close>

definition numbered :: posix where
  "numbered = \<lparr>answer = (\<lambda>h c. case c of Open p fl \<Rightarrow> int (length h) | Write_to fd bs \<Rightarrow> int (length bs) | _ \<Rightarrow> 0),
     clock = (\<lambda>h. (0, 0)), input = (\<lambda>h. [])\<rparr>"

lemma numbered_succeeds: "succeeds numbered"
  by (simp add: succeeds_def numbered_def)

lemma numbered_fds: "f \<in> fst ` set (fds (tracked dir numbered h)) \<Longrightarrow> f < int (length h)"
proof (induction h rule: rev_induct)
  case (snoc c h)
  have "f = int (length h) \<or> f \<in> fst ` set (fds (tracked dir numbered h))"
    using snoc.prems by (cases c) (force simp: numbered_def made_durable_def split: option.splits if_splits)+
  then show ?case using snoc.IH by fastforce
qed simp

lemma numbered_fresh: "fresh_fds dir numbered"
  unfolding fresh_fds_def using numbered_fds by (fastforce simp: numbered_def)

lemma testsync_numbered: "\<exists>t. testsync_main numbered (Some (''/m'', ''/m/a'', ''/m/b'')) [] = Ok () t \<and> tidy (tracked ''/m'' numbered t)"
  using testsync_durable [OF numbered_succeeds numbered_fresh, of "''/m/a''" "''/m''" "''/m/b''"] by auto

end
