(* ===== verification/Bench_Ping.thy ===== *)
theory Bench_Ping
  imports Xv6_Base
begin

text \<open>
  The two programs that measure a round trip between threads: \<open>bench/single-syscall/pingtest.c\<close> with a mutex and a condition variable,
  \<open>bench/single-syscall/spintest.c\<close> with a spin lock and shared variables read in a loop. Each is a step relation over the program
  counters of both threads; a step is what a thread does between two points where the other can see it. The program ends at any time, when
  \<open>sleep(1)\<close> of \<open>main\<close> returns, so what is shown holds of every reachable state. The clock \<open>rdtsc\<close> is the same for both
  threads and never runs backwards.
\<close>

section \<open>The shared variables\<close>

text \<open>\<open>myreply\<close> of the second thread is not initialised: its first content is a parameter of the initial states. \<open>out\<close> are the three numbers
  of each line that was printed.\<close>

record pingst =
  request :: int
  reply :: int
  myreq :: int
  myreply :: int
  tsc :: int
  t1 :: int
  t2 :: int
  t3 :: int
  t4 :: int
  out :: "(int \<times> int \<times> int) list"

definition shared :: "int \<Rightarrow> int \<Rightarrow> pingst" where
  "shared req rep = \<lparr>request = 0, reply = 0, myreq = req, myreply = rep, tsc = 0, t1 = 0, t2 = 0, t3 = 0, t4 = 0, out = []\<rparr>"

definition timing :: "pingst \<Rightarrow> int \<times> int \<times> int" where
  "timing s = (t2 s - t1 s, t3 s - t2 s, t4 s - t3 s)"

definition in_order :: "int \<times> int \<times> int \<Rightarrow> bool" where
  "in_order = (\<lambda>(a, b, c). 0 \<le> a \<and> 0 \<le> b \<and> 0 \<le> c)"

text \<open>The assignments the threads make: a new request (an \<open>int\<close>, which must not overflow) and its answer.\<close>

definition new_request :: "pingst \<Rightarrow> pingst" where
  "new_request s = s\<lparr>request := request s + 1, myreq := request s + 1\<rparr>"

definition new_reply :: "pingst \<Rightarrow> pingst" where
  "new_reply s = s\<lparr>myreply := request s, reply := request s\<rparr>"

section \<open>With a condition variable (pingtest.c)\<close>

text \<open>The states of the threads are named by what they do next. A thread holds the mutex in the states of \<open>holds1\<close> and \<open>holds2\<close>;
  \<open>pthread_cond_wait\<close> gives it back and waits until it is woken, then takes it again.\<close>

datatype pc1 = Start1 | Lock1 | Request1 | Test1 | Wait1 | Woken1 | Stop1 | Print1

datatype pc2 = Lock2 | Test2 | Stamp2 | Reply2 | Done2 | Wait2 | Woken2

definition holds1 :: "pc1 \<Rightarrow> bool" where
  "holds1 p \<longleftrightarrow> p \<in> {Request1, Test1}"

definition holds2 :: "pc2 \<Rightarrow> bool" where
  "holds2 q \<longleftrightarrow> q \<in> {Test2, Stamp2, Reply2, Done2}"

text \<open>\<open>pthread_cond_signal\<close> wakes the other thread if it waits.\<close>

definition wake1 :: "pc1 \<Rightarrow> pc1" where
  "wake1 p = (if p = Wait1 then Woken1 else p)"

definition wake2 :: "pc2 \<Rightarrow> pc2" where
  "wake2 q = (if q = Wait2 then Woken2 else q)"

inductive thr1 :: "pc1 \<times> pc2 \<times> pingst \<Rightarrow> pc1 \<times> pc2 \<times> pingst \<Rightarrow> bool" where
  start1: "tsc s \<le> t \<Longrightarrow> thr1 (Start1, q, s) (Lock1, q, s\<lparr>tsc := t, t1 := t\<rparr>)"
| lock1: "\<not> holds2 q \<Longrightarrow> thr1 (Lock1, q, s) (Request1, q, s)"
| request1: "request s + 1 < 2 ^ 31 \<Longrightarrow> thr1 (Request1, q, s) (Test1, wake2 q, new_request s)"
| unlock1: "reply s = myreq s \<Longrightarrow> thr1 (Test1, q, s) (Stop1, q, s)"
| wait1: "reply s \<noteq> myreq s \<Longrightarrow> thr1 (Test1, q, s) (Wait1, q, s)"
| relock1: "\<not> holds2 q \<Longrightarrow> thr1 (Woken1, q, s) (Test1, q, s)"
| stop1: "tsc s \<le> t \<Longrightarrow> thr1 (Stop1, q, s) (Print1, q, s\<lparr>tsc := t, t4 := t\<rparr>)"
| print1: "thr1 (Print1, q, s) (Start1, q, s\<lparr>out := out s @ [timing s]\<rparr>)"

inductive thr2 :: "pc1 \<times> pc2 \<times> pingst \<Rightarrow> pc1 \<times> pc2 \<times> pingst \<Rightarrow> bool" where
  lock2: "\<not> holds1 p \<Longrightarrow> thr2 (p, Lock2, s) (p, Test2, s)"
| wait2: "request s = myreply s \<Longrightarrow> thr2 (p, Test2, s) (p, Wait2, s)"
| test2: "request s \<noteq> myreply s \<Longrightarrow> thr2 (p, Test2, s) (p, Stamp2, s)"
| stamp2: "tsc s \<le> t \<Longrightarrow> thr2 (p, Stamp2, s) (p, Reply2, s\<lparr>tsc := t, t2 := t\<rparr>)"
| reply2: "thr2 (p, Reply2, s) (wake1 p, Done2, new_reply s)"
| done2: "tsc s \<le> t \<Longrightarrow> thr2 (p, Done2, s) (p, Test2, s\<lparr>tsc := t, t3 := t\<rparr>)"
| relock2: "\<not> holds1 p \<Longrightarrow> thr2 (p, Woken2, s) (p, Test2, s)"

text \<open>A thread may also be woken for no reason.\<close>

inductive spurious :: "pc1 \<times> pc2 \<times> pingst \<Rightarrow> pc1 \<times> pc2 \<times> pingst \<Rightarrow> bool" where
  spurious1: "spurious (Wait1, q, s) (Woken1, q, s)"
| spurious2: "spurious (p, Wait2, s) (p, Woken2, s)"

inductive ping :: "int \<Rightarrow> int \<Rightarrow> pc1 \<times> pc2 \<times> pingst \<Rightarrow> bool" for req rep where
  ping_init: "ping req rep (Start1, Lock2, shared req rep)"
| ping_thr1: "ping req rep x \<Longrightarrow> thr1 x y \<Longrightarrow> ping req rep y"
| ping_thr2: "ping req rep x \<Longrightarrow> thr2 x y \<Longrightarrow> ping req rep y"
| ping_spurious: "ping req rep x \<Longrightarrow> spurious x y \<Longrightarrow> ping req rep y"

section \<open>With a spin lock (spintest.c)\<close>

datatype spc1 = SStart1 | SLock1 | SRequest1 | SSpin1 | SStop1 | SPrint1

datatype spc2 = SSpin2 | SStamp2 | SLock2 | SReply2 | SDone2

text \<open>The lock is held only in \<open>SRequest1\<close> and \<open>SReply2\<close>; \<open>request\<close> and \<open>reply\<close> are read without it.\<close>

inductive spin1 :: "spc1 \<times> spc2 \<times> pingst \<Rightarrow> spc1 \<times> spc2 \<times> pingst \<Rightarrow> bool" where
  sstart1: "tsc s \<le> t \<Longrightarrow> spin1 (SStart1, q, s) (SLock1, q, s\<lparr>tsc := t, t1 := t\<rparr>)"
| slock1: "q \<noteq> SReply2 \<Longrightarrow> spin1 (SLock1, q, s) (SRequest1, q, s)"
| srequest1: "request s + 1 < 2 ^ 31 \<Longrightarrow> spin1 (SRequest1, q, s) (SSpin1, q, new_request s)"
| sspin1: "reply s \<noteq> myreq s \<Longrightarrow> spin1 (SSpin1, q, s) (SSpin1, q, s)"
| sleave1: "reply s = myreq s \<Longrightarrow> spin1 (SSpin1, q, s) (SStop1, q, s)"
| sstop1: "tsc s \<le> t \<Longrightarrow> spin1 (SStop1, q, s) (SPrint1, q, s\<lparr>tsc := t, t4 := t\<rparr>)"
| sprint1: "spin1 (SPrint1, q, s) (SStart1, q, s\<lparr>out := out s @ [timing s]\<rparr>)"

inductive spin2 :: "spc1 \<times> spc2 \<times> pingst \<Rightarrow> spc1 \<times> spc2 \<times> pingst \<Rightarrow> bool" where
  sspin2: "request s = myreply s \<Longrightarrow> spin2 (p, SSpin2, s) (p, SSpin2, s)"
| sleave2: "request s \<noteq> myreply s \<Longrightarrow> spin2 (p, SSpin2, s) (p, SStamp2, s)"
| sstamp2: "tsc s \<le> t \<Longrightarrow> spin2 (p, SStamp2, s) (p, SLock2, s\<lparr>tsc := t, t2 := t\<rparr>)"
| slock2: "p \<noteq> SRequest1 \<Longrightarrow> spin2 (p, SLock2, s) (p, SReply2, s)"
| sreply2: "spin2 (p, SReply2, s) (p, SDone2, new_reply s)"
| sdone2: "tsc s \<le> t \<Longrightarrow> spin2 (p, SDone2, s) (p, SSpin2, s\<lparr>tsc := t, t3 := t\<rparr>)"

inductive spin :: "int \<Rightarrow> int \<Rightarrow> spc1 \<times> spc2 \<times> pingst \<Rightarrow> bool" for req rep where
  spin_init: "spin req rep (SStart1, SSpin2, shared req rep)"
| spin_thr1: "spin req rep x \<Longrightarrow> spin1 x y \<Longrightarrow> spin req rep y"
| spin_thr2: "spin req rep x \<Longrightarrow> spin2 x y \<Longrightarrow> spin req rep y"

section \<open>The times of pingtest.c are in order\<close>

lemmas ping_defs = holds1_def holds2_def wake1_def wake2_def new_request_def new_reply_def

text \<open>Mutual exclusion; between two rounds the last request is answered; \<open>myreply\<close> is the last answer once there is one.\<close>

definition ping_sync :: "int \<Rightarrow> pc1 \<times> pc2 \<times> pingst \<Rightarrow> bool" where
  "ping_sync rep = (\<lambda>(p, q, s). \<not> (holds1 p \<and> holds2 q) \<and> 0 \<le> reply s
     \<and> (if p \<in> {Start1, Lock1, Request1} then reply s = request s
        else 1 \<le> request s \<and> myreq s = request s \<and> (reply s = request s \<or> reply s + 1 = request s))
     \<and> (p \<in> {Stop1, Print1} \<longrightarrow> reply s = request s \<and> q \<notin> {Stamp2, Reply2, Done2})
     \<and> (myreply s = reply s \<or> reply s = 0 \<and> myreply s = rep)
     \<and> (q \<in> {Stamp2, Reply2} \<longrightarrow> request s \<noteq> myreply s))"

lemma ping_sync_thr1: "thr1 (p, q, s) y \<Longrightarrow> ping_sync rep (p, q, s) \<Longrightarrow> ping_sync rep y"
  by (cases q; erule thr1.cases; simp add: ping_sync_def ping_defs; linarith?)

lemma ping_sync_thr2: "thr2 (p, q, s) y \<Longrightarrow> ping_sync rep (p, q, s) \<Longrightarrow> ping_sync rep y"
  by (cases p; erule thr2.cases; simp add: ping_sync_def ping_defs; linarith?)

lemma ping_synced: "ping req rep x \<Longrightarrow> ping_sync rep x"
proof (induction rule: ping.induct)
  case ping_init
  show ?case by (simp add: ping_sync_def shared_def ping_defs)
next
  case (ping_spurious x y)
  show ?case using ping_spurious(2,3) by cases (auto simp: ping_sync_def ping_defs split: if_splits)
next
  case (ping_thr1 x y)
  then show ?case by (cases x) (auto intro: ping_sync_thr1)
next
  case (ping_thr2 x y)
  then show ?case by (cases x) (auto intro: ping_sync_thr2)
qed

definition ping_time :: "pc1 \<times> pc2 \<times> pingst \<Rightarrow> bool" where
  "ping_time = (\<lambda>(p, q, s). t1 s \<le> tsc s \<and> t2 s \<le> tsc s \<and> t3 s \<le> tsc s
     \<and> (p \<notin> {Start1, Lock1, Request1} \<longrightarrow> (q = Reply2 \<longrightarrow> t1 s \<le> t2 s)
          \<and> (reply s = request s \<longrightarrow> t1 s \<le> t2 s \<and> (q \<noteq> Done2 \<longrightarrow> t2 s \<le> t3 s)))
     \<and> (p = Print1 \<longrightarrow> t3 s \<le> t4 s) \<and> (\<forall>x \<in> set (out s). in_order x))"

lemma ping_time_thr1: "thr1 (p, q, s) y \<Longrightarrow> ping_sync rep (p, q, s) \<Longrightarrow> ping_time (p, q, s) \<Longrightarrow> ping_time y"
  by (cases q; erule thr1.cases; simp add: ping_sync_def ping_time_def ping_defs timing_def in_order_def; auto?)

lemma ping_time_thr2: "thr2 (p, q, s) y \<Longrightarrow> ping_sync rep (p, q, s) \<Longrightarrow> ping_time (p, q, s) \<Longrightarrow> ping_time y"
  by (cases p; erule thr2.cases; simp add: ping_sync_def ping_time_def ping_defs; auto?)

lemma ping_timed: "ping req rep x \<Longrightarrow> ping_time x"
proof (induction rule: ping.induct)
  case ping_init
  show ?case by (simp add: ping_time_def shared_def)
next
  case (ping_thr1 x y)
  then show ?case by (cases x) (auto intro: ping_time_thr1 ping_synced)
next
  case (ping_thr2 x y)
  then show ?case by (cases x) (auto intro: ping_time_thr2 ping_synced)
next
  case (ping_spurious x y)
  show ?case using ping_spurious(2,3) by cases (auto simp: ping_time_def split: if_splits)
qed

text \<open>Every line \<open>pingtest.c\<close> prints has three times that are not negative, whatever \<open>myreply\<close> is at the start.\<close>

lemma ping_in_order: "ping req rep (p, q, s) \<Longrightarrow> x \<in> set (out s) \<Longrightarrow> in_order x"
  using ping_timed by (fastforce simp: ping_time_def)

section \<open>Deadlock\<close>

text \<open>As long as \<open>myreply\<close> is not 1 by chance at the start, some thread can go on without being woken for no reason, until the counter
  overflows.\<close>

definition ping_wait :: "pc1 \<times> pc2 \<times> pingst \<Rightarrow> bool" where
  "ping_wait = (\<lambda>(p, q, s). (p = Wait1 \<longrightarrow> reply s \<noteq> myreq s) \<and> (q = Wait2 \<longrightarrow> request s = myreply s))"

lemma ping_waits: "ping req rep x \<Longrightarrow> ping_wait x"
proof (induction rule: ping.induct)
  case ping_init
  show ?case by (simp add: ping_wait_def)
next
  case (ping_thr1 x y)
  then show ?case by (auto simp: ping_wait_def ping_defs elim!: thr1.cases split: if_splits)
next
  case (ping_thr2 x y)
  then show ?case by (auto simp: ping_wait_def ping_defs elim!: thr2.cases split: if_splits)
next
  case (ping_spurious x y)
  then show ?case by (auto simp: ping_wait_def elim!: spurious.cases)
qed

text \<open>Each thread can go on unless it waits for the other or for the mutex.\<close>

lemma thr1_enabled:
  assumes "request s + 1 < 2 ^ 31" "p \<noteq> Wait1" "p \<in> {Lock1, Woken1} \<Longrightarrow> \<not> holds2 q"
  shows "\<exists>y. thr1 (p, q, s) y"
proof (cases p)
  case Test1
  then show ?thesis by (cases "reply s = myreq s") (blast intro: unlock1 wait1)+
qed (use assms in \<open>blast intro: thr1.intros\<close>)+

lemma thr2_enabled:
  assumes "q \<noteq> Wait2" "q \<in> {Lock2, Woken2} \<Longrightarrow> \<not> holds1 p"
  shows "\<exists>y. thr2 (p, q, s) y"
proof (cases q)
  case Test2
  then show ?thesis by (cases "request s = myreply s") (blast intro: wait2 test2)+
qed (use assms in \<open>blast intro: thr2.intros\<close>)+

lemma ping_live:
  assumes "ping req rep (p, q, s)" "rep \<noteq> 1" "request s + 1 < 2 ^ 31"
  shows "\<exists>y. thr1 (p, q, s) y \<or> thr2 (p, q, s) y"
proof (cases "p = Wait1 \<or> p \<in> {Lock1, Woken1} \<and> holds2 q")
  case True
  have "q \<noteq> Wait2"
  proof
    assume q: "q = Wait2"
    with True have "p = Wait1" by (auto simp: holds2_def)
    then show False using q ping_waits [OF assms(1)] ping_synced [OF assms(1)] assms(2) by (simp add: ping_wait_def ping_sync_def)
  qed
  moreover have "\<not> holds1 p" using True by (auto simp: holds1_def)
  ultimately have "\<exists>y. thr2 (p, q, s) y" by (intro thr2_enabled)
  then show ?thesis by blast
next
  case False
  then have "\<exists>y. thr1 (p, q, s) y" by (intro thr1_enabled [OF assms(3)]) blast+
  then show ?thesis by blast
qed

text \<open>If it is 1 by chance, the program can deadlock in the first round: the second thread takes the first request for answered.\<close>

lemma ping_deadlock: "\<exists>p q s. ping req 1 (p, q, s) \<and> out s = [] \<and> \<not> (\<exists>y. thr1 (p, q, s) y \<or> thr2 (p, q, s) y)"
proof -
  let ?s = "shared req 1" and ?r = "new_request (shared req 1)"
  have "ping req 1 (Lock1, Lock2, ?s)"
    using ping_thr1 [OF ping_init start1 [where t = 0]] by (simp add: shared_def)
  then have "ping req 1 (Request1, Lock2, ?s)" by (rule ping_thr1) (rule lock1, simp add: holds2_def)
  then have "ping req 1 (Test1, wake2 Lock2, ?r)" by (rule ping_thr1) (rule request1, simp add: shared_def)
  then have "ping req 1 (Wait1, wake2 Lock2, ?r)" by (rule ping_thr1) (rule wait1, simp add: new_request_def shared_def)
  then have "ping req 1 (Wait1, Lock2, ?r)" by (simp add: wake2_def)
  then have "ping req 1 (Wait1, Test2, ?r)" by (rule ping_thr2) (rule lock2, simp add: holds1_def)
  then have "ping req 1 (Wait1, Wait2, ?r)" by (rule ping_thr2) (rule wait2, simp add: new_request_def shared_def)
  moreover have "\<not> (\<exists>y. thr1 (Wait1, Wait2, ?r) y \<or> thr2 (Wait1, Wait2, ?r) y)" by (auto elim: thr1.cases thr2.cases)
  moreover have "out ?r = []" by (simp add: new_request_def shared_def)
  ultimately show ?thesis by blast
qed

section \<open>The times of spintest.c are not\<close>

text \<open>The second thread takes the time \<open>t3\<close> after it has published its answer, so that the first can print a line with the \<open>t3\<close> of the
  round before: here the second number is negative.\<close>

lemma spin_out_of_order: "\<exists>p q s. spin req 0 (p, q, s) \<and> out s = [(1, - 2, 3)]"
proof -
  let ?s = "(shared req 0)\<lparr>tsc := 1, t1 := 1\<rparr>"
  let ?r = "new_request ?s"
  let ?t = "?r\<lparr>tsc := 2, t2 := 2\<rparr>"
  let ?u = "new_reply ?t"
  let ?v = "?u\<lparr>tsc := 3, t4 := 3\<rparr>"
  have "spin req 0 (SLock1, SSpin2, ?s)" by (rule spin_thr1 [OF spin_init sstart1]) (simp add: shared_def)
  then have "spin req 0 (SRequest1, SSpin2, ?s)" by (rule spin_thr1) (rule slock1, simp)
  then have "spin req 0 (SSpin1, SSpin2, ?r)" by (rule spin_thr1) (rule srequest1, simp add: shared_def)
  then have "spin req 0 (SSpin1, SStamp2, ?r)" by (rule spin_thr2) (rule sleave2, simp add: new_request_def shared_def)
  then have "spin req 0 (SSpin1, SLock2, ?t)" by (rule spin_thr2) (rule sstamp2, simp add: new_request_def)
  then have "spin req 0 (SSpin1, SReply2, ?t)" by (rule spin_thr2) (rule slock2, simp)
  then have "spin req 0 (SSpin1, SDone2, ?u)" by (rule spin_thr2) (rule sreply2)
  then have "spin req 0 (SStop1, SDone2, ?u)" by (rule spin_thr1) (rule sleave1, simp add: new_reply_def new_request_def)
  then have "spin req 0 (SPrint1, SDone2, ?v)" by (rule spin_thr1) (rule sstop1, simp add: new_reply_def new_request_def)
  then have "spin req 0 (SStart1, SDone2, ?v\<lparr>out := out ?v @ [timing ?v]\<rparr>)" by (rule spin_thr1) (rule sprint1)
  moreover have "out ?v @ [timing ?v] = [(1, - 2, 3)]" by (simp add: timing_def new_reply_def new_request_def shared_def)
  ultimately show ?thesis by fastforce
qed

end
