(* ===== verification/Coq_Gen.thy ===== *)
theory Coq_Gen
  imports Xv6_Fuse
begin

text \<open>
  The two programs that print Coq tactics: \<open>src/pair.cpp\<close> for nested pairs and \<open>src/varname.cpp\<close> for nested pairs with
  variable names. The model is the text they print for the number that is read, which must be less than the largest \<open>int\<close>. The lemmas say that the text is well bracketed and
  that the last tactic tries the generated ones, the largest first.
\<close>

section \<open>Text\<close>

definition nl :: string where
  "nl = [CHR 0x0A]"

definition tab :: string where
  "tab = [CHR 0x09]"

definition num :: "nat \<Rightarrow> string" where
  "num n = dec (int n)"

definition each :: "nat list \<Rightarrow> (nat \<Rightarrow> string) \<Rightarrow> string" where
  "each is f = concat (map f is)"

text \<open>What both programs print first, and the counts for which they print a theorem and a tactic.\<close>

definition prompt :: string where
  "prompt = ''please enter element number: '' @ nl @ nl @ nl"

definition counts :: "int \<Rightarrow> nat list" where
  "counts limit = filter even [3..<nat (limit + 1)]"

section \<open>Pairs (pair.cpp)\<close>

definition pair_theorem :: "nat \<Rightarrow> string" where
  "pair_theorem cnt =
     ''Theorem destruct_pair'' @ num cnt @ '' : forall ''
     @ each [0..<cnt] (\<lambda>i. ''X'' @ num (i + 1) @ '' '')
     @ ''(p : ''
     @ each [0..<cnt] (\<lambda>i. if i \<noteq> cnt - 1 then ''X'' @ num (i + 1) @ '' * '' else ''X'' @ num (i + 1) @ ''),'' @ nl)
     @ tab @ ''exists ''
     @ each [0..<cnt] (\<lambda>i. ''x'' @ num (i + 1) @ '' '')
     @ '', p = (''
     @ each [0..<cnt] (\<lambda>i. if i \<noteq> cnt - 1 then ''x'' @ num (i + 1) @ '', '' else ''x'' @ num (i + 1) @ '').'' @ nl)
     @ ''Proof. intros; do '' @ num (cnt - 1) @ '' destruct p; repeat eexists. Qed.'' @ nl
     @ nl"

definition pair_ltac :: "nat \<Rightarrow> string" where
  "pair_ltac cnt =
     ''Ltac destruct_pair'' @ num cnt @ '' :='' @ nl
     @ tab @ ''match goal with'' @ nl
     @ tab @ ''| [ H : ''
     @ each [1..<cnt] (\<lambda>i. ''_ * '')
     @ ''_|- _ ] => first [ clear H ||  let Hx := fresh in'' @ nl
     @ tab @ tab @ ''pose proof (destruct_pair'' @ num cnt @ '' H) as Hx;'' @ nl
     @ tab @ tab @ ''match type of Hx with'' @ nl
     @ tab @ tab @ ''| exists ''
     @ each [0..<cnt] (\<lambda>i. ''_ '')
     @ '', _ = _ =>'' @ nl
     @ tab @ tab @ ''destruct Hx as ''
     @ each [0..<cnt] (\<lambda>i. ''[? '')
     @ ''Hx''
     @ each [0..<cnt] (\<lambda>i. '' ]'')
     @ nl
     @ tab @ tab @ ''end ]'' @ nl
     @ tab @ ''end.'' @ nl
     @ nl"

definition pair_once :: "int \<Rightarrow> string" where
  "pair_once limit =
     ''Ltac destruct_pair_once :='' @ nl
     @ tab @ ''match goal with'' @ nl
     @ tab @ ''| [ v: valuset |- _ ] =>'' @ nl
     @ tab @ ''  let v0 := fresh v '' @ [CHR 0x22] @ ''_cur'' @ [CHR 0x22] @ '' in'' @ nl
     @ tab @ ''  let v1 := fresh v '' @ [CHR 0x22] @ ''_old'' @ [CHR 0x22] @ '' in'' @ nl
     @ tab @ ''  destruct v as [v0 v1]'' @ nl
     @ tab @ ''| _ => ( '' @ nl
     @ each (rev [2..<nat (limit + 1)]) (\<lambda>i.
         if even i then (if i \<noteq> 2 then ''destruct_pair'' @ num i @ '' || '' else ''destruct_pair'' @ num i @ '')'' @ nl) else [])
     @ tab @ ''end; subst.'' @ nl
     @ nl
     @ nl"

definition pair_main :: "int \<Rightarrow> string" where
  "pair_main limit = prompt @ each (counts limit) (\<lambda>cnt. pair_theorem cnt @ pair_ltac cnt) @ pair_once limit"

section \<open>Pairs with names (varname.cpp)\<close>

definition varname_theorem :: "nat \<Rightarrow> string" where
  "varname_theorem cnt =
     ''Theorem destruct_varname'' @ num cnt @ '' : forall ''
     @ each [1..<cnt + 1] (\<lambda>i. ''XN'' @ num i @ '' '' @ ''X'' @ num i @ '' '')
     @ ''X'' @ num (cnt + 1) @ '' ''
     @ nl @ tab @ tab @ tab @ tab @ ''(p : ''
     @ each [1..<cnt + 1] (\<lambda>i. if i \<noteq> cnt then ''(XN'' @ num i @ '' * X'' @ num i @ '') * (''
         else ''(XN'' @ num i @ '' * X'' @ num i @ '') * X'' @ num (i + 1))
     @ each [0..<cnt] (\<lambda>i. '')'')
     @ '','' @ nl @ tab @ ''exists ''
     @ each [1..<cnt + 1] (\<lambda>i. ''xn'' @ num i @ '' '' @ ''x'' @ num i @ '' '')
     @ ''x'' @ num (cnt + 1)
     @ '', p = (''
     @ each [1..<cnt + 1] (\<lambda>i. if i \<noteq> cnt then ''(xn'' @ num i @ '', x'' @ num i @ ''), (''
         else ''(xn'' @ num i @ '', x'' @ num i @ ''), x'' @ num (i + 1))
     @ each [0..<cnt] (\<lambda>i. '')'')
     @ ''.'' @ nl
     @ ''Proof. intros. repeat destruct_prod. repeat eexists. Qed.'' @ nl
     @ nl"

definition varname_ltac :: "nat \<Rightarrow> string" where
  "varname_ltac cnt =
     ''Ltac destruct_varname'' @ num cnt @ '' :='' @ nl
     @ tab @ ''match goal with'' @ nl
     @ tab @ ''| [ H : ''
     @ each [0..<cnt] (\<lambda>i. if i \<noteq> cnt - 1 then ''VARNAME (_) * _ * ('' else ''(VARNAME (_) * _) * _'')
     @ each [1..<cnt] (\<lambda>i. '')'')
     @ '' |- _ ] =>'' @ nl
     @ tab @ tab @ ''let Hx := fresh in'' @ nl
     @ tab @ tab @ ''pose proof (destruct_varname'' @ num cnt @ '' H) as Hx;'' @ nl
     @ tab @ tab @ ''match type of Hx with'' @ nl
     @ tab @ tab @ ''| exists ''
     @ each [0..<cnt] (\<lambda>i. ''(_ : VARNAME (vn'' @ num (i + 1) @ '')) _ '')
     @ ''_ , _ = _ =>'' @ nl
     @ tab @ tab @ tab @ ''destruct Hx as ''
     @ each [0..<cnt] (\<lambda>i. ''[? [?vn'' @ num (i + 1) @ '' '')
     @ ''[? Hx]''
     @ each [0..<cnt] (\<lambda>i. '' ] ]'')
     @ nl
     @ tab @ tab @ ''end'' @ nl
     @ tab @ ''end.'' @ nl
     @ nl"

definition varnames :: "int \<Rightarrow> string" where
  "varnames limit =
     ''Ltac destruct_varnames :='' @ nl
     @ tab @ ''repeat (( ''
     @ each (rev [1..<nat (limit + 1)]) (\<lambda>i. if even i then ''destruct_varname'' @ num i @ '' || '' else [])
     @ ''destruct_varname1); subst).'' @ nl
     @ nl
     @ nl"

definition varname_main :: "int \<Rightarrow> string" where
  "varname_main limit = prompt @ each (counts limit) (\<lambda>cnt. varname_theorem cnt @ varname_ltac cnt) @ varnames limit"

section \<open>Brackets\<close>

text \<open>How many brackets are left open: round ones and square ones.\<close>

definition nest :: "char \<Rightarrow> char \<Rightarrow> string \<Rightarrow> int" where
  "nest op cl s = int (count_list s op) - int (count_list s cl)"

abbreviation parens :: "string \<Rightarrow> int" where
  "parens \<equiv> nest CHR ''('' CHR '')''"

abbreviation brackets :: "string \<Rightarrow> int" where
  "brackets \<equiv> nest CHR ''['' CHR '']''"

lemma nest_Nil [simp]: "nest op cl [] = 0"
  by (simp add: nest_def)

lemma nest_Cons [simp]: "nest op cl (c # s) = (if c = op then 1 else 0) - (if c = cl then 1 else 0) + nest op cl s"
  by (simp add: nest_def)

lemma nest_append [simp]: "nest op cl (s @ t) = nest op cl s + nest op cl t"
  by (induction s) simp_all

lemma nest_each: "nest op cl (each is f) = (\<Sum>i \<leftarrow> is. nest op cl (f i))"
  by (induction "is") (simp_all add: each_def)

text \<open>A number has no brackets.\<close>

lemma dec_digits_num: "c \<in> set (dec_digits n) \<Longrightarrow> c \<in> set ''0123456789''"
proof (induction n rule: dec_digits.induct)
  case (1 n)
  have d: "char_of (48 + k) \<in> set ''0123456789''" if "k < 10" for k :: nat
  proof -
    have "list_all (\<lambda>k. char_of (48 + k) \<in> set ''0123456789'') [0..<10]" by code_simp
    then show ?thesis using that by (simp add: list_all_iff del: upt_conv_Cons upt_rec_numeral)
  qed
  show ?case using 1 d [of n] d [of "n mod 10"] by (auto simp: dec_digits.simps [of n] split: if_splits)
qed

lemma nest_num:
  assumes "op \<notin> set ''0123456789''" "cl \<notin> set ''0123456789''"
  shows "nest op cl (num n) = 0"
proof -
  have "op \<notin> set (dec_digits n)" "cl \<notin> set (dec_digits n)" using dec_digits_num assms by blast+
  then show ?thesis by (simp add: nest_def num_def dec_def count_list_0_iff)
qed

lemma parens_num [simp]: "parens (num n) = 0"
  by (rule nest_num) simp_all

lemma brackets_num [simp]: "brackets (num n) = 0"
  by (rule nest_num) simp_all

lemma nest_layout [simp]: "parens nl = 0" "brackets nl = 0" "parens tab = 0" "brackets tab = 0"
  by (simp_all add: nl_def tab_def)

text \<open>A loop that does something else in its last iteration.\<close>

lemma sum_last: "0 < n \<Longrightarrow> (\<Sum>i \<leftarrow> [0..<n]. if i \<noteq> n - Suc 0 then a else b) = int (n - 1) * a + b"
proof -
  assume "0 < n"
  then obtain m where n: "n = Suc m" using gr0_implies_Suc by blast
  have "(\<Sum>i \<leftarrow> [0..<m]. if i \<noteq> m then a else b) = (\<Sum>i \<leftarrow> [0..<m]. a)" by (rule arg_cong [where f = sum_list]) simp
  then show ?thesis by (simp add: n sum_list_triv)
qed

lemma sum_last1: "0 < n \<Longrightarrow> (\<Sum>i \<leftarrow> [Suc 0..<Suc n]. if i \<noteq> n then a else b) = int (n - 1) * a + b"
proof -
  assume "0 < n"
  then have "(\<Sum>i \<leftarrow> [Suc 0..<n]. if i \<noteq> n then a else b) = (\<Sum>i \<leftarrow> [Suc 0..<n]. a)" "Suc 0 \<le> n"
    by (auto intro: arg_cong [where f = sum_list])
  then show ?thesis by (simp add: sum_list_triv)
qed

text \<open>The loops whose body depends on the iteration only by its number, and the condition on the last iteration outside.\<close>

lemmas nest_loops = nest_each if_distrib [of "nest CHR ''('' CHR '')''"] if_distrib [of "nest CHR ''['' CHR '']''"] sum_last sum_last1 sum_list_triv

lemma pair_theorem_balanced: "0 < cnt \<Longrightarrow> parens (pair_theorem cnt) = 0 \<and> brackets (pair_theorem cnt) = 0"
  by (simp add: pair_theorem_def nest_loops del: upt_Suc cong: if_cong)

lemma pair_ltac_balanced: "parens (pair_ltac cnt) = 0 \<and> brackets (pair_ltac cnt) = 0"
  by (simp add: pair_ltac_def nest_loops)

lemma varname_theorem_balanced: "0 < cnt \<Longrightarrow> parens (varname_theorem cnt) = 0 \<and> brackets (varname_theorem cnt) = 0"
  by (simp add: varname_theorem_def nest_loops del: upt_Suc cong: if_cong)

lemma varname_ltac_balanced: "0 < cnt \<Longrightarrow> parens (varname_ltac cnt) = 0 \<and> brackets (varname_ltac cnt) = 0"
  by (simp add: varname_ltac_def nest_loops del: upt_Suc cong: if_cong)

lemma counts_positive: "cnt \<in> set (counts limit) \<Longrightarrow> 0 < cnt"
  by (simp add: counts_def)

lemma nest_balanced: "(\<And>i. i \<in> set is \<Longrightarrow> nest op cl (f i) = 0) \<Longrightarrow> nest op cl (each is f) = 0"
  by (simp add: nest_each cong: map_cong)

text \<open>The text of \<open>varname.cpp\<close> is balanced; that of \<open>pair.cpp\<close> is unless the number is below 2, when the last tactic has a bracket
  that is not closed.\<close>

lemma varname_balanced: "parens (varname_main limit) = 0 \<and> brackets (varname_main limit) = 0"
proof -
  have "parens (varnames limit) = 0" "brackets (varnames limit) = 0"
    by (simp_all add: varnames_def nest_each if_distrib [of "nest CHR ''('' CHR '')''"] if_distrib [of "nest CHR ''['' CHR '']''"] cong: if_cong)
  then show ?thesis
    by (auto simp: varname_main_def prompt_def varname_theorem_balanced [OF counts_positive] varname_ltac_balanced [OF counts_positive]
      intro!: nest_balanced)
qed

lemma rev_upt_first: "m < n \<Longrightarrow> rev [m..<n] = rev [Suc m..<n] @ [m]"
  by (simp add: upt_conv_Cons)

lemma pair_balanced: "parens (pair_main limit) = (if limit < 2 then 1 else 0) \<and> brackets (pair_main limit) = 0"
proof -
  let ?f = "\<lambda>i. if even i then (if i \<noteq> 2 then ''destruct_pair'' @ num i @ '' || '' else ''destruct_pair'' @ num i @ '')'' @ nl) else []"
  have f: "parens (each (rev [2..<nat (limit + 1)]) ?f) = (if limit < 2 then 0 else - 1)" "brackets (each (rev [2..<nat (limit + 1)]) ?f) = 0"
  proof -
    show "brackets (each (rev [2..<nat (limit + 1)]) ?f) = 0" by (rule nest_balanced) simp
    have "parens (each (rev [Suc 2..<nat (limit + 1)]) ?f) = 0" by (rule nest_balanced) auto
    then show "parens (each (rev [2..<nat (limit + 1)]) ?f) = (if limit < 2 then 0 else - 1)"
      using rev_upt_first [of 2 "nat (limit + 1)"] by (simp add: each_def)
  qed
  have "parens (pair_once limit) = (if limit < 2 then 1 else 0)" "brackets (pair_once limit) = 0"
    by (simp_all add: pair_once_def f)
  moreover have "parens (each (counts limit) (\<lambda>cnt. pair_theorem cnt @ pair_ltac cnt)) = 0"
    "brackets (each (counts limit) (\<lambda>cnt. pair_theorem cnt @ pair_ltac cnt)) = 0"
    by (auto intro!: nest_balanced dest!: counts_positive pair_theorem_balanced simp: pair_ltac_balanced)
  ultimately show ?thesis by (simp add: pair_main_def prompt_def)
qed

text \<open>The last tactics try the generated ones from the largest to the smallest, and then \<open>destruct_pair2\<close>, and \<open>destruct_varname2\<close> and
  \<open>destruct_varname1\<close>, which are written by hand in \<open>ADestructPair.v\<close> and \<open>DestructVarname.v\<close>.\<close>

lemma pair_once_tries:
  assumes "2 \<le> limit"
  shows "each (rev [2..<nat (limit + 1)]) (\<lambda>i. if even i then f i else []) = each (rev (counts limit)) f @ f 2"
proof -
  have "each is (\<lambda>i. if even i then f i else []) = each (filter even is) f" for "is" by (induction "is") (simp_all add: each_def)
  then have "each (rev [Suc 2..<nat (limit + 1)]) (\<lambda>i. if even i then f i else []) = each (rev (counts limit)) f"
    by (simp add: counts_def rev_filter numeral_3_eq_3 numeral_2_eq_2)
  then show ?thesis using assms rev_upt_first [of 2 "nat (limit + 1)"] by (simp add: each_def)
qed

end
