(* ===== verification/Op_Queue.thy ===== *)
theory Op_Queue
  imports Xv6_Base
begin

text \<open>
  The request queue of \<open>src/hslib/opqueue.c\<close>: FUSE threads call \<open>execute\<close> with an operation on their
  stack, and the threads of the file system take operations with \<open>get_op\<close> and answer with
  \<open>send_result\<close>. The model is a step relation over all interleavings of these threads, one step per
  access to shared memory outside the lock and per statement inside it. The theorems show that the
  lock is exclusive, that the ring of \<open>QUEUE_MAX_SIZE\<close> slots is a FIFO queue in which no operation is
  lost or handed out twice, and that \<open>execute\<close> returns the result that was sent for its own
  operation.
\<close>

section \<open>Threads and shared state\<close>

definition QUEUE_MAX_SIZE :: int where
  "QUEUE_MAX_SIZE = 256"

text \<open>A thread is a FUSE thread \<open>Cl c\<close> or a thread \<open>Wk w\<close> of the file system. Thread \<open>Cl c\<close> has at
  most one operation in flight, its stack variable, which is identified with \<open>c\<close>.\<close>

datatype tid = Cl nat | Wk nat

text \<open>Where a FUSE thread is in \<open>execute\<close>: outside, before \<open>op->done = 0\<close>, at the unlocked test, at
  \<open>pthread_spin_lock\<close>, at the second test, at the store into \<open>q.ops\<close>, at \<open>q.puts++\<close>, at the two
  calls of \<open>pthread_spin_unlock\<close> (to retry, and after the put), at the wait for \<open>op->done\<close>, at the
  return.\<close>

datatype cpc = C_Out | C_Start | C_Spin | C_Lock | C_Check | C_Store | C_Inc | C_Retry | C_Unlock
  | C_Wait | C_Ret

text \<open>The same for a thread in \<open>get_op\<close> and \<open>send_result\<close>: the unlocked test, the lock, the second
  test, the load from \<open>q.ops\<close>, \<open>q.gets++\<close>, the unlocks, holding an operation, storing \<open>err\<close>, storing
  \<open>done\<close>.\<close>

datatype wpc = W_Spin | W_Lock | W_Check | W_Load | W_Inc nat | W_Retry | W_Unlock nat
  | W_Have nat | W_Err nat int | W_Done nat

record opq =
  qops :: "nat \<Rightarrow> nat"
  puts :: int
  gets :: int
  spin :: "tid option"
  oerr :: "nat \<Rightarrow> int"
  odone :: "nat \<Rightarrow> bool"
  cpc :: "nat \<Rightarrow> cpc"
  wpc :: "nat \<Rightarrow> wpc"

text \<open>The visible events: an operation enters the queue, leaves it, is answered, and its \<open>execute\<close>
  returns.\<close>

datatype ev = Tau | Put nat | Take nat | Send nat int | Return nat int

text \<open>The static \<open>q\<close> is zero-initialised and \<open>initialize\<close> makes the lock free.\<close>

definition initialize :: opq where
  "initialize = \<lparr>qops = (\<lambda>_. 0), puts = 0, gets = 0, spin = None, oerr = (\<lambda>_. 0), odone = (\<lambda>_. False),
     cpc = (\<lambda>_. C_Out), wpc = (\<lambda>_. W_Spin)\<rparr>"

definition set_c :: "nat \<Rightarrow> cpc \<Rightarrow> opq \<Rightarrow> opq" where
  "set_c c p s = s\<lparr>cpc := (cpc s)(c := p)\<rparr>"

definition set_w :: "nat \<Rightarrow> wpc \<Rightarrow> opq \<Rightarrow> opq" where
  "set_w w p s = s\<lparr>wpc := (wpc s)(w := p)\<rparr>"

text \<open>The slot of a counter: \<open>n % QUEUE_MAX_SIZE\<close>; counters are not negative.\<close>

definition slot_of :: "int \<Rightarrow> nat" where
  "slot_of n = nat (n mod QUEUE_MAX_SIZE)"

section \<open>Steps\<close>

text \<open>
  \<open>q.puts++\<close> and \<open>q.gets++\<close> are increments of a C \<open>int\<close>; a step that would overflow is not defined,
  so the relation has no step there. The unlocked tests read two variables that other threads change,
  only to avoid taking the lock in vain: their outcome is left open, and the test under the lock is the
  one that counts.
\<close>

definition INT_MAX :: int where
  "INT_MAX = 2 ^ 31 - 1"

inductive execute_step :: "nat \<Rightarrow> opq \<Rightarrow> ev \<Rightarrow> opq \<Rightarrow> bool" for c where
  call: "cpc s c = C_Out \<Longrightarrow> execute_step c s Tau (set_c c C_Start s)"
| clear: "cpc s c = C_Start \<Longrightarrow>
    execute_step c s Tau (set_c c C_Spin (s\<lparr>odone := (odone s)(c := False)\<rparr>))"
| full: "cpc s c = C_Spin \<Longrightarrow> execute_step c s Tau s"
| maybe: "cpc s c = C_Spin \<Longrightarrow> execute_step c s Tau (set_c c C_Lock s)"
| lock: "cpc s c = C_Lock \<Longrightarrow> spin s = None \<Longrightarrow>
    execute_step c s Tau (set_c c C_Check (s\<lparr>spin := Some (Cl c)\<rparr>))"
| check_full: "cpc s c = C_Check \<Longrightarrow> QUEUE_MAX_SIZE \<le> puts s - gets s \<Longrightarrow>
    execute_step c s Tau (set_c c C_Retry s)"
| check_room: "cpc s c = C_Check \<Longrightarrow> puts s - gets s < QUEUE_MAX_SIZE \<Longrightarrow>
    execute_step c s Tau (set_c c C_Store s)"
| retry: "cpc s c = C_Retry \<Longrightarrow> execute_step c s Tau (set_c c C_Spin (s\<lparr>spin := None\<rparr>))"
| store: "cpc s c = C_Store \<Longrightarrow>
    execute_step c s Tau (set_c c C_Inc (s\<lparr>qops := (qops s)(slot_of (puts s) := c)\<rparr>))"
| inc: "cpc s c = C_Inc \<Longrightarrow> puts s < INT_MAX \<Longrightarrow>
    execute_step c s (Put c) (set_c c C_Unlock (s\<lparr>puts := puts s + 1\<rparr>))"
| unlock: "cpc s c = C_Unlock \<Longrightarrow> execute_step c s Tau (set_c c C_Wait (s\<lparr>spin := None\<rparr>))"
| wait: "cpc s c = C_Wait \<Longrightarrow> \<not> odone s c \<Longrightarrow> execute_step c s Tau s"
| answered: "cpc s c = C_Wait \<Longrightarrow> odone s c \<Longrightarrow> execute_step c s Tau (set_c c C_Ret s)"
| ret: "cpc s c = C_Ret \<Longrightarrow> execute_step c s (Return c (oerr s c)) (set_c c C_Out s)"

inductive get_op_step :: "nat \<Rightarrow> opq \<Rightarrow> ev \<Rightarrow> opq \<Rightarrow> bool" for w where
  w_empty: "wpc s w = W_Spin \<Longrightarrow> get_op_step w s Tau s"
| w_maybe: "wpc s w = W_Spin \<Longrightarrow> get_op_step w s Tau (set_w w W_Lock s)"
| w_lock: "wpc s w = W_Lock \<Longrightarrow> spin s = None \<Longrightarrow>
    get_op_step w s Tau (set_w w W_Check (s\<lparr>spin := Some (Wk w)\<rparr>))"
| w_check_empty: "wpc s w = W_Check \<Longrightarrow> puts s \<le> gets s \<Longrightarrow> get_op_step w s Tau (set_w w W_Retry s)"
| w_check_some: "wpc s w = W_Check \<Longrightarrow> gets s < puts s \<Longrightarrow> get_op_step w s Tau (set_w w W_Load s)"
| w_retry: "wpc s w = W_Retry \<Longrightarrow> get_op_step w s Tau (set_w w W_Spin (s\<lparr>spin := None\<rparr>))"
| w_load: "wpc s w = W_Load \<Longrightarrow> get_op_step w s Tau (set_w w (W_Inc (qops s (slot_of (gets s)))) s)"
| w_inc: "wpc s w = W_Inc op \<Longrightarrow> gets s < INT_MAX \<Longrightarrow>
    get_op_step w s (Take op) (set_w w (W_Unlock op) (s\<lparr>gets := gets s + 1\<rparr>))"
| w_unlock: "wpc s w = W_Unlock op \<Longrightarrow> get_op_step w s Tau (set_w w (W_Have op) (s\<lparr>spin := None\<rparr>))"

text \<open>The file system computes a result \<open>r\<close> for the operation it holds and calls \<open>send_result\<close>; then it
  asks for the next one (\<open>send_result_and_get_op\<close>).\<close>

inductive send_result_step :: "nat \<Rightarrow> opq \<Rightarrow> ev \<Rightarrow> opq \<Rightarrow> bool" for w where
  s_call: "wpc s w = W_Have op \<Longrightarrow> send_result_step w s Tau (set_w w (W_Err op r) s)"
| s_err: "wpc s w = W_Err op r \<Longrightarrow>
    send_result_step w s Tau (set_w w (W_Done op) (s\<lparr>oerr := (oerr s)(op := r)\<rparr>))"
| s_done: "wpc s w = W_Done op \<Longrightarrow>
    send_result_step w s (Send op (oerr s op)) (set_w w W_Spin (s\<lparr>odone := (odone s)(op := True)\<rparr>))"

inductive qstep :: "opq \<Rightarrow> ev \<Rightarrow> opq \<Rightarrow> bool" where
  q_client: "execute_step c s l t \<Longrightarrow> qstep s l t"
| q_get: "get_op_step w s l t \<Longrightarrow> qstep s l t"
| q_send: "send_result_step w s l t \<Longrightarrow> qstep s l t"

inductive qreach :: "opq \<Rightarrow> ev list \<Rightarrow> bool" where
  start: "qreach initialize []"
| more: "qreach s ls \<Longrightarrow> qstep s l t \<Longrightarrow> qreach t (ls @ [l])"

inductive_simps execute_step_iff: "execute_step c s l t"
inductive_simps get_op_step_iff: "get_op_step w s l t"
inductive_simps send_result_step_iff: "send_result_step w s l t"
inductive_cases qstepE: "qstep s l t"

section \<open>The queue as a list\<close>

definition waiting :: "opq \<Rightarrow> nat list" where
  "waiting s = map (\<lambda>i. qops s (slot_of i)) [gets s..puts s - 1]"

lemma slot_of_inject:
  assumes "g \<le> i" "i < g + 256" "g \<le> j" "j < g + 256" "slot_of i = slot_of j"
  shows "i = j"
proof -
  have "i mod 256 = j mod 256" using assms(5) by (simp add: slot_of_def QUEUE_MAX_SIZE_def)
  then have "256 dvd i - j" by (simp add: mod_eq_dvd_iff)
  then show ?thesis using assms(1-4) zdvd_imp_le [of 256 "i - j"] zdvd_imp_le [of 256 "j - i"]
    by (cases i j rule: linorder_cases) (auto simp: dvd_diff_commute)
qed

lemma waiting_same [simp]:
  "waiting (set_c c p s) = waiting s" "waiting (set_w w q s) = waiting s"
  "waiting (s\<lparr>spin := l\<rparr>) = waiting s" "waiting (s\<lparr>odone := d\<rparr>) = waiting s"
  "waiting (s\<lparr>oerr := e\<rparr>) = waiting s"
  by (simp_all add: waiting_def set_c_def set_w_def)

lemma waiting_store:
  assumes "gets s \<le> puts s" "puts s - gets s < 256"
  shows "waiting (s\<lparr>qops := (qops s)(slot_of (puts s) := c)\<rparr>) = waiting s"
  using assms slot_of_inject [of "gets s" _ "puts s"] by (fastforce simp: waiting_def)

lemma waiting_put:
  assumes "gets s \<le> puts s"
  shows "waiting (s\<lparr>puts := puts s + 1\<rparr>) = waiting s @ [qops s (slot_of (puts s))]"
  using assms upto_rec2 [of "gets s" "puts s"] by (simp add: waiting_def)

lemma waiting_take:
  assumes "gets s < puts s"
  shows "waiting s = qops s (slot_of (gets s)) # waiting (s\<lparr>gets := gets s + 1\<rparr>)"
  using assms upto_rec1 [of "gets s" "puts s - 1"] by (simp add: waiting_def)

lemma length_waiting: "gets s \<le> puts s \<Longrightarrow> int (length (waiting s)) = puts s - gets s"
  by (simp add: waiting_def)

section \<open>The invariant\<close>

fun crit_c :: "cpc \<Rightarrow> bool" where
  "crit_c C_Check = True" | "crit_c C_Store = True" | "crit_c C_Inc = True"
| "crit_c C_Retry = True" | "crit_c C_Unlock = True" | "crit_c _ = False"

fun crit_w :: "wpc \<Rightarrow> bool" where
  "crit_w W_Check = True" | "crit_w W_Load = True" | "crit_w (W_Inc _) = True"
| "crit_w W_Retry = True" | "crit_w (W_Unlock _) = True" | "crit_w _ = False"

fun held_op :: "wpc \<Rightarrow> nat option" where
  "held_op (W_Unlock op) = Some op" | "held_op (W_Have op) = Some op" | "held_op (W_Err op _) = Some op"
| "held_op (W_Done op) = Some op" | "held_op _ = None"

definition holders :: "opq \<Rightarrow> nat \<Rightarrow> nat set" where
  "holders s op = {w. held_op (wpc s w) = Some op}"

text \<open>Who is in the critical section, and what the counters satisfy there.\<close>

definition lock_inv :: "opq \<Rightarrow> bool" where
  "lock_inv s \<longleftrightarrow> (\<forall>c. crit_c (cpc s c) \<longleftrightarrow> spin s = Some (Cl c)) \<and> (\<forall>w. crit_w (wpc s w) \<longleftrightarrow> spin s = Some (Wk w))"

definition ring_inv :: "opq \<Rightarrow> bool" where
  "ring_inv s \<longleftrightarrow> 0 \<le> gets s \<and> gets s \<le> puts s \<and> puts s \<le> gets s + 256
     \<and> (\<forall>c. cpc s c = C_Store \<or> cpc s c = C_Inc \<longrightarrow> puts s - gets s < 256)
     \<and> (\<forall>c. cpc s c = C_Inc \<longrightarrow> qops s (slot_of (puts s)) = c)
     \<and> (\<forall>w. wpc s w = W_Load \<longrightarrow> gets s < puts s)
     \<and> (\<forall>w op. wpc s w = W_Inc op \<longrightarrow> gets s < puts s \<and> qops s (slot_of (gets s)) = op)"

text \<open>Where an operation is, by the program point of its \<open>execute\<close>: nowhere before it is put, then
  waiting, then held by one thread of the file system, then answered.\<close>

fun op_ok :: "cpc \<Rightarrow> bool \<Rightarrow> nat set \<Rightarrow> bool \<Rightarrow> bool" where
  "op_ok C_Out q H d = (\<not> q \<and> H = {})"
| "op_ok C_Start q H d = (\<not> q \<and> H = {})"
| "op_ok C_Unlock q H d = (if d then \<not> q \<and> H = {} else (if q then H = {} else (\<exists>w. H = {w})))"
| "op_ok C_Wait q H d = (if d then \<not> q \<and> H = {} else (if q then H = {} else (\<exists>w. H = {w})))"
| "op_ok C_Ret q H d = (d \<and> \<not> q \<and> H = {})"
| "op_ok _ q H d = (\<not> d \<and> \<not> q \<and> H = {})"

definition op_inv :: "opq \<Rightarrow> bool" where
  "op_inv s \<longleftrightarrow> distinct (waiting s)
     \<and> (\<forall>op. op_ok (cpc s op) (op \<in> set (waiting s)) (holders s op) (odone s op))"

definition qinv :: "opq \<Rightarrow> bool" where
  "qinv s \<longleftrightarrow> lock_inv s \<and> ring_inv s \<and> op_inv s"

lemma sel_set [simp]:
  "cpc (set_c c p s) = (cpc s)(c := p)" "wpc (set_c c p s) = wpc s" "spin (set_c c p s) = spin s"
  "puts (set_c c p s) = puts s" "gets (set_c c p s) = gets s" "qops (set_c c p s) = qops s"
  "odone (set_c c p s) = odone s" "oerr (set_c c p s) = oerr s"
  "cpc (set_w w q s) = cpc s" "wpc (set_w w q s) = (wpc s)(w := q)" "spin (set_w w q s) = spin s"
  "puts (set_w w q s) = puts s" "gets (set_w w q s) = gets s" "qops (set_w w q s) = qops s"
  "odone (set_w w q s) = odone s" "oerr (set_w w q s) = oerr s"
  by (simp_all add: set_c_def set_w_def)

lemma qinv_start: "qinv initialize"
  by (simp add: qinv_def lock_inv_def ring_inv_def op_inv_def initialize_def waiting_def holders_def)

lemma lock_execute:
  assumes step: "execute_step c s l t" and inv: "lock_inv s"
  shows "lock_inv t"
proof -
  have "crit_c (cpc s c) \<longleftrightarrow> spin s = Some (Cl c)" using inv by (simp add: lock_inv_def)
  with step inv show ?thesis by cases (simp_all add: lock_inv_def)
qed

lemma lock_get:
  assumes step: "get_op_step w s l t" and inv: "lock_inv s"
  shows "lock_inv t"
proof -
  have "crit_w (wpc s w) \<longleftrightarrow> spin s = Some (Wk w)" using inv by (simp add: lock_inv_def)
  with step inv show ?thesis by cases (simp_all add: lock_inv_def)
qed

lemma lock_send:
  assumes step: "send_result_step w s l t" and inv: "lock_inv s"
  shows "lock_inv t"
proof -
  have "crit_w (wpc s w) \<longleftrightarrow> spin s = Some (Wk w)" using inv by (simp add: lock_inv_def)
  with step inv show ?thesis by cases (simp_all add: lock_inv_def)
qed

lemma lock_excludes:
  assumes "lock_inv s" "spin s = Some x"
  shows "crit_c (cpc s c) \<longleftrightarrow> x = Cl c" "crit_w (wpc s w) \<longleftrightarrow> x = Wk w"
  using assms by (auto simp: lock_inv_def)

text \<open>Inside the critical section of one thread, no other thread is at a statement of its own.\<close>

lemma alone_c:
  assumes "lock_inv s" "crit_c (cpc s c)"
  shows "crit_c (cpc s d) \<longleftrightarrow> d = c" "\<not> crit_w (wpc s w)"
  using assms by (auto simp: lock_inv_def)

lemma alone_w:
  assumes "lock_inv s" "crit_w (wpc s w)"
  shows "crit_w (wpc s v) \<longleftrightarrow> v = w" "\<not> crit_c (cpc s c)"
  using assms by (auto simp: lock_inv_def)

lemma ring_execute:
  assumes step: "execute_step c s l t" and lock: "lock_inv s" and inv: "ring_inv s"
  shows "ring_inv t"
  using step
proof cases
  case store
  have "crit_c (cpc s c)" using store by simp
  note a = alone_c [OF lock this]
  have "slot_of (gets s) \<noteq> slot_of (puts s) \<or> gets s = puts s"
    using slot_of_inject [of "gets s" "gets s" "puts s"] inv store by (auto simp: ring_inv_def)
  then show ?thesis
    using inv store a(1) by (auto simp: ring_inv_def fun_upd_def) (metis crit_c.simps(3))+
next
  case inc
  have "crit_c (cpc s c)" using inc by simp
  note a = alone_c [OF lock this]
  have "cpc s d \<noteq> C_Store \<and> cpc s d \<noteq> C_Inc" if "d \<noteq> c" for d
    using a(1) [of d] that by auto
  then show ?thesis using inv inc by (auto simp: ring_inv_def)
qed (use inv in \<open>auto simp: ring_inv_def QUEUE_MAX_SIZE_def\<close>)

lemma ring_get:
  assumes step: "get_op_step w s l t" and lock: "lock_inv s" and inv: "ring_inv s"
  shows "ring_inv t"
  using step
proof cases
  case (w_inc op)
  have "crit_w (wpc s w)" using w_inc by simp
  note a = alone_w [OF lock this]
  have "wpc s v \<noteq> W_Load \<and> wpc s v \<noteq> W_Inc op'" if "v \<noteq> w" for v op'
    using a(1) [of v] that by auto
  then show ?thesis using inv w_inc by (auto simp: ring_inv_def)
qed (use inv in \<open>auto simp: ring_inv_def\<close>)

lemma ring_send: "send_result_step w s l t \<Longrightarrow> ring_inv s \<Longrightarrow> ring_inv t"
  by (erule send_result_step.cases) (auto simp: ring_inv_def)


lemma holders_upd [simp]:
  "holders (set_c c p s) = holders s" "holders (s\<lparr>spin := l\<rparr>) = holders s" "holders (s\<lparr>odone := d\<rparr>) = holders s"
  "holders (s\<lparr>oerr := e\<rparr>) = holders s" "holders (s\<lparr>qops := o'\<rparr>) = holders s"
  "holders (s\<lparr>puts := n\<rparr>) = holders s" "holders (s\<lparr>gets := n\<rparr>) = holders s"
  "holders (set_w w q s) op = (if held_op q = Some op then insert w (holders s op) else holders s op - {w})"
  by (auto simp: holders_def fun_eq_iff)

lemma op_invD: "op_inv s \<Longrightarrow> op_ok (cpc s op) (op \<in> set (waiting s)) (holders s op) (odone s op)"
  by (simp add: op_inv_def)

lemma op_execute:
  assumes step: "execute_step c s l t" and ring: "ring_inv s" and inv: "op_inv s"
  shows "op_inv t"
proof -
  have c: "op_ok (cpc s c) (c \<in> set (waiting s)) (holders s c) (odone s c)" using inv by (rule op_invD)
  from step show ?thesis
  proof cases
    case store
    then have "waiting t = waiting s" using ring by (simp add: ring_inv_def waiting_store)
    with inv c store show ?thesis by (auto simp: op_inv_def)
  next
    case inc
    have w: "waiting t = waiting s @ [c]" using inc ring by (simp add: ring_inv_def waiting_put)
    then show ?thesis using inv c inc unfolding op_inv_def w by auto
  qed (use inv c in \<open>auto simp: op_inv_def\<close>)
qed

lemma holder_in: "held_op (wpc s w) = Some op \<Longrightarrow> w \<in> holders s op"
  by (simp add: holders_def)

lemma holder_out: "held_op (wpc s w) \<noteq> Some op \<Longrightarrow> w \<notin> holders s op"
  by (simp add: holders_def)

lemma op_get:
  assumes step: "get_op_step w s l t" and ring: "ring_inv s" and inv: "op_inv s"
  shows "op_inv t"
proof -
  have out: "w \<notin> holders s op" if "held_op (wpc s w) = None" for op
    using that holder_out by simp
  from step show ?thesis
  proof cases
    case (w_inc op)
    have w: "waiting s = op # waiting t" using w_inc ring waiting_take [of s] by (auto simp: ring_inv_def)
    have "op_ok (cpc s op') (op' \<in> set (waiting t)) (holders t op') (odone s op')" for op'
      using op_invD [OF inv, of op'] w_inc out [of op'] inv unfolding w op_inv_def
      by (cases "cpc s op'"; cases "op' = op") (auto split: if_splits)
    then show ?thesis using inv w w_inc by (simp add: op_inv_def)
  next
    case (w_unlock op)
    then have "holders t = holders s" using holder_in [of s w] holder_out [of s w] by (auto simp: fun_eq_iff)
    with inv w_unlock show ?thesis by (simp add: op_inv_def)
  qed (use inv out in \<open>auto simp: op_inv_def\<close>)
qed

lemma op_send:
  assumes step: "send_result_step w s l t" and inv: "op_inv s"
  shows "op_inv t"
  using step
proof cases
  case (s_call op r)
  then have "holders t = holders s" using holder_in [of s w] holder_out [of s w] by (auto simp: fun_eq_iff)
  with inv s_call show ?thesis by (simp add: op_inv_def)
next
  case (s_err op r)
  then have "holders t = holders s" using holder_in [of s w] holder_out [of s w] by (auto simp: fun_eq_iff)
  with inv s_err show ?thesis by (simp add: op_inv_def)
next
  case (s_done op)
  then have h: "w \<in> holders s op" "w \<notin> holders s op'" if "op' \<noteq> op" for op'
    using that by (auto simp: holders_def)
  have "op_ok (cpc t op') (op' \<in> set (waiting t)) (holders t op') (odone t op')" for op'
    using op_invD [OF inv, of op'] s_done h [of op'] holder_in [of s w op]
    by (cases "cpc s op'"; cases "op' = op") (auto split: if_splits)
  then show ?thesis using inv s_done by (simp add: op_inv_def)
qed

lemma qinv_step: "qstep s l t \<Longrightarrow> qinv s \<Longrightarrow> qinv t"
  unfolding qinv_def
  by (erule qstep.cases)
     (auto intro: lock_execute lock_get lock_send ring_execute ring_get ring_send op_execute op_get op_send)

lemma qreach_inv: "qreach s ls \<Longrightarrow> qinv s"
  by (induction rule: qreach.induct) (auto intro: qinv_start qinv_step)


section \<open>An atomic request queue\<close>

text \<open>The specification: a FIFO list of waiting operations, the operations being worked on, and the
  results not yet returned. Each event is atomic.\<close>

record server =
  a_queue :: "nat list"
  a_held :: "nat set"
  a_res :: "nat \<rightharpoonup> int"

inductive astep :: "server \<Rightarrow> ev \<Rightarrow> server \<Rightarrow> bool" where
  a_tau: "astep a Tau a"
| a_put: "op \<notin> set (a_queue a) \<Longrightarrow> op \<notin> a_held a \<Longrightarrow> a_res a op = None \<Longrightarrow>
    astep a (Put op) (a\<lparr>a_queue := a_queue a @ [op]\<rparr>)"
| a_take: "a_queue a = op # q \<Longrightarrow> astep a (Take op) (a\<lparr>a_queue := q, a_held := insert op (a_held a)\<rparr>)"
| a_send: "op \<in> a_held a \<Longrightarrow> astep a (Send op r) (a\<lparr>a_held := a_held a - {op}, a_res := (a_res a)(op \<mapsto> r)\<rparr>)"
| a_return: "a_res a op = Some r \<Longrightarrow> astep a (Return op r) (a\<lparr>a_res := (a_res a)(op := None)\<rparr>)"

definition answered_at :: "cpc \<Rightarrow> bool" where
  "answered_at p \<longleftrightarrow> p = C_Unlock \<or> p = C_Wait \<or> p = C_Ret"

definition abs_queue :: "opq \<Rightarrow> server" where
  "abs_queue s = \<lparr>a_queue = waiting s, a_held = {op. holders s op \<noteq> {}},
     a_res = (\<lambda>op. if answered_at (cpc s op) \<and> odone s op then Some (oerr s op) else None)\<rparr>"

lemma abs_queue_sel [simp]:
  "a_queue (abs_queue s) = waiting s" "a_held (abs_queue s) = {op. holders s op \<noteq> {}}"
  "a_res (abs_queue s) op = (if answered_at (cpc s op) \<and> odone s op then Some (oerr s op) else None)"
  by (simp_all add: abs_queue_def)

lemma abs_queue_tau:
  assumes "waiting t = waiting s" "holders t = holders s" "\<And>op. a_res (abs_queue t) op = a_res (abs_queue s) op"
  shows "astep (abs_queue s) Tau (abs_queue t)"
proof -
  have "abs_queue t = abs_queue s" using assms by (intro server.equality) (simp_all add: fun_eq_iff del: abs_queue_sel(3))
  then show ?thesis using a_tau by simp
qed

lemma refine_execute:
  assumes step: "execute_step c s l t" and ring: "ring_inv s" and inv: "op_inv s"
  shows "astep (abs_queue s) l (abs_queue t)"
proof -
  have c: "op_ok (cpc s c) (c \<in> set (waiting s)) (holders s c) (odone s c)" using inv by (rule op_invD)
  from step show ?thesis
  proof cases
    case store
    then have "waiting t = waiting s" using ring by (simp add: ring_inv_def waiting_store)
    with store show ?thesis by (auto intro!: abs_queue_tau simp: answered_at_def)
  next
    case inc
    have w: "waiting t = waiting s @ [c]" using inc ring by (simp add: ring_inv_def waiting_put)
    have "abs_queue t = (abs_queue s)\<lparr>a_queue := a_queue (abs_queue s) @ [c]\<rparr>"
      using inc c w by (intro server.equality) (auto simp: fun_eq_iff answered_at_def)
    moreover have "astep (abs_queue s) (Put c) ((abs_queue s)\<lparr>a_queue := a_queue (abs_queue s) @ [c]\<rparr>)"
      by (rule a_put) (use inc c in \<open>auto simp: abs_queue_def\<close>)
    ultimately show ?thesis using inc by simp
  next
    case ret
    have "abs_queue t = (abs_queue s)\<lparr>a_res := (a_res (abs_queue s))(c := None)\<rparr>"
      using ret by (intro server.equality) (auto simp: fun_eq_iff answered_at_def)
    moreover have "astep (abs_queue s) (Return c (oerr s c)) ((abs_queue s)\<lparr>a_res := (a_res (abs_queue s))(c := None)\<rparr>)"
      by (rule a_return) (use ret c in \<open>auto simp: abs_queue_def answered_at_def\<close>)
    ultimately show ?thesis using ret by simp
  qed (use c in \<open>auto intro!: abs_queue_tau simp: answered_at_def\<close>)
qed

lemma holders_same:
  "held_op (wpc s w) = held_op q \<Longrightarrow> holders (set_w w q s) = holders s"
  by (auto simp: fun_eq_iff holders_def simp del: holders_upd)

lemma refine_get:
  assumes step: "get_op_step w s l t" and ring: "ring_inv s" and inv: "op_inv s"
  shows "astep (abs_queue s) l (abs_queue t)"
proof -
  from step show ?thesis
  proof cases
    case (w_inc op)
    have w: "waiting s = op # waiting t" using w_inc ring waiting_take [of s] by (auto simp: ring_inv_def)
    have "w \<notin> holders s op'" for op' using w_inc holder_out [of s w] by simp
    then have "{op'. holders t op' \<noteq> {}} = insert op {op. holders s op \<noteq> {}}"
      using w_inc by auto
    then have "abs_queue t = (abs_queue s)\<lparr>a_queue := waiting t, a_held := insert op (a_held (abs_queue s))\<rparr>"
      using w_inc by (intro server.equality) (simp_all add: fun_eq_iff)
    moreover have "astep (abs_queue s) (Take op) ((abs_queue s)\<lparr>a_queue := waiting t, a_held := insert op (a_held (abs_queue s))\<rparr>)"
      by (rule a_take) (simp add: abs_queue_def w)
    ultimately show ?thesis using w_inc by simp
  qed (auto intro!: abs_queue_tau simp: holders_same simp del: holders_upd(8))
qed

lemma refine_send:
  assumes step: "send_result_step w s l t" and inv: "op_inv s"
  shows "astep (abs_queue s) l (abs_queue t)"
  using step
proof cases
  case (s_call op r)
  then show ?thesis by (auto intro!: abs_queue_tau simp: holders_same simp del: holders_upd(8))
next
  case (s_err op r)
  have "\<not> odone s op"
    using op_invD [OF inv, of op] holder_in [of s w op] s_err by (cases "cpc s op") (auto split: if_splits)
  then show ?thesis
    using s_err by (auto intro!: abs_queue_tau simp: holders_same simp del: holders_upd(8))
next
  case (s_done op)
  have h: "w \<in> holders s op" using s_done by (simp add: holders_def)
  with op_invD [OF inv, of op] have only: "holders s op = {w}" "answered_at (cpc s op)"
    by (cases "cpc s op"; auto simp: answered_at_def split: if_splits)+
  have others: "holders t op' = holders s op' - (if op' = op then {w} else {})" for op'
    using s_done by (auto simp: holders_def simp del: holders_upd)
  have "abs_queue t = (abs_queue s)\<lparr>a_held := a_held (abs_queue s) - {op},
      a_res := (a_res (abs_queue s))(op \<mapsto> oerr s op)\<rparr>"
    using s_done only others by (intro server.equality) (auto simp: fun_eq_iff simp del: holders_upd(8))
  moreover have "astep (abs_queue s) (Send op (oerr s op)) ((abs_queue s)\<lparr>a_held := a_held (abs_queue s) - {op},
      a_res := (a_res (abs_queue s))(op \<mapsto> oerr s op)\<rparr>)"
    by (rule a_send) (use h in \<open>auto simp: abs_queue_def\<close>)
  ultimately show ?thesis using s_done by simp
qed

lemma refine_step: "qstep s l t \<Longrightarrow> qinv s \<Longrightarrow> astep (abs_queue s) l (abs_queue t)"
  unfolding qinv_def by (erule qstep.cases) (auto intro: refine_execute refine_get refine_send)

section \<open>Traces\<close>

definition puts_of :: "ev list \<Rightarrow> nat list" where
  "puts_of ls = concat (map (\<lambda>e. case e of Put op \<Rightarrow> [op] | _ \<Rightarrow> []) ls)"

definition takes_of :: "ev list \<Rightarrow> nat list" where
  "takes_of ls = concat (map (\<lambda>e. case e of Take op \<Rightarrow> [op] | _ \<Rightarrow> []) ls)"

text \<open>The result sent for operation \<open>op\<close> since it was last put, if any.\<close>

definition result_of :: "nat \<Rightarrow> ev list \<Rightarrow> int option" where
  "result_of op ls = foldl (\<lambda>r e. case e of
     Put op' \<Rightarrow> if op' = op then None else r
   | Send op' v \<Rightarrow> if op' = op then Some v else r
   | Return op' v \<Rightarrow> if op' = op then None else r
   | _ \<Rightarrow> r) None ls"

lemma qreach_trace:
  "qreach s ls \<Longrightarrow> puts_of ls = takes_of ls @ waiting s \<and> (\<forall>op. result_of op ls = a_res (abs_queue s) op)"
proof (induction rule: qreach.induct)
  case start
  then show ?case
    by (simp add: puts_of_def takes_of_def result_of_def abs_queue_def initialize_def waiting_def answered_at_def)
next
  case (more s ls l t)
  have q: "a_queue (abs_queue u) = waiting u" for u by (simp add: abs_queue_def)
  have "astep (abs_queue s) l (abs_queue t)" using more.hyps refine_step qreach_inv by blast
  then show ?case
    using more.IH unfolding q [symmetric]
    by cases (auto simp: puts_of_def takes_of_def result_of_def)
qed


lemma steps:
  assumes "qreach s ls"
  shows "execute_step c s l t \<Longrightarrow> qreach t (ls @ [l])" "get_op_step w s l t \<Longrightarrow> qreach t (ls @ [l])"
    "send_result_step w s l t \<Longrightarrow> qreach t (ls @ [l])"
  using assms qreach.more q_client q_get q_send by blast+

section \<open>A run\<close>

text \<open>FUSE thread 7 puts its operation and is about to unlock; then thread 3 of the file system takes
  it, answers 5, and thread 7 returns.\<close>

definition run_put :: opq where
  "run_put = initialize\<lparr>qops := (\<lambda>_. 0)(0 := 7), puts := 1, spin := Some (Cl 7), cpc := (\<lambda>_. C_Out)(7 := C_Unlock)\<rparr>"


lemma run_put: "qreach run_put [Tau, Tau, Tau, Tau, Tau, Tau, Put 7]"
proof -
  note r = steps(1) [OF qreach.start call [of _ 7]]
  note r = steps(1) [OF r clear [of _ 7]]
  note r = steps(1) [OF r maybe [of _ 7]]
  note r = steps(1) [OF r lock [of _ 7]]
  note r = steps(1) [OF r check_room [of _ 7]]
  note r = steps(1) [OF r store [of _ 7]]
  note r = steps(1) [OF r inc [of _ 7]]
  show ?thesis
    by (rule r [THEN back_subst [where P = "\<lambda>x. qreach x _"], simplified])
       (simp_all add: initialize_def run_put_def set_c_def slot_of_def QUEUE_MAX_SIZE_def INT_MAX_def fun_eq_iff)
qed


section \<open>Properties\<close>

text \<open>C8. The ring of \<open>opqueue.c\<close> is a FIFO queue under every interleaving of the threads: at any time the
  operations that were put are, in order, those that were taken followed by those in the slots between
  \<open>gets\<close> and \<open>puts\<close>, of which there are at most \<open>QUEUE_MAX_SIZE\<close>. So no operation is lost,
  duplicated or overwritten.\<close>

theorem opqueue_fifo:
  assumes "qreach s ls"
  shows "puts_of ls = takes_of ls @ waiting s \<and> distinct (waiting s) \<and> int (length (waiting s)) \<le> QUEUE_MAX_SIZE"
  using qreach_trace [OF assms] qreach_inv [OF assms] length_waiting [of s]
  by (simp add: qinv_def ring_inv_def op_inv_def QUEUE_MAX_SIZE_def)

theorem opqueue_fifo_witness:
  "puts_of [Tau, Tau, Tau, Tau, Tau, Tau, Put 7] = takes_of [Tau, Tau, Tau, Tau, Tau, Tau, Put 7] @ waiting run_put
    \<and> waiting run_put = [7]"
  using opqueue_fifo [OF run_put] by (simp add: puts_of_def takes_of_def)

text \<open>Mutual exclusion: under every interleaving at most one thread is between \<open>pthread_spin_lock\<close> and
  \<open>pthread_spin_unlock\<close>, and it is the one recorded in the lock.\<close>

theorem opqueue_exclusive:
  assumes "qreach s ls"
  shows "(crit_c (cpc s c) \<and> crit_c (cpc s d) \<longrightarrow> c = d) \<and> (crit_w (wpc s v) \<and> crit_w (wpc s w) \<longrightarrow> v = w)
    \<and> \<not> (crit_c (cpc s c) \<and> crit_w (wpc s w)) \<and> (spin s = None \<longleftrightarrow> (\<forall>c. \<not> crit_c (cpc s c)) \<and> (\<forall>w. \<not> crit_w (wpc s w)))"
proof -
  have "(\<forall>c. crit_c (cpc s c) \<longleftrightarrow> spin s = Some (Cl c)) \<and> (\<forall>w. crit_w (wpc s w) \<longleftrightarrow> spin s = Some (Wk w))"
    using qreach_inv [OF assms] by (simp add: qinv_def lock_inv_def)
  then show ?thesis by (cases "spin s"; cases "the (spin s)") auto
qed

theorem opqueue_exclusive_witness:
  "crit_c (cpc run_put 7) \<and> \<not> crit_w (wpc run_put 3) \<and> spin run_put \<noteq> None"
proof -
  have "crit_c (cpc run_put 7)" by (simp add: run_put_def)
  then show ?thesis using opqueue_exclusive [OF run_put, of 7 7 3 3] by auto
qed



text \<open>C7. The concrete queue implements the atomic one: every step of every thread is a step of the
  specification \<open>astep\<close> with the same event, or changes nothing of it.\<close>

theorem opqueue_refines:
  assumes "qreach s ls" "qstep s l t"
  shows "astep (abs_queue s) l (abs_queue t)"
  using refine_step [OF assms(2) qreach_inv [OF assms(1)]] .

theorem opqueue_refines_witness:
  "astep (abs_queue run_put) Tau (abs_queue (set_c 7 C_Wait (run_put\<lparr>spin := None\<rparr>)))"
  by (rule opqueue_refines [OF run_put q_client [OF unlock]]) (simp add: run_put_def)

text \<open>C28. No thread is ever stuck on the lock: in every reachable state with the counters below the
  overflow, the thread that holds the lock can take its next step, and if nobody holds it any thread that
  waits for it can take it.\<close>

theorem opqueue_progress:
  assumes "qreach s ls" "puts s < INT_MAX"
  shows "(spin s = Some (Cl c) \<longrightarrow> (\<exists>l t. execute_step c s l t)) \<and> (spin s = Some (Wk w) \<longrightarrow> (\<exists>l t. get_op_step w s l t))
    \<and> (spin s = None \<and> cpc s c = C_Lock \<longrightarrow> (\<exists>l t. execute_step c s l t \<and> spin t = Some (Cl c)))
    \<and> (spin s = None \<and> wpc s w = W_Lock \<longrightarrow> (\<exists>l t. get_op_step w s l t \<and> spin t = Some (Wk w)))"
proof (intro conjI impI)
  have inv: "lock_inv s" "gets s \<le> puts s" using qreach_inv [OF assms(1)] by (auto simp: qinv_def ring_inv_def)
  show "\<exists>l t. execute_step c s l t" if "spin s = Some (Cl c)"
  proof -
    have "crit_c (cpc s c)" using inv(1) that by (simp add: lock_inv_def)
    then show ?thesis
      using assms(2) check_full [of s c] check_room [of s c] store [of s c] inc [of s c] retry [of s c] unlock [of s c]
      by (cases "cpc s c"; cases "QUEUE_MAX_SIZE \<le> puts s - gets s") (force simp: not_le)+
  qed
  show "\<exists>l t. get_op_step w s l t" if "spin s = Some (Wk w)"
  proof -
    have "crit_w (wpc s w)" using inv(1) that by (simp add: lock_inv_def)
    then show ?thesis
      using assms(2) inv(2) w_check_empty [of s w] w_check_some [of s w] w_load [of s w] w_inc [of s w]
        w_retry [of s w] w_unlock [of s w]
      by (cases "wpc s w"; cases "puts s \<le> gets s") (force simp: not_le)+
  qed
  show "\<exists>l t. execute_step c s l t \<and> spin t = Some (Cl c)" if "spin s = None \<and> cpc s c = C_Lock"
    using lock [of s c] that by (intro exI conjI) auto
  show "\<exists>l t. get_op_step w s l t \<and> spin t = Some (Wk w)" if "spin s = None \<and> wpc s w = W_Lock"
    using w_lock [of s w] that by (intro exI conjI) auto
qed

theorem opqueue_progress_witness: "\<exists>l t. execute_step 7 run_put l t"
  using opqueue_progress [OF run_put, of 7] by (simp add: run_put_def INT_MAX_def)

end
