(* ===== verification/Op_Fuse.thy ===== *)
theory Op_Fuse
  imports Op_Queue
begin

text \<open>
  The FUSE handlers of \<open>src/hslib/opfuse.c\<close> and the request they build (\<open>src/hslib/opqueue.h\<close>): each
  fills a \<open>struct operation\<close> on its stack with its tag and its arguments, passes it to \<open>execute\<close> and
  returns the \<open>err\<close> field. \<open>execute\<close> is a parameter of the handlers here; \<open>Op_Queue\<close> models it. The
  union \<open>u\<close> of the C structure is a datatype, so the code on the other side of the queue may only
  use the member the tag names if \<open>op_type\<close> and the member agree, which \<open>tagged\<close> states.
\<close>

section \<open>Requests (opqueue.h)\<close>

text \<open>A pointer the handler only passes on.\<close>

type_synonym ptr = nat

datatype op_t = OP_GETATTR | OP_MKNOD | OP_MKDIR | OP_UNLINK | OP_OPEN | OP_RELEASE | OP_RMDIR | OP_FSYNC | OP_FSYNCDIR | OP_WRITE | OP_READ | OP_TRUNCATE | OP_OPENDIR | OP_READDIR | OP_RELEASEDIR | OP_STATFS | OP_DESTROY | OP_UTIME | OP_RENAME | OP_CHMOD | OP_CREATE

datatype op_args =
    U_getattr string ptr
  | U_mknod string nat nat
  | U_mkdir string nat
  | U_unlink string
  | U_open string ptr
  | U_release string ptr
  | U_rmdir string
  | U_fsync string int ptr
  | U_fsyncdir string int ptr
  | U_write string ptr int int ptr
  | U_read string ptr int int ptr
  | U_truncate string int
  | U_opendir string ptr
  | U_readdir string ptr ptr int ptr
  | U_releasedir string ptr
  | U_statfs string ptr
  | U_destroy
  | U_utime string ptr
  | U_rename string string
  | U_chmod string nat
  | U_create string nat ptr

record operation =
  op_type :: op_t
  op_err :: int
  op_done :: bool
  op_u :: op_args



text \<open>The stack variable \<open>op\<close> after the assignments of a handler: \<open>err\<close> and \<open>done\<close> are still
  uninitialised, here \<open>garbage\<close>.\<close>

definition make_op :: "int \<times> bool \<Rightarrow> op_t \<Rightarrow> op_args \<Rightarrow> operation" where
  "make_op garbage t u = \<lparr>op_type = t, op_err = fst garbage, op_done = snd garbage, op_u = u\<rparr>"

section \<open>Handlers (opfuse.c)\<close>

text \<open>\<open>exec\<close> is \<open>execute\<close>: it leaves the operation with its \<open>err\<close> field set by the file system.\<close>

type_synonym 's exec = "operation \<Rightarrow> ('s, operation) xm"

definition call :: "'s exec \<Rightarrow> int \<times> bool \<Rightarrow> op_t \<Rightarrow> op_args \<Rightarrow> ('s, int) xm" where
  "call exec garbage t u = bind (exec (make_op garbage t u)) (\<lambda>op. return (op_err op))"

definition opfuse_getattr :: "'s exec \<Rightarrow> int \<times> bool \<Rightarrow> string \<Rightarrow> ptr \<Rightarrow> ('s, int) xm" where
  "opfuse_getattr exec garbage path stbuf = call exec garbage OP_GETATTR (U_getattr path stbuf)"

definition opfuse_mknod :: "'s exec \<Rightarrow> int \<times> bool \<Rightarrow> string \<Rightarrow> nat \<Rightarrow> nat \<Rightarrow> ('s, int) xm" where
  "opfuse_mknod exec garbage path mode rdev = call exec garbage OP_MKNOD (U_mknod path mode rdev)"

definition opfuse_mkdir :: "'s exec \<Rightarrow> int \<times> bool \<Rightarrow> string \<Rightarrow> nat \<Rightarrow> ('s, int) xm" where
  "opfuse_mkdir exec garbage path mode = call exec garbage OP_MKDIR (U_mkdir path mode)"

definition opfuse_unlink :: "'s exec \<Rightarrow> int \<times> bool \<Rightarrow> string \<Rightarrow> ('s, int) xm" where
  "opfuse_unlink exec garbage path = call exec garbage OP_UNLINK (U_unlink path)"

definition opfuse_rmdir :: "'s exec \<Rightarrow> int \<times> bool \<Rightarrow> string \<Rightarrow> ('s, int) xm" where
  "opfuse_rmdir exec garbage path = call exec garbage OP_RMDIR (U_rmdir path)"

definition opfuse_open :: "'s exec \<Rightarrow> int \<times> bool \<Rightarrow> string \<Rightarrow> ptr \<Rightarrow> ('s, int) xm" where
  "opfuse_open exec garbage path fi = call exec garbage OP_OPEN (U_open path fi)"

definition opfuse_release :: "'s exec \<Rightarrow> int \<times> bool \<Rightarrow> string \<Rightarrow> ptr \<Rightarrow> ('s, int) xm" where
  "opfuse_release exec garbage path fi = call exec garbage OP_RELEASE (U_release path fi)"

definition opfuse_read :: "'s exec \<Rightarrow> int \<times> bool \<Rightarrow> string \<Rightarrow> ptr \<Rightarrow> int \<Rightarrow> int \<Rightarrow> ptr \<Rightarrow> ('s, int) xm" where
  "opfuse_read exec garbage path buf sz offset fi = call exec garbage OP_READ (U_read path buf sz offset fi)"

definition opfuse_write :: "'s exec \<Rightarrow> int \<times> bool \<Rightarrow> string \<Rightarrow> ptr \<Rightarrow> int \<Rightarrow> int \<Rightarrow> ptr \<Rightarrow> ('s, int) xm" where
  "opfuse_write exec garbage path buf sz offset fi = call exec garbage OP_WRITE (U_write path buf sz offset fi)"

definition opfuse_fsync :: "'s exec \<Rightarrow> int \<times> bool \<Rightarrow> string \<Rightarrow> int \<Rightarrow> ptr \<Rightarrow> ('s, int) xm" where
  "opfuse_fsync exec garbage path isdatasync fi = call exec garbage OP_FSYNC (U_fsync path isdatasync fi)"

definition opfuse_fsyncdir :: "'s exec \<Rightarrow> int \<times> bool \<Rightarrow> string \<Rightarrow> int \<Rightarrow> ptr \<Rightarrow> ('s, int) xm" where
  "opfuse_fsyncdir exec garbage path isdatasync fi = call exec garbage OP_FSYNCDIR (U_fsyncdir path isdatasync fi)"

definition opfuse_truncate :: "'s exec \<Rightarrow> int \<times> bool \<Rightarrow> string \<Rightarrow> int \<Rightarrow> ('s, int) xm" where
  "opfuse_truncate exec garbage path sz = call exec garbage OP_TRUNCATE (U_truncate path sz)"

definition opfuse_rename :: "'s exec \<Rightarrow> int \<times> bool \<Rightarrow> string \<Rightarrow> string \<Rightarrow> ('s, int) xm" where
  "opfuse_rename exec garbage from_path to_path = call exec garbage OP_RENAME (U_rename from_path to_path)"

definition opfuse_chmod :: "'s exec \<Rightarrow> int \<times> bool \<Rightarrow> string \<Rightarrow> nat \<Rightarrow> ('s, int) xm" where
  "opfuse_chmod exec garbage path mode = call exec garbage OP_CHMOD (U_chmod path mode)"

definition opfuse_statfs :: "'s exec \<Rightarrow> int \<times> bool \<Rightarrow> string \<Rightarrow> ptr \<Rightarrow> ('s, int) xm" where
  "opfuse_statfs exec garbage path stbuf = call exec garbage OP_STATFS (U_statfs path stbuf)"

definition opfuse_opendir :: "'s exec \<Rightarrow> int \<times> bool \<Rightarrow> string \<Rightarrow> ptr \<Rightarrow> ('s, int) xm" where
  "opfuse_opendir exec garbage path fi = call exec garbage OP_OPENDIR (U_opendir path fi)"

definition opfuse_readdir :: "'s exec \<Rightarrow> int \<times> bool \<Rightarrow> string \<Rightarrow> ptr \<Rightarrow> ptr \<Rightarrow> int \<Rightarrow> ptr \<Rightarrow> ('s, int) xm" where
  "opfuse_readdir exec garbage path buf filler offset fi = call exec garbage OP_READDIR (U_readdir path buf filler offset fi)"

definition opfuse_releasedir :: "'s exec \<Rightarrow> int \<times> bool \<Rightarrow> string \<Rightarrow> ptr \<Rightarrow> ('s, int) xm" where
  "opfuse_releasedir exec garbage path fi = call exec garbage OP_RELEASEDIR (U_releasedir path fi)"

definition opfuse_utime :: "'s exec \<Rightarrow> int \<times> bool \<Rightarrow> string \<Rightarrow> ptr \<Rightarrow> ('s, int) xm" where
  "opfuse_utime exec garbage path buf = call exec garbage OP_UTIME (U_utime path buf)"

definition opfuse_destroy :: "'s exec \<Rightarrow> int \<times> bool \<Rightarrow> ('s, unit) xm" where
  "opfuse_destroy exec garbage = andthen (exec (make_op garbage OP_DESTROY U_destroy)) (return ())"

definition opfuse_create :: "'s exec \<Rightarrow> int \<times> bool \<Rightarrow> string \<Rightarrow> nat \<Rightarrow> ptr \<Rightarrow> ('s, int) xm" where
  "opfuse_create exec garbage path mode info = call exec garbage OP_CREATE (U_create path mode info)"

text \<open>The table \<open>opfuse_oper\<close>: libfuse calls the handler of the request, with its arguments. A request is
  written with the same datatype; \<open>destroy\<close> has no result.\<close>

fun opfuse_oper :: "'s exec \<Rightarrow> int \<times> bool \<Rightarrow> op_args \<Rightarrow> ('s, int option) xm" where
  "opfuse_oper exec g (U_getattr path stbuf) = bind (opfuse_getattr exec g path stbuf) (\<lambda>r. return (Some r))"
| "opfuse_oper exec g (U_mknod path mode rdev) = bind (opfuse_mknod exec g path mode rdev) (\<lambda>r. return (Some r))"
| "opfuse_oper exec g (U_mkdir path mode) = bind (opfuse_mkdir exec g path mode) (\<lambda>r. return (Some r))"
| "opfuse_oper exec g (U_unlink path) = bind (opfuse_unlink exec g path) (\<lambda>r. return (Some r))"
| "opfuse_oper exec g (U_rmdir path) = bind (opfuse_rmdir exec g path) (\<lambda>r. return (Some r))"
| "opfuse_oper exec g (U_open path fi) = bind (opfuse_open exec g path fi) (\<lambda>r. return (Some r))"
| "opfuse_oper exec g (U_release path fi) = bind (opfuse_release exec g path fi) (\<lambda>r. return (Some r))"
| "opfuse_oper exec g (U_read path buf sz offset fi) = bind (opfuse_read exec g path buf sz offset fi) (\<lambda>r. return (Some r))"
| "opfuse_oper exec g (U_write path buf sz offset fi) = bind (opfuse_write exec g path buf sz offset fi) (\<lambda>r. return (Some r))"
| "opfuse_oper exec g (U_fsync path isdatasync fi) = bind (opfuse_fsync exec g path isdatasync fi) (\<lambda>r. return (Some r))"
| "opfuse_oper exec g (U_fsyncdir path isdatasync fi) = bind (opfuse_fsyncdir exec g path isdatasync fi) (\<lambda>r. return (Some r))"
| "opfuse_oper exec g (U_truncate path sz) = bind (opfuse_truncate exec g path sz) (\<lambda>r. return (Some r))"
| "opfuse_oper exec g (U_rename from_path to_path) = bind (opfuse_rename exec g from_path to_path) (\<lambda>r. return (Some r))"
| "opfuse_oper exec g (U_chmod path mode) = bind (opfuse_chmod exec g path mode) (\<lambda>r. return (Some r))"
| "opfuse_oper exec g (U_statfs path stbuf) = bind (opfuse_statfs exec g path stbuf) (\<lambda>r. return (Some r))"
| "opfuse_oper exec g (U_opendir path fi) = bind (opfuse_opendir exec g path fi) (\<lambda>r. return (Some r))"
| "opfuse_oper exec g (U_readdir path buf filler offset fi) = bind (opfuse_readdir exec g path buf filler offset fi) (\<lambda>r. return (Some r))"
| "opfuse_oper exec g (U_releasedir path fi) = bind (opfuse_releasedir exec g path fi) (\<lambda>r. return (Some r))"
| "opfuse_oper exec g (U_utime path buf) = bind (opfuse_utime exec g path buf) (\<lambda>r. return (Some r))"
| "opfuse_oper exec g U_destroy = andthen (opfuse_destroy exec g) (return None)"
| "opfuse_oper exec g (U_create path mode info) = bind (opfuse_create exec g path mode info) (\<lambda>r. return (Some r))"

text \<open>\<open>opfuse_run\<close>: libfuse and the host calls are parameters. A null pointer is \<open>None\<close>; \<open>fuse_new\<close> gets the table of
  handlers.\<close>

record 's libfuse =
  fuse_mount :: "string \<Rightarrow> ptr \<Rightarrow> ('s, ptr option) xm"
  chdir :: "string \<Rightarrow> ('s, int) xm"
  umask :: "nat \<Rightarrow> ('s, nat) xm"
  fuse_new :: "ptr \<Rightarrow> ptr \<Rightarrow> (op_args \<Rightarrow> ('s, int option) xm) \<Rightarrow> ('s, ptr option) xm"
  fuse_loop_mt :: "ptr \<Rightarrow> ('s, int) xm"

definition opfuse_run :: "'s libfuse \<Rightarrow> 's exec \<Rightarrow> int \<times> bool \<Rightarrow> string \<Rightarrow> ptr \<Rightarrow> ('s, unit) xm" where
  "opfuse_run lib exec g mountpoint args =
     bind (fuse_mount lib mountpoint args) (\<lambda>chan.
     case chan of
       None \<Rightarrow> fail (Exit ''fuse_mount'')
     | Some ch \<Rightarrow>
         bind (chdir lib ''/'') (\<lambda>r.
         if r < 0 then fail (Exit ''chdir /'')
         else
           andthen (umask lib 0) (
           bind (fuse_new lib ch args (opfuse_oper exec g)) (\<lambda>f.
           case f of
             None \<Rightarrow> fail (Exit ''fuse_new'')
           | Some f \<Rightarrow> andthen (fuse_loop_mt lib f) (return ())))))"

section \<open>Properties\<close>

text \<open>The requests are served only with the handlers of the table, on the channel that was mounted, from the root
  directory and with an empty file mode mask: a failure before that ends the process.\<close>

lemma opfuse_run_serves:
  assumes "opfuse_run lib exec g mountpoint args s = Ok () t"
  obtains ch f r m n s1 s2 s3 s4 where "fuse_mount lib mountpoint args s = Ok (Some ch) s1" "chdir lib ''/'' s1 = Ok r s2" "0 \<le> r"
    "umask lib 0 s2 = Ok m s3" "fuse_new lib ch args (opfuse_oper exec g) s3 = Ok (Some f) s4" "fuse_loop_mt lib f s4 = Ok n t"
  using assms unfolding opfuse_run_def
  by (fastforce simp: bind_def andthen_def return_def fail_def split: result.splits option.splits if_splits)



end
