(* ===== verification/Ml_Value.thy ===== *)
theory Ml_Value
  imports Complex_Main Xv6_Base
begin

text \<open>
  The values the C files of \<open>src/src/ocamlfuse\<close> exchange with OCaml, as the OCaml manual
  describes them in its chapter on interfacing C with OCaml, and the types of the OCaml side
  (\<open>Fuse.ml\<close>, \<open>Result.ml\<close>, \<open>Unix_util.ml\<close>) as a typing relation on them. A macro of the OCaml
  runtime that reads a value is a function that fails with \<open>Undef\<close> when the value does not have
  the shape it reads; that well-typed values always have it is the subject of \<open>Ml_Fuse\<close>. Movements
  of values by the garbage collector are not part of the model.
\<close>

unbundle bit_operations_syntax

named_theorems ml_simps \<open>reading a value that was just made, and the shapes of the values of a type\<close>

abbreviation undef :: "string \<Rightarrow> ('s, 'a) xm" where
  "undef msg \<equiv> fail (Undef msg)"

section \<open>Values\<close>

text \<open>An immediate integer, a block of fields with a tag (tuples, records, constructors with
  arguments), and the blocks without fields: strings, boxed 64 bit integers and floats, a
  bigarray over memory of the C side (with its dimension), an abstract pointer. A float is its
  rational value, or \<^const>\<open>None\<close> for the infinities and NaN.\<close>

datatype ml =
    Imm int
  | Block nat "ml list"
  | Str "byte list"
  | I64 "64 word"
  | Dbl "rat option"
  | Big nat
  | Abs "64 word"

text \<open>\<open>Val_int\<close> shifts its argument into the 63 bits of an immediate; \<open>Int_val\<close> cuts an immediate
  down to a C \<open>int\<close>.\<close>

definition Val_int :: "int \<Rightarrow> ml" where
  "Val_int i = Imm (signed_take_bit 62 i)"

definition Val_bool :: "bool \<Rightarrow> ml" where
  "Val_bool b = Val_int (of_bool b)"

definition Val_unit :: ml where
  "Val_unit = Val_int 0"

definition c_int :: "int \<Rightarrow> int" where
  "c_int i = signed_take_bit 31 i"

fun Int_val :: "ml \<Rightarrow> ('s, int) xm" where
  "Int_val (Imm i) = return (c_int i)"
| "Int_val v = undef ''Int_val of a block''"

fun Is_block :: "ml \<Rightarrow> bool" where
  "Is_block (Imm i) = False"
| "Is_block v = True"

fun Field_v :: "ml \<Rightarrow> nat \<Rightarrow> ('s, ml) xm" where
  "Field_v (Block t vs) i = (if i < length vs then return (vs ! i) else undef ''Field out of range'')"
| "Field_v v i = undef ''Field of a value without fields''"

fun Tag_val :: "ml \<Rightarrow> ('s, nat) xm" where
  "Tag_val (Block t vs) = return t"
| "Tag_val (Imm i) = undef ''Tag_val of an integer''"
| "Tag_val (Str s) = return 252"
| "Tag_val (Dbl d) = return 253"
| "Tag_val (Abs p) = return 251"
| "Tag_val (I64 w) = return 255"
| "Tag_val (Big n) = return 255"

fun String_val :: "ml \<Rightarrow> ('s, byte list) xm" where
  "String_val (Str s) = return s"
| "String_val v = undef ''String_val of another value''"

fun Int64_val :: "ml \<Rightarrow> ('s, 64 word) xm" where
  "Int64_val (I64 w) = return w"
| "Int64_val v = undef ''Int64_val of another value''"

fun Double_val :: "ml \<Rightarrow> ('s, rat option) xm" where
  "Double_val (Dbl d) = return d"
| "Double_val v = undef ''Double_val of another value''"

fun Bigarray_dim :: "ml \<Rightarrow> ('s, nat) xm" where
  "Bigarray_dim (Big n) = return n"
| "Bigarray_dim v = undef ''Bigarray_val of another value''"

text \<open>A C string handed to OCaml and back: the bytes before the terminator.\<close>

definition c_string :: "byte list \<Rightarrow> byte list" where
  "c_string s = takeWhile (\<lambda>b. b \<noteq> 0) s"

section \<open>Floats\<close>

text \<open>A C \<open>double\<close> has 53 significant bits: \<open>double_exp n\<close> is the number of low bits of \<open>n\<close> that do
  not fit, and the conversion of an integer rounds to the nearest representable one, ties to
  the even. The conversion back drops the fraction and is undefined out of the range of the
  integer type.\<close>

fun double_exp :: "nat \<Rightarrow> nat" where
  "double_exp n = (if n < 2 ^ 53 then 0 else Suc (double_exp (n div 2)))"

declare double_exp.simps [simp del]

definition double_of_int :: "int \<Rightarrow> rat" where
  "double_of_int i =
     (let u = 2 ^ double_exp (nat \<bar>i\<bar>); q = i div u; r = i mod u
      in of_int (if 2 * r < u \<or> 2 * r = u \<and> even q then q * u else (q + 1) * u))"

definition trunc :: "rat \<Rightarrow> int" where
  "trunc r = (if 0 \<le> r then floor r else ceiling r)"

definition in_time :: "rat option \<Rightarrow> bool" where
  "in_time d = (case d of None \<Rightarrow> False | Some r \<Rightarrow> - (2 ^ 63) \<le> trunc r \<and> trunc r < 2 ^ 63)"

definition time_of_double :: "rat option \<Rightarrow> ('s, int) xm" where
  "time_of_double d = (if in_time d then return (trunc (the d)) else undef ''float out of range'')"

lemma double_of_int_exact: "\<bar>i\<bar> < 2 ^ 53 \<Longrightarrow> double_of_int i = of_int i"
  by (simp add: double_of_int_def double_exp.simps nat_less_iff)

section \<open>Types\<close>

text \<open>\<open>Tenum n\<close> is a type of \<open>n\<close> constant constructors (unit, bool, \<open>Unix.file_kind\<close>,
  \<open>Unix.open_flag\<close>), \<open>Terror\<close> is \<open>Unix.error\<close> with its 68 constant constructors and
  \<open>EUNKNOWNERR of int\<close>, \<open>Tresult\<close> is the type of \<open>Result.ml\<close> (\<open>Bad\<close> has tag 0, \<open>Ok\<close> tag 1). Two
  types are narrower than in OCaml: \<open>Ttime\<close> has the floats that fit a \<open>time_t\<close>, and \<open>Tname\<close> the
  strings whose length fits an \<open>int\<close>.\<close>

datatype mlty = Tint | Tenum nat | Tstring | Tname | Tint64 | Tfloat | Ttime | Tbuffer
  | Tlist mlty | Toption mlty | Ttuple "mlty list" | Terror | Tresult mlty

inductive has_ty :: "ml \<Rightarrow> mlty \<Rightarrow> bool" where
  ty_int: "signed_take_bit 62 i = i \<Longrightarrow> has_ty (Imm i) Tint"
| ty_enum: "0 \<le> i \<Longrightarrow> i < int n \<Longrightarrow> has_ty (Imm i) (Tenum n)"
| ty_string: "has_ty (Str s) Tstring"
| ty_name: "int (length s) < 2 ^ 31 - 1 \<Longrightarrow> has_ty (Str s) Tname"
| ty_int64: "has_ty (I64 w) Tint64"
| ty_float: "has_ty (Dbl d) Tfloat"
| ty_time: "in_time d \<Longrightarrow> has_ty (Dbl d) Ttime"
| ty_buffer: "has_ty (Big n) Tbuffer"
| ty_nil: "has_ty (Imm 0) (Tlist t)"
| ty_cons: "has_ty v t \<Longrightarrow> has_ty vs (Tlist t) \<Longrightarrow> has_ty (Block 0 [v, vs]) (Tlist t)"
| ty_none: "has_ty (Imm 0) (Toption t)"
| ty_some: "has_ty v t \<Longrightarrow> has_ty (Block 0 [v]) (Toption t)"
| ty_tuple: "list_all2 has_ty vs ts \<Longrightarrow> has_ty (Block 0 vs) (Ttuple ts)"
| ty_err: "0 \<le> i \<Longrightarrow> i < 68 \<Longrightarrow> has_ty (Imm i) Terror"
| ty_err_unknown: "has_ty v Tint \<Longrightarrow> has_ty (Block 0 [v]) Terror"
| ty_bad: "has_ty v Terror \<Longrightarrow> has_ty (Block 0 [v]) (Tresult t)"
| ty_ok: "has_ty v t \<Longrightarrow> has_ty (Block 1 [v]) (Tresult t)"

inductive_simps has_ty_int [ml_simps]: "has_ty v Tint"
inductive_simps has_ty_enum [ml_simps]: "has_ty v (Tenum n)"
inductive_simps has_ty_string [ml_simps]: "has_ty v Tstring"
inductive_simps has_ty_name [ml_simps]: "has_ty v Tname"
inductive_simps has_ty_int64 [ml_simps]: "has_ty v Tint64"
inductive_simps has_ty_float [ml_simps]: "has_ty v Tfloat"
inductive_simps has_ty_time [ml_simps]: "has_ty v Ttime"
inductive_simps has_ty_buffer [ml_simps]: "has_ty v Tbuffer"
inductive_simps has_ty_option [ml_simps]: "has_ty v (Toption t)"
inductive_simps has_ty_tuple [ml_simps]: "has_ty v (Ttuple ts)"
inductive_simps has_ty_error [ml_simps]: "has_ty v Terror"
inductive_simps has_ty_result [ml_simps]: "has_ty v (Tresult t)"
inductive_simps has_ty_list_imm [ml_simps]: "has_ty (Imm i) (Tlist t)"
inductive_simps has_ty_list_block [ml_simps]: "has_ty (Block g vs) (Tlist t)"

abbreviation Tunit :: mlty where
  "Tunit \<equiv> Tenum 1"

abbreviation Tbool :: mlty where
  "Tbool \<equiv> Tenum 2"

text \<open>An OCaml list of the C side and back.\<close>

fun ml_list :: "ml list \<Rightarrow> ml" where
  "ml_list [] = Imm 0"
| "ml_list (v # vs) = Block 0 [v, ml_list vs]"

lemma has_ty_ml_list: "has_ty (ml_list vs) (Tlist t) \<longleftrightarrow> (\<forall>v \<in> set vs. has_ty v t)"
  by (induction vs) (auto simp: ml_simps)

lemma ml_list_cases:
  assumes "has_ty v (Tlist t)"
  shows "\<exists>vs. v = ml_list vs \<and> (\<forall>x \<in> set vs. has_ty x t)"
  using assms
proof (induction v "Tlist t" rule: has_ty.induct)
  case ty_nil
  show ?case by (rule exI [of _ "[]"]) simp
next
  case (ty_cons v vs)
  then obtain us where "vs = ml_list us" "\<forall>x \<in> set us. has_ty x t" by blast
  with ty_cons(1) show ?case by (intro exI [of _ "v # us"]) simp
qed

lemmas Val_defs [ml_simps] = Val_int_def Val_bool_def Val_unit_def

lemma Val_int_small: "0 \<le> i \<Longrightarrow> i < 2 ^ 62 \<Longrightarrow> Val_int i = Imm i"
  by (simp add: Val_int_def signed_take_bit_int_eq_self)

lemma c_int_small: "- (2 ^ 31) \<le> i \<Longrightarrow> i < 2 ^ 31 \<Longrightarrow> c_int i = i"
  by (simp add: c_int_def signed_take_bit_int_eq_self)

lemma c_int_range: "- (2 ^ 31) \<le> c_int i \<and> c_int i < 2 ^ 31"
  using signed_take_bit_int_greater_eq_minus_exp [of 31 i] signed_take_bit_int_less_exp [of 31 i]
  by (simp add: c_int_def)

end
