(* ===== verification/Ml_Fuse.thy ===== *)
theory Ml_Fuse
  imports Ml_Value
begin

text \<open>
  \<open>src/src/ocamlfuse/Fuse_util.c\<close>: the C side of the OCaml binding of libfuse. It keeps two tables
  that translate error numbers, a table of operations and of the OCaml closures that implement
  them; each operation converts its arguments to OCaml values, calls its closure and converts
  the result. The constants of the host's headers have their Linux values.

  The OCaml closures and the \<open>filler\<close> of libfuse are parameters. A closure is a function of its
  arguments and of the memory behind a bigarray argument, which it may change.
\<close>

definition UNKNOWN_ERR :: int where
  "UNKNOWN_ERR = 127"

section \<open>Flags\<close>

definition c2ml_setxattr_flags :: "u32 \<Rightarrow> ml" where
  "c2ml_setxattr_flags flags =
     (if flags = 1 then Val_int 1 else if flags = 2 then Val_int 2 else Val_int 0)"

text \<open>The macro \<open>ADDFLAGT\<close>: one constructor number down, and the constructor put in front of the
  list when the test holds.\<close>

definition ADDFLAGT :: "bool \<Rightarrow> ml \<times> int \<Rightarrow> ml \<times> int" where
  "ADDFLAGT T p = (let n = snd p - 1 in (if T then Block 0 [Val_int n, fst p] else fst p, n))"

definition host_O_EXCL :: u32 where "host_O_EXCL = 128"
definition host_O_TRUNC :: u32 where "host_O_TRUNC = 512"
definition host_O_CREAT :: u32 where "host_O_CREAT = 64"
definition host_O_APPEND :: u32 where "host_O_APPEND = 1024"
definition host_O_NONBLOCK :: u32 where "host_O_NONBLOCK = 2048"
definition host_O_RDWR :: u32 where "host_O_RDWR = 2"
definition host_O_WRONLY :: u32 where "host_O_WRONLY = 1"
definition host_O_RDONLY :: u32 where "host_O_RDONLY = 0"

definition ADDFLAG :: "u32 \<Rightarrow> u32 \<Rightarrow> ml \<times> int \<Rightarrow> ml \<times> int" where
  "ADDFLAG flags X = ADDFLAGT (flags AND X \<noteq> 0)"

definition ADDBASEFLAG :: "u32 \<Rightarrow> u32 \<Rightarrow> ml \<times> int \<Rightarrow> ml \<times> int" where
  "ADDBASEFLAG flags X = ADDFLAGT (flags AND 3 = X)"

definition c_flags_to_open_flag_list :: "u32 \<Rightarrow> ml" where
  "c_flags_to_open_flag_list flags =
     fst (ADDBASEFLAG flags host_O_RDONLY (ADDBASEFLAG flags host_O_WRONLY (ADDBASEFLAG flags host_O_RDWR
       (ADDFLAG flags host_O_NONBLOCK (ADDFLAG flags host_O_APPEND (ADDFLAG flags host_O_CREAT
         (ADDFLAG flags host_O_TRUNC (ADDFLAG flags host_O_EXCL (Val_int 0, 8)))))))))"

section \<open>State\<close>

text \<open>The operations, in the order of \<open>FOR_ALL_OPS\<close>.\<close>

datatype opname = Op_init | Op_getattr | Op_readlink | Op_readdir | Op_opendir | Op_releasedir
  | Op_fsyncdir | Op_mknod | Op_mkdir | Op_symlink | Op_unlink | Op_rmdir | Op_rename | Op_link
  | Op_chmod | Op_chown | Op_truncate | Op_utime | Op_open | Op_read | Op_write | Op_statfs
  | Op_release | Op_flush | Op_fsync | Op_setxattr | Op_getxattr | Op_listxattr | Op_removexattr

text \<open>\<open>struct stat\<close> and \<open>struct statvfs\<close> of the host.\<close>

record stat_buf =
  st_dev :: "64 word"
  st_ino :: "64 word"
  st_mode :: u32
  st_nlink :: "64 word"
  st_uid :: u32
  st_gid :: u32
  st_rdev :: "64 word"
  st_size :: "64 word"
  st_blksize :: "64 word"
  st_blocks :: "64 word"
  st_atime :: "64 word"
  st_mtime :: "64 word"
  st_ctime :: "64 word"

record statvfs =
  f_bsize :: "64 word"
  f_frsize :: "64 word"
  f_blocks :: "64 word"
  f_bfree :: "64 word"
  f_bavail :: "64 word"
  f_files :: "64 word"
  f_ffree :: "64 word"
  f_favail :: "64 word"
  f_fsid :: "64 word"
  f_flag :: "64 word"
  f_namemax :: "64 word"

text \<open>The static variables of the file. The inverse error table is a block of \<open>malloc\<close>: an entry
  that was never stored is \<^const>\<open>None\<close>. An operation of the table \<open>ops\<close> is \<open>NULL\<close> or its function; a
  closure variable is \<open>NULL\<close> or the entry of a name OCaml registered.\<close>

record mlst =
  ml2c_unix_error_vect_dim :: int
  c2ml_unix_error_vect_dim :: int
  c2ml_unix_error_vect :: "int option list"
  ops_table :: "opname \<Rightarrow> bool"
  op_closure :: "opname \<Rightarrow> string option"

text \<open>What the arguments of a call point to: the data buffer, the \<open>struct fuse_file_info\<close>, the
  structures to fill, and the directory buffer that \<open>filler\<close> adds to.\<close>

record 'f callst = mlst +
  dbuf :: mem
  fi_flags :: u32
  fi_fh :: "64 word"
  stbuf :: stat_buf
  vfsbuf :: statvfs
  dirbuf :: 'f

section \<open>Error numbers\<close>

definition ml2c_unix_error_vect :: "int list" where
  "ml2c_unix_error_vect =
     [7, 13, 11, 9, 16, 10, 35, 33, 17, 14, 27, 4, 22, 5, 21, 24, 31, 36, 23, 19, 2, 8, 37, 12, 28,
      38, 20, 39, 25, 6, 1, 32, 34, 30, 29, 3, 18, 11, 115, 114, 88, 89, 90, 91, 92, 93, 94, 95, 96,
      97, 98, 99, 100, 101, 102, 103, 104, 105, 106, 107, 108, 109, 110, 111, 112, 113, 40, 75, 0]"

definition ml2c_unix_error :: "int \<Rightarrow> ('z mlst_scheme, int) xm" where
  "ml2c_unix_error ocaml_err =
     bind (gets ml2c_unix_error_vect_dim) (\<lambda>d.
       if ocaml_err < d then
         if 0 \<le> ocaml_err \<and> nat ocaml_err < length ml2c_unix_error_vect
         then return (ml2c_unix_error_vect ! nat ocaml_err)
         else undef ''error table''
       else return UNKNOWN_ERR)"

text \<open>The first loop of \<open>invert_array\<close>: the length of the array and its largest element.\<close>

fun find_dims :: "int list \<Rightarrow> nat \<Rightarrow> int \<Rightarrow> ('s, nat \<times> int) xm" where
  "find_dims [] srcdim d = undef ''no terminator''"
| "find_dims (x # src) srcdim d =
     (if x \<noteq> 0 then find_dims src (Suc srcdim) (if d < x then x else d)
      else return (srcdim, d))"

text \<open>Its last loop stores \<open>i\<close> at the element \<open>src[i]\<close>.\<close>

fun invert_fill :: "nat \<Rightarrow> int list \<Rightarrow> int option list \<Rightarrow> ('s, int option list) xm" where
  "invert_fill i [] res = return res"
| "invert_fill i (x # src) res =
     (if 0 \<le> x \<and> nat x < length res then invert_fill (Suc i) src (res[nat x := Some (int i)])
      else undef ''inverse table'')"

text \<open>\<open>alloc n\<close> is the number of \<open>int\<close>s that fit the block \<open>malloc(n * sizeof(int))\<close> returns,
  which may be more than \<open>n\<close>.\<close>

definition invert_array ::
  "(nat \<Rightarrow> nat) \<Rightarrow> int list \<Rightarrow> ('s, int option list \<times> int \<times> int) xm" where
  "invert_array alloc src =
     bind (find_dims src 0 0) (\<lambda>(srcdim, d).
     bind (invert_fill 0 (take srcdim src)
             (replicate (nat d) (Some UNKNOWN_ERR) @ replicate (alloc (nat d) - nat d) None))
       (\<lambda>res. return (res, int srcdim, d)))"

definition c2ml_unix_error :: "int \<Rightarrow> ('z mlst_scheme, int) xm" where
  "c2ml_unix_error c_err =
     bind (gets c2ml_unix_error_vect_dim) (\<lambda>d.
     bind (gets c2ml_unix_error_vect) (\<lambda>vect.
       if c_err < d then
         if 0 \<le> c_err \<and> nat c_err < length vect
         then (case vect ! nat c_err of Some e \<Rightarrow> return e | None \<Rightarrow> undef ''uninitialised'')
         else undef ''inverse error table''
       else return UNKNOWN_ERR))"

definition ml_fuse_init :: "(nat \<Rightarrow> nat) \<Rightarrow> ('z mlst_scheme, unit) xm" where
  "ml_fuse_init alloc =
     bind (invert_array alloc ml2c_unix_error_vect) (\<lambda>(res, indim, outdim).
       modify (\<lambda>s. s\<lparr>c2ml_unix_error_vect := res, ml2c_unix_error_vect_dim := indim,
                     c2ml_unix_error_vect_dim := outdim\<rparr>))"

section \<open>File modes\<close>

definition host_S_IFMT :: u32 where "host_S_IFMT = 61440"
definition host_S_IFREG :: u32 where "host_S_IFREG = 32768"
definition host_S_IFDIR :: u32 where "host_S_IFDIR = 16384"
definition host_S_IFCHR :: u32 where "host_S_IFCHR = 8192"
definition host_S_IFBLK :: u32 where "host_S_IFBLK = 24576"
definition host_S_IFLNK :: u32 where "host_S_IFLNK = 40960"
definition host_S_IFIFO :: u32 where "host_S_IFIFO = 4096"
definition host_S_IFSOCK :: u32 where "host_S_IFSOCK = 49152"

definition c2ml_mode_t_kind :: "u32 \<Rightarrow> ml" where
  "c2ml_mode_t_kind m =
     (let k = m AND host_S_IFMT in
      if k = host_S_IFREG then Val_int 0 else if k = host_S_IFDIR then Val_int 1
      else if k = host_S_IFCHR then Val_int 2 else if k = host_S_IFBLK then Val_int 3
      else if k = host_S_IFLNK then Val_int 4 else if k = host_S_IFIFO then Val_int 5
      else if k = host_S_IFSOCK then Val_int 6 else Val_int 0)"

text \<open>The function returns the OCaml value as a C \<open>int\<close>, which leaves 31 bits to the number.\<close>

definition c2ml_mode_t_perm :: "u32 \<Rightarrow> ml" where
  "c2ml_mode_t_perm m = Imm (signed_take_bit 30 (uint (m AND NOT host_S_IFMT)))"

definition ml2c_unix_file_kind :: "u32 list" where
  "ml2c_unix_file_kind = [host_S_IFREG, host_S_IFDIR, host_S_IFCHR, host_S_IFBLK, host_S_IFLNK, host_S_IFIFO, host_S_IFSOCK]"

definition int_field :: "ml \<Rightarrow> nat \<Rightarrow> ('s, int) xm" where
  "int_field v i = bind (Field_v v i) Int_val"

definition int64_field :: "ml \<Rightarrow> nat \<Rightarrow> ('s, 64 word) xm" where
  "int64_field v i = bind (Field_v v i) Int64_val"

definition time_field :: "ml \<Rightarrow> nat \<Rightarrow> ('s, 64 word) xm" where
  "time_field v i = bind (Field_v v i) (\<lambda>d. bind (Double_val d) (\<lambda>x.
     bind (time_of_double x) (\<lambda>t. return (word_of_int t))))"

text \<open>The number of 512 byte blocks goes through floating point as in the code; the division by a
  power of two is exact.\<close>

definition ml2c_Unix_stats_struct_stat :: "ml \<Rightarrow> ('f callst, unit) xm" where
  "ml2c_Unix_stats_struct_stat v =
     bind (int_field v 0) (\<lambda>dev. bind (int_field v 1) (\<lambda>ino.
     bind (int_field v 3) (\<lambda>perm. bind (int_field v 2) (\<lambda>kind.
     bind (if 0 \<le> kind \<and> nat kind < length ml2c_unix_file_kind
           then return (ml2c_unix_file_kind ! nat kind) else undef ''file kind'') (\<lambda>ifmt.
     bind (int_field v 4) (\<lambda>nlink. bind (int_field v 5) (\<lambda>uid.
     bind (int_field v 6) (\<lambda>gid. bind (int_field v 7) (\<lambda>rdev.
     bind (int64_field v 8) (\<lambda>size. bind (time_field v 9) (\<lambda>atime.
     bind (time_field v 10) (\<lambda>mtime. bind (time_field v 11) (\<lambda>ctime.
       modify (\<lambda>s. s\<lparr>stbuf :=
         \<lparr>st_dev = word_of_int dev, st_ino = word_of_int ino,
          st_mode = 0 OR word_of_int perm OR ifmt, st_nlink = word_of_int nlink,
          st_uid = word_of_int uid, st_gid = word_of_int gid, st_rdev = word_of_int rdev,
          st_size = size, st_blksize = 512,
          st_blocks = word_of_int \<lceil>double_of_int (sint size) / 512\<rceil>,
          st_atime = atime, st_mtime = mtime, st_ctime = ctime\<rparr>\<rparr>))))))))))))))"

definition ml2c_Unix_struct_statvfs :: "ml \<Rightarrow> ('f callst, unit) xm" where
  "ml2c_Unix_struct_statvfs v =
     bind (int64_field v 0) (\<lambda>bsize. bind (int64_field v 1) (\<lambda>frsize.
     bind (int64_field v 2) (\<lambda>blocks. bind (int64_field v 3) (\<lambda>bfree.
     bind (int64_field v 4) (\<lambda>bavail. bind (int64_field v 5) (\<lambda>files.
     bind (int64_field v 6) (\<lambda>ffree. bind (int64_field v 7) (\<lambda>favail.
     bind (int64_field v 8) (\<lambda>fsid. bind (int64_field v 9) (\<lambda>flag.
     bind (int64_field v 10) (\<lambda>namemax.
       modify (\<lambda>s. s\<lparr>vfsbuf :=
         \<lparr>f_bsize = bsize, f_frsize = frsize, f_blocks = blocks, f_bfree = bfree,
          f_bavail = bavail, f_files = files, f_ffree = ffree, f_favail = favail,
          f_fsid = fsid, f_flag = flag, f_namemax = namemax\<rparr>\<rparr>))))))))))))"

section \<open>Operations\<close>

type_synonym closure = "ml list \<Rightarrow> mem \<Rightarrow> ml \<times> mem"
type_synonym registry = "string \<Rightarrow> closure option"

text \<open>The call of the closure of an operation: its variable must point to an entry with a closure.
  A closure that has no bigarray argument cannot reach the data buffer; one that has can change
  the bytes within its dimension.\<close>

definition closure_of :: "registry \<Rightarrow> opname \<Rightarrow> ('f callst, closure) xm" where
  "closure_of named opn = bind (gets (\<lambda>s. op_closure s opn)) (\<lambda>c. case c of
       None \<Rightarrow> undef ''NULL closure''
     | Some n \<Rightarrow> (case named n of None \<Rightarrow> undef ''NULL closure'' | Some f \<Rightarrow> return f))"

definition callback :: "registry \<Rightarrow> opname \<Rightarrow> ml list \<Rightarrow> ('f callst, ml) xm" where
  "callback named opn args = bind (closure_of named opn) (\<lambda>f. gets (\<lambda>s. fst (f args (dbuf s))))"

definition callback_buf :: "registry \<Rightarrow> opname \<Rightarrow> ml list \<Rightarrow> nat \<Rightarrow> ('f callst, ml) xm" where
  "callback_buf named opn args sz =
     bind (closure_of named opn) (\<lambda>f.
     bind (gets (\<lambda>s. f args (dbuf s))) (\<lambda>(v, m).
     bind (modify (\<lambda>s. s\<lparr>dbuf := (\<lambda>i. if i < sz then m i else dbuf s i)\<rparr>)) (\<lambda>_. return v)))"

definition neg_int :: "int \<Rightarrow> ('s, int) xm" where
  "neg_int i = (if i = - (2 ^ 31) then undef ''signed overflow'' else return (- i))"

text \<open>The body every operation shares, the macro \<open>CALLBACK\<close>: \<open>cb\<close> is its \<open>_CB\<close> part, \<open>res\<close> its \<open>_RES\<close>
  part together with the value of the variable \<open>res\<close> after it.\<close>

definition CALLBACK :: "('f callst, ml) xm \<Rightarrow> (ml \<Rightarrow> ('f callst, int) xm) \<Rightarrow> ('f callst, int) xm" where
  "CALLBACK cb res =
     bind cb (\<lambda>vres. bind (Tag_val vres) (\<lambda>tag.
       if tag = 1 then res vres
       else bind (Field_v vres 0) (\<lambda>e.
         if Is_block e then bind (Field_v e 0) (\<lambda>n. bind (Int_val n) neg_int)
         else bind (Int_val e) (\<lambda>k. bind (ml2c_unix_error k) neg_int))))"

definition no_res :: "ml \<Rightarrow> ('f callst, int) xm" where
  "no_res vres = return 0"

definition ops_init :: "registry \<Rightarrow> ('f callst, int) xm" where
  "ops_init named = CALLBACK (callback named Op_init [Val_unit]) no_res"

definition ops_getattr :: "registry \<Rightarrow> byte list \<Rightarrow> ('f callst, int) xm" where
  "ops_getattr named path = CALLBACK (callback named Op_getattr [Str path])
     (\<lambda>vres. bind (Field_v vres 0) (\<lambda>v. andthen (ml2c_Unix_stats_struct_stat v) (return 0)))"

text \<open>The loop of \<open>readdir\<close> over the names; it stops early when \<open>filler\<close> reports a full buffer.\<close>

definition call_filler :: "(byte list \<Rightarrow> 'f \<Rightarrow> bool \<times> 'f) \<Rightarrow> byte list \<Rightarrow> ('f callst, bool) xm" where
  "call_filler filler name = bind (gets (\<lambda>s. filler (c_string name) (dirbuf s))) (\<lambda>(full, d).
     bind (modify (\<lambda>s. s\<lparr>dirbuf := d\<rparr>)) (\<lambda>_. return full))"

fun ops_readdir_loop :: "(byte list \<Rightarrow> 'f \<Rightarrow> bool \<times> 'f) \<Rightarrow> ml \<Rightarrow> ('f callst, unit) xm" where
  "ops_readdir_loop filler (Imm i) = return ()"
| "ops_readdir_loop filler (Block t (v # vtmp # vs)) =
     bind (String_val v) (\<lambda>name. bind (call_filler filler name) (\<lambda>full.
       if full then return () else ops_readdir_loop filler vtmp))"
| "ops_readdir_loop filler (Block t [v]) =
     bind (String_val v) (\<lambda>name. bind (call_filler filler name) (\<lambda>full.
       if full then return () else undef ''Field out of range''))"
| "ops_readdir_loop filler v = undef ''Field of a value without fields''"

definition ops_readdir ::
  "registry \<Rightarrow> (byte list \<Rightarrow> 'f \<Rightarrow> bool \<times> 'f) \<Rightarrow> byte list \<Rightarrow> ('f callst, int) xm" where
  "ops_readdir named filler path = bind (gets fi_fh) (\<lambda>fh.
     CALLBACK (callback named Op_readdir [Str path, Val_int (uint fh)])
       (\<lambda>vres. bind (Field_v vres 0) (\<lambda>v. andthen (ops_readdir_loop filler v) (return 0))))"

definition ops_mknod :: "registry \<Rightarrow> byte list \<Rightarrow> u32 \<Rightarrow> 64 word \<Rightarrow> ('f callst, int) xm" where
  "ops_mknod named path mode rdev =
     CALLBACK (callback named Op_mknod
       [Str path, c2ml_mode_t_kind mode, c2ml_mode_t_perm mode, Val_int (uint rdev)]) no_res"

definition ops_mkdir :: "registry \<Rightarrow> byte list \<Rightarrow> u32 \<Rightarrow> ('f callst, int) xm" where
  "ops_mkdir named path mode =
     CALLBACK (callback named Op_mkdir [Str path, Val_int (uint mode)]) no_res"

definition ops_unlink :: "registry \<Rightarrow> byte list \<Rightarrow> ('f callst, int) xm" where
  "ops_unlink named path = CALLBACK (callback named Op_unlink [Str path]) no_res"

definition ops_rmdir :: "registry \<Rightarrow> byte list \<Rightarrow> ('f callst, int) xm" where
  "ops_rmdir named path = CALLBACK (callback named Op_rmdir [Str path]) no_res"

text \<open>\<open>memcpy\<close> and \<open>strncpy\<close> into the data buffer. \<open>strncpy\<close> copies up to the terminator and fills the
  rest of its \<open>n\<close> bytes with zeros.\<close>

definition copy_in :: "mem \<Rightarrow> nat \<Rightarrow> byte list \<Rightarrow> mem" where
  "copy_in m p bs = (\<lambda>i. if p \<le> i \<and> i < p + length bs then bs ! (i - p) else m i)"

definition strncpy_bytes :: "byte list \<Rightarrow> nat \<Rightarrow> byte list" where
  "strncpy_bytes s n = (let c = take n (c_string s) in c @ replicate (n - length c) 0)"

definition ops_readlink :: "registry \<Rightarrow> byte list \<Rightarrow> nat \<Rightarrow> ('f callst, int) xm" where
  "ops_readlink named path sz = CALLBACK (callback named Op_readlink [Str path])
     (\<lambda>vres. bind (Field_v vres 0) (\<lambda>v. bind (String_val v) (\<lambda>l.
        if sz = 0 then undef ''strncpy of SIZE_MAX bytes''
        else andthen (modify (\<lambda>s. s\<lparr>dbuf := copy_in (dbuf s) 0 (strncpy_bytes l (sz - 1))\<rparr>))
          (return 0))))"

definition ops_symlink :: "registry \<Rightarrow> byte list \<Rightarrow> byte list \<Rightarrow> ('f callst, int) xm" where
  "ops_symlink named path dest =
     CALLBACK (callback named Op_symlink [Str path, Str dest]) no_res"

definition ops_rename :: "registry \<Rightarrow> byte list \<Rightarrow> byte list \<Rightarrow> ('f callst, int) xm" where
  "ops_rename named path dest =
     CALLBACK (callback named Op_rename [Str path, Str dest]) no_res"

definition ops_link :: "registry \<Rightarrow> byte list \<Rightarrow> byte list \<Rightarrow> ('f callst, int) xm" where
  "ops_link named path dest = CALLBACK (callback named Op_link [Str path, Str dest]) no_res"

definition ops_chmod :: "registry \<Rightarrow> byte list \<Rightarrow> u32 \<Rightarrow> ('f callst, int) xm" where
  "ops_chmod named path mode =
     CALLBACK (callback named Op_chmod [Str path, Val_int (uint mode)]) no_res"

definition ops_chown :: "registry \<Rightarrow> byte list \<Rightarrow> u32 \<Rightarrow> u32 \<Rightarrow> ('f callst, int) xm" where
  "ops_chown named path uid gid =
     CALLBACK (callback named Op_chown [Str path, Val_int (uint uid), Val_int (uint gid)]) no_res"

definition ops_truncate :: "registry \<Rightarrow> byte list \<Rightarrow> 64 word \<Rightarrow> ('f callst, int) xm" where
  "ops_truncate named path sz =
     CALLBACK (callback named Op_truncate [Str path, I64 sz]) no_res"

definition copy_double :: "64 word \<Rightarrow> ml" where
  "copy_double t = Dbl (Some (double_of_int (sint t)))"

definition ops_utime :: "registry \<Rightarrow> byte list \<Rightarrow> 64 word \<Rightarrow> 64 word \<Rightarrow> ('f callst, int) xm" where
  "ops_utime named path actime modtime =
     CALLBACK (callback named Op_utime [Str path, copy_double actime, copy_double modtime]) no_res"

text \<open>\<open>open_RES\<close> and \<open>opendir_RES\<close>: the handle of a \<open>Some\<close> goes into \<open>fi->fh\<close>.\<close>

definition store_fh :: "ml \<Rightarrow> ('f callst, int) xm" where
  "store_fh vres = bind (Field_v vres 0) (\<lambda>h.
     if h \<noteq> Val_int 0
     then bind (Field_v h 0) (\<lambda>v. bind (Int_val v) (\<lambda>n.
            andthen (modify (\<lambda>s. s\<lparr>fi_fh := word_of_int n\<rparr>)) (return 0)))
     else return 0)"

definition ops_open :: "registry \<Rightarrow> byte list \<Rightarrow> ('f callst, int) xm" where
  "ops_open named path = bind (gets fi_flags) (\<lambda>flags.
     CALLBACK (callback named Op_open [Str path, c_flags_to_open_flag_list flags]) store_fh)"

definition ops_opendir :: "registry \<Rightarrow> byte list \<Rightarrow> ('f callst, int) xm" where
  "ops_opendir named path = bind (gets fi_flags) (\<lambda>flags.
     CALLBACK (callback named Op_opendir [Str path, c_flags_to_open_flag_list flags]) store_fh)"

definition int_res :: "ml \<Rightarrow> ('f callst, int) xm" where
  "int_res vres = int_field vres 0"

definition ops_read :: "registry \<Rightarrow> byte list \<Rightarrow> nat \<Rightarrow> 64 word \<Rightarrow> ('f callst, int) xm" where
  "ops_read named path sz offset = bind (gets fi_fh) (\<lambda>fh.
     CALLBACK (callback_buf named Op_read [Str path, Big sz, I64 offset, Val_int (uint fh)] sz)
       int_res)"

definition ops_write :: "registry \<Rightarrow> byte list \<Rightarrow> nat \<Rightarrow> 64 word \<Rightarrow> ('f callst, int) xm" where
  "ops_write named path sz offset = bind (gets fi_fh) (\<lambda>fh.
     CALLBACK (callback_buf named Op_write [Str path, Big sz, I64 offset, Val_int (uint fh)] sz)
       int_res)"

definition ops_release :: "registry \<Rightarrow> byte list \<Rightarrow> ('f callst, int) xm" where
  "ops_release named path = bind (gets fi_flags) (\<lambda>flags. bind (gets fi_fh) (\<lambda>fh.
     CALLBACK (callback named Op_release
       [Str path, c_flags_to_open_flag_list flags, Val_int (uint fh)]) no_res))"

definition ops_releasedir :: "registry \<Rightarrow> byte list \<Rightarrow> ('f callst, int) xm" where
  "ops_releasedir named path = bind (gets fi_flags) (\<lambda>flags. bind (gets fi_fh) (\<lambda>fh.
     CALLBACK (callback named Op_releasedir
       [Str path, c_flags_to_open_flag_list flags, Val_int (uint fh)]) no_res))"

definition ops_flush :: "registry \<Rightarrow> byte list \<Rightarrow> ('f callst, int) xm" where
  "ops_flush named path = bind (gets fi_fh) (\<lambda>fh.
     CALLBACK (callback named Op_flush [Str path, Val_int (uint fh)]) no_res)"

definition ops_statfs :: "registry \<Rightarrow> byte list \<Rightarrow> ('f callst, int) xm" where
  "ops_statfs named path = CALLBACK (callback named Op_statfs [Str path])
     (\<lambda>vres. bind (Field_v vres 0) (\<lambda>v. andthen (ml2c_Unix_struct_statvfs v) (return 0)))"

definition ops_fsync :: "registry \<Rightarrow> byte list \<Rightarrow> u32 \<Rightarrow> ('f callst, int) xm" where
  "ops_fsync named path isdatasync = bind (gets fi_fh) (\<lambda>fh.
     CALLBACK (callback named Op_fsync
       [Str path, Val_bool (isdatasync \<noteq> 0), Val_int (uint fh)]) no_res)"

text \<open>\<open>fsyncdir_CB\<close> calls the closure of \<open>fsync\<close>.\<close>

definition ops_fsyncdir :: "registry \<Rightarrow> byte list \<Rightarrow> u32 \<Rightarrow> ('f callst, int) xm" where
  "ops_fsyncdir named path isdatasync = bind (gets fi_fh) (\<lambda>fh.
     CALLBACK (callback named Op_fsync
       [Str path, Val_bool (isdatasync \<noteq> 0), Val_int (uint fh)]) no_res)"

definition ops_setxattr ::
  "registry \<Rightarrow> byte list \<Rightarrow> byte list \<Rightarrow> nat \<Rightarrow> u32 \<Rightarrow> ('f callst, int) xm" where
  "ops_setxattr named path name sz flags = bind (gets dbuf) (\<lambda>val.
     CALLBACK (callback named Op_setxattr
       [Str path, Str name, Str (map val [0..<sz]), c2ml_setxattr_flags flags]) no_res)"

definition ops_getxattr :: "registry \<Rightarrow> byte list \<Rightarrow> byte list \<Rightarrow> nat \<Rightarrow> ('f callst, int) xm" where
  "ops_getxattr named path name sz =
     CALLBACK (callback named Op_getxattr [Str path, Str name])
       (\<lambda>vres. bind (Field_v vres 0) (\<lambda>v. bind (String_val v) (\<lambda>val.
          if 0 < sz then
            if sz \<le> length val then return (- UNKNOWN_ERR)
            else andthen (modify (\<lambda>s. s\<lparr>dbuf := copy_in (dbuf s) 0 val\<rparr>))
                   (return (c_int (int (length val))))
          else return (c_int (int (length val))))))"

text \<open>The loop of \<open>listxattr\<close>: \<open>dest\<close> is the offset in \<open>list\<close>, \<open>rm\<close> the variable \<open>rem\<close>; the result is \<open>res\<close>
  and \<open>rem\<close> at the end of the loop.\<close>

definition ERANGE :: int where
  "ERANGE = 34"

fun listxattr_loop :: "ml \<Rightarrow> nat \<Rightarrow> int \<Rightarrow> int \<Rightarrow> ('f callst, int \<times> int) xm" where
  "listxattr_loop (Imm i) dest rm res = return (res, rm)"
| "listxattr_loop (Block t (v # vtmp # vs)) dest rm res =
     bind (String_val v) (\<lambda>name. let len = c_int (int (length name) + 1) in
       if len \<le> rm then
         if len < 0 then undef ''memcpy of a negative length''
         else andthen (modify (\<lambda>s. s\<lparr>dbuf := copy_in (dbuf s) dest (take (nat len) (name @ [0]))\<rparr>))
                (listxattr_loop vtmp (dest + nat len) (rm - len) res)
       else return (- ERANGE, rm))"
| "listxattr_loop (Block t [v]) dest rm res =
     bind (String_val v) (\<lambda>name.
       if c_int (int (length name) + 1) \<le> rm then undef ''Field out of range''
       else return (- ERANGE, rm))"
| "listxattr_loop v dest rm res = undef ''Field of a value without fields''"

definition ops_listxattr :: "registry \<Rightarrow> byte list \<Rightarrow> nat \<Rightarrow> ('f callst, int) xm" where
  "ops_listxattr named path sz = CALLBACK (callback named Op_listxattr [Str path])
     (\<lambda>vres. bind (Field_v vres 0) (\<lambda>p. bind (Field_v p 0) (\<lambda>vtmp.
        if sz = 0 then int_field p 1
        else bind (listxattr_loop vtmp 0 (c_int (int sz)) 0) (\<lambda>(res, rm).
               return (c_int (int sz - rm))))))"

definition ops_removexattr :: "registry \<Rightarrow> byte list \<Rightarrow> byte list \<Rightarrow> ('f callst, int) xm" where
  "ops_removexattr named path name =
     CALLBACK (callback named Op_removexattr [Str path, Str name]) no_res"

section \<open>Registration and the main loop\<close>

text \<open>\<open>SET_OPERATION\<close>, for each operation: a name that is given sets the closure variable to the
  entry of that name, or to \<open>NULL\<close> when OCaml registered nothing under it, and the operation in
  the table; a name that is \<open>NULL\<close> clears the operation and leaves the closure variable.\<close>

definition SET_OPERATION ::
  "registry \<Rightarrow> (opname \<Rightarrow> string option) \<Rightarrow> opname \<Rightarrow> ('z mlst_scheme, unit) xm" where
  "SET_OPERATION named op opn = modify (\<lambda>s. case op opn of
       None \<Rightarrow> s\<lparr>ops_table := (ops_table s)(opn := False)\<rparr>
     | Some n \<Rightarrow> s\<lparr>op_closure := (op_closure s)(opn := (if named n = None then None else Some n)),
                   ops_table := (ops_table s)(opn := True)\<rparr>)"

definition FOR_ALL_OPS :: "opname list" where
  "FOR_ALL_OPS = [Op_init, Op_getattr, Op_readlink, Op_readdir, Op_opendir, Op_releasedir,
     Op_fsyncdir, Op_mknod, Op_mkdir, Op_symlink, Op_unlink, Op_rmdir, Op_rename, Op_link, Op_chmod,
     Op_chown, Op_truncate, Op_utime, Op_open, Op_read, Op_write, Op_statfs, Op_release, Op_flush,
     Op_fsync, Op_setxattr, Op_getxattr, Op_listxattr, Op_removexattr]"

definition set_fuse_operations ::
  "registry \<Rightarrow> (opname \<Rightarrow> string option) \<Rightarrow> ('z mlst_scheme, unit) xm" where
  "set_fuse_operations named op = mfor FOR_ALL_OPS (SET_OPERATION named op)"

text \<open>The variables as the program starts.\<close>

definition mlst0 :: mlst where
  "mlst0 = \<lparr>ml2c_unix_error_vect_dim = 0, c2ml_unix_error_vect_dim = 0, c2ml_unix_error_vect = [],
     ops_table = (\<lambda>_. False), op_closure = (\<lambda>_. None)\<rparr>"

text \<open>\<open>mainloop\<close> calls the closure registered as \<open>ocaml_fuse_loop\<close> with the handle and the flag, and
  returns the OCaml value as it is, an immediate \<open>i\<close> as \<open>2 * i + 1\<close>. \<open>ml_fuse_main\<close> sets libfuse up,
  runs the loop and tears it down. The calls of libfuse and the loop act on a state of their
  own.\<close>

definition mainloop ::
  "(ml list \<Rightarrow> ('w, ml) xm) option \<Rightarrow> 64 word \<Rightarrow> bool \<Rightarrow> ('w, int) xm" where
  "mainloop loop_closure f multithreaded =
     (if f = 0 then return (- 1)
      else case loop_closure of
        None \<Rightarrow> undef ''NULL closure''
      | Some c \<Rightarrow> bind (c [Abs f, Val_bool multithreaded]) (\<lambda>v. case v of
          Imm i \<Rightarrow> return (c_int (2 * i + 1)) | _ \<Rightarrow> undef ''an address as a result''))"

definition ml_fuse_main ::
  "(string \<Rightarrow> (ml list \<Rightarrow> ('w, ml) xm) option) \<Rightarrow> ('w, 64 word \<times> bool) xm \<Rightarrow>
   (64 word \<Rightarrow> ('w, unit) xm) \<Rightarrow> ('w, unit) xm" where
  "ml_fuse_main named_value fuse_setup fuse_teardown =
     bind fuse_setup (\<lambda>(fuse, multithreaded).
       if fuse \<noteq> 0
       then andthen (mainloop (named_value ''ocaml_fuse_loop'') fuse multithreaded)
              (fuse_teardown fuse)
       else return ())"

text \<open>A word that holds an OCaml value is never zero; the word of an abstract block is its pointer.\<close>

fun ocaml_fuse_is_null :: "ml \<Rightarrow> ('s, ml) xm" where
  "ocaml_fuse_is_null (Abs p) = return (Val_bool (p = 0))"
| "ocaml_fuse_is_null v = bind (Field_v v 0) (\<lambda>_. return (Val_bool False))"

text \<open>The state of a call right after the start, with empty buffers.\<close>

definition callst0 :: "unit callst" where
  "callst0 = mlst.extend mlst0 (callst.fields (\<lambda>_. 0) 0 0
     \<lparr>st_dev = 0, st_ino = 0, st_mode = 0, st_nlink = 0, st_uid = 0, st_gid = 0, st_rdev = 0,
      st_size = 0, st_blksize = 0, st_blocks = 0, st_atime = 0, st_mtime = 0, st_ctime = 0\<rparr>
     \<lparr>f_bsize = 0, f_frsize = 0, f_blocks = 0, f_bfree = 0, f_bavail = 0, f_files = 0, f_ffree = 0,
      f_favail = 0, f_fsid = 0, f_flag = 0, f_namemax = 0\<rparr> ())"

end
