(* ===== verification/Ml_Convert.thy ===== *)
theory Ml_Convert
  imports Ml_Fuse
begin

text \<open>
  The conversions of \<open>Fuse_util.c\<close> that have an inverse: the two tables of error numbers, the flags
  of \<open>open\<close>, the mode of a file.
\<close>

section \<open>The error tables\<close>

lemma vect_length [simp]: "length ml2c_unix_error_vect = 69"
  by (simp add: ml2c_unix_error_vect_def)



lemma find_dims_vect: "find_dims ml2c_unix_error_vect 0 0 = return (68, 115)"
  by (simp add: ml2c_unix_error_vect_def) (simp add: eval_nat_numeral)








text \<open>Without that slack \<open>ml_fuse_init\<close> is undefined: the table has as many elements as the largest
  error number, and the loop stores at that number.\<close>

theorem errno_table_overflow:
  assumes "alloc (115 :: nat) = 115"
  shows "ml_fuse_init alloc s = Fail (Undef ''inverse table'') s"
  using assms
  by (simp add: ml_fuse_init_def invert_array_def find_dims_vect)
     (simp add: ml2c_unix_error_vect_def bind_def fail_def)

theorem errno_table_overflow_witness:
  "ml_fuse_init (\<lambda>n. n) mlst0 = Fail (Undef ''inverse table'') mlst0"
  using errno_table_overflow [of "\<lambda>n. n" mlst0] by simp


section \<open>Flags and modes\<close>

text \<open>The flag of each constructor of \<open>Unix.open_flag\<close>, and the flags a list of constructors stands
  for.\<close>

definition open_flag_table :: "u32 list" where
  "open_flag_table = [host_O_RDONLY, host_O_WRONLY, host_O_RDWR, host_O_NONBLOCK, host_O_APPEND,
     host_O_CREAT, host_O_TRUNC, host_O_EXCL]"

definition open_flags_of :: "nat list \<Rightarrow> u32" where
  "open_flags_of ks = foldr (\<lambda>k f. open_flag_table ! k OR f) ks 0"

definition has_flag :: "u32 \<Rightarrow> nat \<Rightarrow> bool" where
  "has_flag flags k = (if k < 3 then flags AND 3 = open_flag_table ! k
                       else flags AND open_flag_table ! k \<noteq> 0)"

lemmas flag_defs = open_flag_table_def host_O_EXCL_def host_O_TRUNC_def host_O_CREAT_def
  host_O_APPEND_def host_O_NONBLOCK_def host_O_RDWR_def host_O_WRONLY_def host_O_RDONLY_def

lemma flag_list_filter:
  "c_flags_to_open_flag_list flags = ml_list (map (Imm \<circ> int) (filter (has_flag flags) [0..<8]))"
  by (simp add: c_flags_to_open_flag_list_def ADDFLAG_def ADDBASEFLAG_def ADDFLAGT_def Let_def ml_simps
        has_flag_def upt_rec flag_defs)

lemma single_flag: "(f :: u32) AND 2 ^ n \<noteq> 0 \<Longrightarrow> f AND 2 ^ n = 2 ^ n"
  by (rule bit_eqI) (auto simp: bit_simps and_exp_eq_0_iff_not_bit)

lemma access_mode: "(x :: u32) \<le> 3 \<Longrightarrow> x = 0 \<or> x = 1 \<or> x = 2 \<or> x = 3"
  unfolding word_le_nat_alt word_unat_eq_iff by simp arith

lemma open_flags_filter:
  "open_flags_of (filter P ks) = foldr (\<lambda>k f. (if P k then open_flag_table ! k else 0) OR f) ks 0"
  by (induction ks) (simp_all add: open_flags_of_def)

lemma flag_entry:
  "(if has_flag flags 3 then open_flag_table ! 3 else 0) = flags AND 2 ^ 11"
  "(if has_flag flags 4 then open_flag_table ! 4 else 0) = flags AND 2 ^ 10"
  "(if has_flag flags 5 then open_flag_table ! 5 else 0) = flags AND 2 ^ 6"
  "(if has_flag flags 6 then open_flag_table ! 6 else 0) = flags AND 2 ^ 9"
  "(if has_flag flags 7 then open_flag_table ! 7 else 0) = flags AND 2 ^ 7"
  using single_flag [of flags 11] single_flag [of flags 10] single_flag [of flags 6]
    single_flag [of flags 9] single_flag [of flags 7]
  by (simp_all add: has_flag_def flag_defs)

lemma base_flags:
  assumes "flags AND 3 \<noteq> (3 :: u32)"
  shows "(if has_flag flags 0 then open_flag_table ! 0 else 0) OR
    ((if has_flag flags 1 then open_flag_table ! 1 else 0) OR
     ((if has_flag flags 2 then open_flag_table ! 2 else 0) OR f)) = (flags AND 3) OR f"
  using access_mode [OF word_and_le1 [of flags 3]] assms
  by (elim disjE) (simp_all add: has_flag_def flag_defs)

text \<open>The conversion of the flags of \<open>open\<close> loses nothing: the list has, in the order of the
  constructors and without repetition, the constructors whose flags are set, and together they
  give the flags back, cut to the eight flags OCaml knows. The access mode is one of the three
  valid ones.\<close>

theorem open_flags_roundtrip:
  assumes "flags AND 3 \<noteq> (3 :: u32)"
  shows "\<exists>ks. c_flags_to_open_flag_list flags = ml_list (map (Imm \<circ> int) ks) \<and> sorted_wrt (<) ks \<and>
    set ks \<subseteq> {..<8} \<and> open_flags_of ks = flags AND 3779"
proof (intro exI conjI)
  show "c_flags_to_open_flag_list flags = ml_list (map (Imm \<circ> int) (filter (has_flag flags) [0..<8]))"
    by (rule flag_list_filter)
  show "sorted_wrt (<) (filter (has_flag flags) [0..<8])"
    by (simp add: sorted_wrt_filter)
  show "set (filter (has_flag flags) [0..<8]) \<subseteq> {..<8}" by auto
  have split: "(3779 :: u32) = 3 OR (2 ^ 11 OR (2 ^ 10 OR (2 ^ 6 OR (2 ^ 9 OR 2 ^ 7))))"
    by simp
  have "flags AND 3779 = (flags AND 3) OR ((flags AND 2 ^ 11) OR ((flags AND 2 ^ 10) OR
      ((flags AND 2 ^ 6) OR ((flags AND 2 ^ 9) OR (flags AND 2 ^ 7)))))"
    unfolding split by (simp only: bit.conj_disj_distrib)
  also have "\<dots> = open_flags_of (filter (has_flag flags) ([0, 1, 2] @ [3, 4, 5, 6, 7]))"
    unfolding open_flags_filter foldr_append
    by (simp only: foldr.simps comp_def id_def flag_entry or.right_neutral base_flags [OF assms])
  also have "[0, 1, 2] @ [3, 4, 5, 6, 7] = [0..<8 :: nat]" by (simp add: upt_rec)
  finally show "open_flags_of (filter (has_flag flags) [0..<8]) = flags AND 3779" by (rule sym)
qed

theorem open_flags_roundtrip_witness:
  "\<exists>ks. c_flags_to_open_flag_list 1089 = ml_list (map (Imm \<circ> int) ks) \<and> sorted_wrt (<) ks \<and>
    set ks \<subseteq> {..<8} \<and> open_flags_of ks = 1089"
  using open_flags_roundtrip [of 1089] by simp

text \<open>A mode whose kind is one of the seven kinds of files survives the way to OCaml and back: the
  kind and the permissions that \<open>mknod\<close> passes on are those that \<open>getattr\<close> puts together to the
  same mode.\<close>

theorem mode_roundtrip:
  assumes "m AND host_S_IFMT \<in> set ml2c_unix_file_kind" "m < 2 ^ 30"
  shows "\<exists>k p. c2ml_mode_t_kind m = Imm k \<and> c2ml_mode_t_perm m = Imm p \<and> 0 \<le> k \<and> k < 7 \<and>
    0 OR word_of_int p OR ml2c_unix_file_kind ! nat k = m"
proof -
  let ?p = "m AND NOT host_S_IFMT"
  have "?p \<le> m" by (rule word_and_le2)
  then have "uint ?p < 2 ^ 30"
    using assms(2) by (simp add: word_le_def word_less_def)
  moreover have "- (2 ^ 30) \<le> uint ?p"
    by (rule order_trans [of _ 0]) simp_all
  ultimately have "c2ml_mode_t_perm m = Imm (uint ?p)"
    by (simp only: c2ml_mode_t_perm_def signed_take_bit_int_eq_self)
  moreover have "?p OR (m AND host_S_IFMT) = m"
    by (simp add: bit.conj_disj_distrib [symmetric])
  moreover have "\<exists>k. c2ml_mode_t_kind m = Imm k \<and> 0 \<le> k \<and> k < 7 \<and>
      ml2c_unix_file_kind ! nat k = m AND host_S_IFMT"
    using assms(1)
    by (auto simp: c2ml_mode_t_kind_def ml2c_unix_file_kind_def Let_def ml_simps host_S_IFREG_def
        host_S_IFDIR_def host_S_IFCHR_def host_S_IFBLK_def host_S_IFLNK_def host_S_IFIFO_def
        host_S_IFSOCK_def)
  ultimately show ?thesis by auto
qed

theorem mode_roundtrip_witness:
  "\<exists>k p. c2ml_mode_t_kind 33188 = Imm k \<and> c2ml_mode_t_perm 33188 = Imm p \<and> 0 \<le> k \<and> k < 7 \<and>
    0 OR word_of_int p OR ml2c_unix_file_kind ! nat k = 33188"
  by (rule mode_roundtrip)
     (simp_all add: ml2c_unix_file_kind_def host_S_IFREG_def host_S_IFMT_def)

end
