(* ===== verification/Ml_Typing.thy ===== *)
theory Ml_Typing
  imports Ml_Convert
begin

text \<open>
  Type safety of the bindings: closures of the types \<open>Fuse.ml\<close> declares get arguments of their
  types, and what they answer can always be read. Also what \<open>listxattr\<close> leaves in its buffer.
\<close>

section \<open>The OCaml side\<close>










section \<open>What the C side makes is well typed\<close>

lemma ADDFLAGT_list:
  "ADDFLAGT T (ml_list vs, n) = (ml_list (if T then Val_int (n - 1) # vs else vs), n - 1)"
  by (simp add: ADDFLAGT_def Let_def)

lemma has_ty_flags [ml_simps]: "has_ty (c_flags_to_open_flag_list flags) (Tlist (Tenum 8))"
  by (simp add: c_flags_to_open_flag_list_def ADDFLAG_def ADDBASEFLAG_def ADDFLAGT_def Let_def
        ml_simps)

lemma has_ty_kind: "has_ty (c2ml_mode_t_kind m) (Tenum 7)"
  by (simp add: c2ml_mode_t_kind_def Let_def ml_simps)

lemma has_ty_perm: "has_ty (c2ml_mode_t_perm m) Tint"
  by (simp add: c2ml_mode_t_perm_def ml_simps)

lemma has_ty_xattr: "has_ty (c2ml_setxattr_flags fl) (Tenum 3)"
  by (simp add: c2ml_setxattr_flags_def ml_simps)

lemma has_ty_double: "has_ty (copy_double t) Tfloat"
  by (simp add: copy_double_def ml_simps)

lemmas made_shapes [ml_simps] =
  has_ty_kind [simplified has_ty_enum of_nat_numeral] has_ty_perm [simplified has_ty_int]
  has_ty_xattr [simplified has_ty_enum of_nat_numeral] has_ty_double [simplified has_ty_float]

section \<open>Well-typed closures\<close>





lemma keeps_globals_simps [simp]:
  "mlst.truncate (s\<lparr>dbuf := m\<rparr>) = mlst.truncate s"
  "mlst.truncate (s\<lparr>fi_fh := h\<rparr>) = mlst.truncate s"
  "mlst.truncate (s\<lparr>stbuf := b\<rparr>) = mlst.truncate s"
  "mlst.truncate (s\<lparr>vfsbuf := w\<rparr>) = mlst.truncate s"
  "mlst.truncate (s\<lparr>dirbuf := d\<rparr>) = mlst.truncate s"
  by (simp_all add: mlst.truncate_def)
















section \<open>Registration\<close>

lemma wp_SET_OPERATION [wp_simps]:
  "wp (SET_OPERATION named op opn) Q s = Q () (case op opn of
       None \<Rightarrow> s\<lparr>ops_table := (ops_table s)(opn := False)\<rparr>
     | Some n \<Rightarrow> s\<lparr>op_closure := (op_closure s)(opn := (if named n = None then None else Some n)),
                   ops_table := (ops_table s)(opn := True)\<rparr>)"
  by (simp add: SET_OPERATION_def wp_simps)







text \<open>\<open>fsyncdir\<close> does not call the closure of \<open>fsyncdir\<close> but the one of \<open>fsync\<close>: with only \<open>fsyncdir\<close>
  registered it follows a null pointer.\<close>

lemma fsyncdir_calls_fsync:
  assumes "op_closure s Op_fsync = None"
  shows "ops_fsyncdir named path d (s :: 'f callst) = Fail (Undef ''NULL closure'') s"
  using assms
  by (simp add: ops_fsyncdir_def CALLBACK_def callback_def closure_of_def bind_def gets_def fail_def)

section \<open>Extended attributes\<close>

text \<open>The names that fit the buffer of \<open>listxattr\<close>: the longest prefix of the list whose strings, each
  with its terminator, have at most \<open>n\<close> bytes.\<close>

fun fitting :: "nat \<Rightarrow> byte list list \<Rightarrow> byte list list" where
  "fitting n [] = []"
| "fitting n (s # ss) =
     (if length s + 1 \<le> n then s # fitting (n - (length s + 1)) ss else [])"

abbreviation packed :: "byte list list \<Rightarrow> byte list" where
  "packed ss \<equiv> concat (map (\<lambda>s. s @ [0]) ss)"

lemma copy_in_append: "copy_in (copy_in m p xs) (p + length xs) ys = copy_in m p (xs @ ys)"
  by (auto simp: copy_in_def fun_eq_iff nth_append)

lemma copy_in_Nil [simp]: "copy_in m p [] = m"
  by (auto simp: copy_in_def fun_eq_iff)

lemma packed_fitting: "length (packed (fitting n ss)) \<le> n"
  by (induction n ss rule: fitting.induct) (auto simp del: length_concat)

lemma listxattr_loop_fits:
  assumes "int n < 2 ^ 31" "\<forall>s \<in> set ss. int (length s) < 2 ^ 31 - 1"
    and "\<And>r. Q (r, int (n - length (packed (fitting n ss))))
      (s\<lparr>dbuf := copy_in (dbuf s) d (packed (fitting n ss))\<rparr>)"
  shows "wp (listxattr_loop (ml_list (map Str ss)) d (int n) res) Q s"
  using assms
proof (induction ss arbitrary: n d s)
  case Nil
  then show ?case by (simp add: wp_return)
next
  case (Cons x ss)
  have len: "c_int (int (length x) + 1) = int (length x) + 1" "c_int (1 + int (length x)) = 1 + int (length x)"
    using Cons.prems(2) by (simp_all add: c_int_small)
  show ?case
  proof (cases "length x + 1 \<le> n")
    case True
    let ?t = "s\<lparr>dbuf := copy_in (dbuf s) d (x @ [0])\<rparr>"
    have "wp (listxattr_loop (ml_list (map Str ss)) (d + (length x + 1)) (int (n - (length x + 1))) res) Q ?t"
    proof (rule Cons.IH)
      show "Q (r, int (n - (length x + 1) -
          length (packed (fitting (n - (length x + 1)) ss))))
        (?t\<lparr>dbuf := copy_in (dbuf ?t) (d + (length x + 1)) (packed (fitting (n - (length x + 1)) ss))\<rparr>)" for r
        using Cons.prems(3) [of r] True copy_in_append [of "dbuf s" d "x @ [0]"] by simp
    qed (use Cons.prems in auto)
    then show ?thesis
      using True by (simp add: len wp_simps Let_def nat_add_distrib of_nat_diff algebra_simps)
  next
    case False
    then show ?thesis
      using Cons.prems(3) [of "- ERANGE"] by (simp add: len wp_simps Let_def)
  qed
qed

text \<open>C32. \<open>listxattr\<close> fills its buffer with the names that fit, each with its terminator, never writes
  behind it, and returns the number of bytes it wrote. It does so also when names are left
  over: the error \<open>ERANGE\<close> the loop stores is overwritten, and the caller cannot tell a truncated
  list from a complete one.\<close>

theorem listxattr_fills:
  assumes "op_closure s Op_listxattr = Some n" "named n = Some f"
    and "fst (f [Str path] (dbuf s)) = Block 1 [Block 0 [ml_list (map Str names), len]]"
    and "0 < sz" "int sz < 2 ^ 31" "\<forall>x \<in> set names. int (length x) < 2 ^ 31 - 1"
  shows "wp (ops_listxattr named path sz)
    (\<lambda>res t. res = int (length (packed (fitting sz names))) \<and> res \<le> int sz \<and>
      t = s\<lparr>dbuf := copy_in (dbuf s) 0 (packed (fitting sz names))\<rparr>) s"
proof -
  have "wp (listxattr_loop (ml_list (map Str names)) 0 (int sz) 0)
     (\<lambda>p t. c_int (int sz - snd p) = int (length (packed (fitting sz names))) \<and>
       t = s\<lparr>dbuf := copy_in (dbuf s) 0 (packed (fitting sz names))\<rparr>) s"
    using packed_fitting [of sz names] assms(5)
    by (intro listxattr_loop_fits assms(5,6)) (simp add: of_nat_diff c_int_small del: length_concat)
  then show ?thesis
    using assms(1-5) packed_fitting [of sz names]
    by (auto simp: ops_listxattr_def CALLBACK_def callback_def closure_of_def wp_simps c_int_small
          case_prod_beta simp del: length_concat elim!: wp_mono)
qed

text \<open>Witness: two names, of which the first fits a buffer of four bytes.\<close>

theorem listxattr_fills_witness:
  "wp (ops_listxattr
      (\<lambda>n. Some (\<lambda>args m. (Block 1 [Block 0 [ml_list (map Str [[97, 98], [99]]), Imm 5]], m))) [47] 4)
    (\<lambda>res t. res = 3 \<and> res \<le> 4 \<and>
      t = (callst0\<lparr>op_closure := (\<lambda>_. Some ''cb'')\<rparr>)\<lparr>dbuf := copy_in (\<lambda>_. 0) 0 [97, 98, 0]\<rparr>)
    (callst0\<lparr>op_closure := (\<lambda>_. Some ''cb'')\<rparr>)"
  using listxattr_fills [of "callst0\<lparr>op_closure := (\<lambda>_. Some ''cb'')\<rparr>" "''cb''"
      "\<lambda>n. Some (\<lambda>args m. (Block 1 [Block 0 [ml_list (map Str [[97, 98], [99]]), Imm 5]], m))"
      "\<lambda>args m. (Block 1 [Block 0 [ml_list (map Str [[97, 98], [99]]), Imm 5]], m)"
      "[47]" "[[97, 98], [99]]" "Imm 5" 4]
  by (simp add: callst0_def mlst.extend_def callst.fields_def mlst0_def)

end
