(* ===== verification/Ml_Unix.thy ===== *)
theory Ml_Unix
  imports Ml_Fuse
begin

text \<open>
  \<open>src/src/ocamlfuse/Unix_util_stubs.c\<close>: POSIX calls made available to OCaml. The calls of the host
  are parameters that act on the state; the memory behind a bigarray is the data buffer
  \<open>dbuf\<close>. The functions answer \<open>Ok\<close> (a block with tag 1) or \<open>Bad\<close> (tag 0).
\<close>

type_synonym 'f host_io = "int \<Rightarrow> nat \<Rightarrow> ('f callst, int) xm"

text \<open>The end the three functions share: the result of the host is cut to an \<open>int\<close>, and a negative one
  is looked up as an error number.\<close>

definition ok_or_bad :: "('f callst, ml) xm \<Rightarrow> int \<Rightarrow> ('f callst, ml) xm" where
  "ok_or_bad ok r = (if 0 \<le> r then bind ok (\<lambda>v. return (Block 1 [v]))
     else bind (c2ml_unix_error r) (\<lambda>e. return (Block 0 [Val_int e])))"

definition unix_util_read :: "'f host_io \<Rightarrow> ml \<Rightarrow> ml \<Rightarrow> ('f callst, ml) xm" where
  "unix_util_read host_read fd buf =
     bind (Int_val fd) (\<lambda>n. bind (Bigarray_dim buf) (\<lambda>len. bind (host_read n len) (\<lambda>r.
       ok_or_bad (return (Val_int (c_int r))) (c_int r))))"

definition unix_util_write :: "'f host_io \<Rightarrow> ml \<Rightarrow> ml \<Rightarrow> ('f callst, ml) xm" where
  "unix_util_write host_write fd buf =
     bind (Int_val fd) (\<lambda>n. bind (Bigarray_dim buf) (\<lambda>len. bind (host_write n len) (\<lambda>r.
       ok_or_bad (return (Val_int (c_int r))) (c_int r))))"

definition unix_util_int_of_file_descr :: "ml \<Rightarrow> ('s, ml) xm" where
  "unix_util_int_of_file_descr fd = bind (Int_val fd) (\<lambda>n. return (Val_int n))"

definition unix_util_file_descr_of_int :: "ml \<Rightarrow> ('s, ml) xm" where
  "unix_util_file_descr_of_int fd = bind (Int_val fd) (\<lambda>n. return (Val_int n))"

definition unix_util_fchdir :: "(int \<Rightarrow> ('s, int) xm) \<Rightarrow> ml \<Rightarrow> ('s, ml) xm" where
  "unix_util_fchdir host_fchdir fd =
     bind (Int_val fd) (\<lambda>n. andthen (host_fchdir n) (return Val_unit))"

text \<open>Each field is stored through the variable \<open>v\<close>. The last conversion is not assigned to it, so that
  field 10 gets what \<open>v\<close> still holds.\<close>

definition copy_statvfs :: "statvfs \<Rightarrow> ml" where
  "copy_statvfs b =
     (let v9 = I64 (f_flag b); v10 = v9 in
      Block 0 [I64 (f_bsize b), I64 (f_frsize b), I64 (f_blocks b), I64 (f_bfree b),
        I64 (f_bavail b), I64 (f_files b), I64 (f_ffree b), I64 (f_favail b), I64 (f_fsid b),
        v9, v10])"

text \<open>The host's \<open>statvfs\<close> returns its result and fills the local structure.\<close>

definition unix_util_statvfs ::
  "(byte list \<Rightarrow> ('f callst, int \<times> statvfs) xm) \<Rightarrow> ml \<Rightarrow> ('f callst, ml) xm" where
  "unix_util_statvfs host_statvfs pathv =
     bind (String_val pathv) (\<lambda>path. bind (host_statvfs (c_string path)) (\<lambda>(res, b).
       ok_or_bad (return (copy_statvfs b)) res))"

section \<open>Properties\<close>

text \<open>C33. The numbers of a file system reach the kernel as the host reported them, but for one: what
  \<open>unix_util_statvfs\<close> hands to OCaml, the operation \<open>statfs\<close> converts back field by field to the same
  structure, with the mount flags in the place of the longest name.\<close>

theorem statvfs_roundtrip:
  assumes "host_statvfs (c_string path) s = Ok (0, b) t"
  shows "wp (bind (unix_util_statvfs host_statvfs (Str path)) (\<lambda>r. bind (Field_v r 0)
      ml2c_Unix_struct_statvfs)) (\<lambda>_ u. u = t\<lparr>vfsbuf := b\<lparr>f_namemax := f_flag b\<rparr>\<rparr>) s"
proof -
  have "wp (bind (ok_or_bad (return (copy_statvfs b)) 0) (\<lambda>r. bind (Field_v r 0)
      ml2c_Unix_struct_statvfs)) (\<lambda>_ u. u = t\<lparr>vfsbuf := b\<lparr>f_namemax := f_flag b\<rparr>\<rparr>) t"
    by (simp add: ok_or_bad_def copy_statvfs_def ml2c_Unix_struct_statvfs_def int64_field_def wp_simps
          Let_def eval_nat_numeral)
  then show ?thesis
    using assms by (simp add: unix_util_statvfs_def wp_def bind_def return_def)
qed

definition ex_vfs :: statvfs where
  "ex_vfs = \<lparr>f_bsize = 4096, f_frsize = 4096, f_blocks = 1000, f_bfree = 10, f_bavail = 10, f_files = 200,
     f_ffree = 5, f_favail = 5, f_fsid = 7, f_flag = 1, f_namemax = 255\<rparr>"

theorem statvfs_roundtrip_witness:
  "wp (bind (unix_util_statvfs (\<lambda>_. return (0, ex_vfs)) (Str [47])) (\<lambda>r. bind (Field_v r 0)
      ml2c_Unix_struct_statvfs)) (\<lambda>_ u. u = callst0\<lparr>vfsbuf := ex_vfs\<lparr>f_namemax := 1\<rparr>\<rparr>) callst0"
  using statvfs_roundtrip [of "\<lambda>_. return (0, ex_vfs)" "[47]" callst0 ex_vfs callst0]
  by (simp add: return_def ex_vfs_def)

text \<open>A failure of \<open>read\<close> or \<open>write\<close> never becomes an OCaml error: the result -1 of the host, not the
  error number, is looked up in the table, below its start. The behaviour is undefined.\<close>

theorem unix_io_error_undefined:
  assumes "host_io (c_int fd) n s = Ok (- 1) t" "0 \<le> c2ml_unix_error_vect_dim t"
  shows "unix_util_read host_io (Imm fd) (Big n) s = Fail (Undef ''inverse error table'') t \<and>
    unix_util_write host_io (Imm fd) (Big n) s = Fail (Undef ''inverse error table'') t"
  using assms
  by (simp add: unix_util_read_def unix_util_write_def ok_or_bad_def c2ml_unix_error_def bind_def
        return_def gets_def fail_def c_int_def)

theorem unix_io_error_undefined_witness:
  "unix_util_read (\<lambda>_ _. return (- 1)) (Imm 3) (Big 10) callst0
     = Fail (Undef ''inverse error table'') callst0 \<and>
   unix_util_write (\<lambda>_ _. return (- 1)) (Imm 3) (Big 10) callst0
     = Fail (Undef ''inverse error table'') callst0"
  by (rule unix_io_error_undefined)
     (simp_all add: return_def callst0_def mlst.extend_def callst.fields_def mlst0_def)

end
