(* ===== verification/Spec2Isabelle.thy ===== *)
theory Spec2Isabelle
  imports Xv6_Image Xv6_Rename Xv6_Lock Xv6_Walk Xv6_Readdir Xv6_Create Xv6_Append Bench_Calls Bench_Ping Coq_Gen Op_Fuse Ml_Typing Ml_Unix
begin

text \<open>
  Verification of the C code of the repository.

  \<^bold>\<open>The program.\<close> The repository holds the FSCQ file system, written and proved in Coq, and around it several bodies of C and C++.
  The directory \<open>src/xv6\<close> is a complete second file system: the one of xv6, taken out of its kernel and served through
  FUSE, with the program \<open>mkfs\<close> that makes its image. The directory \<open>src/src/hslib\<close> has the C side of FSCQ's own server:
  FUSE handlers that pass every request through a queue to the extracted code. \<open>src/src/ocamlfuse\<close> is the C side of the
  OCaml binding of libfuse, for the server extracted to OCaml. \<open>src/bench\<close> has the programs that measure these file systems, and
  \<open>src/src/pair.cpp\<close> and \<open>src/src/varname.cpp\<close> print tactics for the Coq sources. This development models all of them.

  \<^bold>\<open>How the parts of xv6 interact.\<close> A request of the host kernel enters at a handler of \<open>fuse.c\<close>, which calls a system
  call of \<open>sysfile.c\<close>. That opens a transaction (\<open>begin_op\<close> of \<open>log.c\<close>), walks the path (\<open>namex\<close>, \<open>dirlookup\<close> of
  \<open>fs.c\<close>), locks inodes (\<open>ilock\<close>), reads and writes files (\<open>readi\<close>, \<open>writei\<close> with \<open>bmap\<close> and \<open>balloc\<close>) and ends the
  transaction (\<open>end_op\<close>). All of \<open>fs.c\<close> reaches the disk through the buffer cache (\<open>bread\<close>, \<open>brelse\<close> of \<open>bio.c\<close>) and
  changes it through \<open>log_write\<close>, which pins the buffer until \<open>commit\<close> writes the log, the header, the home blocks and
  the empty header, with syncs in between. \<open>bio.c\<close> calls the driver \<open>iderw\<close> of \<open>ide.c\<close>, which reads and writes the
  image file. After a crash \<open>initlog\<close> replays the log.

  \<^bold>\<open>How the other parts work.\<close> In \<open>hslib\<close> a FUSE thread fills a \<open>struct operation\<close> (\<open>opfuse.c\<close>) and waits in \<open>execute\<close> (\<open>opqueue.c\<close>) until a thread of the
  file system has taken it with \<open>get_op\<close> and answered with \<open>send_result\<close>. In \<open>ocamlfuse\<close> a request of libfuse is converted to OCaml
  values, a registered closure is called, and its result is converted back (\<open>Fuse_util.c\<close>); the OCaml code reaches POSIX calls
  through \<open>Unix_util_stubs.c\<close>. A benchmark is a sequence of POSIX calls, each of which may fail.

  \<^bold>\<open>The model.\<close> A C function is a function \<open>'s \<Rightarrow> ('s, 'a) result\<close>: it returns (\<open>Ok\<close>) or fails (\<open>Fail\<close>) with \<open>Panic\<close>
  (\<open>panic\<close> or a failed \<open>assert\<close>), \<open>Exit\<close>, \<open>Undef\<close> (undefined behaviour, such as an index behind an array) or \<open>Hang\<close> (a
  loop that waits for a lock nobody will release: \<open>sleep\<close> of \<open>spinlock.c\<close> has an empty body). The state grows by record
  extension from layer to layer: \<open>host\<close> (the image file, its writes and syncs, the statistics, the clock), \<open>bcache\<close>,
  \<open>logst\<close>, \<open>fsst\<close>, \<open>filest\<close>, \<open>fusest\<close>, as the static variables of the files do. A pointer to an entry of a static array
  is its index, a memory buffer a function from offsets to bytes. Integers have their C width as words, signed values
  are read with \<^const>\<open>sint\<close>, and every arithmetic step that can leave the range of a C \<open>int\<close> is a branch to \<open>Undef\<close>.
  A benchmark is in the same monad over the trace of its calls, with the answers of the host as a function of that trace; threads (\<open>opqueue.c\<close>,
  \<open>pingtest.c\<close>, \<open>spintest.c\<close>) are step relations whose steps are the single accesses to shared memory.

  \<^bold>\<open>The theories.\<close>
  \<^item> \<open>Xv6_Base\<close>: the monad, weakest preconditions (\<open>wp\<close>, total: the function must return), loops, byte accessors with the
    locales \<open>field_codec\<close> and \<open>codec_pair\<close> for their laws.
  \<^item> \<open>Xv6_Layout\<close>: \<open>types.h\<close>, \<open>fs.h\<close>, \<open>param.h\<close>, \<open>stat.h\<close>: constants, superblock, inodes and directory entries as bytes.
  \<^item> \<open>Xv6_Ide\<close>: the host side of \<open>fuse.c\<close> (\<open>unix_read\<close>, \<open>unix_write\<close>, \<open>unix_flush\<close>) and \<open>ide.c\<close>.
  \<^item> \<open>Xv6_Cache\<close>: the contract of a block cache as the locales \<open>block_cache\<close> and \<open>synced_cache\<close>, over an abstract view
    that forgets buffers; the access patterns of \<open>log.c\<close> and \<open>fs.c\<close> are proved there once.
  \<^item> \<open>Xv6_Bio\<close>: \<open>bio.c\<close>, with the doubly linked ring as it is; it interprets both locales.
  \<^item> \<open>Xv6_Log\<close>: \<open>log.c\<close>. \<open>Xv6_Commit\<close>: what \<open>commit\<close> and \<open>log_write\<close> do. \<open>Xv6_Crash\<close>: crashes of the host, recovery.
    \<open>Xv6_Txn\<close>: transactions.
  \<^item> \<open>Xv6_Balloc\<close>: the block allocator of \<open>fs.c\<close>. \<open>Xv6_Inode\<close>: the inode layer and the transfers. \<open>Xv6_Icache\<close>: contracts
    of the inode operations. \<open>Xv6_Content\<close>: a file as an array of bytes. \<open>Xv6_Dir\<close>: directories and paths.
    \<open>Xv6_Lookup\<close>: their contracts.
  \<^item> \<open>Xv6_File\<close>: \<open>file.c\<close> and the stubs of \<open>pipe.c\<close>. \<open>Xv6_Sysfile\<close>: \<open>sysfile.c\<close>. \<open>Xv6_Fuse\<close>: the handlers of \<open>fuse.c\<close>.
  \<^item> \<open>Xv6_Durable\<close>: \<open>sys_write\<close> and \<open>sys_read\<close> from the call to the medium. \<open>Xv6_Rename\<close>: the transaction of \<open>sys_rename\<close>. \<open>Xv6_Walk\<close>: \<open>namex\<close>
    over several directories, against a walk over the tree on the disk. \<open>Xv6_Open\<close>, \<open>Xv6_Readdir\<close>: the calls that only read, from
    the path to the answer. \<open>Xv6_Trunc\<close>: freeing a file. \<open>Xv6_Unlink\<close>, \<open>Xv6_Create\<close>, \<open>Xv6_Append\<close>:
    removing a file, creating one, and writing into a new block, from the call to the medium.
  \<^item> \<open>C_Loop\<close>: loops that may run forever, with the while combinator. \<open>Xv6_Lock\<close>: \<open>spinlock.c\<close> and the loops that wait.
  \<^item> \<open>Xv6_Mkfs\<close>: \<open>mkfs.c\<close>. \<open>Xv6_Image\<close>: the image it makes, read by the kernel.
  \<^item> \<open>Op_Queue\<close>: \<open>opqueue.c\<close> as steps of any number of threads. \<open>Op_Fuse\<close>: \<open>opqueue.h\<close> and the handlers of \<open>opfuse.c\<close>.
  \<^item> \<open>Ml_Value\<close>: OCaml values. \<open>Ml_Fuse\<close>: \<open>Fuse_util.c\<close>. \<open>Ml_Convert\<close>: its conversions that have an inverse. \<open>Ml_Typing\<close>: its type safety. \<open>Ml_Unix\<close>:
    \<open>Unix_util_stubs.c\<close>.
  \<^item> \<open>Bench_Posix\<close>: POSIX calls and their trace. \<open>Bench_Large\<close>, \<open>Bench_Small\<close>: the benchmarks with large and with small files. \<open>Bench_Calls\<close>: those that
    repeat single calls. \<open>Bench_Ping\<close>: the round trips between threads. \<open>Coq_Gen\<close>: the two generators.

  \<^bold>\<open>What is shown.\<close>
  \<^item> Crash safety. \<open>end_op\<close> is atomic: a crash at any of its writes, keeping any subset of those since the last sync,
    recovers to the blocks before or after the transaction; recovery may crash too. Lifted to the system calls: \<open>sys_write\<close>
    leaves a whole number of its pieces; \<open>sys_unlink\<close>, \<open>sys_open\<close> with \<open>O_CREATE\<close> and a \<open>sys_write\<close> that takes a new block do all or nothing,
    without a block lost; nothing else changes.
  \<^item> The cache. \<open>bread\<close> returns the newest content of a block while a buffer is free, replacement is least recently used,
    the ring stays a ring.
  \<^item> The allocators. \<open>balloc\<close> and \<open>ialloc\<close> return the first free block or inode, cleared, and change nothing else;
    \<open>bfree\<close> undoes \<open>balloc\<close>.
  \<^item> Files and directories. \<open>readi\<close>, \<open>writei\<close>, \<open>sys_read\<close> refine an array of bytes, \<open>dirlookup\<close> and \<open>dirlink\<close> a list of
    entries, \<open>skipelem\<close> the splitting of a path at its slashes; each with its round trip.
  \<^item> Paths. \<open>namex\<close> finds what the tree on the disk has at the path; \<open>sys_open\<close>, \<open>fuse_getattr\<close> and \<open>fuse_readdir\<close> answer with the
    fields and the entries found there, and leave every reference and lock as it was.
  \<^item> The inode cache. Every inode at most once, locks and references given back, the fields persisted; the last \<open>iput\<close> of a
    file without names frees its blocks and its inode.
  \<^item> \<open>mkfs\<close>: the image it makes is what the kernel expects.
  \<^item> The queue. Under every interleaving it is a first-in first-out queue with mutual exclusion, every request gets its
    own answer, and the lock never blocks for good.
  \<^item> The bindings. Closures of the types \<open>Fuse.ml\<close> declares get arguments of those types, and no conversion reads a value as
    something it is not; the tables of error numbers and the \<open>statvfs\<close> structure survive the way there and back.
  \<^item> The benchmarks. The random order of \<open>largefile.c\<close> is a permutation that covers the file; the mail benchmark syncs a file before it renames
    it; \<open>pingtest.c\<close> prints its times in the order they were taken, never blocks unless its uninitialised \<open>myreply\<close> is 1 by chance, and may deadlock then;
    \<open>spintest.c\<close> can print times out of order. The generators print balanced brackets.
  \<^item> Errors. The panics and refusals of each layer, and the places where the code is wrong: the reservation of
    \<open>begin_op\<close> that is one block short, the block map of large files, the rename of a directory, the loops that wait for a lock with an
    empty \<open>sleep\<close> and never end, the statistics read without a final zero byte.

  \<^bold>\<open>Bounds and fuel.\<close> The loops over the ring of buffers have \<open>NBUF + 1\<close> steps of fuel, enough for a ring of \<open>NBUF\<close> buffers
    (\<open>Xv6_Bio\<close>); the walk of \<open>namex\<close> has one more step than the path has characters, which \<open>namex_loop_more\<close> shows to be
    enough. All other loops are over lists known at their start, or recursive functions with a termination proof
    (\<open>chunks\<close>, \<open>read_pieces\<close>, \<open>dec_digits\<close>). The theorems on file content are for the direct and singly indirect blocks,
    the only ones for which the code is defined. The log must lie below block \<open>2 ^ 19\<close>, where \<open>sector * BSIZE\<close> still
    fits an \<open>int\<close>.

  \<^bold>\<open>Example states.\<close> The witnesses run on small machines: \<open>ex_txn\<close> (one changed block, \<open>Xv6_Txn\<close>), \<open>small_fs\<close> (twenty
    blocks with a bitmap, \<open>Xv6_Balloc\<close>), \<open>small_inodes\<close> (a root directory and a file, \<open>Xv6_Icache\<close>), \<open>idle_fs\<close> (the file
    opened, \<open>Xv6_Durable\<close>), \<open>quiet_fs\<close> (the same between two calls, \<open>Xv6_Open\<close>), \<open>doomed_fs\<close> (a file without names, \<open>Xv6_Trunc\<close>), \<open>named_fs\<close> (a file to be
    removed, \<open>Xv6_Unlink\<close>). The hosts \<open>ideal\<close> (\<open>Bench_Large\<close>) and \<open>numbered\<close> (\<open>Bench_Calls\<close>) let every call of a benchmark succeed.

  \<^bold>\<open>Not modelled.\<close> The loops of libfuse (\<open>fuse_main\<close>, \<open>fuse_loop_mt\<close> behind \<open>opfuse_run\<close>), the OCaml closures and the answers of the POSIX host
    are not code of the repository: the library calls of \<open>opfuse_run\<close>, the closures and the host are parameters. The garbage collector of OCaml, which moves
    values, is left out. Floating point results of the benchmarks are
    printed only and are left out. \<open>defs.h\<close> and \<open>proc.h\<close> are declarations. \<open>bench/single-syscall/multirename.c\<close> does not
    compile. The Coq, Haskell and OCaml sources are not C. The contents of the \<open>devsw\<close> table are not modelled because no
    device is ever installed.

  \<^bold>\<open>Still open.\<close> Modelled without a theorem of their own: \<open>zeroi\<close>, \<open>create\<close> and \<open>sys_unlink\<close> of directories, the success path of \<open>sys_dolink\<close> and
    \<open>sys_rename\<close>, and the writing of a file into more than one new block or into an indirect one; \<open>mkfs\<close> is shown correct without files to copy.
\<close>

end
